(* ===== verification/Prelude.thy ===== *)
theory Prelude
  imports Main
begin

text \<open>
  Shared vocabulary of the development.  It holds the faults that stand for undefined
  behaviour, C++ exceptions and aborts, the result type that carries them, the pieces of the
  C++ standard library the sources use on byte ranges (\<^verbatim>\<open>std::find\<close>, \<^verbatim>\<open>std::copy\<close>,
  \<^verbatim>\<open>std::string(first, last)\<close>, \<^verbatim>\<open>vector::resize\<close>), and the generic list lemmas that the
  component theories share.  A pointer into a byte array is the index of the byte it points to.
\<close>

section \<open>Faults and results\<close>

datatype fault =
    OutOfBounds        \<comment> \<open>a read or write outside the object\<close>
  | NullPointer        \<comment> \<open>a null pointer is dereferenced, or used as a non-empty range\<close>
  | UseAfterFree       \<comment> \<open>a deleted object is dereferenced\<close>
  | EmptyContainer     \<comment> \<open>front or back of an empty container\<close>
  | InvalidArgument    \<comment> \<open>\<^verbatim>\<open>std::invalid_argument\<close>\<close>
  | OutOfRange         \<comment> \<open>\<^verbatim>\<open>std::out_of_range\<close>\<close>
  | FatalAbort         \<comment> \<open>\<^verbatim>\<open>LOG_FATAL\<close>: the message is flushed and the process aborts\<close>
  | DivideByZero       \<comment> \<open>integer division or remainder by zero\<close>
  | SignedOverflow     \<comment> \<open>\<^verbatim>\<open>int\<close> arithmetic overflows\<close>
  | BadAlloc           \<comment> \<open>\<^verbatim>\<open>std::bad_alloc\<close>\<close>

type_synonym 'a result = "fault + 'a"

definition bind_result :: "'a result \<Rightarrow> ('a \<Rightarrow> 'b result) \<Rightarrow> 'b result" where
  "bind_result r f = (case r of Inl e \<Rightarrow> Inl e | Inr x \<Rightarrow> f x)"

text \<open>A loop over a list that stops at the first fault.\<close>

primrec fold_result :: "('a \<Rightarrow> 's \<Rightarrow> 's result) \<Rightarrow> 'a list \<Rightarrow> 's \<Rightarrow> 's result" where
  "fold_result f [] s = Inr s"
| "fold_result f (x # xs) s = bind_result (f x s) (fold_result f xs)"

lemma fold_result_append: "fold_result f (xs @ ys) s = bind_result (fold_result f xs s) (fold_result f ys)"
  by (induction xs arbitrary: s) (auto simp: bind_result_def split: sum.splits)

text \<open>The same over operations that may not return.\<close>

primrec fold_run :: "('a \<Rightarrow> 's \<Rightarrow> 's result option) \<Rightarrow> 'a list \<Rightarrow> 's \<Rightarrow> 's result option" where
  "fold_run f [] s = Some (Inr s)"
| "fold_run f (x # xs) s =
     Option.bind (f x s) (\<lambda>r. case r of Inl e \<Rightarrow> Some (Inl e) | Inr s' \<Rightarrow> fold_run f xs s')"

lemma fold_run_result: "fold_run (\<lambda>x s. Some (f x s)) xs s = Some (fold_result f xs s)"
  by (induction xs arbitrary: s) (auto simp: bind_result_def split: sum.splits)

text \<open>An invariant that may depend on what is left of the list.\<close>

lemma fold_run_keeps:
  assumes "J xs s" and "\<And>x xs s. J (x # xs) s \<Longrightarrow> \<exists>r. f x s = Some r \<and> (\<forall>e. r = Inl e \<longrightarrow> E e) \<and> (\<forall>s'. r = Inr s' \<longrightarrow> J xs s')"
  shows "\<exists>r. fold_run f xs s = Some r \<and> (\<forall>e. r = Inl e \<longrightarrow> E e) \<and> (\<forall>s'. r = Inr s' \<longrightarrow> J [] s')"
  using assms(1)
proof (induction xs arbitrary: s)
  case (Cons x xs)
  from assms(2) [OF Cons.prems] obtain r where r: "f x s = Some r" "\<forall>e. r = Inl e \<longrightarrow> E e" "\<forall>s'. r = Inr s' \<longrightarrow> J xs s'" by blast
  then show ?case using Cons.IH by (cases r) auto
qed simp

section \<open>Machine integers\<close>

definition INT_MAX :: int where "INT_MAX = 2 ^ 31 - 1"
definition INT_MIN :: int where "INT_MIN = - (2 ^ 31)"

text \<open>\<^verbatim>\<open>int\<close> arithmetic is undefined on overflow; a \<^verbatim>\<open>size_t\<close> assigned to an \<^verbatim>\<open>int\<close> is truncated.\<close>

definition checked_int :: "int \<Rightarrow> int result" where
  "checked_int i = (if INT_MIN \<le> i \<and> i \<le> INT_MAX then Inr i else Inl SignedOverflow)"

definition to_int32 :: "int \<Rightarrow> int" where
  "to_int32 i = (i + 2 ^ 31) mod 2 ^ 32 - 2 ^ 31"

definition to_size_t :: "int \<Rightarrow> int" where
  "to_size_t i = i mod 2 ^ 64"

section \<open>Byte ranges\<close>

text \<open>\<^verbatim>\<open>std::string(b + p, b + q)\<close>: the bytes from \<open>p\<close> up to \<open>q\<close>.\<close>

definition slice :: "nat \<Rightarrow> nat \<Rightarrow> 'a list \<Rightarrow> 'a list" where
  "slice p q b = take (q - p) (drop p b)"

text \<open>\<^verbatim>\<open>std::find(b + p, b + q, c)\<close>: the first position of \<open>c\<close>, or the end.\<close>

function std_find :: "nat \<Rightarrow> nat \<Rightarrow> 'a \<Rightarrow> 'a list \<Rightarrow> nat" where
  "std_find p q c b = (if p < q \<and> b ! p \<noteq> c then std_find (Suc p) q c b else p)"
  by pat_completeness auto
termination
  by (relation "measure (\<lambda>(p, q, c, b). q - p)") auto

declare std_find.simps [simp del]

text \<open>\<^verbatim>\<open>std::copy(b + p, b + q, b + d)\<close>: one element after the other, from the front.\<close>

function std_copy :: "nat \<Rightarrow> nat \<Rightarrow> nat \<Rightarrow> 'a list \<Rightarrow> 'a list" where
  "std_copy p q d b = (if p < q then std_copy (Suc p) q (Suc d) (b[d := b ! p]) else b)"
  by pat_completeness auto
termination
  by (relation "measure (\<lambda>(p, q, d, b). q - p)") auto

declare std_copy.simps [simp del]

text \<open>\<^verbatim>\<open>std::copy(data, data + len, b + d)\<close> from another object.\<close>

fun copy_in :: "'a list \<Rightarrow> nat \<Rightarrow> 'a list \<Rightarrow> 'a list" where
  "copy_in [] d b = b"
| "copy_in (x # xs) d b = copy_in xs (Suc d) (b[d := x])"

text \<open>\<^verbatim>\<open>std::vector<char>::resize\<close>: new elements are value-initialised, that is zero.\<close>

definition vresize :: "nat \<Rightarrow> char list \<Rightarrow> char list" where
  "vresize n b = take n b @ replicate (n - length b) (CHR 0x00)"

text \<open>
  \<^verbatim>\<open>std::string(first, last)\<close> on pointers that may be null.  Two null pointers give the empty
  string; one null pointer, or a range that is reversed or leaves the object, is undefined.
\<close>

fun mk_string :: "'a list \<Rightarrow> nat option \<Rightarrow> nat option \<Rightarrow> 'a list result" where
  "mk_string mem (Some p) (Some q) =
     (if p \<le> q \<and> q \<le> length mem then Inr (slice p q mem) else Inl OutOfBounds)"
| "mk_string mem None None = Inr []"
| "mk_string mem _ _ = Inl NullPointer"

section \<open>Decimal numbers\<close>

text \<open>Decimal digits as \<^verbatim>\<open>%d\<close>, \<^verbatim>\<open>%zd\<close> and \<^verbatim>\<open>std::to_string\<close> print a non-negative number.\<close>

definition digit_char :: "nat \<Rightarrow> char" where
  "digit_char d = char_of (48 + d)"

fun dec :: "nat \<Rightarrow> string" where
  "dec n = (if n < 10 then [digit_char n] else dec (n div 10) @ [digit_char (n mod 10)])"

declare dec.simps [simp del]

definition is_digit :: "char \<Rightarrow> bool" where
  "is_digit c \<longleftrightarrow> 48 \<le> (of_char c :: nat) \<and> (of_char c :: nat) \<le> 57"

definition digit_val :: "char \<Rightarrow> nat" where
  "digit_val c = of_char c - 48"

definition dec_val :: "string \<Rightarrow> nat" where
  "dec_val ds = foldl (\<lambda>n c. 10 * n + digit_val c) 0 ds"

text \<open>\<^verbatim>\<open>isspace\<close> in the C locale.\<close>

definition isspace :: "char \<Rightarrow> bool" where
  "isspace c \<longleftrightarrow> c \<in> set [CHR '' '', CHR 0x09, CHR 0x0A, CHR 0x0B, CHR 0x0C, CHR 0x0D]"

abbreviation CR :: char where "CR \<equiv> CHR 0x0D"
abbreviation LF :: char where "LF \<equiv> CHR 0x0A"
abbreviation CRLF :: string where "CRLF \<equiv> [CR, LF]"

section \<open>Collections of facts\<close>

named_theorems buffer_specs \<open>what each buffer operation does to the readable bytes\<close>
named_theorems keeps_inv \<open>operations that keep the invariant of their component\<close>
named_theorems frame \<open>fields an operation leaves alone\<close>

section \<open>Lemmas on results\<close>

lemma bind_result_simps [simp]:
  "bind_result (Inl e) f = Inl e"
  "bind_result (Inr x) f = f x"
  by (simp_all add: bind_result_def)

lemma bind_result_assoc: "bind_result (bind_result r f) g = bind_result r (\<lambda>x. bind_result (f x) g)"
  by (cases r) simp_all

lemma bind_result_Inr_iff:
  "bind_result r f = Inr y \<longleftrightarrow> (\<exists>x. r = Inr x \<and> f x = Inr y)"
  by (cases r) auto

lemma bind_result_Inl_iff:
  "bind_result r f = Inl e \<longleftrightarrow> r = Inl e \<or> (\<exists>x. r = Inr x \<and> f x = Inl e)"
  by (cases r) auto

section \<open>Lemmas on byte ranges\<close>

lemma length_slice [simp]: "length (slice p q b) = min (q - p) (length b - p)"
  by (simp add: slice_def)

lemma slice_empty [simp]: "q \<le> p \<Longrightarrow> slice p q b = []"
  by (simp add: slice_def)

lemma slice_append_split:
  "p \<le> m \<Longrightarrow> m \<le> q \<Longrightarrow> slice p q b = slice p m b @ slice m q b"
proof -
  assume "p \<le> m" and "m \<le> q"
  then have "take (q - p) (drop p b) = take (m - p) (drop p b) @ take (q - m) (drop (m - p) (drop p b))"
    by (metis add.commute diff_add_assoc2 le_add_diff_inverse2 take_add)
  with \<open>p \<le> m\<close> show ?thesis by (simp add: slice_def)
qed

lemma nth_slice: "i < q - p \<Longrightarrow> q \<le> length b \<Longrightarrow> slice p q b ! i = b ! (p + i)"
  by (simp add: slice_def)

lemma drop_slice: "drop k (slice p q b) = slice (p + k) q b"
  by (simp add: slice_def drop_take add.commute)

lemma take_slice: "p + k \<le> q \<Longrightarrow> take k (slice p q b) = slice p (p + k) b"
  by (simp add: slice_def min_def)

lemma slice_Cons: "p < q \<Longrightarrow> q \<le> length b \<Longrightarrow> slice p q b = b ! p # slice (Suc p) q b"
  by (simp add: slice_def Cons_nth_drop_Suc [symmetric] Suc_diff_Suc [symmetric])

text \<open>Reading a decomposition of a range off its bytes.\<close>

lemma slice_decomp:
  assumes "slice p q b = xs @ ys" and "q \<le> length b" and "p \<le> q"
  shows "slice p (p + length xs) b = xs" and "slice (p + length xs) q b = ys"
    and "p + length xs + length ys = q"
proof -
  have "length (slice p q b) = q - p" using assms(2,3) by simp
  then have len: "length xs + length ys = q - p" using assms(1) by simp
  then show "p + length xs + length ys = q" using assms(3) by simp
  have "take (length xs) (slice p q b) = slice p (p + length xs) b"
    using len assms(3) by (simp add: take_slice)
  then show "slice p (p + length xs) b = xs" using assms(1) by simp
  have "drop (length xs) (slice p q b) = slice (p + length xs) q b" by (rule drop_slice)
  then show "slice (p + length xs) q b = ys" using assms(1) by simp
qed

text \<open>Searching a range is searching the list of its bytes.\<close>

lemma std_find_takeWhile:
  "q \<le> length b \<Longrightarrow> p \<le> q \<Longrightarrow> std_find p q c b = p + length (takeWhile (\<lambda>x. x \<noteq> c) (slice p q b))"
proof (induction p q c b rule: std_find.induct)
  case (1 p q c b)
  show ?case
  proof (cases "p < q")
    case True
    then have sl: "slice p q b = b ! p # slice (Suc p) q b"
      using "1.prems" by (simp add: slice_Cons)
    show ?thesis
      using 1 True by (cases "b ! p = c") (simp_all add: sl std_find.simps [of p])
  next
    case False
    then have "std_find p q c b = p" by (subst std_find.simps) simp
    with False show ?thesis by simp
  qed
qed

lemma takeWhile_neq_append:
  "c \<notin> set xs \<Longrightarrow> takeWhile (\<lambda>x. x \<noteq> c) (xs @ c # ys) = xs"
  by (induction xs) auto

lemma takeWhile_neq_all: "c \<notin> set xs \<Longrightarrow> takeWhile (\<lambda>x. x \<noteq> c) xs = xs"
  by (simp add: takeWhile_eq_all_conv) metis

text \<open>The position of the first \<open>c\<close>, read off a decomposition of the range.\<close>

lemma std_find_at:
  assumes "slice p q b = xs @ c # ys" and "c \<notin> set xs" and "q \<le> length b" and "p \<le> q"
  shows "std_find p q c b = p + length xs"
  using assms by (simp add: std_find_takeWhile takeWhile_neq_append)

lemma std_find_none:
  assumes "c \<notin> set (slice p q b)" and "q \<le> length b" and "p \<le> q"
  shows "std_find p q c b = q"
  using assms by (simp add: std_find_takeWhile takeWhile_neq_all)

lemma std_find_step: "p < q \<Longrightarrow> b ! p \<noteq> c \<Longrightarrow> std_find p q c b = std_find (Suc p) q c b"
  by (subst std_find.simps) simp

lemma std_find_stop: "\<not> (p < q \<and> b ! p \<noteq> c) \<Longrightarrow> std_find p q c b = p"
  by (subst std_find.simps) auto

lemma std_find_le: "p \<le> q \<Longrightarrow> std_find p q c b \<le> q"
proof (induction p q c b rule: std_find.induct)
  case (1 p q c b)
  then show ?case
    by (cases "p < q \<and> b ! p \<noteq> c") (simp_all add: std_find_step std_find_stop)
qed

lemma std_find_ge: "p \<le> std_find p q c b"
proof (induction p q c b rule: std_find.induct)
  case (1 p q c b)
  then show ?case
    by (cases "p < q \<and> b ! p \<noteq> c") (simp_all add: std_find_step std_find_stop)
qed

lemma std_find_before: "p \<le> i \<Longrightarrow> i < std_find p q c b \<Longrightarrow> b ! i \<noteq> c"
proof (induction p q c b rule: std_find.induct)
  case (1 p q c b)
  then show ?case
    by (cases "p < q \<and> b ! p \<noteq> c"; cases "i = p") (auto simp: std_find_step std_find_stop)
qed

lemma std_find_less_hit: "std_find p q c b < q \<Longrightarrow> b ! std_find p q c b = c"
proof (induction p q c b rule: std_find.induct)
  case (1 p q c b)
  then show ?case
    by (cases "p < q \<and> b ! p \<noteq> c") (auto simp: std_find_step std_find_stop)
qed

lemma mk_string_ok: "p \<le> q \<Longrightarrow> q \<le> length mem \<Longrightarrow> mk_string mem (Some p) (Some q) = Inr (slice p q mem)"
  by simp

section \<open>Lemmas on decimal numbers\<close>

lemma digit_chars:
  "digit_char 0 = CHR ''0''" "digit_char 1 = CHR ''1''" "digit_char (Suc 0) = CHR ''1''" "digit_char 2 = CHR ''2''"
  "digit_char 3 = CHR ''3''" "digit_char 4 = CHR ''4''" "digit_char 5 = CHR ''5''" "digit_char 6 = CHR ''6''"
  "digit_char 7 = CHR ''7''" "digit_char 8 = CHR ''8''" "digit_char 9 = CHR ''9''"
  by code_simp+

lemma of_char_digit_char [simp]: "d < 10 \<Longrightarrow> (of_char (digit_char d) :: nat) = 48 + d"
  by (simp add: digit_char_def of_char_of)

lemma digit_char_props [simp]:
  "d < 10 \<Longrightarrow> is_digit (digit_char d)"
  "d < 10 \<Longrightarrow> digit_val (digit_char d) = d"
  by (simp_all add: is_digit_def digit_val_def)

lemma dec_nonempty [simp]: "dec n \<noteq> []"
  by (subst dec.simps) simp

lemma dec_digits: "\<forall>c \<in> set (dec n). is_digit c"
proof (induction n rule: dec.induct)
  case (1 n)
  then show ?case by (cases "n < 10") (auto simp: dec.simps [of n])
qed

lemma dec_val_snoc [simp]: "dec_val (ds @ [c]) = 10 * dec_val ds + digit_val c"
  by (simp add: dec_val_def)

text \<open>Printing and reading back.\<close>

lemma dec_val_dec [simp]: "dec_val (dec n) = n"
proof (induction n rule: dec.induct)
  case (1 n)
  show ?case
  proof (cases "n < 10")
    case True
    then show ?thesis by (simp add: dec.simps [of n] dec_val_def)
  next
    case False
    with "1.IH" show ?thesis by (simp add: dec.simps [of n])
  qed
qed

lemma length_dec_le: "n < 10 ^ k \<Longrightarrow> 0 < k \<Longrightarrow> length (dec n) \<le> k"
proof (induction n arbitrary: k rule: dec.induct)
  case (1 n k)
  show ?case
  proof (cases "n < 10")
    case True
    with "1.prems" show ?thesis by (simp add: dec.simps [of n])
  next
    case False
    then obtain m where m: "k = Suc m" "0 < m"
      using "1.prems" by (cases k; cases "k - 1") auto
    with "1.prems" have "n div 10 < 10 ^ m" by (simp add: less_mult_imp_div_less mult.commute)
    with "1.IH" [OF False, of m] m False show ?thesis by (simp add: dec.simps [of n])
  qed
qed

lemma digit_not_space: "is_digit c \<Longrightarrow> \<not> isspace c"
  by (auto simp: is_digit_def isspace_def)

section \<open>Lemmas on copying\<close>

lemma length_copy_in [simp]: "length (copy_in xs d b) = length b"
  by (induction xs d b rule: copy_in.induct) auto

lemma copy_in_eq:
  "d + length xs \<le> length b \<Longrightarrow> copy_in xs d b = take d b @ xs @ drop (d + length xs) b"
proof (induction xs d b rule: copy_in.induct)
  case (1 d b)
  then show ?case by simp
next
  case (2 x xs d b)
  then show ?case
    by (simp add: take_Suc_conv_app_nth upd_conv_take_nth_drop add.commute)
qed

lemma length_std_copy [simp]: "length (std_copy p q d b) = length b"
proof (induction p q d b rule: std_copy.induct)
  case (1 p q d b)
  then show ?case by (cases "p < q") (simp_all add: std_copy.simps [of p q d b])
qed

text \<open>
  Moving a range towards the front: the element by element copy reads each source byte
  before it is overwritten, so the result is the range itself, spliced in at \<open>d\<close>.
\<close>

lemma std_copy_down:
  "d \<le> p \<Longrightarrow> p \<le> q \<Longrightarrow> q \<le> length b \<Longrightarrow>
   std_copy p q d b = take d b @ slice p q b @ drop (d + (q - p)) b"
proof (induction p q d b rule: std_copy.induct)
  case (1 p q d b)
  show ?case
  proof (cases "p < q")
    case True
    let ?b = "b[d := b ! p]"
    have IH: "std_copy (Suc p) q (Suc d) ?b
              = take (Suc d) ?b @ slice (Suc p) q ?b @ drop (Suc d + (q - Suc p)) ?b"
      using 1 True by simp
    have s: "slice (Suc p) q ?b = slice (Suc p) q b"
      using "1.prems" by (simp add: slice_def)
    have "take (Suc d) ?b = take d b @ [b ! p]"
      using "1.prems" True by (simp add: take_Suc_conv_app_nth)
    moreover have "Suc d + (q - Suc p) = d + (q - p)" using True by simp
    ultimately show ?thesis
      using "1.prems" True IH s by (simp add: std_copy.simps [of p q d b] slice_Cons del: add_Suc)
  next
    case False
    then have "std_copy p q d b = b" by (subst std_copy.simps) simp
    with False "1.prems" show ?thesis by simp
  qed
qed

lemma length_vresize [simp]: "length (vresize n b) = n"
  by (simp add: vresize_def)

lemma slice_vresize: "q \<le> length b \<Longrightarrow> q \<le> n \<Longrightarrow> slice p q (vresize n b) = slice p q b"
proof -
  assume "q \<le> length b" and "q \<le> n"
  then have "take q (vresize n b) = take q b" by (simp add: vresize_def min_def)
  then show ?thesis by (metis slice_def drop_take)
qed

end
