(* ===== verification/Net_Buffer.thy ===== *)
theory Net_Buffer
  imports Prelude
begin

text \<open>
  The application buffer (\<^verbatim>\<open>include/Buffer.h\<close>, \<^verbatim>\<open>src/Buffer.cpp\<close>): a byte vector with a reader
  and a writer index.  The record keeps the vector with its stale bytes, because the HTTP parser
  reads one byte past the readable range; the abstraction \<open>contents\<close> is the readable range.
  The lemmas show that the layout invariant is kept, that every operation acts on \<open>contents\<close>
  as on a byte queue (the locale \<open>byte_queue\<close>), and when an append grows the vector.
  Sizes are \<open>nat\<close>: they are bounded by the address space, and the one place where \<^verbatim>\<open>size_t\<close>
  wraps (a pointer difference below zero in \<^verbatim>\<open>retrieveUntil\<close>) is written out.
\<close>

section \<open>State and operations\<close>

record Buffer =
  buffer :: "char list"
  readerIndex :: nat
  writerIndex :: nat

definition kCheapPrepend :: nat where
  "kCheapPrepend = 8"

definition kInitialSize :: nat where
  "kInitialSize = 1024"

definition new_Buffer :: "nat \<Rightarrow> Buffer" where
  "new_Buffer initSize =
     \<lparr>buffer = replicate (kCheapPrepend + initSize) (CHR 0x00),
      readerIndex = kCheapPrepend, writerIndex = kCheapPrepend\<rparr>"

definition readableBytes :: "Buffer \<Rightarrow> nat" where
  "readableBytes b = writerIndex b - readerIndex b"

definition writableBytes :: "Buffer \<Rightarrow> nat" where
  "writableBytes b = length (buffer b) - writerIndex b"

definition prependableBytes :: "Buffer \<Rightarrow> nat" where
  "prependableBytes b = readerIndex b"

definition peek :: "Buffer \<Rightarrow> nat" where
  "peek b = readerIndex b"

definition beginWrite :: "Buffer \<Rightarrow> nat" where
  "beginWrite b = writerIndex b"

definition retrieveAll :: "Buffer \<Rightarrow> Buffer" where
  "retrieveAll b = b\<lparr>readerIndex := kCheapPrepend, writerIndex := kCheapPrepend\<rparr>"

definition retrieve :: "nat \<Rightarrow> Buffer \<Rightarrow> Buffer" where
  "retrieve len b =
     (if len < readableBytes b then b\<lparr>readerIndex := readerIndex b + len\<rparr>
      else retrieveAll b)"

definition retrieveUntil :: "nat \<Rightarrow> Buffer \<Rightarrow> Buffer" where
  "retrieveUntil ptr b =
     retrieve (if peek b \<le> ptr then ptr - peek b else 2 ^ 64 - (peek b - ptr)) b"

definition retrieveAsString :: "nat \<Rightarrow> Buffer \<Rightarrow> (string \<times> Buffer) result" where
  "retrieveAsString len b =
     (if peek b + len \<le> length (buffer b)
      then Inr (slice (peek b) (peek b + len) (buffer b), retrieve len b)
      else Inl OutOfBounds)"

definition retrieveAllAsString :: "Buffer \<Rightarrow> (string \<times> Buffer) result" where
  "retrieveAllAsString b = retrieveAsString (readableBytes b) b"

definition makeSpace :: "nat \<Rightarrow> Buffer \<Rightarrow> Buffer" where
  "makeSpace len b =
     (if writableBytes b + prependableBytes b < len + kCheapPrepend
      then b\<lparr>buffer := vresize (writerIndex b + len) (buffer b)\<rparr>
      else (let readable = readableBytes b
            in b\<lparr>buffer := std_copy (readerIndex b) (writerIndex b) kCheapPrepend (buffer b),
                readerIndex := kCheapPrepend,
                writerIndex := kCheapPrepend + readable\<rparr>))"

definition ensureWritableBytes :: "nat \<Rightarrow> Buffer \<Rightarrow> Buffer" where
  "ensureWritableBytes len b = (if writableBytes b < len then makeSpace len b else b)"

definition append_buf :: "string \<Rightarrow> Buffer \<Rightarrow> Buffer" where
  "append_buf data b =
     (let b1 = ensureWritableBytes (length data) b
      in b1\<lparr>buffer := copy_in data (beginWrite b1) (buffer b1),
            writerIndex := writerIndex b1 + length data\<rparr>)"

text \<open>
  \<^verbatim>\<open>readFd\<close> and \<^verbatim>\<open>writeFd\<close> take what the system call returned: an errno, or the bytes the kernel
  stored (the number of bytes it took).  The kernel fills the two areas of the \<^verbatim>\<open>iovec\<close> in order.
\<close>

definition sizeof_extrabuf :: nat where
  "sizeof_extrabuf = 66536"

definition readv_capacity :: "Buffer \<Rightarrow> nat" where
  "readv_capacity b =
     (if writableBytes b < sizeof_extrabuf then writableBytes b + sizeof_extrabuf
      else writableBytes b)"

definition readFd :: "int + string \<Rightarrow> Buffer \<Rightarrow> Buffer \<times> int \<times> int option" where
  "readFd outcome b =
     (case outcome of
        Inl errno \<Rightarrow> (b, -1, Some errno)
      | Inr data \<Rightarrow>
          let writable = writableBytes b; n = length data
          in if n \<le> writable
             then (b\<lparr>buffer := copy_in data (writerIndex b) (buffer b),
                     writerIndex := writerIndex b + n\<rparr>, int n, None)
             else (append_buf (drop writable data)
                     (b\<lparr>buffer := copy_in (take writable data) (writerIndex b) (buffer b),
                        writerIndex := writerIndex b + writable\<rparr>), int n, None))"

definition writeFd :: "int + nat \<Rightarrow> Buffer \<Rightarrow> int \<times> string \<times> int option" where
  "writeFd outcome b =
     (case outcome of
        Inl errno \<Rightarrow> (-1, [], Some errno)
      | Inr n \<Rightarrow> (int n, take n (slice (peek b) (peek b + readableBytes b) (buffer b)), None))"

section \<open>Invariant and abstraction\<close>

definition buf_inv :: "Buffer \<Rightarrow> bool" where
  "buf_inv b \<longleftrightarrow> kCheapPrepend \<le> readerIndex b \<and> readerIndex b \<le> writerIndex b \<and>
     writerIndex b \<le> length (buffer b)"

definition contents :: "Buffer \<Rightarrow> string" where
  "contents b = slice (readerIndex b) (writerIndex b) (buffer b)"

lemmas buffer_defs = buf_inv_def contents_def readableBytes_def writableBytes_def
  prependableBytes_def peek_def beginWrite_def retrieveAll_def

lemma length_contents [simp]: "buf_inv b \<Longrightarrow> length (contents b) = readableBytes b"
  by (auto simp: buffer_defs min_def)

lemma readableBytes_0_iff: "buf_inv b \<Longrightarrow> readableBytes b = 0 \<longleftrightarrow> contents b = []"
  by (metis length_0_conv length_contents)

lemma slice_contents: "buf_inv b \<Longrightarrow> slice (peek b) (peek b + readableBytes b) (buffer b) = contents b"
  by (simp add: buffer_defs)

lemma readable_in_vector: "buf_inv b \<Longrightarrow> peek b + readableBytes b \<le> length (buffer b)"
  by (simp add: buffer_defs)

lemma new_Buffer_inv [keeps_inv]: "buf_inv (new_Buffer n)"
  by (simp add: buffer_defs new_Buffer_def)

lemma contents_new_Buffer [buffer_specs]: "contents (new_Buffer n) = []"
  by (simp add: buffer_defs new_Buffer_def)

lemma retrieveAll_inv [keeps_inv]: "buf_inv b \<Longrightarrow> buf_inv (retrieveAll b)"
  by (simp add: buffer_defs)

lemma contents_retrieveAll [buffer_specs]: "contents (retrieveAll b) = []"
  by (simp add: buffer_defs)

lemma retrieve_inv [keeps_inv]: "buf_inv b \<Longrightarrow> buf_inv (retrieve n b)"
  by (auto simp: retrieve_def buffer_defs)

lemma contents_retrieve [buffer_specs]:
  assumes "buf_inv b"
  shows "contents (retrieve n b) = drop n (contents b)"
proof (cases "n < readableBytes b")
  case True
  then show ?thesis by (simp add: retrieve_def contents_def drop_slice)
next
  case False
  then have "drop n (contents b) = []" using assms by simp
  with False show ?thesis by (simp add: retrieve_def contents_retrieveAll)
qed

lemma retrieveUntil_inv [keeps_inv]: "buf_inv b \<Longrightarrow> buf_inv (retrieveUntil p b)"
  by (simp add: retrieveUntil_def retrieve_inv)

lemma contents_retrieveUntil:
  "buf_inv b \<Longrightarrow> peek b \<le> p \<Longrightarrow> contents (retrieveUntil p b) = drop (p - peek b) (contents b)"
  by (simp add: retrieveUntil_def contents_retrieve)

lemma retrieveAsString_ok:
  assumes "buf_inv b" and "n \<le> readableBytes b"
  shows "retrieveAsString n b = Inr (take n (contents b), retrieve n b)"
  using assms by (auto simp: retrieveAsString_def buffer_defs take_slice)

lemma retrieveAllAsString_ok [buffer_specs]:
  assumes "buf_inv b"
  shows "retrieveAllAsString b = Inr (contents b, retrieveAll b)"
  using assms
  by (simp add: retrieveAllAsString_def retrieveAsString_ok retrieve_def)

section \<open>Growing and appending\<close>

lemma makeSpace_inv [keeps_inv]:
  "buf_inv b \<Longrightarrow> writableBytes b < n \<Longrightarrow> buf_inv (makeSpace n b)"
  by (auto simp: makeSpace_def buffer_defs Let_def)

lemma makeSpace_writable:
  "buf_inv b \<Longrightarrow> writableBytes b < n \<Longrightarrow> n \<le> writableBytes (makeSpace n b)"
  by (auto simp: makeSpace_def buffer_defs Let_def)

text \<open>Both branches of \<^verbatim>\<open>makeSpace\<close> keep the unread bytes, the move as well as the resize.\<close>

lemma contents_makeSpace:
  assumes "buf_inv b" and "writableBytes b < n"
  shows "contents (makeSpace n b) = contents b"
proof (cases "writableBytes b + prependableBytes b < n + kCheapPrepend")
  case True
  then show ?thesis
    using assms by (simp add: makeSpace_def buffer_defs slice_vresize)
next
  case False
  let ?r = "readerIndex b" and ?w = "writerIndex b"
  have "std_copy ?r ?w kCheapPrepend (buffer b) =
        take kCheapPrepend (buffer b) @ contents b @ drop (kCheapPrepend + (?w - ?r)) (buffer b)"
    using assms std_copy_down [of kCheapPrepend ?r ?w "buffer b"] by (simp add: buffer_defs)
  moreover have "length (contents b) = ?w - ?r" and "kCheapPrepend \<le> length (buffer b)"
    using assms by (auto simp: buffer_defs min_def)
  ultimately show ?thesis
    using False assms by (simp add: makeSpace_def contents_def readableBytes_def slice_def)
qed

lemma ensureWritableBytes_spec:
  assumes "buf_inv b"
  shows "buf_inv (ensureWritableBytes n b)"
    and "contents (ensureWritableBytes n b) = contents b"
    and "n \<le> writableBytes (ensureWritableBytes n b)"
  using assms makeSpace_inv makeSpace_writable contents_makeSpace
  by (auto simp: ensureWritableBytes_def)

text \<open>Writing into the writable range and moving the writer index over it.\<close>

lemma write_at_writer:
  assumes "buf_inv b" and "length xs \<le> writableBytes b"
  defines "b' \<equiv> b\<lparr>buffer := copy_in xs (writerIndex b) (buffer b),
                  writerIndex := writerIndex b + length xs\<rparr>"
  shows "buf_inv b'" and "contents b' = contents b @ xs"
    and "length (buffer b') = length (buffer b)"
proof -
  let ?w = "writerIndex b" and ?r = "readerIndex b"
  have fit: "?w + length xs \<le> length (buffer b)" and rw: "?r \<le> ?w"
    using assms(1,2) by (auto simp: buffer_defs)
  then have cp: "copy_in xs ?w (buffer b) = take ?w (buffer b) @ xs @ drop (?w + length xs) (buffer b)"
    by (simp add: copy_in_eq)
  have "slice ?r (?w + length xs) (copy_in xs ?w (buffer b)) = slice ?r ?w (buffer b) @ xs"
    using fit rw by (simp add: cp slice_def drop_take min_absorb1 min_absorb2)
  then show "contents b' = contents b @ xs"
    by (simp add: b'_def contents_def)
  show "buf_inv b'" and "length (buffer b') = length (buffer b)"
    using assms(1) fit by (simp_all add: b'_def buf_inv_def)
qed

lemma append_buf_inv [keeps_inv]: "buf_inv b \<Longrightarrow> buf_inv (append_buf xs b)"
  using ensureWritableBytes_spec [of b "length xs"] write_at_writer(1)
  by (simp add: append_buf_def Let_def beginWrite_def)

lemma contents_append_buf [buffer_specs]:
  "buf_inv b \<Longrightarrow> contents (append_buf xs b) = contents b @ xs"
  using ensureWritableBytes_spec [of b "length xs"] write_at_writer(2)
  by (simp add: append_buf_def Let_def beginWrite_def)

text \<open>The vector grows only where moving the unread bytes to the front is not enough.\<close>

lemma append_buf_no_growth:
  assumes "buf_inv b" and "length xs + kCheapPrepend \<le> writableBytes b + prependableBytes b"
  shows "length (buffer (append_buf xs b)) = length (buffer b)"
  using assms
  by (simp add: append_buf_def ensureWritableBytes_def makeSpace_def Let_def)

lemma append_buf_growth:
  assumes "buf_inv b" and "writableBytes b + prependableBytes b < length xs + kCheapPrepend"
  shows "length (buffer (append_buf xs b)) = writerIndex b + length xs"
  using assms
  by (auto simp: append_buf_def ensureWritableBytes_def makeSpace_def Let_def buffer_defs)

section \<open>Reading and writing a descriptor\<close>

lemma readFd_data:
  assumes "buf_inv b"
  shows "buf_inv (fst (readFd (Inr xs) b))"
    and "contents (fst (readFd (Inr xs) b)) = contents b @ xs"
    and "snd (readFd (Inr xs) b) = (int (length xs), None)"
proof -
  let ?n = "writableBytes b"
  have "buf_inv (fst (readFd (Inr xs) b)) \<and> contents (fst (readFd (Inr xs) b)) = contents b @ xs"
  proof (cases "length xs \<le> ?n")
    case True
    then show ?thesis
      using write_at_writer [OF assms True] by (simp add: readFd_def Let_def)
  next
    case False
    then have len: "length (take ?n xs) = ?n" by simp
    then have "length (take ?n xs) \<le> ?n" by simp
    from write_at_writer [OF assms this] False show ?thesis
      by (simp add: readFd_def Let_def len append_buf_inv contents_append_buf)
  qed
  then show "buf_inv (fst (readFd (Inr xs) b))"
    and "contents (fst (readFd (Inr xs) b)) = contents b @ xs" by simp_all
  show "snd (readFd (Inr xs) b) = (int (length xs), None)"
    by (simp add: readFd_def Let_def)
qed

lemma readFd_error: "readFd (Inl e) b = (b, -1, Some e)"
  by (simp add: readFd_def)

lemma writeFd_data:
  "buf_inv b \<Longrightarrow> writeFd (Inr n) b = (int n, take n (contents b), None)"
  by (simp add: writeFd_def buffer_defs)

text \<open>The input buffer of a connection after its first read.\<close>

definition received :: "string \<Rightarrow> Buffer" where
  "received s = fst (readFd (Inr s) (new_Buffer kInitialSize))"

lemma received_inv [simp]: "buf_inv (received s)"
  by (simp add: received_def readFd_data new_Buffer_inv)

lemma contents_received [simp]: "contents (received s) = s"
  by (simp add: received_def readFd_data new_Buffer_inv contents_new_Buffer)

section \<open>The byte queue contract\<close>

text \<open>
  What the connection and the HTTP layer rely on: a queue of bytes, written at the back with
  \<open>put\<close> and consumed at the front with \<open>get\<close>.
\<close>

locale byte_queue =
  fixes inv :: "'q \<Rightarrow> bool"
    and bytes :: "'q \<Rightarrow> string"
    and put :: "string \<Rightarrow> 'q \<Rightarrow> 'q"
    and get :: "nat \<Rightarrow> 'q \<Rightarrow> 'q"
  assumes inv_put: "inv q \<Longrightarrow> inv (put xs q)"
    and inv_get: "inv q \<Longrightarrow> inv (get n q)"
    and bytes_put: "inv q \<Longrightarrow> bytes (put xs q) = bytes q @ xs"
    and bytes_get: "inv q \<Longrightarrow> bytes (get n q) = drop n (bytes q)"
begin

lemma put_all: "inv q \<Longrightarrow> inv (fold put xss q) \<and> bytes (fold put xss q) = bytes q @ concat xss"
  by (induction xss arbitrary: q) (simp_all add: inv_put bytes_put)

lemma put_get_fifo:
  "inv q \<Longrightarrow> n \<le> length (bytes q) \<Longrightarrow> bytes (get n (put xs q)) = bytes (get n q) @ xs"
  by (simp add: bytes_put bytes_get inv_put)

lemma get_get: "inv q \<Longrightarrow> bytes (get m (get n q)) = bytes (get (n + m) q)"
  by (simp add: bytes_get inv_get add.commute)

end

interpretation buf_queue: byte_queue buf_inv contents append_buf retrieve
  by unfold_locales (simp_all add: append_buf_inv retrieve_inv contents_append_buf contents_retrieve)

section \<open>Refinement of a byte queue by sequences of operations\<close>

text \<open>The operations the rest of the library performs on a buffer, as data.\<close>

datatype buf_op = Append string | Retrieve nat | RetrieveAll | EnsureWritable nat | ReadFd string

fun run_op :: "buf_op \<Rightarrow> Buffer \<Rightarrow> Buffer" where
  "run_op (Append s) b = append_buf s b"
| "run_op (Retrieve n) b = retrieve n b"
| "run_op RetrieveAll b = retrieveAll b"
| "run_op (EnsureWritable n) b = ensureWritableBytes n b"
| "run_op (ReadFd s) b = fst (readFd (Inr s) b)"

fun spec_op :: "buf_op \<Rightarrow> string \<Rightarrow> string" where
  "spec_op (Append s) q = q @ s"
| "spec_op (Retrieve n) q = drop n q"
| "spec_op RetrieveAll q = []"
| "spec_op (EnsureWritable n) q = q"
| "spec_op (ReadFd s) q = q @ s"

lemma run_op_refines:
  "buf_inv b \<Longrightarrow> buf_inv (run_op x b) \<and> contents (run_op x b) = spec_op x (contents b)"
  by (cases x) (simp_all add: buf_queue.inv_put buf_queue.bytes_put buf_queue.inv_get buf_queue.bytes_get
      retrieveAll_inv contents_retrieveAll ensureWritableBytes_spec readFd_data)

lemma fold_run_op_refines:
  "buf_inv b \<Longrightarrow> buf_inv (fold run_op ops b) \<and> contents (fold run_op ops b) = fold spec_op ops (contents b)"
  by (induction ops arbitrary: b) (simp_all add: run_op_refines)

text \<open>C17. Every sequence of buffer operations on a fresh buffer keeps the reader and writer indices
  ordered and inside the vector, and the readable range is at every moment exactly the byte queue
  the same operations produce on a plain list: moving data to the front, resizing the vector and the
  overflow area of the scatter read lose, duplicate and reorder nothing.\<close>

theorem buffer_refines_queue:
  "buf_inv (fold run_op ops (new_Buffer n)) \<and>
   contents (fold run_op ops (new_Buffer n)) = fold spec_op ops []"
  using fold_run_op_refines [OF new_Buffer_inv, of ops n] by (simp add: contents_new_Buffer)

text \<open>An append reallocates exactly when the free bytes behind the data and those in front of it
  (beyond the reserved header) do not suffice; then the vector ends with the appended bytes, and
  otherwise its size is unchanged.\<close>

lemma append_growth:
  assumes "buf_inv b"
  shows "length (buffer (append_buf xs b)) =
    (if writableBytes b + prependableBytes b < length xs + kCheapPrepend
     then writerIndex b + length xs else length (buffer b))"
  using assms append_buf_growth [of b xs] append_buf_no_growth [of b xs] by simp

text \<open>One scatter read stores every byte the kernel returned, in order, behind the unread data,
  whether they fit in the writable range or spill into the stack area and are appended from there.\<close>

lemma readFd_appends:
  assumes "buf_inv b"
  shows "\<exists>b'. readFd (Inr xs) b = (b', int (length xs), None) \<and> buf_inv b' \<and> contents b' = contents b @ xs"
  using readFd_data [OF assms, of xs] by (metis prod.collapse)

end
