(* ===== verification/Channel_Poller.thy ===== *)
theory Channel_Poller
  imports Prelude "HOL-Library.Word"
begin

unbundle bit_operations_syntax

text \<open>
  Channels and the epoll poller (\<^verbatim>\<open>include/Channel.h\<close>, \<^verbatim>\<open>src/Channel.cpp\<close>, \<^verbatim>\<open>include/Poller.h\<close>,
  \<^verbatim>\<open>src/EPollPoller.cpp\<close>).  Channel objects live in a store indexed by an object number (their
  address), event masks are 32 bit words, and the poller keeps a log of the \<^verbatim>\<open>epoll_ctl\<close> calls it
  made, newest first.  The kernel is not modelled: what a call returns is an argument, and the
  interest list is what the log amounts to.  The lemmas show that, whatever the order of the
  channel operations, no call is one the kernel has to refuse, and that the interest list always
  agrees with the masks the channels believe to have.
\<close>

section \<open>Channels\<close>

type_synonym events = "32 word"

definition EPOLLIN :: events where "EPOLLIN = 0x001"
definition EPOLLPRI :: events where "EPOLLPRI = 0x002"
definition EPOLLOUT :: events where "EPOLLOUT = 0x004"
definition EPOLLERR :: events where "EPOLLERR = 0x008"
definition EPOLLHUP :: events where "EPOLLHUP = 0x010"

definition kNoneEvent :: events where "kNoneEvent = 0"
definition kReadEvent :: events where "kReadEvent = (EPOLLIN OR EPOLLPRI)"
definition kWriteEvent :: events where "kWriteEvent = EPOLLOUT"

definition kNew :: int where "kNew = -1"
definition kAdded :: int where "kAdded = 1"
definition kDeleted :: int where "kDeleted = 2"

lemmas mask_defs = EPOLLIN_def EPOLLPRI_def EPOLLOUT_def EPOLLERR_def EPOLLHUP_def
  kNoneEvent_def kReadEvent_def kWriteEvent_def

lemmas index_defs = kNew_def kAdded_def kDeleted_def

record Channel =
  ch_fd :: int
  ch_events :: events
  ch_revents :: events
  ch_index :: int
  ch_tied :: bool
  readCallback :: bool
  writeCallback :: bool
  closeCallback :: bool
  errCallback :: bool

definition new_Channel :: "int \<Rightarrow> Channel" where
  "new_Channel fd =
     \<lparr>ch_fd = fd, ch_events = 0, ch_revents = 0, ch_index = -1, ch_tied = False,
      readCallback = False, writeCallback = False, closeCallback = False, errCallback = False\<rparr>"

definition isNoneEvent :: "Channel \<Rightarrow> bool" where
  "isNoneEvent ch \<longleftrightarrow> ch_events ch = kNoneEvent"

definition isWriting :: "Channel \<Rightarrow> bool" where
  "isWriting ch \<longleftrightarrow> ch_events ch AND kWriteEvent \<noteq> 0"

definition isReading :: "Channel \<Rightarrow> bool" where
  "isReading ch \<longleftrightarrow> ch_events ch AND kReadEvent \<noteq> 0"

definition tie_channel :: "Channel \<Rightarrow> Channel" where
  "tie_channel ch = ch\<lparr>ch_tied := True\<rparr>"

text \<open>The callbacks an event runs, in order; \<open>locked\<close> tells whether the tied object is still alive.\<close>

datatype callback = CloseCallback | ErrCallback | ReadCallback int | WriteCallback

definition handleEventWithGuard :: "int \<Rightarrow> Channel \<Rightarrow> callback list" where
  "handleEventWithGuard recvTime ch =
     (if ch_revents ch AND EPOLLHUP \<noteq> 0 \<and> \<not> ch_revents ch AND EPOLLIN \<noteq> 0
      then if closeCallback ch then [CloseCallback] else [] else []) @
     (if ch_revents ch AND EPOLLERR \<noteq> 0 then if errCallback ch then [ErrCallback] else [] else []) @
     (if ch_revents ch AND (EPOLLIN OR EPOLLPRI) \<noteq> 0
      then if readCallback ch then [ReadCallback recvTime] else [] else []) @
     (if ch_revents ch AND EPOLLOUT \<noteq> 0 then if writeCallback ch then [WriteCallback] else [] else [])"

definition handleEvent :: "bool \<Rightarrow> int \<Rightarrow> Channel \<Rightarrow> callback list" where
  "handleEvent locked recvTime ch =
     (if ch_tied ch then if locked then handleEventWithGuard recvTime ch else []
      else handleEventWithGuard recvTime ch)"

section \<open>The poller\<close>

datatype ctl_op = EPOLL_CTL_ADD | EPOLL_CTL_MOD | EPOLL_CTL_DEL

type_synonym ctl = "ctl_op \<times> int \<times> events \<times> nat"

record EPollPoller =
  channels :: "int \<rightharpoonup> nat"
  eventsSize :: nat
  ctls :: "ctl list"
  store :: "nat \<Rightarrow> Channel"

definition kInitEventListSize :: nat where
  "kInitEventListSize = 16"

definition new_EPollPoller :: "(nat \<Rightarrow> int) \<Rightarrow> EPollPoller" where
  "new_EPollPoller fds =
     \<lparr>channels = Map.empty, eventsSize = kInitEventListSize, ctls = [], store = (\<lambda>c. new_Channel (fds c))\<rparr>"

definition set_channel :: "nat \<Rightarrow> (Channel \<Rightarrow> Channel) \<Rightarrow> EPollPoller \<Rightarrow> EPollPoller" where
  "set_channel c f p = p\<lparr>store := (store p)(c := f (store p c))\<rparr>"

definition update_ctl :: "int \<Rightarrow> ctl_op \<Rightarrow> nat \<Rightarrow> EPollPoller \<Rightarrow> EPollPoller result" where
  "update_ctl ret operation c p =
     (let ch = store p c; p' = p\<lparr>ctls := (operation, ch_fd ch, ch_events ch, c) # ctls p\<rparr>
      in if ret < 0 \<and> operation \<noteq> EPOLL_CTL_DEL then Inl FatalAbort else Inr p')"

definition updateChannel :: "int \<Rightarrow> nat \<Rightarrow> EPollPoller \<Rightarrow> EPollPoller result" where
  "updateChannel ret c p =
     (let ch = store p c; index = ch_index ch in
      if index = kNew \<or> index = kDeleted then
        let p1 = (if index = kNew then p\<lparr>channels := (channels p)(ch_fd ch \<mapsto> c)\<rparr> else p)
        in update_ctl ret EPOLL_CTL_ADD c (set_channel c (\<lambda>ch. ch\<lparr>ch_index := kAdded\<rparr>) p1)
      else if index = kAdded then
        if isNoneEvent ch
        then bind_result (update_ctl ret EPOLL_CTL_DEL c p)
               (\<lambda>p'. Inr (set_channel c (\<lambda>ch. ch\<lparr>ch_index := kDeleted\<rparr>) p'))
        else update_ctl ret EPOLL_CTL_MOD c p
      else Inr p)"

definition removeChannel :: "int \<Rightarrow> nat \<Rightarrow> EPollPoller \<Rightarrow> EPollPoller result" where
  "removeChannel ret c p =
     (let ch = store p c; p1 = p\<lparr>channels := (channels p)(ch_fd ch := None)\<rparr>
      in bind_result (if ch_index ch = kAdded then update_ctl ret EPOLL_CTL_DEL c p1 else Inr p1)
           (\<lambda>p'. Inr (set_channel c (\<lambda>ch. ch\<lparr>ch_index := kNew\<rparr>) p')))"

definition hasChannel :: "nat \<Rightarrow> EPollPoller \<Rightarrow> bool" where
  "hasChannel c p \<longleftrightarrow> channels p (ch_fd (store p c)) = Some c"

text \<open>Waiting for events: the kernel's answer is an errno or the list of ready channels.\<close>

fun fillActiveChannels :: "(events \<times> nat) list \<Rightarrow> EPollPoller \<Rightarrow> nat list \<times> EPollPoller" where
  "fillActiveChannels [] p = ([], p)"
| "fillActiveChannels ((ev, c) # evs) p =
     (let (active, p') = fillActiveChannels evs (set_channel c (\<lambda>ch. ch\<lparr>ch_revents := ev\<rparr>) p)
      in (c # active, p'))"

definition poll :: "int + (events \<times> nat) list \<Rightarrow> EPollPoller \<Rightarrow> nat list \<times> EPollPoller" where
  "poll outcome p =
     (case outcome of
        Inl errno \<Rightarrow> ([], p)
      | Inr evs \<Rightarrow>
          if 0 < length evs then
            let (active, p') = fillActiveChannels evs p
            in (active, if length evs = eventsSize p' then p'\<lparr>eventsSize := eventsSize p' * 2\<rparr> else p')
          else ([], p))"

section \<open>Channel operations that reach the poller\<close>

definition change_events :: "int \<Rightarrow> (events \<Rightarrow> events) \<Rightarrow> nat \<Rightarrow> EPollPoller \<Rightarrow> EPollPoller result" where
  "change_events ret f c p =
     updateChannel ret c (set_channel c (\<lambda>ch. ch\<lparr>ch_events := f (ch_events ch)\<rparr>) p)"

definition enableReading :: "int \<Rightarrow> nat \<Rightarrow> EPollPoller \<Rightarrow> EPollPoller result" where
  "enableReading ret = change_events ret (\<lambda>e. e OR kReadEvent)"

definition disableReading :: "int \<Rightarrow> nat \<Rightarrow> EPollPoller \<Rightarrow> EPollPoller result" where
  "disableReading ret = change_events ret (\<lambda>e. e AND NOT kReadEvent)"

definition enableWriting :: "int \<Rightarrow> nat \<Rightarrow> EPollPoller \<Rightarrow> EPollPoller result" where
  "enableWriting ret = change_events ret (\<lambda>e. e OR kWriteEvent)"

definition disableWriting :: "int \<Rightarrow> nat \<Rightarrow> EPollPoller \<Rightarrow> EPollPoller result" where
  "disableWriting ret = change_events ret (\<lambda>e. e AND NOT kWriteEvent)"

definition disableAll :: "int \<Rightarrow> nat \<Rightarrow> EPollPoller \<Rightarrow> EPollPoller result" where
  "disableAll ret = change_events ret (\<lambda>e. kNoneEvent)"

definition setReadCallback :: "int \<Rightarrow> nat \<Rightarrow> EPollPoller \<Rightarrow> EPollPoller result" where
  "setReadCallback ret c p = updateChannel ret c (set_channel c (\<lambda>ch. ch\<lparr>readCallback := True\<rparr>) p)"

definition setWtriteCallback :: "int \<Rightarrow> nat \<Rightarrow> EPollPoller \<Rightarrow> EPollPoller result" where
  "setWtriteCallback ret c p = updateChannel ret c (set_channel c (\<lambda>ch. ch\<lparr>writeCallback := True\<rparr>) p)"

definition setCloseCallback :: "int \<Rightarrow> nat \<Rightarrow> EPollPoller \<Rightarrow> EPollPoller result" where
  "setCloseCallback ret c p = updateChannel ret c (set_channel c (\<lambda>ch. ch\<lparr>closeCallback := True\<rparr>) p)"

definition setErrCallback :: "int \<Rightarrow> nat \<Rightarrow> EPollPoller \<Rightarrow> EPollPoller result" where
  "setErrCallback ret c p = updateChannel ret c (set_channel c (\<lambda>ch. ch\<lparr>errCallback := True\<rparr>) p)"

lemmas channel_op_defs = enableReading_def disableReading_def enableWriting_def disableWriting_def
  disableAll_def change_events_def setReadCallback_def setWtriteCallback_def setCloseCallback_def
  setErrCallback_def

section \<open>What the calls amount to\<close>

text \<open>The interest list after a log, and when the kernel accepts the next call.\<close>

fun ctl_apply :: "ctl \<Rightarrow> (int \<rightharpoonup> events \<times> nat) \<Rightarrow> (int \<rightharpoonup> events \<times> nat)" where
  "ctl_apply (EPOLL_CTL_ADD, fd, ev, c) m = m(fd \<mapsto> (ev, c))"
| "ctl_apply (EPOLL_CTL_MOD, fd, ev, c) m = m(fd \<mapsto> (ev, c))"
| "ctl_apply (EPOLL_CTL_DEL, fd, ev, c) m = m(fd := None)"

fun ctl_allowed :: "ctl \<Rightarrow> (int \<rightharpoonup> events \<times> nat) \<Rightarrow> bool" where
  "ctl_allowed (EPOLL_CTL_ADD, fd, ev, c) m \<longleftrightarrow> m fd = None"
| "ctl_allowed (EPOLL_CTL_MOD, fd, ev, c) m \<longleftrightarrow> m fd \<noteq> None"
| "ctl_allowed (EPOLL_CTL_DEL, fd, ev, c) m \<longleftrightarrow> m fd \<noteq> None"

primrec interest :: "ctl list \<Rightarrow> (int \<rightharpoonup> events \<times> nat)" where
  "interest [] = Map.empty"
| "interest (x # xs) = ctl_apply x (interest xs)"

primrec disciplined :: "ctl list \<Rightarrow> bool" where
  "disciplined [] \<longleftrightarrow> True"
| "disciplined (x # xs) \<longleftrightarrow> ctl_allowed x (interest xs) \<and> disciplined xs"

text \<open>
  Between two operations: the log is disciplined, each descriptor belongs to its own channel, and a
  channel's index tells whether it is in the interest list, and with which mask.
\<close>

definition chan_ok :: "nat \<Rightarrow> EPollPoller \<Rightarrow> bool" where
  "chan_ok c p \<longleftrightarrow>
     (let ch = store p c in
      ch_index ch \<in> {kNew, kAdded, kDeleted} \<and>
      interest (ctls p) (ch_fd ch) = (if ch_index ch = kAdded then Some (ch_events ch, c) else None) \<and>
      (ch_index ch = kDeleted \<longrightarrow> ch_events ch = 0) \<and>
      (hasChannel c p \<longleftrightarrow> ch_index ch \<noteq> kNew))"

definition poller_inv :: "EPollPoller \<Rightarrow> bool" where
  "poller_inv p \<longleftrightarrow> disciplined (ctls p) \<and> inj (\<lambda>c. ch_fd (store p c)) \<and> (\<forall>c. chan_ok c p)"

lemma poller_inv_new: "inj fds \<Longrightarrow> poller_inv (new_EPollPoller fds)"
  by (simp add: poller_inv_def chan_ok_def new_EPollPoller_def new_Channel_def hasChannel_def index_defs)

text \<open>One channel changes and at most one call is made, about its descriptor.\<close>

definition one_call :: "nat \<Rightarrow> EPollPoller \<Rightarrow> EPollPoller \<Rightarrow> bool" where
  "one_call c p p' \<longleftrightarrow>
     (ctls p' = ctls p \<or> (\<exists>op ev. ctls p' = (op, ch_fd (store p c), ev, c) # ctls p)) \<and>
     (\<forall>d. d \<noteq> c \<longrightarrow> store p' d = store p d) \<and> ch_fd (store p' c) = ch_fd (store p c) \<and>
     (\<forall>fd. fd \<noteq> ch_fd (store p c) \<longrightarrow> channels p' fd = channels p fd)"

lemma one_call_keeps:
  assumes inv: "poller_inv p" and one: "one_call c p p'" and c: "chan_ok c p'" "disciplined (ctls p')"
  shows "poller_inv p'"
proof -
  from one have fd: "ch_fd (store p' d) = ch_fd (store p d)" for d
    by (cases "d = c") (auto simp: one_call_def)
  have "chan_ok d p'" if "d \<noteq> c" for d
  proof -
    have ne: "ch_fd (store p d) \<noteq> ch_fd (store p c)" and d: "chan_ok d p"
      using inv that by (auto simp: poller_inv_def inj_def)
    have "ctl_apply (op, fd', ev, c) m fd = m fd" if "fd' \<noteq> fd" for op fd' ev m fd
      using that by (cases op) simp_all
    then have "interest (ctls p') (ch_fd (store p d)) = interest (ctls p) (ch_fd (store p d))"
      using one ne by (auto simp: one_call_def)
    moreover have "store p' d = store p d" "channels p' (ch_fd (store p d)) = channels p (ch_fd (store p d))"
      using one that ne by (auto simp: one_call_def)
    ultimately show ?thesis using d by (simp add: chan_ok_def hasChannel_def)
  qed
  then have "chan_ok d p'" for d using c(1) by (cases "d = c") simp_all
  then show ?thesis using inv c fd by (simp add: poller_inv_def)
qed

text \<open>A changed mask or callback becomes consistent once it is passed to the poller.\<close>

lemma updateChannel_one_call:
  assumes "updateChannel ret c (set_channel c f p) = Inr p'" and "\<And>ch. ch_fd (f ch) = ch_fd ch"
  shows "one_call c p p'"
  using assms
  by (auto simp: one_call_def updateChannel_def update_ctl_def set_channel_def Let_def split: if_splits)

lemma updateChannel_keeps:
  assumes inv: "poller_inv p"
    and f: "\<And>ch. ch_fd (f ch) = ch_fd ch" "\<And>ch. ch_index (f ch) = ch_index ch"
    and res: "updateChannel ret c (set_channel c f p) = Inr p'"
  shows "poller_inv p'"
proof (rule one_call_keeps [OF inv updateChannel_one_call [OF res f(1)]])
  have d: "disciplined (ctls p)" and c: "chan_ok c p" using inv by (simp_all add: poller_inv_def)
  then have "ch_index (store p c) \<in> {kNew, kAdded, kDeleted}" by (simp add: chan_ok_def Let_def)
  then consider "ch_index (store p c) = -1" | "ch_index (store p c) = 1" | "ch_index (store p c) = 2"
    by (auto simp: index_defs)
  then have "chan_ok c p' \<and> disciplined (ctls p')"
    by cases (use res c d f in \<open>auto simp: chan_ok_def updateChannel_def update_ctl_def set_channel_def Let_def
        hasChannel_def isNoneEvent_def kNoneEvent_def index_defs split: if_splits\<close>)
  then show "chan_ok c p'" and "disciplined (ctls p')" by simp_all
qed

lemma updateChannel_after_keeps:
  "updateChannel r c (set_channel c f p) = Inr p' \<Longrightarrow> poller_inv p \<Longrightarrow>
   (\<And>ch. ch_fd (f ch) = ch_fd ch \<and> ch_index (f ch) = ch_index ch) \<Longrightarrow> poller_inv p'"
  using updateChannel_keeps by blast

lemma removeChannel_keeps:
  assumes inv: "poller_inv p" and res: "removeChannel ret c p = Inr p'"
  shows "poller_inv p'"
proof (rule one_call_keeps [OF inv])
  show "one_call c p p'"
    using res by (auto simp: one_call_def removeChannel_def update_ctl_def set_channel_def Let_def split: if_splits)
  have "disciplined (ctls p)" and "chan_ok c p" using inv by (simp_all add: poller_inv_def)
  then have "chan_ok c p' \<and> disciplined (ctls p')"
    using res by (auto simp: chan_ok_def removeChannel_def update_ctl_def set_channel_def Let_def
        hasChannel_def index_defs split: if_splits)
  then show "chan_ok c p'" and "disciplined (ctls p')" by simp_all
qed

section \<open>Masks under the operations\<close>

lemma updateChannel_events:
  "updateChannel r c p = Inr p' \<Longrightarrow> ch_events (store p' d) = ch_events (store p d)"
  by (auto simp: updateChannel_def update_ctl_def set_channel_def Let_def split: if_splits)

lemma removeChannel_events:
  "removeChannel r c p = Inr p' \<Longrightarrow> ch_events (store p' d) = ch_events (store p d)"
  by (auto simp: removeChannel_def update_ctl_def set_channel_def Let_def split: if_splits)

lemma change_events_events:
  "change_events r f c p = Inr p' \<Longrightarrow> ch_events (store p' c) = f (ch_events (store p c))"
  by (auto simp: change_events_def set_channel_def dest!: updateChannel_events [where d = c])

lemma updateChannel_total: "0 \<le> r \<Longrightarrow> \<exists>p'. updateChannel r c p = Inr p'"
  by (auto simp: updateChannel_def update_ctl_def Let_def)

lemma write_mask [simp]:
  "(e OR kWriteEvent) AND kWriteEvent = kWriteEvent" "kWriteEvent \<noteq> 0"
  "(e AND NOT kWriteEvent) AND kWriteEvent = 0"
  "(e OR kReadEvent) AND kWriteEvent = e AND kWriteEvent"
proof -
  show "(e OR kWriteEvent) AND kWriteEvent = kWriteEvent"
    by (rule bit_word_eqI) (auto simp: bit_and_iff bit_or_iff)
  show "kWriteEvent \<noteq> 0" by (simp add: mask_defs)
  show "(e AND NOT kWriteEvent) AND kWriteEvent = 0"
    by (rule bit_word_eqI) (auto simp: bit_and_iff bit_not_iff)
  have d: "kReadEvent AND kWriteEvent = 0" by (simp add: mask_defs)
  then show "(e OR kReadEvent) AND kWriteEvent = e AND kWriteEvent"
    by (simp add: bit.conj_disj_distrib2)
qed

lemma isWriting_ops:
  "enableWriting r c p = Inr p' \<Longrightarrow> isWriting (store p' c)"
  "disableWriting r c p = Inr p' \<Longrightarrow> \<not> isWriting (store p' c)"
  "disableAll r c p = Inr p' \<Longrightarrow> \<not> isWriting (store p' c)"
  "enableReading r c p = Inr p' \<Longrightarrow> isWriting (store p' c) \<longleftrightarrow> isWriting (store p c)"
  "removeChannel r c p = Inr p' \<Longrightarrow> isWriting (store p' c) \<longleftrightarrow> isWriting (store p c)"
  by (auto simp: isWriting_def enableWriting_def disableWriting_def disableAll_def enableReading_def
      kNoneEvent_def removeChannel_events dest!: change_events_events)

lemma callback_setters_events:
  "setReadCallback r c p = Inr p' \<Longrightarrow> ch_events (store p' c) = ch_events (store p c)"
  "setWtriteCallback r c p = Inr p' \<Longrightarrow> ch_events (store p' c) = ch_events (store p c)"
  "setCloseCallback r c p = Inr p' \<Longrightarrow> ch_events (store p' c) = ch_events (store p c)"
  "setErrCallback r c p = Inr p' \<Longrightarrow> ch_events (store p' c) = ch_events (store p c)"
  by (auto simp: setReadCallback_def setWtriteCallback_def setCloseCallback_def setErrCallback_def
      set_channel_def dest!: updateChannel_events [where d = c])

section \<open>Sequences of operations\<close>

text \<open>Every call through which the library changes a channel or asks the poller, in any order.\<close>

inductive channel_step :: "EPollPoller \<Rightarrow> EPollPoller \<Rightarrow> bool" where
  enable_reading: "enableReading r c p = Inr p' \<Longrightarrow> channel_step p p'"
| disable_reading: "disableReading r c p = Inr p' \<Longrightarrow> channel_step p p'"
| enable_writing: "enableWriting r c p = Inr p' \<Longrightarrow> channel_step p p'"
| disable_writing: "disableWriting r c p = Inr p' \<Longrightarrow> channel_step p p'"
| disable_all: "disableAll r c p = Inr p' \<Longrightarrow> channel_step p p'"
| set_read: "setReadCallback r c p = Inr p' \<Longrightarrow> channel_step p p'"
| set_write: "setWtriteCallback r c p = Inr p' \<Longrightarrow> channel_step p p'"
| set_close: "setCloseCallback r c p = Inr p' \<Longrightarrow> channel_step p p'"
| set_err: "setErrCallback r c p = Inr p' \<Longrightarrow> channel_step p p'"
| tie: "channel_step p (set_channel c tie_channel p)"
| remove: "removeChannel r c p = Inr p' \<Longrightarrow> channel_step p p'"
| wait: "poll outcome p = (active, p') \<Longrightarrow> channel_step p p'"

inductive_cases channel_stepE: "channel_step p p'"

text \<open>Changes of a channel that neither its index nor its mask nor the calls depend on.\<close>

lemma poller_inv_frame:
  assumes "poller_inv p" and "ctls p' = ctls p" and "channels p' = channels p"
    and "\<And>c. ch_fd (store p' c) = ch_fd (store p c)" and "\<And>c. ch_index (store p' c) = ch_index (store p c)"
    and "\<And>c. ch_events (store p' c) = ch_events (store p c)"
  shows "poller_inv p'"
proof -
  have "chan_ok c p' \<longleftrightarrow> chan_ok c p" for c by (simp add: chan_ok_def hasChannel_def Let_def assms(2-))
  then show ?thesis using assms by (simp add: poller_inv_def)
qed

lemma fillActiveChannels_frame:
  "fillActiveChannels evs p = (active, p') \<Longrightarrow>
     ctls p' = ctls p \<and> channels p' = channels p \<and> eventsSize p' = eventsSize p \<and> active = map snd evs \<and>
     (\<forall>c. \<exists>r. store p' c = (store p c)\<lparr>ch_revents := r\<rparr>)"
proof (induction evs p arbitrary: active p' rule: fillActiveChannels.induct)
  case (2 ev c evs p)
  obtain a q where r: "fillActiveChannels evs (set_channel c (\<lambda>ch. ch\<lparr>ch_revents := ev\<rparr>) p) = (a, q)"
    by (cases "fillActiveChannels evs (set_channel c (\<lambda>ch. ch\<lparr>ch_revents := ev\<rparr>) p)")
  note IH = "2.IH" [OF r]
  have "\<exists>r. store q d = (store p d)\<lparr>ch_revents := r\<rparr>" for d
    using IH [THEN conjunct2, THEN conjunct2, THEN conjunct2, THEN conjunct2, rule_format, of d]
    by (cases "d = c") (auto simp: set_channel_def)
  then show ?case using IH "2.prems" r by (auto simp: set_channel_def)
next
  case (1 p)
  have "\<exists>r. store p c = (store p c)\<lparr>ch_revents := r\<rparr>" for c by (rule exI [of _ "ch_revents (store p c)"]) simp
  with 1 show ?case by simp
qed

lemma poll_frame:
  assumes "poll outcome p = (active, p')"
  shows "ctls p' = ctls p \<and> channels p' = channels p \<and>
    (\<forall>c. \<exists>r. store p' c = (store p c)\<lparr>ch_revents := r\<rparr>)"
proof -
  have same: "\<exists>r. store p c = (store p c)\<lparr>ch_revents := r\<rparr>" for c
    by (rule exI [of _ "ch_revents (store p c)"]) simp
  show ?thesis
    using assms same
    by (auto simp: poll_def Let_def split: sum.splits if_splits prod.splits dest!: fillActiveChannels_frame)
qed

lemma channel_step_keeps: "channel_step p p' \<Longrightarrow> poller_inv p \<Longrightarrow> poller_inv p'"
proof (induction rule: channel_step.induct)
  case (tie p c)
  then show ?case by (rule poller_inv_frame) (simp_all add: set_channel_def tie_channel_def)
next
  case (remove r c p p')
  then show ?case by (blast intro: removeChannel_keeps)
next
  case (wait outcome p active p')
  obtain r where "store p' c = (store p c)\<lparr>ch_revents := r c\<rparr>" for c
    using poll_frame [OF wait.hyps] by metis
  then show ?case using wait poll_frame [OF wait.hyps] by (intro poller_inv_frame [of p p']) simp_all
qed (auto simp: channel_op_defs elim!: updateChannel_after_keeps)

lemma channel_steps_keep: "channel_step\<^sup>*\<^sup>* p p' \<Longrightarrow> poller_inv p \<Longrightarrow> poller_inv p'"
  by (induction rule: rtranclp_induct) (auto intro: channel_step_keeps)

section \<open>Properties\<close>

lemma fillActiveChannels_revents:
  assumes "fillActiveChannels evs p = (active, p')" and "distinct (map snd evs)"
  shows "(ev, c) \<in> set evs \<Longrightarrow> ch_revents (store p' c) = ev"
    and "c \<notin> snd ` set evs \<Longrightarrow> store p' c = store p c"
  using assms
proof (induction evs p arbitrary: active p' ev rule: fillActiveChannels.induct)
  case (2 ev1 c1 evs p)
  let ?q = "set_channel c1 (\<lambda>ch. ch\<lparr>ch_revents := ev1\<rparr>) p"
  obtain a q where r: "fillActiveChannels evs ?q = (a, q)" by (cases "fillActiveChannels evs ?q")
  {
    case 1
    then show ?case
      using "2.IH"(1) [OF _ r, of ev] "2.IH"(2) [OF _ r] r by (auto simp: set_channel_def image_iff)
  next
    case 2
    then show ?case using "2.IH"(2) [OF _ r] r by (auto simp: set_channel_def)
  }
qed simp_all

text \<open>C27. Whatever operations on channels with distinct descriptors are performed in whatever order,
  every \<^verbatim>\<open>epoll_ctl\<close> call the poller makes is legal (ADD only of an unregistered descriptor, MOD and
  DEL only of a registered one), the interest list holds a channel exactly when its index says so and
  with the channel's current mask, and a channel the poller still knows is never left out of the
  interest list while it wants events.\<close>

theorem epoll_interest_in_sync:
  assumes "inj fds" and "channel_step\<^sup>*\<^sup>* (new_EPollPoller fds) p"
  shows "disciplined (ctls p) \<and>
    interest (ctls p) (ch_fd (store p c)) =
      (if ch_index (store p c) = kAdded then Some (ch_events (store p c), c) else None) \<and>
    (hasChannel c p \<and> \<not> isNoneEvent (store p c) \<longrightarrow>
      interest (ctls p) (ch_fd (store p c)) = Some (ch_events (store p c), c))"
proof -
  have "poller_inv p" using channel_steps_keep [OF assms(2) poller_inv_new [OF assms(1)]] .
  then show ?thesis by (auto simp: poller_inv_def chan_ok_def Let_def isNoneEvent_def kNoneEvent_def)
qed

theorem epoll_interest_in_sync_witness:
  "\<exists>p. enableReading 0 3 (new_EPollPoller int) = Inr p \<and> disciplined (ctls p) \<and>
     interest (ctls p) 3 = Some (3, 3)"
proof -
  obtain p where p: "enableReading 0 3 (new_EPollPoller int) = Inr p" "ch_index (store p 3) = kAdded"
      "ch_events (store p 3) = 3" "ch_fd (store p 3) = 3"
    by (simp add: channel_op_defs updateChannel_def update_ctl_def new_EPollPoller_def new_Channel_def
        set_channel_def kNew_def kReadEvent_def EPOLLIN_def EPOLLPRI_def)
  then have "channel_step\<^sup>*\<^sup>* (new_EPollPoller int) p"
    by (intro r_into_rtranclp) (rule channel_step.enable_reading)
  with epoll_interest_in_sync [OF inj_of_nat, of p 3] p show ?thesis by auto
qed

lemma poll_events:
  assumes "poll (Inr evs) p = (active, p')" and "distinct (map snd evs)"
  shows "active = map snd evs" and "(ev, c) \<in> set evs \<Longrightarrow> ch_revents (store p' c) = ev"
proof -
  obtain a q where r: "fillActiveChannels evs p = (a, q)" by (cases "fillActiveChannels evs p")
  have a: "a = map snd evs" using fillActiveChannels_frame [OF r] by (elim conjE)
  show "active = map snd evs" using assms(1) r a by (cases evs) (auto simp: poll_def split: if_splits)
  assume ev: "(ev, c) \<in> set evs"
  then have "store p' = store q" using assms(1) r by (cases evs) (auto simp: poll_def split: if_splits)
  then show "ch_revents (store p' c) = ev" using fillActiveChannels_revents(1) [OF r assms(2) ev] by simp
qed

text \<open>A wait that reports events makes exactly the reported channels active, in the kernel's order
  and with the reported events, changes no other channel, and leaves room for more events than were
  reported, so that a full array is doubled before the next wait.\<close>

lemma poll_reports:
  assumes "distinct (map snd evs)" and "evs \<noteq> []" and "length evs \<le> eventsSize p"
  shows "\<exists>p'. poll (Inr evs) p = (map snd evs, p') \<and> length evs < eventsSize p' \<and>
    (\<forall>(ev, c) \<in> set evs. ch_revents (store p' c) = ev) \<and>
    (\<forall>c. c \<notin> snd ` set evs \<longrightarrow> store p' c = store p c) \<and> ctls p' = ctls p"
proof -
  obtain a q where r: "fillActiveChannels evs p = (a, q)" by (cases "fillActiveChannels evs p")
  note frame = fillActiveChannels_frame [OF r] and rev = fillActiveChannels_revents [OF r assms(1)]
  let ?p = "if length evs = eventsSize q then q\<lparr>eventsSize := eventsSize q * 2\<rparr> else q"
  have "poll (Inr evs) p = (map snd evs, ?p)" using r frame assms(2) by (simp add: poll_def)
  moreover have "length evs < eventsSize ?p" using frame assms(2,3) by (cases evs) auto
  ultimately show ?thesis using frame rev by (intro exI [of _ ?p]) auto
qed

end
