(* ===== verification/Tcp_Connection.thy ===== *)
theory Tcp_Connection
  imports Net_Buffer Channel_Poller
begin

text \<open>
  A TCP connection in its loop thread (\<^verbatim>\<open>include/TcpConnection.h\<close>, \<^verbatim>\<open>src/TcpConnection.cpp\<close>).
  The state of the connection object, of the poller it is registered with, and the trace of the
  effects it had are one record, \<open>world\<close>.  The kernel is a parameter: what the n-th system call
  answers is given by functions, with the documented bounds (a write takes at most the bytes it is
  given, a read returns at most the space it is given).  The user's callbacks are parameters too.
  The lemmas show that bytes reach the wire in the order they were sent, none lost or duplicated,
  that write interest is on exactly while data is pending, and that the write side is shut down once
  and only after the last byte.
\<close>

section \<open>State\<close>

datatype StateE = kDisconnected | kConnecting | kConnected | kDisconnecting

text \<open>States are ordered by the life of a connection, which is not the order of the enumeration.\<close>

fun life_stage :: "StateE \<Rightarrow> nat" where
  "life_stage kConnecting = 0"
| "life_stage kConnected = 1"
| "life_stage kDisconnecting = 2"
| "life_stage kDisconnected = 3"

lemma life_stage_inj [simp]: "life_stage s = life_stage t \<longleftrightarrow> s = t"
  by (cases s; cases t) simp_all

instantiation StateE :: linorder
begin

definition less_eq_StateE :: "StateE \<Rightarrow> StateE \<Rightarrow> bool" where
  "s \<le> t \<longleftrightarrow> life_stage s \<le> life_stage t"

definition less_StateE :: "StateE \<Rightarrow> StateE \<Rightarrow> bool" where
  "s < t \<longleftrightarrow> life_stage s < life_stage t"

instance
  by standard (auto simp: less_eq_StateE_def less_StateE_def)

end

lemmas state_order = less_eq_StateE_def less_StateE_def

definition EWOULDBLOCK :: int where "EWOULDBLOCK = 11"
definition EPIPE :: int where "EPIPE = 32"
definition ECONNRESET :: int where "ECONNRESET = 104"

text \<open>
  Functors queued in the loop.  \<open>SendInLoop\<close> keeps a pointer to memory the connection does not own
  and the length passed with it; \<open>RemoveConnection\<close> is what the close callback of the server queues in its loop.
\<close>

datatype conn_functor = WriteComplete | HighWater nat | SendInLoop string nat | ShutdownInLoop | RemoveConnection

datatype effect =
    Wire string | ShutdownWrite | Queue conn_functor | SetKeepAlive bool | LogError

record TcpConnection =
  tc_state :: StateE
  tc_channel :: nat
  writeCompleteCallback :: bool
  highWaterMarkCallback :: bool
  highWaterMark :: nat
  inputBuffer :: Buffer
  outputBuffer :: Buffer

text \<open>
  The answers of the n-th system call: an errno or a count for \<^verbatim>\<open>write\<close> and \<^verbatim>\<open>sendfile\<close>, an errno or
  data for \<^verbatim>\<open>readv\<close>, the return value of \<^verbatim>\<open>epoll_ctl\<close>.
\<close>

record kernel =
  k_write :: "nat \<Rightarrow> int + nat"
  k_read :: "nat \<Rightarrow> int + string"
  k_ctl :: "nat \<Rightarrow> int"

record world =
  conn :: TcpConnection
  poller :: EPollPoller
  kern :: kernel
  clock :: nat
  trace :: "effect list"

record callbacks =
  connectionCallback :: "world \<Rightarrow> world result"
  messageCallback :: "int \<Rightarrow> world \<Rightarrow> world result"
  closedCallback :: "world \<Rightarrow> world result"

definition emit :: "effect \<Rightarrow> world \<Rightarrow> world" where
  "emit e w = w\<lparr>trace := trace w @ [e]\<rparr>"

definition set_conn :: "(TcpConnection \<Rightarrow> TcpConnection) \<Rightarrow> world \<Rightarrow> world" where
  "set_conn f w = w\<lparr>conn := f (conn w)\<rparr>"

definition my_channel :: "world \<Rightarrow> Channel" where
  "my_channel w = store (poller w) (tc_channel (conn w))"

text \<open>A channel operation of this connection, which may make one \<^verbatim>\<open>epoll_ctl\<close> call.\<close>

definition channel_call ::
    "(int \<Rightarrow> nat \<Rightarrow> EPollPoller \<Rightarrow> EPollPoller result) \<Rightarrow> world \<Rightarrow> world result" where
  "channel_call f w =
     bind_result (f (k_ctl (kern w) (clock w)) (tc_channel (conn w)) (poller w))
       (\<lambda>p. Inr (w\<lparr>poller := p, clock := clock w + 1\<rparr>))"

definition sys_write :: "string \<Rightarrow> world \<Rightarrow> (int + nat) \<times> world" where
  "sys_write msg w =
     (case k_write (kern w) (clock w) of
        Inl e \<Rightarrow> (Inl e, w\<lparr>clock := clock w + 1\<rparr>)
      | Inr k \<Rightarrow> let n = min k (length msg)
                in (Inr n, emit (Wire (take n msg)) (w\<lparr>clock := clock w + 1\<rparr>)))"

section \<open>Construction\<close>

definition new_TcpConnection :: "nat \<Rightarrow> EPollPoller \<Rightarrow> kernel \<Rightarrow> world result" where
  "new_TcpConnection c p k =
     (let w = \<lparr>conn = \<lparr>tc_state = kConnecting, tc_channel = c, writeCompleteCallback = False,
                     highWaterMarkCallback = False, highWaterMark = 64 * 1024 * 1024,
                     inputBuffer = new_Buffer kInitialSize, outputBuffer = new_Buffer kInitialSize\<rparr>,
              poller = p, kern = k, clock = 0, trace = []\<rparr>
      in bind_result (channel_call setReadCallback w) (\<lambda>w1.
         bind_result (channel_call setWtriteCallback w1) (\<lambda>w2.
         bind_result (channel_call setCloseCallback w2) (\<lambda>w3.
         bind_result (channel_call setErrCallback w3) (\<lambda>w4.
         Inr (emit (SetKeepAlive True) w4))))))"

section \<open>Sending\<close>

definition sendInLoop :: "string \<Rightarrow> world \<Rightarrow> world result" where
  "sendInLoop message w =
     (if tc_state (conn w) = kDisconnected then Inr (emit LogError w) else
      let (nwrote, faultError, w1) =
        (if \<not> isWriting (my_channel w) \<and> readableBytes (outputBuffer (conn w)) = 0 then
           (case sys_write message w of
              (Inr n, w') \<Rightarrow>
                (n, False, if length message - n = 0 \<and> writeCompleteCallback (conn w')
                           then emit (Queue WriteComplete) w' else w')
            | (Inl errno, w') \<Rightarrow>
                if errno \<noteq> EWOULDBLOCK
                then (0, errno = EPIPE \<or> errno = ECONNRESET, emit LogError w')
                else (0, False, w'))
         else (0, False, w));
        remaing = length message - nwrote
      in if \<not> faultError \<and> 0 < remaing then
           let oldlen = readableBytes (outputBuffer (conn w1));
               w2 = (if highWaterMark (conn w1) \<le> oldlen + remaing \<and> oldlen < highWaterMark (conn w1) \<and>
                        highWaterMarkCallback (conn w1)
                     then emit (Queue (HighWater (oldlen + remaing))) w1 else w1);
               w3 = set_conn (\<lambda>t. t\<lparr>outputBuffer := append_buf (drop nwrote message) (outputBuffer t)\<rparr>) w2
           in if \<not> isWriting (my_channel w3) then channel_call enableWriting w3 else Inr w3
         else Inr w1)"

text \<open>
  The two overloads of \<^verbatim>\<open>send\<close>.  From another thread both queue a functor that holds a pointer:
  for a string it points into the caller's string, for a buffer into a temporary that is destroyed
  before the functor runs, and the length is read before or after the buffer was emptied.
\<close>

definition send_string :: "bool \<Rightarrow> string \<Rightarrow> world \<Rightarrow> world result" where
  "send_string inLoop buf w =
     (if tc_state (conn w) = kConnected
      then if inLoop then sendInLoop buf w else Inr (emit (Queue (SendInLoop buf (length buf))) w)
      else Inr w)"

definition send_buffer :: "bool \<Rightarrow> bool \<Rightarrow> Buffer \<Rightarrow> world \<Rightarrow> (Buffer \<times> world) result" where
  "send_buffer inLoop length_first buf w =
     (if tc_state (conn w) = kConnected
      then if inLoop
           then bind_result (sendInLoop (Prelude.slice (peek buf) (peek buf + readableBytes buf) (buffer buf)) w)
                  (\<lambda>w'. Inr (retrieveAll buf, w'))
           else bind_result (retrieveAllAsString buf) (\<lambda>(s, buf').
                  Inr (buf', emit (Queue (SendInLoop s
                    (if length_first then readableBytes buf else readableBytes buf'))) w))
      else Inr (buf, w))"

text \<open>Running a queued functor; \<open>alive\<close> tells whether the memory it points to still exists.\<close>

definition shutdownInLoop :: "world \<Rightarrow> world" where
  "shutdownInLoop w = (if \<not> isWriting (my_channel w) then emit ShutdownWrite w else w)"

definition run_functor :: "bool \<Rightarrow> conn_functor \<Rightarrow> world \<Rightarrow> world result" where
  "run_functor alive f w =
     (case f of
        SendInLoop s n \<Rightarrow> if alive \<or> n = 0 then sendInLoop (take n s) w else Inl UseAfterFree
      | ShutdownInLoop \<Rightarrow> Inr (shutdownInLoop w)
      | _ \<Rightarrow> Inr w)"

definition shutdown :: "bool \<Rightarrow> world \<Rightarrow> world" where
  "shutdown inLoop w =
     (if tc_state (conn w) = kConnected
      then let w1 = set_conn (\<lambda>t. t\<lparr>tc_state := kDisconnecting\<rparr>) w
           in if inLoop then shutdownInLoop w1 else emit (Queue ShutdownInLoop) w1
      else w)"

section \<open>Life cycle\<close>

definition connectEstablished :: "callbacks \<Rightarrow> world \<Rightarrow> world result" where
  "connectEstablished cb w =
     (let w1 = set_conn (\<lambda>t. t\<lparr>tc_state := kConnected\<rparr>) w;
          w2 = w1\<lparr>poller := set_channel (tc_channel (conn w1)) tie_channel (poller w1)\<rparr>
      in bind_result (channel_call enableReading w2) (connectionCallback cb))"

definition connectDestroyed :: "callbacks \<Rightarrow> world \<Rightarrow> world result" where
  "connectDestroyed cb w =
     bind_result
       (if tc_state (conn w) = kConnected
        then bind_result (channel_call disableAll (set_conn (\<lambda>t. t\<lparr>tc_state := kDisconnected\<rparr>) w))
               (connectionCallback cb)
        else Inr w)
       (channel_call removeChannel)"

definition handleClose :: "callbacks \<Rightarrow> world \<Rightarrow> world result" where
  "handleClose cb w =
     bind_result (channel_call disableAll (set_conn (\<lambda>t. t\<lparr>tc_state := kDisconnected\<rparr>) w))
       (\<lambda>w1. bind_result (connectionCallback cb w1) (closedCallback cb))"

text \<open>\<^verbatim>\<open>handleError\<close> reads the socket's error and logs it.\<close>

definition handleError :: "world \<Rightarrow> world" where
  "handleError w = emit LogError w"

definition handleRead :: "callbacks \<Rightarrow> int \<Rightarrow> world \<Rightarrow> world result" where
  "handleRead cb recvTime w =
     (let outcome = (case k_read (kern w) (clock w) of
            Inl e \<Rightarrow> Inl e
          | Inr data \<Rightarrow> Inr (take (readv_capacity (inputBuffer (conn w))) data));
          (buf, n, savedErrno) = readFd outcome (inputBuffer (conn w));
          w1 = set_conn (\<lambda>t. t\<lparr>inputBuffer := buf\<rparr>) (w\<lparr>clock := clock w + 1\<rparr>)
      in if 0 < n then messageCallback cb recvTime w1
         else if n = 0 then handleClose cb w1
         else Inr (handleError (emit LogError w1)))"

definition handleWrite :: "world \<Rightarrow> world result" where
  "handleWrite w =
     (if isWriting (my_channel w) then
        let out = outputBuffer (conn w);
            (outcome, w1) = sys_write (Prelude.slice (peek out) (peek out + readableBytes out) (buffer out)) w;
            (n, bytes, savedErrno) = writeFd outcome out
        in if 0 < n then
             let w2 = set_conn (\<lambda>t. t\<lparr>outputBuffer := retrieve (nat n) (outputBuffer t)\<rparr>) w1
             in bind_result
                  (if readableBytes (outputBuffer (conn w2)) = 0
                   then bind_result (channel_call disableWriting w2)
                          (\<lambda>w3. Inr (if writeCompleteCallback (conn w3)
                                     then emit (Queue WriteComplete) w3 else w3))
                   else Inr w2)
                  (\<lambda>w4. Inr (if tc_state (conn w4) = kDisconnecting then shutdownInLoop w4 else w4))
           else Inr (emit LogError w1)
      else Inr (emit LogError w))"

section \<open>Sending files\<close>

text \<open>
  \<open>fdata\<close> is the content behind the descriptor; \<^verbatim>\<open>sendfile\<close> takes at most \<open>count\<close> bytes from \<open>off\<close> and
  advances it.  The functor for the rest is run by \<^verbatim>\<open>runInLoop\<close> in the loop thread, that is at once:
  the recursion may never end, and then the value is \<open>None\<close>.
\<close>

definition sys_sendfile :: "string \<Rightarrow> nat \<Rightarrow> nat \<Rightarrow> world \<Rightarrow> (int + nat) \<times> world" where
  "sys_sendfile fdata off count w =
     sys_write (take count (drop off fdata)) w"

text \<open>One call: the rest to be sent, if the call goes on, and the new world.\<close>

definition sendFile_iter :: "string \<Rightarrow> nat \<Rightarrow> nat \<Rightarrow> world \<Rightarrow> (nat \<times> nat) option \<times> world" where
  "sendFile_iter fdata off count w =
     (if tc_state (conn w) = kDisconnected then (None, emit LogError w) else
      let (nwrote, faultError, w1) =
        (if \<not> isWriting (my_channel w) \<and> readableBytes (outputBuffer (conn w)) = 0 then
           (case sys_sendfile fdata off count w of
              (Inr n, w') \<Rightarrow>
                (n, False, if count - n = 0 \<and> writeCompleteCallback (conn w')
                           then emit (Queue WriteComplete) w' else w')
            | (Inl errno, w') \<Rightarrow>
                if errno \<noteq> EWOULDBLOCK
                then (0, errno = EPIPE \<or> errno = ECONNRESET, emit LogError w')
                else (0, False, w'))
         else (0, False, w));
        remaining = count - nwrote
      in (if \<not> faultError \<and> 0 < remaining then Some (off + nwrote, remaining) else None, w1))"

partial_function (option) sendFileInLoop :: "string \<Rightarrow> nat \<Rightarrow> nat \<Rightarrow> world \<Rightarrow> world option" where
  "sendFileInLoop fdata off count w =
     (case sendFile_iter fdata off count w of
        (None, w') \<Rightarrow> Some w'
      | (Some (off', remaining), w') \<Rightarrow> sendFileInLoop fdata off' remaining w')"

declare sendFileInLoop.simps [code]

definition sendFile :: "string \<Rightarrow> nat \<Rightarrow> nat \<Rightarrow> world \<Rightarrow> world option" where
  "sendFile fdata off count w =
     (if tc_state (conn w) = kConnected then sendFileInLoop fdata off count w else Some (emit LogError w))"

section \<open>The stream of bytes\<close>

fun wire_of :: "effect \<Rightarrow> string" where
  "wire_of (Wire s) = s"
| "wire_of _ = []"

definition wire :: "effect list \<Rightarrow> string" where
  "wire tr = concat (map wire_of tr)"

definition after_shutdown :: "effect list \<Rightarrow> effect list" where
  "after_shutdown tr = dropWhile (\<lambda>e. e \<noteq> ShutdownWrite) tr"

definition pending :: "world \<Rightarrow> string" where
  "pending w = contents (outputBuffer (conn w))"

lemma wire_simps [simp]: "wire [] = []" "wire (xs @ ys) = wire xs @ wire ys" "wire (x # xs) = wire_of x @ wire xs"
  by (simp_all add: wire_def)

lemma after_shutdown_snoc:
  "after_shutdown (tr @ [e]) =
     (if ShutdownWrite \<in> set tr then after_shutdown tr @ [e] else if e = ShutdownWrite then [e] else [])"
  by (auto simp: after_shutdown_def dropWhile_append dropWhile_eq_Nil_conv)

text \<open>
  The invariant of a connection to which the bytes \<open>s\<close> have been given: what is on the wire and what
  is pending make up \<open>s\<close>; write interest is on exactly while bytes are pending (and off once
  disconnected); the write side was shut down at most once, with nothing pending and no byte written
  afterwards, and a disconnecting connection is either still writing or shut down.
\<close>

definition shut_ok :: "world \<Rightarrow> bool" where
  "shut_ok w \<longleftrightarrow>
     (if ShutdownWrite \<in> set (trace w)
      then tc_state (conn w) \<in> {kDisconnecting, kDisconnected} \<and> pending w = [] \<and>
           count_list (trace w) ShutdownWrite = 1 \<and> wire (after_shutdown (trace w)) = []
      else tc_state (conn w) = kDisconnecting \<longrightarrow> isWriting (my_channel w))"

definition conn_inv :: "string \<Rightarrow> world \<Rightarrow> bool" where
  "conn_inv s w \<longleftrightarrow> buf_inv (inputBuffer (conn w)) \<and> buf_inv (outputBuffer (conn w)) \<and>
     wire (trace w) @ pending w = s \<and>
     (isWriting (my_channel w) \<longleftrightarrow> tc_state (conn w) \<noteq> kDisconnected \<and> pending w \<noteq> []) \<and> shut_ok w"

lemma conn_invD:
  assumes "conn_inv s w"
  shows "buf_inv (inputBuffer (conn w))" "buf_inv (outputBuffer (conn w))"
    "wire (trace w) @ pending w = s"
    "isWriting (my_channel w) \<longleftrightarrow> tc_state (conn w) \<noteq> kDisconnected \<and> pending w \<noteq> []" "shut_ok w"
  using assms by (simp_all add: conn_inv_def)

lemma emit_simps [simp]:
  "conn (emit e w) = conn w" "poller (emit e w) = poller w" "clock (emit e w) = clock w"
  "kern (emit e w) = kern w" "trace (emit e w) = trace w @ [e]" "my_channel (emit e w) = my_channel w"
  "pending (emit e w) = pending w"
  by (simp_all add: emit_def my_channel_def pending_def)

lemma set_conn_simps [simp]:
  "conn (set_conn f w) = f (conn w)" "poller (set_conn f w) = poller w" "clock (set_conn f w) = clock w"
  "kern (set_conn f w) = kern w" "trace (set_conn f w) = trace w"
  by (simp_all add: set_conn_def)

text \<open>Effects that are neither bytes nor the shutdown do not matter.\<close>

lemma conn_inv_emit:
  "wire_of e = [] \<Longrightarrow> e \<noteq> ShutdownWrite \<Longrightarrow> conn_inv s w \<Longrightarrow> conn_inv s (emit e w)"
  by (auto simp: conn_inv_def shut_ok_def after_shutdown_snoc)

lemma conn_inv_clock: "conn_inv s (w\<lparr>clock := n\<rparr>) = conn_inv s w"
  by (simp add: conn_inv_def shut_ok_def my_channel_def pending_def)

lemma channel_call_frame:
  assumes "channel_call f w = Inr w'"
  obtains p where "f (k_ctl (kern w) (clock w)) (tc_channel (conn w)) (poller w) = Inr p"
    and "w' = w\<lparr>poller := p, clock := clock w + 1\<rparr>"
  using assms by (auto simp: channel_call_def bind_result_Inr_iff)

lemma channel_call_writing:
  "channel_call enableWriting w = Inr w' \<Longrightarrow> isWriting (my_channel w')"
  "channel_call disableWriting w = Inr w' \<Longrightarrow> \<not> isWriting (my_channel w')"
  "channel_call disableAll w = Inr w' \<Longrightarrow> \<not> isWriting (my_channel w')"
  "channel_call enableReading w = Inr w' \<Longrightarrow> isWriting (my_channel w') \<longleftrightarrow> isWriting (my_channel w)"
  "channel_call removeChannel w = Inr w' \<Longrightarrow> isWriting (my_channel w') \<longleftrightarrow> isWriting (my_channel w)"
  by (auto elim!: channel_call_frame simp: my_channel_def dest: isWriting_ops)

lemma channel_call_same:
  assumes "channel_call f w = Inr w'"
  shows "conn w' = conn w" "trace w' = trace w" "kern w' = kern w" "pending w' = pending w"
    "clock w' = clock w + 1"
  using assms by (auto elim!: channel_call_frame simp: pending_def)

section \<open>Every operation keeps the invariant\<close>

text \<open>A direct write that fails because the peer is gone drops the message.\<close>

definition direct :: "world \<Rightarrow> bool" where
  "direct w \<longleftrightarrow> \<not> isWriting (my_channel w) \<and> readableBytes (outputBuffer (conn w)) = 0"

definition peer_gone :: "world \<Rightarrow> bool" where
  "peer_gone w \<longleftrightarrow> direct w \<and>
     (case k_write (kern w) (clock w) of Inl e \<Rightarrow> e = EPIPE \<or> e = ECONNRESET | Inr _ \<Rightarrow> False)"

text \<open>The part of \<open>sendInLoop\<close> after the direct write.\<close>

definition buffer_rest :: "string \<Rightarrow> world \<Rightarrow> world result" where
  "buffer_rest rest w1 =
     (let oldlen = readableBytes (outputBuffer (conn w1));
          w2 = (if highWaterMark (conn w1) \<le> oldlen + length rest \<and> oldlen < highWaterMark (conn w1) \<and>
                   highWaterMarkCallback (conn w1)
                then emit (Queue (HighWater (oldlen + length rest))) w1 else w1);
          w3 = set_conn (\<lambda>t. t\<lparr>outputBuffer := append_buf rest (outputBuffer t)\<rparr>) w2
      in if \<not> isWriting (my_channel w3) then channel_call enableWriting w3 else Inr w3)"

lemma my_channel_set_output [simp]:
  "my_channel (set_conn (\<lambda>t. t\<lparr>outputBuffer := f t\<rparr>) w) = my_channel w"
  "my_channel (set_conn (\<lambda>t. t\<lparr>tc_state := st\<rparr>) w) = my_channel w"
  "my_channel (set_conn (\<lambda>t. t\<lparr>inputBuffer := f t\<rparr>) w) = my_channel w"
  by (simp_all add: my_channel_def)

lemma buffer_rest_inv:
  assumes inv: "conn_inv s w" and st: "tc_state (conn w) = kConnected" and ne: "rest \<noteq> []"
    and res: "buffer_rest rest w = Inr w'"
  shows "conn_inv (s @ rest) w' \<and> tc_state (conn w') = kConnected"
proof -
  note D = conn_invD [OF inv]
  define w2 where "w2 = (if highWaterMark (conn w) \<le> readableBytes (outputBuffer (conn w)) + length rest \<and>
      readableBytes (outputBuffer (conn w)) < highWaterMark (conn w) \<and> highWaterMarkCallback (conn w)
      then emit (Queue (HighWater (readableBytes (outputBuffer (conn w)) + length rest))) w else w)"
  have inv2: "conn_inv s w2" and st2: "tc_state (conn w2) = kConnected"
    using inv st by (simp_all add: w2_def conn_inv_emit)
  note D2 = conn_invD [OF inv2]
  let ?w3 = "set_conn (\<lambda>t. t\<lparr>outputBuffer := append_buf rest (outputBuffer t)\<rparr>) w2"
  have pend: "pending ?w3 = pending w2 @ rest"
    using buf_queue.bytes_put [OF D2(2)] by (simp add: pending_def)
  have no: "ShutdownWrite \<notin> set (trace w2)" using D2(5) st2 by (auto simp: shut_ok_def)
  have r: "(if \<not> isWriting (my_channel ?w3) then channel_call enableWriting ?w3 else Inr ?w3) = Inr w'"
    using res by (simp only: buffer_rest_def w2_def Let_def)
  have facts: "isWriting (my_channel w')" "conn w' = conn ?w3" "trace w' = trace w2" "pending w' = pending ?w3"
    using r channel_call_writing(1) channel_call_same by (auto split: if_splits)
  show ?thesis
    using facts D2 st2 ne pend no buf_queue.inv_put [OF D2(2)]
    by (auto simp: conn_inv_def shut_ok_def)
qed

text \<open>\<open>sendInLoop\<close> by cases: what is written at once and what is left for the buffer.\<close>

lemma sendInLoop_indirect:
  "tc_state (conn w) \<noteq> kDisconnected \<Longrightarrow> \<not> direct w \<Longrightarrow>
   sendInLoop m w = (if m = [] then Inr w else buffer_rest m w)"
  by (auto simp: sendInLoop_def direct_def buffer_rest_def Let_def)

lemma sendInLoop_error:
  assumes "tc_state (conn w) \<noteq> kDisconnected" and "direct w" and "k_write (kern w) (clock w) = Inl e"
  shows "sendInLoop m w =
    (let w1 = (if e \<noteq> EWOULDBLOCK then emit LogError (w\<lparr>clock := clock w + 1\<rparr>) else w\<lparr>clock := clock w + 1\<rparr>)
     in if peer_gone w \<or> m = [] then Inr w1 else buffer_rest m w1)"
  using assms
  by (auto simp: sendInLoop_def direct_def peer_gone_def sys_write_def buffer_rest_def EWOULDBLOCK_def
      EPIPE_def ECONNRESET_def Let_def)

lemma sendInLoop_written:
  assumes "tc_state (conn w) \<noteq> kDisconnected" and "direct w" and "k_write (kern w) (clock w) = Inr k"
  shows "sendInLoop m w =
    (let w1 = emit (Wire (take k m)) (w\<lparr>clock := clock w + 1\<rparr>) in
     if length m \<le> k then Inr (if writeCompleteCallback (conn w) then emit (Queue WriteComplete) w1 else w1)
     else buffer_rest (drop k m) w1)"
  using assms
  by (auto simp: sendInLoop_def direct_def sys_write_def buffer_rest_def Let_def min_def not_le)

lemma conn_inv_wire:
  assumes "conn_inv s w" and "tc_state (conn w) = kConnected" and "pending w = []"
  shows "conn_inv (s @ x) (emit (Wire x) w)"
  using assms by (auto simp: conn_inv_def shut_ok_def)

lemma direct_pending: "conn_inv s w \<Longrightarrow> direct w \<Longrightarrow> pending w = []"
  by (auto simp: direct_def pending_def readableBytes_0_iff dest: conn_invD(2))

lemma sendInLoop_inv:
  assumes inv: "conn_inv s w" and st: "tc_state (conn w) = kConnected" and res: "sendInLoop m w = Inr w'"
  shows "conn_inv (s @ (if peer_gone w then [] else m)) w'"
proof -
  let ?w = "w\<lparr>clock := clock w + 1\<rparr>"
  have inv': "conn_inv s ?w" and st': "tc_state (conn ?w) = kConnected" using inv st conn_inv_clock by simp_all
  have nd: "tc_state (conn w) \<noteq> kDisconnected" using st by simp
  show ?thesis
  proof (cases "direct w")
    case False
    then have "\<not> peer_gone w" by (simp add: peer_gone_def)
    with False show ?thesis
      using buffer_rest_inv [OF inv st] res inv nd by (auto simp: sendInLoop_indirect split: if_splits)
  next
    case d: True
    show ?thesis
    proof (cases "k_write (kern w) (clock w)")
      case (Inl e)
      let ?w1 = "if e \<noteq> EWOULDBLOCK then emit LogError ?w else ?w"
      have "conn_inv s ?w1" "tc_state (conn ?w1) = kConnected" using inv' st' by (simp_all add: conn_inv_emit)
      then show ?thesis
        using buffer_rest_inv [of s ?w1 m w'] res sendInLoop_error [OF nd d Inl, of m]
        by (auto simp: Let_def split: if_splits)
    next
      case (Inr k)
      then have pg: "\<not> peer_gone w" by (simp add: peer_gone_def)
      let ?w1 = "emit (Wire (take k m)) ?w"
      have p: "pending ?w = []" using direct_pending [OF inv d] by (simp add: pending_def)
      have i1: "conn_inv (s @ take k m) ?w1" using conn_inv_wire [OF inv' st' p] .
      have c: "tc_state (conn ?w1) = kConnected" using st' by simp
      show ?thesis
      proof (cases "length m \<le> k")
        case True
        then show ?thesis
          using i1 pg res sendInLoop_written [OF nd d Inr, of m] conn_inv_emit [of "Queue WriteComplete"]
          by (auto simp: Let_def split: if_splits)
      next
        case False
        then show ?thesis
          using buffer_rest_inv [OF i1 c, of "drop k m" w'] pg res sendInLoop_written [OF nd d Inr, of m]
          by (auto simp: Let_def)
      qed
    qed
  qed
qed

lemma shutdownInLoop_inv:
  assumes "buf_inv (inputBuffer (conn w))" "buf_inv (outputBuffer (conn w))" "wire (trace w) @ pending w = s"
    and "isWriting (my_channel w) \<longleftrightarrow> pending w \<noteq> []"
    and "tc_state (conn w) = kDisconnecting" and "ShutdownWrite \<notin> set (trace w)"
  shows "conn_inv s (shutdownInLoop w)"
  using assms by (auto simp: shutdownInLoop_def conn_inv_def shut_ok_def after_shutdown_snoc)

lemma shutdown_inv:
  assumes inv: "conn_inv s w"
  shows "conn_inv s (shutdown True w)"
proof (cases "tc_state (conn w) = kConnected")
  case True
  let ?w = "set_conn (\<lambda>t. t\<lparr>tc_state := kDisconnecting\<rparr>) w"
  have "pending ?w = pending w" by (simp add: pending_def)
  then have "conn_inv s (shutdownInLoop ?w)"
    using conn_invD [OF inv] True by (intro shutdownInLoop_inv) (auto simp: shut_ok_def)
  with True show ?thesis by (simp add: shutdown_def Let_def)
qed (use inv in \<open>simp add: shutdown_def\<close>)

text \<open>\<open>handleWrite\<close> by cases.\<close>

definition wrote :: "nat \<Rightarrow> world \<Rightarrow> world" where
  "wrote n w = set_conn (\<lambda>t. t\<lparr>outputBuffer := retrieve n (outputBuffer t)\<rparr>)
     (emit (Wire (take n (pending w))) (w\<lparr>clock := clock w + 1\<rparr>))"

definition wrote_all :: "world \<Rightarrow> world result" where
  "wrote_all w =
     bind_result
       (if readableBytes (outputBuffer (conn w)) = 0
        then bind_result (channel_call disableWriting w)
               (\<lambda>w3. Inr (if writeCompleteCallback (conn w3) then emit (Queue WriteComplete) w3 else w3))
        else Inr w)
       (\<lambda>w4. Inr (if tc_state (conn w4) = kDisconnecting then shutdownInLoop w4 else w4))"

lemma handleWrite_cases:
  assumes "buf_inv (outputBuffer (conn w))" and "isWriting (my_channel w)"
  shows "handleWrite w =
    (case k_write (kern w) (clock w) of
       Inl e \<Rightarrow> Inr (emit LogError (w\<lparr>clock := clock w + 1\<rparr>))
     | Inr k \<Rightarrow> let n = min k (length (pending w)) in
         if n = 0 then Inr (emit LogError (emit (Wire []) (w\<lparr>clock := clock w + 1\<rparr>)))
         else wrote_all (wrote n w))"
proof -
  have sl: "Prelude.slice (peek (outputBuffer (conn w)))
      (peek (outputBuffer (conn w)) + readableBytes (outputBuffer (conn w))) (buffer (outputBuffer (conn w))) = pending w"
    using slice_contents [OF assms(1)] by (simp add: pending_def)
  show ?thesis
  proof (cases "k_write (kern w) (clock w)")
    case (Inl e)
    then show ?thesis using assms(2) by (simp add: handleWrite_def Let_def sys_write_def writeFd_def)
  next
    case (Inr k)
    define n where "n = min k (length (pending w))"
    have sw: "sys_write (pending w) w = (Inr n, emit (Wire (take n (pending w))) (w\<lparr>clock := clock w + 1\<rparr>))"
      using Inr by (simp add: sys_write_def Let_def n_def)
    show ?thesis
      unfolding handleWrite_def Let_def sl sw wrote_def wrote_all_def Inr sum.case n_def [symmetric]
      by (cases "n = 0") (simp_all only: assms(2) writeFd_def sum.case prod.case Let_def if_True if_False
        of_nat_0_less_iff zero_less_iff_neq_zero take_0 nat_int simp_thms)
  qed
qed

lemma wrote_inv:
  assumes inv: "conn_inv s w" and wr: "isWriting (my_channel w)" and n: "0 < n"
  shows "buf_inv (inputBuffer (conn (wrote n w)))" "buf_inv (outputBuffer (conn (wrote n w)))"
    "wire (trace (wrote n w)) @ pending (wrote n w) = s" "pending (wrote n w) = drop n (pending w)"
    "my_channel (wrote n w) = my_channel w" "tc_state (conn (wrote n w)) = tc_state (conn w)"
    "ShutdownWrite \<notin> set (trace (wrote n w))"
proof -
  note D = conn_invD [OF inv]
  show p: "pending (wrote n w) = drop n (pending w)"
    using buf_queue.bytes_get [OF D(2)] by (simp add: wrote_def pending_def)
  show "buf_inv (outputBuffer (conn (wrote n w)))"
    using buf_queue.inv_get [OF D(2)] by (simp add: wrote_def)
  show "wire (trace (wrote n w)) @ pending (wrote n w) = s"
    using D(3) unfolding p by (simp add: wrote_def)
  show "ShutdownWrite \<notin> set (trace (wrote n w))"
    using D(4,5) wr by (auto simp: wrote_def shut_ok_def)
  show "my_channel (wrote n w) = my_channel w" by (simp add: wrote_def my_channel_def)
qed (use conn_invD [OF inv] in \<open>simp_all add: wrote_def\<close>)

lemma wrote_all_inv:
  assumes "buf_inv (inputBuffer (conn w))" "buf_inv (outputBuffer (conn w))" "wire (trace w) @ pending w = s"
    and "isWriting (my_channel w)" and "tc_state (conn w) \<noteq> kDisconnected"
    and "ShutdownWrite \<notin> set (trace w)" and res: "wrote_all w = Inr w'"
  shows "conn_inv s w'"
proof -
  obtain w4 where w4: "(if readableBytes (outputBuffer (conn w)) = 0
        then bind_result (channel_call disableWriting w)
               (\<lambda>w3. Inr (if writeCompleteCallback (conn w3) then emit (Queue WriteComplete) w3 else w3))
        else Inr w) = Inr w4"
      and w': "w' = (if tc_state (conn w4) = kDisconnecting then shutdownInLoop w4 else w4)"
    using res unfolding wrote_all_def bind_result_Inr_iff by auto
  have e: "readableBytes (outputBuffer (conn w)) = 0 \<longleftrightarrow> pending w = []"
    using readableBytes_0_iff [OF assms(2)] by (simp add: pending_def)
  have same: "conn w4 = conn w" "wire (trace w4) = wire (trace w)" "pending w4 = pending w"
      "ShutdownWrite \<notin> set (trace w4)" "isWriting (my_channel w4) \<longleftrightarrow> pending w \<noteq> []"
    using w4 assms(4,6) e by (auto simp: bind_result_Inr_iff channel_call_same split: if_splits
        dest: channel_call_writing(2))
  show ?thesis
  proof (cases "tc_state (conn w4) = kDisconnecting")
    case True
    then show ?thesis using w' same assms by (auto intro!: shutdownInLoop_inv)
  next
    case False
    then show ?thesis using w' same assms by (auto simp: conn_inv_def shut_ok_def)
  qed
qed

lemma handleWrite_inv:
  assumes inv: "conn_inv s w" and res: "handleWrite w = Inr w'"
  shows "conn_inv s w'"
proof (cases "isWriting (my_channel w)")
  case False
  then show ?thesis using inv res by (auto simp: handleWrite_def conn_inv_emit)
next
  case True
  note D = conn_invD [OF inv] and H = handleWrite_cases [OF conn_invD(2) [OF inv] True]
  have ck: "conn_inv s (w\<lparr>clock := clock w + 1\<rparr>)" using inv conn_inv_clock by simp
  show ?thesis
  proof (cases "k_write (kern w) (clock w)")
    case (Inl e)
    then show ?thesis using H res ck by (auto simp: conn_inv_emit)
  next
    case (Inr k)
    let ?n = "min k (length (pending w))"
    show ?thesis
    proof (cases "?n = 0")
      case True
      then show ?thesis using H res ck Inr by (auto simp: conn_inv_emit Let_def)
    next
      case False
      then have "0 < ?n" by linarith
      note W = wrote_inv [OF inv True this]
      then show ?thesis using H res Inr False True D(4) by (intro wrote_all_inv [of "wrote ?n w"]) (auto simp: Let_def)
    qed
  qed
qed

lemma conn_inv_input:
  "buf_inv b \<Longrightarrow> conn_inv s w \<Longrightarrow> conn_inv s (set_conn (\<lambda>t. t\<lparr>inputBuffer := b\<rparr>) w)"
proof -
  have "pending (set_conn (\<lambda>t. t\<lparr>inputBuffer := b\<rparr>) w) = pending w" by (simp add: pending_def)
  then show "buf_inv b \<Longrightarrow> conn_inv s w \<Longrightarrow> ?thesis" by (auto simp: conn_inv_def shut_ok_def)
qed

text \<open>Disconnecting for good: interest is dropped and whatever is pending stays unsent.\<close>

lemma disconnect_inv:
  assumes "conn_inv s w"
    and "channel_call disableAll (set_conn (\<lambda>t. t\<lparr>tc_state := kDisconnected\<rparr>) w) = Inr w'"
  shows "conn_inv s w'"
proof -
  have "pending (set_conn (\<lambda>t. t\<lparr>tc_state := kDisconnected\<rparr>) w) = pending w" by (simp add: pending_def)
  then show ?thesis
    using assms(1) channel_call_same [OF assms(2)] channel_call_writing(3) [OF assms(2)]
    by (auto simp: conn_inv_def shut_ok_def)
qed

lemma remove_inv:
  assumes "conn_inv s w" and "channel_call removeChannel w = Inr w'"
  shows "conn_inv s w'"
  using assms(1) channel_call_same [OF assms(2)] channel_call_writing(5) [OF assms(2)]
  by (auto simp: conn_inv_def shut_ok_def)

text \<open>Callbacks that do nothing: what a callback does to the connection is a further step.\<close>

definition quiet :: callbacks where
  "quiet = \<lparr>connectionCallback = Inr, messageCallback = (\<lambda>_. Inr), closedCallback = Inr\<rparr>"

lemma handleClose_inv: "conn_inv s w \<Longrightarrow> handleClose quiet w = Inr w' \<Longrightarrow> conn_inv s w'"
  by (auto simp: handleClose_def quiet_def bind_result_Inr_iff dest: disconnect_inv)

lemma connectDestroyed_inv: "conn_inv s w \<Longrightarrow> connectDestroyed quiet w = Inr w' \<Longrightarrow> conn_inv s w'"
  by (auto simp: connectDestroyed_def quiet_def bind_result_Inr_iff split: if_splits
      dest: disconnect_inv remove_inv)

lemma connectEstablished_inv:
  assumes inv: "conn_inv s w" and st: "tc_state (conn w) = kConnecting"
    and res: "connectEstablished quiet w = Inr w'"
  shows "conn_inv s w'"
proof -
  define w2 where "w2 = (set_conn (\<lambda>t. t\<lparr>tc_state := kConnected\<rparr>) w)
    \<lparr>poller := set_channel (tc_channel (conn w)) tie_channel (poller w)\<rparr>"
  have c: "channel_call enableReading w2 = Inr w'"
    using res by (simp add: connectEstablished_def quiet_def w2_def bind_result_Inr_iff)
  have "isWriting (my_channel w2) \<longleftrightarrow> isWriting (my_channel w)" "pending w2 = pending w"
      "trace w2 = trace w" "tc_state (conn w2) = kConnected"
      "inputBuffer (conn w2) = inputBuffer (conn w)" "outputBuffer (conn w2) = outputBuffer (conn w)"
    by (simp_all add: w2_def my_channel_def set_channel_def tie_channel_def isWriting_def pending_def)
  then show ?thesis
    using conn_invD [OF inv] st channel_call_same [OF c] channel_call_writing(4) [OF c]
    by (auto simp: conn_inv_def shut_ok_def)
qed

text \<open>A read event up to the choice of the handler: the input has grown by what was read.\<close>

definition read_outcome :: "world \<Rightarrow> int + string" where
  "read_outcome w = (case k_read (kern w) (clock w) of Inl e \<Rightarrow> Inl e
    | Inr data \<Rightarrow> Inr (take (readv_capacity (inputBuffer (conn w))) data))"

definition after_read :: "world \<Rightarrow> world" where
  "after_read w =
     set_conn (\<lambda>t. t\<lparr>inputBuffer := fst (readFd (read_outcome w) (inputBuffer (conn w)))\<rparr>) (w\<lparr>clock := clock w + 1\<rparr>)"

lemma after_read_simps [simp]:
  "tc_state (conn (after_read w)) = tc_state (conn w)" "kern (after_read w) = kern w" "trace (after_read w) = trace w"
  by (simp_all add: after_read_def)

lemma handleRead_after:
  assumes inv: "conn_inv s w"
  shows "conn_inv s (after_read w)"
    and "contents (inputBuffer (conn (after_read w))) =
      contents (inputBuffer (conn w)) @ (case read_outcome w of Inl e \<Rightarrow> [] | Inr d \<Rightarrow> d)"
    and "handleRead cb T w =
      (case read_outcome w of
         Inl e \<Rightarrow> Inr (handleError (emit LogError (after_read w)))
       | Inr d \<Rightarrow> if d = [] then handleClose cb (after_read w) else messageCallback cb T (after_read w))"
proof -
  obtain b n e where r: "readFd (read_outcome w) (inputBuffer (conn w)) = (b, n, e)"
    by (cases "readFd (read_outcome w) (inputBuffer (conn w))") auto
  have "buf_inv (fst (readFd (read_outcome w) (inputBuffer (conn w)))) \<and>
      contents (fst (readFd (read_outcome w) (inputBuffer (conn w)))) =
        contents (inputBuffer (conn w)) @ (case read_outcome w of Inl e \<Rightarrow> [] | Inr d \<Rightarrow> d) \<and>
      fst (snd (readFd (read_outcome w) (inputBuffer (conn w)))) = (case read_outcome w of Inl e \<Rightarrow> -1 | Inr d \<Rightarrow> int (length d))"
    using conn_invD(1) [OF inv] by (cases "read_outcome w") (simp_all add: readFd_data readFd_error)
  then have b: "buf_inv b" "contents b = contents (inputBuffer (conn w)) @ (case read_outcome w of Inl e \<Rightarrow> [] | Inr d \<Rightarrow> d)"
    and n: "n = (case read_outcome w of Inl e \<Rightarrow> -1 | Inr d \<Rightarrow> int (length d))" by (simp_all add: r)
  have a: "after_read w = set_conn (\<lambda>t. t\<lparr>inputBuffer := b\<rparr>) (w\<lparr>clock := clock w + 1\<rparr>)" by (simp add: after_read_def r)
  have "conn_inv s (w\<lparr>clock := clock w + 1\<rparr>)" using inv conn_inv_clock by simp
  from conn_inv_input [OF b(1) this] show "conn_inv s (after_read w)" by (simp only: a)
  show "handleRead cb T w =
      (case read_outcome w of
         Inl e \<Rightarrow> Inr (handleError (emit LogError (after_read w)))
       | Inr d \<Rightarrow> if d = [] then handleClose cb (after_read w) else messageCallback cb T (after_read w))"
    unfolding handleRead_def Let_def read_outcome_def [symmetric] r prod.case n a by (cases "read_outcome w") simp_all
  show "contents (inputBuffer (conn (after_read w))) =
      contents (inputBuffer (conn w)) @ (case read_outcome w of Inl e \<Rightarrow> [] | Inr d \<Rightarrow> d)" using b(2) by (simp add: a)
qed

lemma handleRead_split:
  assumes "conn_inv s w"
  obtains w1 where "conn_inv s w1" and "tc_state (conn w1) = tc_state (conn w)" and "kern w1 = kern w"
    and "contents (inputBuffer (conn w1)) = contents (inputBuffer (conn w)) @ (case read_outcome w of Inl e \<Rightarrow> [] | Inr d \<Rightarrow> d)"
    and "\<And>cb T. handleRead cb T w =
      (case read_outcome w of
         Inl e \<Rightarrow> Inr (handleError (emit LogError w1))
       | Inr d \<Rightarrow> if d = [] then handleClose cb w1 else messageCallback cb T w1)"
  using that [of "after_read w"] handleRead_after [OF assms] by simp

lemma handleRead_inv:
  assumes inv: "conn_inv s w" and res: "handleRead quiet T w = Inr w'"
  shows "conn_inv s w'"
proof -
  from handleRead_split [OF inv] obtain w1 where
    w1: "conn_inv s w1" "handleRead quiet T w = (case read_outcome w of Inl e \<Rightarrow> Inr (handleError (emit LogError w1))
          | Inr d \<Rightarrow> if d = [] then handleClose quiet w1 else messageCallback quiet T w1)" by metis
  have "messageCallback quiet T = Inr" by (simp add: quiet_def)
  then show ?thesis
    using w1(1) res handleClose_inv [OF w1(1)]
    by (auto simp: w1(2) handleError_def conn_inv_emit split: if_splits sum.splits)
qed

section \<open>Sequences of operations in the loop thread\<close>

text \<open>
  Each step is labelled with the bytes the connection took over: those of a \<^verbatim>\<open>send\<close> in the connected
  state that did not find the peer gone.
\<close>

definition accepted :: "string \<Rightarrow> world \<Rightarrow> string" where
  "accepted m w = (if tc_state (conn w) = kConnected \<and> \<not> peer_gone w then m else [])"

inductive conn_step :: "world \<Rightarrow> string \<Rightarrow> world \<Rightarrow> bool" where
  established: "tc_state (conn w) = kConnecting \<Longrightarrow> connectEstablished quiet w = Inr w' \<Longrightarrow> conn_step w [] w'"
| send: "send_string True m w = Inr w' \<Longrightarrow> conn_step w (accepted m w) w'"
| write_event: "handleWrite w = Inr w' \<Longrightarrow> conn_step w [] w'"
| read_event: "handleRead quiet T w = Inr w' \<Longrightarrow> conn_step w [] w'"
| close_event: "handleClose quiet w = Inr w' \<Longrightarrow> conn_step w [] w'"
| error_event: "conn_step w [] (handleError w)"
| consume: "conn_step w [] (set_conn (\<lambda>t. t\<lparr>inputBuffer := retrieve n (inputBuffer t)\<rparr>) w)"
| shutdown: "conn_step w [] (shutdown True w)"
| destroyed: "connectDestroyed quiet w = Inr w' \<Longrightarrow> conn_step w [] w'"

inductive_cases conn_stepE: "conn_step w l w'"

lemma conn_step_inv: "conn_step w l w' \<Longrightarrow> conn_inv s w \<Longrightarrow> conn_inv (s @ l) w'"
proof (induction rule: conn_step.induct)
  case (send m w w')
  then show ?case
    using sendInLoop_inv [of s w m w'] by (auto simp: send_string_def accepted_def split: if_splits)
next
  case (consume w n)
  have "conn_inv s (set_conn (\<lambda>t. t\<lparr>inputBuffer := retrieve n (inputBuffer (conn w))\<rparr>) w)"
    using consume conn_invD(1) [OF consume] by (intro conn_inv_input buf_queue.inv_get)
  then show ?case by (simp add: set_conn_def)
qed (auto simp: handleError_def intro: connectEstablished_inv handleWrite_inv handleRead_inv handleClose_inv
    conn_inv_emit shutdown_inv connectDestroyed_inv)

inductive conn_run :: "world \<Rightarrow> string \<Rightarrow> world \<Rightarrow> bool" for w0 where
  start: "conn_run w0 [] w0"
| step: "conn_run w0 s w \<Longrightarrow> conn_step w l w' \<Longrightarrow> conn_run w0 (s @ l) w'"

lemma conn_run_inv: "conn_run w0 s w \<Longrightarrow> conn_inv [] w0 \<Longrightarrow> conn_inv s w"
  by (induction rule: conn_run.induct) (auto dest: conn_step_inv)

lemma new_TcpConnection_inv:
  assumes "new_TcpConnection c p k = Inr w" and "ch_events (store p c) = 0"
  shows "conn_inv [] w" and "tc_state (conn w) = kConnecting"
proof -
  have ev: "ch_events (my_channel w') = ch_events (my_channel w) \<and> conn w' = conn w \<and> trace w' = trace w"
    if "channel_call f w = Inr w'" "f \<in> {setReadCallback, setWtriteCallback, setCloseCallback, setErrCallback}"
    for f w w'
    using that by (auto elim!: channel_call_frame simp: my_channel_def dest: callback_setters_events)
  obtain w0 w1 w2 w3 w4 where
    w0: "w0 = \<lparr>conn = \<lparr>tc_state = kConnecting, tc_channel = c, writeCompleteCallback = False,
             highWaterMarkCallback = False, highWaterMark = 64 * 1024 * 1024,
             inputBuffer = new_Buffer kInitialSize, outputBuffer = new_Buffer kInitialSize\<rparr>,
           poller = p, kern = k, clock = 0, trace = []\<rparr>"
    and st: "channel_call setReadCallback w0 = Inr w1" "channel_call setWtriteCallback w1 = Inr w2"
      "channel_call setCloseCallback w2 = Inr w3" "channel_call setErrCallback w3 = Inr w4"
    and w: "w = emit (SetKeepAlive True) w4"
    using assms(1) unfolding new_TcpConnection_def Let_def bind_result_Inr_iff by auto
  have "trace w0 = []" "ch_events (my_channel w0) = 0" using assms(2) by (simp_all add: w0 my_channel_def)
  then have "conn w = conn w0" "trace w = [SetKeepAlive True]" "ch_events (my_channel w) = 0"
    using ev [OF st(1)] ev [OF st(2)] ev [OF st(3)] ev [OF st(4)] w by simp_all
  then show "conn_inv [] w" and "tc_state (conn w) = kConnecting"
    by (simp_all add: conn_inv_def shut_ok_def isWriting_def pending_def contents_new_Buffer new_Buffer_inv w0)
qed

section \<open>Draining the output\<close>

text \<open>A kernel that accepts at least one byte per write and refuses no \<^verbatim>\<open>epoll_ctl\<close>.\<close>

definition willing :: "kernel \<Rightarrow> bool" where
  "willing k \<longleftrightarrow> (\<forall>n. (\<exists>m>0. k_write k n = Inr m) \<and> 0 \<le> k_ctl k n)"

lemma shutdownInLoop_same [simp]:
  "kern (shutdownInLoop w) = kern w" "conn (shutdownInLoop w) = conn w"
  by (simp_all add: shutdownInLoop_def)

lemma wrote_all_total:
  assumes "willing (kern w)"
  shows "\<exists>w'. wrote_all w = Inr w' \<and> kern w' = kern w \<and> conn w' = conn w"
proof -
  have "0 \<le> k_ctl (kern w) (clock w)" using assms by (simp add: willing_def)
  then obtain p where "disableWriting (k_ctl (kern w) (clock w)) (tc_channel (conn w)) (poller w) = Inr p"
    using updateChannel_total [of "k_ctl (kern w) (clock w)"] unfolding disableWriting_def change_events_def by blast
  then obtain w1 where w1: "channel_call disableWriting w = Inr w1" by (simp add: channel_call_def)
  then show ?thesis using channel_call_same [OF w1] by (auto simp: wrote_all_def)
qed

lemma handleWrite_progress:
  assumes inv: "conn_inv s w" and "willing (kern w)"
  shows "\<exists>w'. handleWrite w = Inr w' \<and> kern w' = kern w \<and> conn_inv s w' \<and>
    tc_state (conn w') = tc_state (conn w) \<and> length (pending w') \<le> length (pending w) - (if isWriting (my_channel w) then 1 else 0)"
proof (cases "isWriting (my_channel w)")
  case True
  obtain k where k: "0 < k" "k_write (kern w) (clock w) = Inr k" using assms(2) by (auto simp: willing_def)
  let ?n = "min k (length (pending w))"
  have n: "0 < ?n" using k True conn_invD(4) [OF inv] by simp
  have "kern (wrote ?n w) = kern w" by (simp add: wrote_def)
  then obtain w' where w': "wrote_all (wrote ?n w) = Inr w'" "kern w' = kern w" "conn w' = conn (wrote ?n w)"
    using wrote_all_total [of "wrote ?n w"] assms(2) by auto
  then have h: "handleWrite w = Inr w'"
    using handleWrite_cases [OF conn_invD(2) [OF inv] True] k n by (simp add: Let_def)
  have "pending w' = drop ?n (pending w)" using w'(3) wrote_inv(4) [OF inv True n] by (simp add: pending_def)
  then have "length (pending w') = length (pending w) - ?n" by simp
  then have "length (pending w') \<le> length (pending w) - 1" using n by linarith
  then show ?thesis using h w' handleWrite_inv [OF inv h] wrote_inv(6) [OF inv True n] True by simp
next
  case False
  then show ?thesis using inv by (simp add: handleWrite_def conn_inv_emit)
qed

section \<open>A connection on a willing kernel\<close>

lemma channel_call_total:
  assumes "willing (kern w)"
    and "f \<in> {setReadCallback, setWtriteCallback, setCloseCallback, setErrCallback, enableReading, enableWriting}"
  shows "\<exists>w'. channel_call f w = Inr w'"
proof -
  let ?r = "k_ctl (kern w) (clock w)"
  have "0 \<le> ?r" using assms(1) by (simp add: willing_def)
  note total = updateChannel_total [OF this, of "tc_channel (conn w)"]
  have "\<exists>p. f ?r (tc_channel (conn w)) (poller w) = Inr p"
    using assms(2) unfolding channel_op_defs by (auto intro: total)
  then show ?thesis by (auto simp: channel_call_def)
qed

lemma buffer_rest_total:
  assumes "willing (kern w)"
  shows "\<exists>w'. buffer_rest m w = Inr w' \<and> kern w' = kern w \<and> tc_state (conn w') = tc_state (conn w)"
proof -
  define w2 where "w2 = (if highWaterMark (conn w) \<le> readableBytes (outputBuffer (conn w)) + length m \<and>
      readableBytes (outputBuffer (conn w)) < highWaterMark (conn w) \<and> highWaterMarkCallback (conn w)
      then emit (Queue (HighWater (readableBytes (outputBuffer (conn w)) + length m))) w else w)"
  let ?w3 = "set_conn (\<lambda>t. t\<lparr>outputBuffer := append_buf m (outputBuffer t)\<rparr>) w2"
  have k: "kern ?w3 = kern w" "tc_state (conn ?w3) = tc_state (conn w)" by (simp_all add: w2_def)
  obtain w4 where w4: "channel_call enableWriting ?w3 = Inr w4"
    using channel_call_total [of ?w3 enableWriting] assms k by auto
  have "buffer_rest m w = (if \<not> isWriting (my_channel ?w3) then channel_call enableWriting ?w3 else Inr ?w3)"
    by (simp only: buffer_rest_def w2_def Let_def)
  then show ?thesis using w4 channel_call_same [OF w4] k by (cases "isWriting (my_channel ?w3)") auto
qed

lemma sendInLoop_total:
  assumes "willing (kern w)" and "tc_state (conn w) \<noteq> kDisconnected"
  shows "\<exists>w'. sendInLoop m w = Inr w' \<and> kern w' = kern w \<and> tc_state (conn w') = tc_state (conn w)"
proof (cases "direct w")
  case False
  then show ?thesis using buffer_rest_total [OF assms(1), of m] assms(2) by (auto simp: sendInLoop_indirect)
next
  case True
  obtain k where k: "k_write (kern w) (clock w) = Inr k" using assms(1) by (auto simp: willing_def)
  let ?w1 = "emit (Wire (take k m)) (w\<lparr>clock := clock w + 1\<rparr>)"
  show ?thesis
    using buffer_rest_total [of ?w1 "drop k m"] assms(1) sendInLoop_written [OF assms(2) True k, of m]
    by (auto simp: Let_def)
qed

lemma new_TcpConnection_total:
  assumes "willing k"
  shows "\<exists>w0. new_TcpConnection c p k = Inr w0 \<and> kern w0 = k \<and> tc_state (conn w0) = kConnecting"
proof -
  define v where "v = \<lparr>conn = \<lparr>tc_state = kConnecting, tc_channel = c, writeCompleteCallback = False,
      highWaterMarkCallback = False, highWaterMark = 64 * 1024 * 1024,
      inputBuffer = new_Buffer kInitialSize, outputBuffer = new_Buffer kInitialSize\<rparr>,
    poller = p, kern = k, clock = 0, trace = []\<rparr>"
  have v0: "kern v = k" "tc_state (conn v) = kConnecting" by (simp_all add: v_def)
  have call: "\<exists>w'. channel_call f w = Inr w' \<and> kern w' = k \<and> tc_state (conn w') = kConnecting"
    if "kern w = k" "tc_state (conn w) = kConnecting"
      "f \<in> {setReadCallback, setWtriteCallback, setCloseCallback, setErrCallback, enableReading, enableWriting}"
    for f w
    using channel_call_total [of w f] channel_call_same that assms by force
  obtain v1 where v1: "channel_call setReadCallback v = Inr v1" "kern v1 = k" "tc_state (conn v1) = kConnecting"
    using call [OF v0, of setReadCallback] by auto
  obtain v2 where v2: "channel_call setWtriteCallback v1 = Inr v2" "kern v2 = k" "tc_state (conn v2) = kConnecting"
    using call [OF v1(2,3), of setWtriteCallback] by auto
  obtain v3 where v3: "channel_call setCloseCallback v2 = Inr v3" "kern v3 = k" "tc_state (conn v3) = kConnecting"
    using call [OF v2(2,3), of setCloseCallback] by auto
  obtain v4 where v4: "channel_call setErrCallback v3 = Inr v4" "kern v4 = k" "tc_state (conn v4) = kConnecting"
    using call [OF v3(2,3), of setErrCallback] by auto
  have "new_TcpConnection c p k = Inr (emit (SetKeepAlive True) v4)"
    unfolding new_TcpConnection_def Let_def v_def [symmetric] using v1(1) v2(1) v3(1) v4(1) by simp
  then show ?thesis using v4(2,3) by simp
qed

lemma willing_established:
  assumes "willing k"
  shows "\<exists>w0 w. new_TcpConnection c p k = Inr w0 \<and> conn_run w0 [] w \<and> kern w = k \<and> tc_state (conn w) = kConnected"
proof -
  from new_TcpConnection_total [OF assms] obtain w0 where
    new: "new_TcpConnection c p k = Inr w0" and w0: "kern w0 = k" "tc_state (conn w0) = kConnecting" by blast
  let ?w = "(set_conn (\<lambda>t. t\<lparr>tc_state := kConnected\<rparr>) w0)
    \<lparr>poller := set_channel (tc_channel (conn w0)) tie_channel (poller w0)\<rparr>"
  obtain w1 where w1: "channel_call enableReading ?w = Inr w1"
    using channel_call_total [of ?w enableReading] assms w0 by auto
  have e: "connectEstablished quiet w0 = Inr w1"
    using w1 by (simp add: connectEstablished_def quiet_def Let_def)
  have k1: "kern w1 = k" "tc_state (conn w1) = kConnected" using channel_call_same [OF w1] w0 by simp_all
  have "conn_run w0 ([] @ []) w1"
    by (rule conn_run.step [OF conn_run.start conn_step.established [OF w0(2) e]])
  with new k1 show ?thesis by auto
qed

lemma willing_connection:
  assumes "willing k"
  shows "\<exists>w0 w. new_TcpConnection c p k = Inr w0 \<and> conn_run w0 m w \<and> kern w = k \<and>
    tc_state (conn w) = kConnected"
proof -
  from willing_established [OF assms, of c p] obtain w0 w1 where new: "new_TcpConnection c p k = Inr w0"
    and run: "conn_run w0 [] w1" and k1: "kern w1 = k" "tc_state (conn w1) = kConnected" by blast
  obtain w2 where w2: "sendInLoop m w1 = Inr w2" "kern w2 = k" "tc_state (conn w2) = kConnected"
    using sendInLoop_total [of w1 m] k1 assms by auto
  obtain j where "k_write k (clock w1) = Inr j" using assms by (auto simp: willing_def)
  then have "accepted m w1 = m" using k1 by (simp add: accepted_def peer_gone_def)
  moreover note run
  moreover have "conn_step w1 (accepted m w1) w2"
    using w2(1) k1(2) by (intro conn_step.send) (simp add: send_string_def)
  ultimately have "conn_run w0 m w2" using conn_run.step [of w0 "[]" w1 "accepted m w1" w2] by simp
  with new w2 show ?thesis by blast
qed

section \<open>A sample kernel\<close>

definition demo_kernel :: kernel where
  "demo_kernel = \<lparr>k_write = (\<lambda>_. Inr 3), k_read = (\<lambda>_. Inr []), k_ctl = (\<lambda>_. 0)\<rparr>"

lemma demo_willing: "willing demo_kernel"
  by (simp add: willing_def demo_kernel_def)

lemma demo_events: "ch_events (store (new_EPollPoller int) 5) = 0"
  by (simp add: new_EPollPoller_def new_Channel_def)

lemmas demo_connection = willing_connection [OF demo_willing, of 5 "new_EPollPoller int" "''hello''"]

text \<open>
  A connection to which five bytes were given, of which the socket took three, is shut down: nothing happens
  until the two bytes have been written.
\<close>

lemma buffer_rest_wire: "buffer_rest m w = Inr w' \<Longrightarrow> wire (trace w') = wire (trace w)"
  by (auto simp: buffer_rest_def Let_def channel_call_same split: if_splits)

lemma demo_send:
  assumes inv: "conn_inv [] w" and st: "tc_state (conn w) = kConnected" and k: "kern w = demo_kernel"
  shows "\<exists>w'. sendInLoop ''hello'' w = Inr w' \<and> tc_state (conn w') = kConnected \<and> wire (trace w') = ''hel'' \<and>
    pending w' = ''lo'' \<and> readableBytes (outputBuffer (conn w')) = 2 \<and> kern w' = demo_kernel \<and> conn_inv ''hello'' w' \<and> \<not> peer_gone w"
proof -
  have d: "direct w" using conn_invD(2-4) [OF inv] readableBytes_0_iff [of "outputBuffer (conn w)"]
    by (auto simp: direct_def pending_def)
  have kw: "k_write (kern w) (clock w) = Inr 3" using k by (simp add: demo_kernel_def)
  obtain w' where w': "sendInLoop ''hello'' w = Inr w'" "tc_state (conn w') = kConnected" "kern w' = demo_kernel"
    using sendInLoop_total [of w "''hello''"] st k demo_willing by auto
  have alive: "\<not> peer_gone w" using kw by (simp add: peer_gone_def)
  then have inv': "conn_inv ''hello'' w'" using sendInLoop_inv [OF inv st w'(1)] by simp
  have "wire (trace w) = []" using conn_invD(3) [OF inv] by simp
  then have wire: "wire (trace w') = ''hel''"
    using sendInLoop_written [OF _ d kw, of "''hello''"] st w'(1) buffer_rest_wire by (auto simp: Let_def)
  then have "pending w' = ''lo''" using conn_invD(3) [OF inv'] by simp
  then show ?thesis using w' wire inv' alive length_contents [OF conn_invD(2) [OF inv']] by (simp add: pending_def)
qed

lemma demo_shutdown:
  "\<exists>w0 w1 w2. new_TcpConnection 5 (new_EPollPoller int) demo_kernel = Inr w0 \<and>
     conn_run w0 ''hello'' w1 \<and> tc_state (conn w1) = kDisconnecting \<and> wire (trace w1) = ''hel'' \<and>
       ShutdownWrite \<notin> set (trace w1) \<and>
     conn_run w0 ''hello'' w2 \<and> tc_state (conn w2) = kDisconnecting \<and> readableBytes (outputBuffer (conn w2)) = 0"
proof -
  from willing_established [OF demo_willing, of 5 "new_EPollPoller int"] obtain w0 u where
    new: "new_TcpConnection 5 (new_EPollPoller int) demo_kernel = Inr w0" and u: "conn_run w0 [] u" "kern u = demo_kernel"
      "tc_state (conn u) = kConnected" by blast
  have "conn_inv [] u" using conn_run_inv [OF u(1) new_TcpConnection_inv(1) [OF new demo_events]] .
  from demo_send [OF this u(3,2)] obtain v where v: "sendInLoop ''hello'' u = Inr v" "tc_state (conn v) = kConnected"
      "wire (trace v) = ''hel''" "pending v = ''lo''" "kern v = demo_kernel" "conn_inv ''hello'' v" "\<not> peer_gone u" by blast
  have "conn_step u (accepted ''hello'' u) v" using v(1) u(3) by (intro conn_step.send) (simp add: send_string_def)
  then have rv: "conn_run w0 ''hello'' v" using conn_run.step [OF u(1)] u(3) v(7) by (force simp: accepted_def)
  have wr: "isWriting (my_channel v)" using conn_invD(4) [OF v(6)] v(2,4) by simp
  let ?w1 = "shutdown True v"
  have r1: "conn_run w0 ''hello'' ?w1" using conn_run.step [OF rv conn_step.shutdown] by simp
  have w1: "tc_state (conn ?w1) = kDisconnecting" "trace ?w1 = trace v" "kern ?w1 = demo_kernel" "pending ?w1 = ''lo''"
    using v wr by (simp_all add: shutdown_def shutdownInLoop_def pending_def)
  have no: "ShutdownWrite \<notin> set (trace v)" using conn_invD(5) [OF v(6)] v(2) by (auto simp: shut_ok_def)
  have i1: "conn_inv ''hello'' ?w1" using conn_run_inv [OF r1 new_TcpConnection_inv(1) [OF new demo_events]] .
  have "\<exists>w2. conn_run w0 ''hello'' w2 \<and> tc_state (conn w2) = kDisconnecting \<and> pending w2 = []"
    if "conn_run w0 ''hello'' w" "conn_inv ''hello'' w" "tc_state (conn w) = kDisconnecting" "kern w = demo_kernel" for w
    using that
  proof (induction "length (pending w)" arbitrary: w rule: less_induct)
    case less
    show ?case
    proof (cases "pending w = []")
      case False
      then have "isWriting (my_channel w)" using conn_invD(4) [OF less.prems(2)] less.prems(3) by simp
      with handleWrite_progress [OF less.prems(2)] less.prems(4) demo_willing obtain w' where
        w': "handleWrite w = Inr w'" "kern w' = demo_kernel" "conn_inv ''hello'' w'" "tc_state (conn w') = kDisconnecting"
          "length (pending w') \<le> length (pending w) - 1" using less.prems(3) by auto
      have "conn_run w0 ''hello'' w'" using conn_run.step [OF less.prems(1) conn_step.write_event [OF w'(1)]] by simp
      moreover have "length (pending w') < length (pending w)" using w'(5) False by (cases "pending w") auto
      ultimately show ?thesis using less.hyps w'(2-4) by blast
    qed (use less.prems in blast)
  qed
  from this [OF r1 i1 w1(1,3)] obtain w2 where
    w2: "conn_run w0 ''hello'' w2" "tc_state (conn w2) = kDisconnecting" "pending w2 = []" by blast
  have "conn_inv ''hello'' w2" using conn_run_inv [OF w2(1) new_TcpConnection_inv(1) [OF new demo_events]] .
  then have "readableBytes (outputBuffer (conn w2)) = 0"
    using w2(3) readableBytes_0_iff conn_invD(2) by (simp add: pending_def)
  with new r1 w1 no v(3) w2 show ?thesis by (metis (no_types, lifting))
qed

section \<open>Properties\<close>

text \<open>C5. Stream integrity: after any sequence of sends, events, reads and shutdowns of a connection, the
  bytes written to the socket followed by the bytes waiting in the output buffer are exactly the
  bytes of the accepted messages in the order they were sent.  Nothing is lost, duplicated or
  reordered, however the kernel splits the writes.\<close>

theorem connection_stream:
  assumes "new_TcpConnection c p k = Inr w0" and "ch_events (store p c) = 0" and "conn_run w0 s w"
  shows "wire (trace w) @ contents (outputBuffer (conn w)) = s"
  using conn_run_inv [OF assms(3) new_TcpConnection_inv(1) [OF assms(1,2)]]
  by (simp add: conn_inv_def pending_def)

theorem connection_stream_witness:
  "\<exists>w0 w. new_TcpConnection 5 (new_EPollPoller int) demo_kernel = Inr w0 \<and> conn_run w0 ''hello'' w \<and>
     wire (trace w) @ contents (outputBuffer (conn w)) = ''hello''"
  using demo_connection connection_stream [OF _ demo_events] by blast

text \<open>Write interest: while the connection is not disconnected, the channel asks for write events
  exactly while the output buffer is not empty, so pending data is never forgotten and an idle
  connection never makes the loop spin; a disconnected one asks for none.\<close>

lemma write_interest_iff_pending:
  assumes "new_TcpConnection c p k = Inr w0" and "ch_events (store p c) = 0" and "conn_run w0 s w"
  shows "isWriting (my_channel w) \<longleftrightarrow>
    tc_state (conn w) \<noteq> kDisconnected \<and> 0 < readableBytes (outputBuffer (conn w))"
proof -
  have "conn_inv s w" using conn_run_inv [OF assms(3) new_TcpConnection_inv(1) [OF assms(1,2)]] .
  then show ?thesis
    using readableBytes_0_iff [of "outputBuffer (conn w)"] by (auto simp: conn_inv_def pending_def)
qed

text \<open>C26. Graceful shutdown: the write side of the socket is shut down at most once, only after every
  accepted byte has been written, and no byte is written afterwards; and a connection that is
  disconnecting and has nothing left to write has been shut down.\<close>

theorem shutdown_after_last_byte:
  assumes "new_TcpConnection c p k = Inr w0" and "ch_events (store p c) = 0" and "conn_run w0 s w"
  shows "(trace w = xs @ ShutdownWrite # ys \<longrightarrow> wire xs = s \<and> wire ys = [] \<and> ShutdownWrite \<notin> set xs \<union> set ys) \<and>
    (tc_state (conn w) = kDisconnecting \<and> readableBytes (outputBuffer (conn w)) = 0 \<longrightarrow>
      ShutdownWrite \<in> set (trace w))"
proof -
  have inv: "conn_inv s w" using conn_run_inv [OF assms(3) new_TcpConnection_inv(1) [OF assms(1,2)]] .
  note D = conn_invD [OF inv]
  have "wire xs = s \<and> wire ys = [] \<and> ShutdownWrite \<notin> set xs \<union> set ys" if t: "trace w = xs @ ShutdownWrite # ys"
  proof -
    have sh: "pending w = []" "count_list (trace w) ShutdownWrite = 1" "wire (after_shutdown (trace w)) = []"
      using D(5) t by (auto simp: shut_ok_def)
    then have no: "ShutdownWrite \<notin> set xs" "ShutdownWrite \<notin> set ys" using t by (auto simp: count_list_0_iff)
    then have "after_shutdown (trace w) = ShutdownWrite # ys"
      using t by (auto simp: after_shutdown_def dropWhile_append)
    then show ?thesis using sh no D(3) t by simp
  qed
  moreover have "readableBytes (outputBuffer (conn w)) = 0 \<longleftrightarrow> pending w = []"
    using readableBytes_0_iff [OF D(2)] by (simp add: pending_def)
  ultimately show ?thesis using D(4,5) by (auto simp: shut_ok_def split: if_splits)
qed

theorem shutdown_after_last_byte_witness:
  "\<exists>w0 w1 w2 xs ys. new_TcpConnection 5 (new_EPollPoller int) demo_kernel = Inr w0 \<and>
     conn_run w0 ''hello'' w1 \<and> tc_state (conn w1) = kDisconnecting \<and> wire (trace w1) = ''hel'' \<and>
       ShutdownWrite \<notin> set (trace w1) \<and> readableBytes (outputBuffer (conn w1)) \<noteq> 0 \<and>
     conn_run w0 ''hello'' w2 \<and> tc_state (conn w2) = kDisconnecting \<and> trace w2 = xs @ ShutdownWrite # ys \<and>
       wire xs = ''hello'' \<and> wire ys = [] \<and> ShutdownWrite \<notin> set xs \<union> set ys"
proof -
  obtain w0 w1 w2 where w: "new_TcpConnection 5 (new_EPollPoller int) demo_kernel = Inr w0"
      "conn_run w0 ''hello'' w1" "tc_state (conn w1) = kDisconnecting" "wire (trace w1) = ''hel''"
      "ShutdownWrite \<notin> set (trace w1)"
      "conn_run w0 ''hello'' w2" "tc_state (conn w2) = kDisconnecting" "readableBytes (outputBuffer (conn w2)) = 0"
    using demo_shutdown by blast
  note S = shutdown_after_last_byte [OF w(1) demo_events]
  have "readableBytes (outputBuffer (conn w1)) \<noteq> 0" using S [OF w(2), THEN conjunct2] w(3,5) by auto
  moreover have "ShutdownWrite \<in> set (trace w2)" using S [OF w(6), THEN conjunct2] w(7,8) by auto
  then obtain xs ys where "trace w2 = xs @ ShutdownWrite # ys" using split_list by fastforce
  ultimately show ?thesis using w S [OF w(6), of xs ys] by blast
qed

text \<open>The recursion of \<open>sendFileInLoop\<close>, and an induction rule for the calls that return.\<close>

lemma sendFileInLoop_induct [consumes 1, case_names stop step]:
  assumes "sendFileInLoop fdata off count w = Some w'"
    and stop: "\<And>off count w w'. sendFile_iter fdata off count w = (None, w') \<Longrightarrow> P off count w w'"
    and step: "\<And>off count w off' rest w1 w'. sendFile_iter fdata off count w = (Some (off', rest), w1) \<Longrightarrow>
      P off' rest w1 w' \<Longrightarrow> P off count w w'"
  shows "P off count w w'"
proof -
  have "fdata = fdata \<longrightarrow> P off count w w'"
  proof (rule sendFileInLoop.raw_induct [where P = "\<lambda>f off count w w'. f = fdata \<longrightarrow> P off count w w'", OF _ assms(1)])
    fix f fdata' off count w w'
    assume IH: "\<And>fl off count w w'. f fl off count w = Some w' \<Longrightarrow> fl = fdata \<longrightarrow> P off count w w'"
      and eq: "(case sendFile_iter fdata' off count w of (None, v) \<Rightarrow> Some v
        | (Some (off', rest), v) \<Rightarrow> f fdata' off' rest v) = Some w'"
    show "fdata' = fdata \<longrightarrow> P off count w w'"
      using eq IH by (auto split: prod.splits option.splits intro: stop step)
  qed
  then show ?thesis by simp
qed

lemma sendFile_busy_iter:
  assumes "tc_state (conn w) \<noteq> kDisconnected" and "\<not> direct w" and "0 < count"
  shows "sendFile_iter fdata off count w = (Some (off, count), w)"
  using assms by (auto simp: sendFile_iter_def direct_def)

lemma sendFileInLoop_busy:
  assumes "tc_state (conn w) \<noteq> kDisconnected" and "\<not> direct w" and "0 < count"
  shows "sendFileInLoop fdata off count w = None"
proof -
  have "tc_state (conn w) = kDisconnected \<or> direct w \<or> count = 0"
    if "sendFileInLoop fdata off count w = Some w'" for w'
    using that
  proof (induction rule: sendFileInLoop_induct)
    case (stop off count w w')
    then show ?case using sendFile_busy_iter [where w = w and count = count and fdata = fdata and off = off] by auto
  next
    case (step off count w off' rest w1 w')
    then show ?case using sendFile_busy_iter [where w = w and count = count and fdata = fdata and off = off] by auto
  qed
  with assms show ?thesis by (cases "sendFileInLoop fdata off count w") auto
qed

text \<open>On a willing kernel and with nothing pending each call sends at least one byte.\<close>

lemma sendFileInLoop_willing:
  assumes "willing (kern w)" and "tc_state (conn w) \<noteq> kDisconnected" and "direct w"
    and "off + count \<le> length fdata"
  shows "\<exists>w'. sendFileInLoop fdata off count w = Some w' \<and>
    wire (trace w') = wire (trace w) @ take count (drop off fdata)"
  using assms
proof (induction count arbitrary: off w rule: less_induct)
  case (less count)
  obtain k where k: "0 < k" "k_write (kern w) (clock w) = Inr k" using less.prems(1) by (auto simp: willing_def)
  let ?m = "take count (drop off fdata)" and ?n = "min k count"
  let ?w1 = "emit (Wire (take ?n ?m)) (w\<lparr>clock := clock w + 1\<rparr>)"
  let ?w2 = "if count - ?n = 0 \<and> writeCompleteCallback (conn w) then emit (Queue WriteComplete) ?w1 else ?w1"
  have len: "length ?m = count" using less.prems(4) by simp
  have it: "sendFile_iter fdata off count w = (if 0 < count - ?n then Some (off + ?n, count - ?n) else None, ?w2)"
    using less.prems(2,3) k len
    by (simp add: sendFile_iter_def direct_def sys_sendfile_def sys_write_def Let_def)
  have w2: "wire (trace ?w2) = wire (trace w) @ take ?n ?m" by auto
  show ?case
  proof (cases "count \<le> k")
    case True
    then show ?thesis using it w2 len by (subst sendFileInLoop.simps) auto
  next
    case False
    have d: "direct ?w2 = direct w" by (simp add: direct_def my_channel_def)
    have "\<exists>w'. sendFileInLoop fdata (off + k) (count - k) ?w2 = Some w' \<and>
        wire (trace w') = wire (trace ?w2) @ take (count - k) (drop (off + k) fdata)"
      using False k less.prems d by (intro less.IH) auto
    moreover have "take k ?m @ take (count - k) (drop (off + k) fdata) = ?m"
      using False by (metis add.commute append_take_drop_id drop_drop drop_take less_imp_le_nat linorder_not_le
          min_def take_take)
    ultimately show ?thesis using it w2 False by (subst sendFileInLoop.simps) (auto simp: min_def)
  qed
qed

text \<open>\<open>sendFile\<close> on a connection with pending output never returns: the functor for the unsent rest
  runs at once in the loop thread, finds the channel still writing, and calls itself again with the
  same arguments.  With nothing pending, and a kernel that takes at least one byte per call, it
  returns with exactly the requested range of the file on the wire.\<close>

lemma sendFile_returns_iff_idle:
  assumes "tc_state (conn w) = kConnected" and "0 < count" and "off + count \<le> length fdata"
    and "willing (kern w)"
  shows "if isWriting (my_channel w) \<or> 0 < readableBytes (outputBuffer (conn w))
    then sendFile fdata off count w = None
    else (\<exists>w'. sendFile fdata off count w = Some w' \<and>
            wire (trace w') = wire (trace w) @ take count (drop off fdata))"
  using sendFileInLoop_busy [of w count fdata off] sendFileInLoop_willing [of w off count fdata] assms
  by (auto simp: sendFile_def direct_def)

text \<open>A buffer sent from another thread is lost: the caller's buffer is emptied, and the functor it
  queues either sends no byte at all or reads freed memory, depending on the order in which the two
  arguments of the bind are evaluated.\<close>

lemma send_buffer_other_thread_loses:
  assumes "buf_inv buf" and "0 < readableBytes buf" and "tc_state (conn w) = kConnected"
  shows "\<exists>f w'. send_buffer False length_first buf w = Inr (retrieveAll buf, w') \<and>
    trace w' = trace w @ [Queue f] \<and>
    run_functor False f v = (if length_first then Inl UseAfterFree else sendInLoop [] v)"
  using assms by (auto simp: send_buffer_def retrieveAllAsString_ok run_functor_def buffer_defs)

end
