(* ===== verification/Time_Stamp.thy ===== *)
theory Time_Stamp
  imports Prelude "HOL-Library.Signed_Division"
begin

text \<open>
  Time stamps (\<^verbatim>\<open>include/TimeStamp.h\<close>, \<^verbatim>\<open>src/TimeStamp.cpp\<close>): microseconds since the epoch as \<open>int\<close>.
  \<^verbatim>\<open>gettimeofday\<close> and \<^verbatim>\<open>localtime\<close> are parameters, the formats of \<^verbatim>\<open>printf\<close> the code uses are written out.
\<close>

definition kMicroSecondsPerSecond :: int where
  "kMicroSecondsPerSecond = 1000 * 1000"

definition timestamp_valid :: "int \<Rightarrow> bool" where
  "timestamp_valid t \<longleftrightarrow> 0 < t"

definition addTime :: "int \<Rightarrow> int \<Rightarrow> int" where
  "addTime timestamp delta = timestamp + delta"

definition timestamp_now :: "int \<times> int \<Rightarrow> int" where
  "timestamp_now tv = fst tv * kMicroSecondsPerSecond + snd tv"

text \<open>Conversions \<^verbatim>\<open>%d\<close>, \<^verbatim>\<open>%4d\<close> (padded with blanks) and \<^verbatim>\<open>%02d\<close>, \<^verbatim>\<open>%06d\<close> (padded with zeros).\<close>

definition print_int :: "int \<Rightarrow> string" where
  "print_int i = (if i < 0 then CHR ''-'' # dec (nat (- i)) else dec (nat i))"

definition pad_left :: "char \<Rightarrow> nat \<Rightarrow> string \<Rightarrow> string" where
  "pad_left c n s = replicate (n - length s) c @ s"

definition print_zero_padded :: "nat \<Rightarrow> int \<Rightarrow> string" where
  "print_zero_padded n i =
     (if i < 0 then CHR ''-'' # pad_left (CHR ''0'') (n - 1) (dec (nat (- i)))
      else pad_left (CHR ''0'') n (dec (nat i)))"

record tm =
  tm_year :: int
  tm_mon :: int
  tm_mday :: int
  tm_hour :: int
  tm_min :: int
  tm_sec :: int

definition timestamp_toString :: "(int \<Rightarrow> tm) \<Rightarrow> int \<Rightarrow> string" where
  "timestamp_toString localtime t =
     (let seconds = t sdiv kMicroSecondsPerSecond; tm_time = localtime seconds
      in take 63 (pad_left (CHR '' '') 4 (print_int (tm_year tm_time + 1900)) @ ''-'' @
           print_zero_padded 2 (tm_mon tm_time + 1) @ ''-'' @ print_zero_padded 2 (tm_mday tm_time) @ '' '' @
           print_zero_padded 2 (tm_hour tm_time) @ '':'' @ print_zero_padded 2 (tm_min tm_time) @ '':'' @
           print_zero_padded 2 (tm_sec tm_time)))"

text \<open>What the C library promises of \<^verbatim>\<open>localtime\<close>, and a year of four digits.\<close>

definition tm_ok :: "tm \<Rightarrow> bool" where
  "tm_ok t \<longleftrightarrow>
     - 1900 \<le> tm_year t \<and> tm_year t \<le> 8099 \<and> 0 \<le> tm_mon t \<and> tm_mon t \<le> 11 \<and> 1 \<le> tm_mday t \<and> tm_mday t \<le> 31 \<and>
     0 \<le> tm_hour t \<and> tm_hour t \<le> 23 \<and> 0 \<le> tm_min t \<and> tm_min t \<le> 59 \<and> 0 \<le> tm_sec t \<and> tm_sec t \<le> 60"

lemma length_pad_left: "length (pad_left c n s) = max n (length s)"
  by (simp add: pad_left_def)

lemma length_print_zero_padded: "0 \<le> i \<Longrightarrow> i < 10 ^ n \<Longrightarrow> 0 < n \<Longrightarrow> length (print_zero_padded n i) = n"
proof -
  assume i: "0 \<le> i" "i < 10 ^ n" "0 < n"
  then have "nat i < 10 ^ n" by (simp add: nat_less_iff)
  with i show ?thesis using length_dec_le [of "nat i" n] by (simp add: print_zero_padded_def length_pad_left max_def)
qed

lemma length_timestamp_toString:
  assumes "tm_ok (localtime (t sdiv kMicroSecondsPerSecond))"
  shows "length (timestamp_toString localtime t) = 19"
proof -
  let ?tm = "localtime (t sdiv kMicroSecondsPerSecond)"
  have "nat (tm_year ?tm + 1900) < 10 ^ 4" using assms by (simp add: tm_ok_def nat_less_iff)
  then have "length (dec (nat (tm_year ?tm + 1900))) \<le> 4" by (rule length_dec_le) simp
  then have "length (pad_left (CHR '' '') 4 (print_int (tm_year ?tm + 1900))) = 4"
    using assms by (simp add: length_pad_left print_int_def tm_ok_def)
  then show ?thesis using assms
    by (simp add: timestamp_toString_def Let_def tm_ok_def length_print_zero_padded)
qed

end
