(* ===== verification/Inet_Acceptor.thy ===== *)
theory Inet_Acceptor
  imports Channel_Poller Time_Stamp
begin

text \<open>
  Addresses, sockets and the acceptor (\<^verbatim>\<open>include/InetAddress.h\<close>, \<^verbatim>\<open>src/InetAddress.cpp\<close>, \<^verbatim>\<open>include/Socket.h\<close>,
  \<^verbatim>\<open>src/Socket.cpp\<close>, \<^verbatim>\<open>include/Acceptor.h\<close>, \<^verbatim>\<open>src/Acceptor.cpp\<close>).  The host is little-endian, so that \<^verbatim>\<open>htons\<close> and
  \<^verbatim>\<open>ntohs\<close> swap two bytes; an IPv4 address is its four bytes in network order, and \<^verbatim>\<open>inet_addr\<close> is a
  parameter.  The system calls a socket makes are listed, their answers are arguments.
\<close>

unbundle bit_operations_syntax

section \<open>InetAddress\<close>

definition AF_INET :: nat where "AF_INET = 2"

record sockaddr_in =
  sin_family :: nat
  sin_port :: "16 word"
  sin_addr :: "8 word list"

definition htons :: "16 word \<Rightarrow> 16 word" where
  "htons x = (push_bit 8 x OR drop_bit 8 x)"

definition ntohs :: "16 word \<Rightarrow> 16 word" where
  "ntohs x = (push_bit 8 x OR drop_bit 8 x)"

definition new_InetAddress :: "(string \<Rightarrow> 8 word list) \<Rightarrow> 16 word \<Rightarrow> string \<Rightarrow> sockaddr_in" where
  "new_InetAddress inet_addr port ip = \<lparr>sin_family = AF_INET, sin_port = htons port, sin_addr = inet_addr ip\<rparr>"

text \<open>\<^verbatim>\<open>inet_ntop\<close> prints the four bytes in decimal, separated by dots.\<close>

fun dotted :: "8 word list \<Rightarrow> string" where
  "dotted [] = []"
| "dotted [b] = dec (unat b)"
| "dotted (b # bs) = dec (unat b) @ ''.'' @ dotted bs"

definition toIp :: "sockaddr_in \<Rightarrow> string" where
  "toIp a = dotted (sin_addr a)"

definition toPort :: "sockaddr_in \<Rightarrow> 16 word" where
  "toPort a = ntohs (sin_port a)"

definition toIpPort :: "sockaddr_in \<Rightarrow> string" where
  "toIpPort a = (let ip = toIp a; port = toPort a in ip @ '':'' @ dec (unat port))"

section \<open>Socket\<close>

datatype sockcall =
    Setsockopt string int
  | Bind sockaddr_in
  | Listen int
  | Shutdown_write
  | Close_fd int

definition option_value :: "bool \<Rightarrow> int" where
  "option_value on = (if on then 1 else 0)"

definition setTcpNoDelay :: "bool \<Rightarrow> sockcall" where
  "setTcpNoDelay on = Setsockopt ''TCP_NODELAY'' (option_value on)"

definition setReuseAddr :: "bool \<Rightarrow> sockcall" where
  "setReuseAddr on = Setsockopt ''SO_REUSEADDR'' (option_value on)"

definition setReusePort :: "bool \<Rightarrow> sockcall" where
  "setReusePort on = Setsockopt ''SO_REUSEPORT'' (option_value on)"

definition setKeepAlive :: "bool \<Rightarrow> sockcall" where
  "setKeepAlive on = Setsockopt ''SO_KEEPALIVE'' (option_value on)"

definition bindAddress :: "int \<Rightarrow> sockaddr_in \<Rightarrow> sockcall result" where
  "bindAddress ret addr = (if ret \<noteq> 0 then Inl FatalAbort else Inr (Bind addr))"

definition socket_listen :: "int \<Rightarrow> sockcall result" where
  "socket_listen ret = (if ret \<noteq> 0 then Inl FatalAbort else Inr (Listen 1024))"

text \<open>\<^verbatim>\<open>accept4\<close> answers with a descriptor and the address of the peer, which is stored only on success.\<close>

definition socket_accept :: "int \<times> sockaddr_in \<Rightarrow> sockaddr_in \<Rightarrow> int \<times> sockaddr_in" where
  "socket_accept ans peeraddr = (let (connfd, addr) = ans in (connfd, if 0 \<le> connfd then addr else peeraddr))"

definition shutdownWrite :: sockcall where
  "shutdownWrite = Shutdown_write"

definition destroy_Socket :: "int \<Rightarrow> sockcall" where
  "destroy_Socket fd = Close_fd fd"

section \<open>Acceptor\<close>

record Acceptor =
  acc_fd :: int
  acc_channel :: nat
  acc_callback :: bool
  acc_listening :: bool
  acc_calls :: "sockcall list"

definition createNonblockingSocket :: "int \<Rightarrow> int result" where
  "createNonblockingSocket sockfd = (if sockfd < 0 then Inl FatalAbort else Inr sockfd)"

definition new_Acceptor :: "int \<Rightarrow> int \<Rightarrow> int \<Rightarrow> nat \<Rightarrow> sockaddr_in \<Rightarrow> bool \<Rightarrow> EPollPoller \<Rightarrow> (Acceptor \<times> EPollPoller) result" where
  "new_Acceptor sockfd bind_ret ret c listenAddr reuseport p =
     bind_result (createNonblockingSocket sockfd) (\<lambda>fd.
     bind_result (bindAddress bind_ret listenAddr) (\<lambda>bound.
     bind_result (setReadCallback ret c (set_channel c (\<lambda>_. new_Channel fd) p)) (\<lambda>p1.
     Inr (\<lparr>acc_fd = fd, acc_channel = c, acc_callback = False, acc_listening = False,
           acc_calls = [setReuseAddr True, setReusePort reuseport, bound]\<rparr>, p1))))"

definition setNewConnectionCallback :: "Acceptor \<Rightarrow> Acceptor" where
  "setNewConnectionCallback a = a\<lparr>acc_callback := True\<rparr>"

definition acceptor_listen :: "int \<Rightarrow> int \<Rightarrow> Acceptor \<times> EPollPoller \<Rightarrow> (Acceptor \<times> EPollPoller) result" where
  "acceptor_listen listen_ret ret = (\<lambda>(a, p).
     bind_result (socket_listen listen_ret) (\<lambda>call.
     bind_result (enableReading ret (acc_channel a) p) (\<lambda>p1.
     Inr (a\<lparr>acc_listening := True, acc_calls := acc_calls a @ [call]\<rparr>, p1))))"

definition destroy_Acceptor :: "int \<Rightarrow> int \<Rightarrow> Acceptor \<times> EPollPoller \<Rightarrow> EPollPoller result" where
  "destroy_Acceptor ret1 ret2 = (\<lambda>(a, p).
     bind_result (disableAll ret1 (acc_channel a) p) (removeChannel ret2 (acc_channel a)))"

text \<open>What accepting leads to: a new connection for the callback, a closed descriptor, or an error in the log.\<close>

datatype accept_outcome = New_connection int sockaddr_in | Dropped int | Accept_error

definition acceptor_handleRead :: "int \<times> sockaddr_in \<Rightarrow> Acceptor \<Rightarrow> accept_outcome" where
  "acceptor_handleRead ans a =
     (let (connfd, peerAddr) = socket_accept ans (new_InetAddress (\<lambda>_. [127, 0, 0, 1]) 0 ''127.0.0.1'')
      in if 0 \<le> connfd
         then if acc_callback a then New_connection connfd peerAddr else Dropped connfd
         else Accept_error)"

section \<open>Lemmas\<close>

lemma ntohs_htons: "ntohs (htons p) = p"
proof (rule bit_word_eqI)
  fix n assume "n < LENGTH(16)"
  then have "n \<in> {0..<16}" by simp
  then show "bit (ntohs (htons p)) n = bit p n"
    by (auto simp: ntohs_def htons_def bit_or_iff bit_push_bit_iff bit_drop_bit_eq dest: bit_imp_le_length)
qed

lemma toPort_new: "toPort (new_InetAddress f port ip) = port"
  by (simp add: toPort_def new_InetAddress_def ntohs_htons)

lemma length_dec_byte: "length (dec (unat (b :: 8 word))) \<le> 3"
proof -
  have "unat b < 2 ^ LENGTH(8)" by (rule unsigned_less)
  then have "unat b < 10 ^ 3" by simp
  then show ?thesis by (rule length_dec_le) simp
qed

lemma length_dec_port: "length (dec (unat (p :: 16 word))) \<le> 5"
proof -
  have "unat p < 2 ^ LENGTH(16)" by (rule unsigned_less)
  then have "unat p < 10 ^ 5" by simp
  then show ?thesis by (rule length_dec_le) simp
qed

lemma length_toIpPort: "length (sin_addr a) = 4 \<Longrightarrow> length (toIpPort a) \<le> 21"
proof -
  assume "length (sin_addr a) = 4"
  then obtain b1 b2 b3 b4 where "sin_addr a = [b1, b2, b3, b4]" by (auto simp: length_Suc_conv eval_nat_numeral)
  then show ?thesis
    using length_dec_byte [of b1] length_dec_byte [of b2] length_dec_byte [of b3] length_dec_byte [of b4] length_dec_port [of "toPort a"]
    by (simp add: toIpPort_def toIp_def Let_def)
qed

end
