(* ===== verification/Tcp_Server.thy ===== *)
theory Tcp_Server
  imports Tcp_Connection Inet_Acceptor
begin

text \<open>
  The server and its loops (\<^verbatim>\<open>include/TcpServer.h\<close>, \<^verbatim>\<open>src/TcpServer.cpp\<close>, \<^verbatim>\<open>include/EventLoopThreadPool.h\<close>,
  \<^verbatim>\<open>src/EventLoopThreadPool.cpp\<close>).  A loop is a number with a queue of functors, run one after the other in the
  thread of the loop; connection objects are numbered in the order of their creation, and of each only what
  the server depends on is kept: name, loop, addresses, state, and how often it was
  established and destroyed.  The connection itself is in Tcp\_Connection, the queue of a loop
  in Event\_Loop.
\<close>

section \<open>EventLoopThreadPool\<close>

record EventLoopThreadPool =
  pool_base :: nat
  pool_name :: string
  pool_started :: bool
  pool_numThreads :: int
  pool_next :: int
  pool_threads :: "string list"
  pool_loops :: "nat list"

definition new_EventLoopThreadPool :: "nat \<Rightarrow> string \<Rightarrow> EventLoopThreadPool" where
  "new_EventLoopThreadPool baseLoop nameArg =
     \<lparr>pool_base = baseLoop, pool_name = nameArg, pool_started = False, pool_numThreads = 0, pool_next = 0,
      pool_threads = [], pool_loops = []\<rparr>"

definition pool_setThreadNum :: "int \<Rightarrow> EventLoopThreadPool \<Rightarrow> EventLoopThreadPool" where
  "pool_setThreadNum numThreads p = p\<lparr>pool_numThreads := numThreads\<rparr>"

text \<open>\<open>startLoop i\<close> is the loop the \<open>i\<close>-th thread returns; the second result lists the loops the callback is run on.\<close>

definition pool_start :: "(nat \<Rightarrow> nat) \<Rightarrow> bool \<Rightarrow> EventLoopThreadPool \<Rightarrow> EventLoopThreadPool \<times> nat list" where
  "pool_start startLoop cb p =
     (let is = [0..<nat (pool_numThreads p)]; ls = map startLoop is
      in (p\<lparr>pool_started := True, pool_threads := pool_threads p @ map (\<lambda>i. pool_name p @ dec i) is,
            pool_loops := pool_loops p @ ls\<rparr>,
          if cb then ls @ (if pool_numThreads p = 0 then [pool_base p] else []) else []))"

definition getNextLoop :: "EventLoopThreadPool \<Rightarrow> (nat \<times> EventLoopThreadPool) result" where
  "getNextLoop p =
     (if pool_loops p \<noteq> []
      then bind_result (checked_int (pool_next p + 1)) (\<lambda>next'.
             Inr (pool_loops p ! (nat (to_size_t (pool_next p)) mod length (pool_loops p)), p\<lparr>pool_next := next'\<rparr>))
      else Inr (pool_base p, p))"

definition getAllLoops :: "EventLoopThreadPool \<Rightarrow> nat list" where
  "getAllLoops p = (if pool_loops p = [] then [pool_base p] else pool_loops p)"

section \<open>TcpServer\<close>

record conn =
  c_name :: string
  c_loop :: nat
  c_sockfd :: int
  c_local :: sockaddr_in
  c_peer :: sockaddr_in
  c_state :: StateE
  c_established :: nat
  c_destroyed :: nat

datatype srv_functor = ConnectEstablished nat | ConnectDestroyed nat | RemoveConnectionInLoop nat | AcceptorListen

record TcpServer =
  srv_pool :: EventLoopThreadPool
  srv_ipPort :: string
  srv_name :: string
  srv_started :: int
  srv_nextConnId :: int
  srv_connections :: "string \<rightharpoonup> nat"
  srv_conns :: "conn list"
  srv_queues :: "nat \<Rightarrow> srv_functor list"
  srv_listening :: bool

definition CheckLoopNotNull :: "nat \<Rightarrow> nat result" where
  "CheckLoopNotNull loop = (if loop = 0 then Inl FatalAbort else Inr loop)"

definition new_TcpServer :: "nat \<Rightarrow> sockaddr_in \<Rightarrow> string \<Rightarrow> TcpServer" where
  "new_TcpServer loop listenAddr nameArg =
     \<lparr>srv_pool = new_EventLoopThreadPool loop nameArg, srv_ipPort = toIpPort listenAddr, srv_name = nameArg,
      srv_started = 0, srv_nextConnId = 1, srv_connections = Map.empty, srv_conns = [], srv_queues = (\<lambda>_. []), srv_listening = False\<rparr>"

definition setThreadNum :: "int \<Rightarrow> TcpServer \<Rightarrow> TcpServer" where
  "setThreadNum numThreads s = s\<lparr>srv_pool := pool_setThreadNum numThreads (srv_pool s)\<rparr>"

text \<open>Functors of the loops.\<close>

definition srv_base :: "TcpServer \<Rightarrow> nat" where
  "srv_base s = pool_base (srv_pool s)"

definition srv_queueInLoop :: "nat \<Rightarrow> srv_functor \<Rightarrow> TcpServer \<Rightarrow> TcpServer" where
  "srv_queueInLoop l f s = s\<lparr>srv_queues := (srv_queues s)(l := srv_queues s l @ [f])\<rparr>"

definition update_conn :: "nat \<Rightarrow> (conn \<Rightarrow> conn) \<Rightarrow> TcpServer \<Rightarrow> TcpServer" where
  "update_conn c f s = s\<lparr>srv_conns := (srv_conns s)[c := f (srv_conns s ! c)]\<rparr>"

definition srv_connectEstablished :: "nat \<Rightarrow> TcpServer \<Rightarrow> TcpServer" where
  "srv_connectEstablished c = update_conn c (\<lambda>k. k\<lparr>c_state := kConnected, c_established := Suc (c_established k)\<rparr>)"

definition srv_connectDestroyed :: "nat \<Rightarrow> TcpServer \<Rightarrow> TcpServer" where
  "srv_connectDestroyed c =
     update_conn c (\<lambda>k. (if c_state k = kConnected then k\<lparr>c_state := kDisconnected\<rparr> else k)\<lparr>c_destroyed := Suc (c_destroyed k)\<rparr>)"

definition removeConnectionInLoop :: "nat \<Rightarrow> TcpServer \<Rightarrow> TcpServer" where
  "removeConnectionInLoop c s =
     (let k = srv_conns s ! c; s1 = s\<lparr>srv_connections := (srv_connections s)(c_name k := None)\<rparr>
      in srv_queueInLoop (c_loop k) (ConnectDestroyed c) s1)"

definition srv_listen :: "TcpServer \<Rightarrow> TcpServer" where
  "srv_listen s = s\<lparr>srv_listening := True\<rparr>"

definition run_srv_functor :: "srv_functor \<Rightarrow> TcpServer \<Rightarrow> TcpServer" where
  "run_srv_functor f s =
     (case f of
        ConnectEstablished c \<Rightarrow> srv_connectEstablished c s
      | ConnectDestroyed c \<Rightarrow> srv_connectDestroyed c s
      | RemoveConnectionInLoop c \<Rightarrow> removeConnectionInLoop c s
      | AcceptorListen \<Rightarrow> srv_listen s)"

text \<open>\<open>here\<close> is the loop whose thread makes the call.\<close>

definition srv_runInLoop :: "nat \<Rightarrow> nat \<Rightarrow> srv_functor \<Rightarrow> TcpServer \<Rightarrow> TcpServer" where
  "srv_runInLoop here l f s = (if here = l then run_srv_functor f s else srv_queueInLoop l f s)"

definition server_start :: "(nat \<Rightarrow> nat) \<Rightarrow> bool \<Rightarrow> nat \<Rightarrow> TcpServer \<Rightarrow> TcpServer" where
  "server_start startLoop cb here s =
     (let s1 = s\<lparr>srv_started := srv_started s + 1\<rparr>
      in if srv_started s = 0
         then srv_runInLoop here (srv_base s) AcceptorListen (s1\<lparr>srv_pool := fst (pool_start startLoop cb (srv_pool s))\<rparr>)
         else s1)"

text \<open>\<^verbatim>\<open>snprintf\<close> into an array of 64 bytes.\<close>

definition conn_name :: "TcpServer \<Rightarrow> int \<Rightarrow> string" where
  "conn_name s connId = srv_name s @ take 63 (''-'' @ srv_ipPort s @ ''#'' @ print_int connId)"

text \<open>
  Runs in the base loop; \<open>localAddr\<close> is what \<^verbatim>\<open>getsockname\<close> stored in the zeroed structure, and \<open>construct\<close> tells for
  the loop of the connection whether the constructor of the object, which registers its channel, ends or aborts.
\<close>

definition newConnection ::
    "(nat \<Rightarrow> unit result) \<Rightarrow> int \<Rightarrow> sockaddr_in \<Rightarrow> sockaddr_in \<Rightarrow> TcpServer \<Rightarrow> TcpServer result" where
  "newConnection construct sockfd peerAddr localAddr s =
     bind_result (getNextLoop (srv_pool s)) (\<lambda>(ioLoop, pool).
     bind_result (checked_int (srv_nextConnId s + 1)) (\<lambda>nextId.
     bind_result (construct ioLoop) (\<lambda>_.
       let connName = conn_name s (srv_nextConnId s);
           c = length (srv_conns s);
           k = \<lparr>c_name = connName, c_loop = ioLoop, c_sockfd = sockfd, c_local = localAddr, c_peer = peerAddr,
                c_state = kConnecting, c_established = 0, c_destroyed = 0\<rparr>;
           s1 = s\<lparr>srv_pool := pool, srv_nextConnId := nextId, srv_conns := srv_conns s @ [k],
                  srv_connections := (srv_connections s)(connName \<mapsto> c)\<rparr>
       in Inr (srv_runInLoop (srv_base s) ioLoop (ConnectEstablished c) s1))))"

definition removeConnection :: "nat \<Rightarrow> nat \<Rightarrow> TcpServer \<Rightarrow> TcpServer" where
  "removeConnection here c s = srv_runInLoop here (srv_base s) (RemoveConnectionInLoop c) s"

text \<open>What \<^verbatim>\<open>handleClose\<close> and \<^verbatim>\<open>shutdown\<close> of a connection, in its own loop, mean for the server.\<close>

definition conn_handleClose :: "nat \<Rightarrow> TcpServer \<Rightarrow> TcpServer" where
  "conn_handleClose c s =
     removeConnection (c_loop (srv_conns s ! c)) c (update_conn c (\<lambda>k. k\<lparr>c_state := kDisconnected\<rparr>) s)"

definition conn_shutdown :: "nat \<Rightarrow> TcpServer \<Rightarrow> TcpServer" where
  "conn_shutdown c s =
     (if c_state (srv_conns s ! c) = kConnected then update_conn c (\<lambda>k. k\<lparr>c_state := kDisconnecting\<rparr>) s else s)"

definition run_next :: "nat \<Rightarrow> TcpServer \<Rightarrow> TcpServer" where
  "run_next l s =
     (case srv_queues s l of [] \<Rightarrow> s | f # fs \<Rightarrow> run_srv_functor f (s\<lparr>srv_queues := (srv_queues s)(l := fs)\<rparr>))"

text \<open>The destructor, in the base loop, visits the connections of the map; \<open>cs\<close> is the order of the visit.\<close>

definition destroy_TcpServer :: "nat list \<Rightarrow> TcpServer \<Rightarrow> TcpServer" where
  "destroy_TcpServer cs s =
     fold (\<lambda>c t. srv_runInLoop (srv_base t) (c_loop (srv_conns t ! c)) (ConnectDestroyed c) t) cs
       (s\<lparr>srv_connections := Map.empty\<rparr>)"

section \<open>Runs\<close>

inductive server_reach :: "TcpServer \<Rightarrow> TcpServer \<Rightarrow> bool" for s0 where
  start: "server_reach s0 s0"
| accept: "server_reach s0 s \<Longrightarrow> newConnection construct sockfd peer localAddr s = Inr s' \<Longrightarrow> server_reach s0 s'"
| shut: "server_reach s0 s \<Longrightarrow> c < length (srv_conns s) \<Longrightarrow> server_reach s0 (conn_shutdown c s)"
| close: "server_reach s0 s \<Longrightarrow> c < length (srv_conns s) \<Longrightarrow> c_state (srv_conns s ! c) = kConnected \<or> c_state (srv_conns s ! c) = kDisconnecting \<Longrightarrow>
    server_reach s0 (conn_handleClose c s)"
| run: "server_reach s0 s \<Longrightarrow> server_reach s0 (run_next l s)"


section \<open>The invariant\<close>

fun about :: "srv_functor \<Rightarrow> nat option" where
  "about (ConnectEstablished c) = Some c"
| "about (ConnectDestroyed c) = Some c"
| "about (RemoveConnectionInLoop c) = Some c"
| "about AcceptorListen = None"

fun_cases about_SomeE: "about f = Some c" and about_NoneE: "about f = None"

definition in_map :: "TcpServer \<Rightarrow> nat \<Rightarrow> bool" where
  "in_map s c \<longleftrightarrow> srv_connections s (c_name (srv_conns s ! c)) = Some c"

text \<open>The functors that are about a connection: there is at most one, in one queue, and the state of the connection tells which.\<close>

definition due :: "TcpServer \<Rightarrow> nat \<Rightarrow> nat \<Rightarrow> srv_functor list" where
  "due s c l =
     (let k = srv_conns s ! c
      in case c_state k of
           kConnecting \<Rightarrow> if l = c_loop k then [ConnectEstablished c] else []
         | kConnected \<Rightarrow> []
         | kDisconnecting \<Rightarrow> []
         | kDisconnected \<Rightarrow>
             if in_map s c then if l = srv_base s then [RemoveConnectionInLoop c] else []
             else if c_destroyed k = 0 then if l = c_loop k then [ConnectDestroyed c] else [] else [])"

definition about_conn :: "TcpServer \<Rightarrow> nat \<Rightarrow> nat \<Rightarrow> srv_functor list" where
  "about_conn s c l = filter (\<lambda>f. about f = Some c) (srv_queues s l)"

definition life_inv :: "TcpServer \<Rightarrow> nat \<Rightarrow> bool" where
  "life_inv s c \<longleftrightarrow>
     (\<forall>l. about_conn s c l = due s c l) \<and>
     (c_state (srv_conns s ! c) \<noteq> kDisconnected \<longrightarrow> in_map s c) \<and> (in_map s c \<longrightarrow> c_destroyed (srv_conns s ! c) = 0) \<and>
     c_destroyed (srv_conns s ! c) \<le> 1 \<and>
     c_established (srv_conns s ! c) = (if c_state (srv_conns s ! c) = kConnecting then 0 else 1)"

text \<open>Names are numbered, loops are taken in turn.\<close>

definition next_loop :: "EventLoopThreadPool \<Rightarrow> nat \<Rightarrow> nat" where
  "next_loop p c = (if pool_loops p = [] then pool_base p else pool_loops p ! (c mod length (pool_loops p)))"

definition server_wf :: "TcpServer \<Rightarrow> bool" where
  "server_wf s \<longleftrightarrow>
     length (srv_ipPort s) \<le> 21 \<and> int (length (srv_conns s)) < INT_MAX \<and> srv_nextConnId s = int (length (srv_conns s)) + 1 \<and>
     (pool_loops (srv_pool s) \<noteq> [] \<longrightarrow> pool_next (srv_pool s) = int (length (srv_conns s))) \<and>
     (\<forall>c < length (srv_conns s). c_name (srv_conns s ! c) = conn_name s (int c + 1) \<and> c_loop (srv_conns s ! c) = next_loop (srv_pool s) c) \<and>
     (\<forall>n c. srv_connections s n = Some c \<longrightarrow> c < length (srv_conns s)) \<and>
     (\<forall>l. \<forall>f \<in> set (srv_queues s l). \<forall>c. about f = Some c \<longrightarrow> c < length (srv_conns s))"

definition server_inv :: "TcpServer \<Rightarrow> bool" where
  "server_inv s \<longleftrightarrow> server_wf s \<and> (\<forall>c < length (srv_conns s). life_inv s c)"

text \<open>
  The same when a closed connection may be closed again: then any number of removals and destructions can be
  queued about it, but as long as it is in the map a removal is, and until it is destroyed a destruction.
\<close>

definition ref_inv :: "TcpServer \<Rightarrow> nat \<Rightarrow> bool" where
  "ref_inv s c \<longleftrightarrow>
     (let k = srv_conns s ! c
      in if c_state k \<noteq> kDisconnected then life_inv s c
         else (\<forall>l. \<forall>f \<in> set (about_conn s c l). f = RemoveConnectionInLoop c \<and> l = srv_base s \<or>
                 f = ConnectDestroyed c \<and> l = c_loop k \<and> \<not> in_map s c) \<and>
              (in_map s c \<longrightarrow> c_destroyed k = 0 \<and> RemoveConnectionInLoop c \<in> set (about_conn s c (srv_base s))) \<and>
              (\<not> in_map s c \<and> c_destroyed k = 0 \<longrightarrow> ConnectDestroyed c \<in> set (about_conn s c (c_loop k))) \<and>
              c_established k = 1)"

definition server_refs :: "TcpServer \<Rightarrow> bool" where
  "server_refs s \<longleftrightarrow> server_wf s \<and> (\<forall>c < length (srv_conns s). ref_inv s c)"

lemma life_ref:
  assumes "life_inv s c"
  shows "ref_inv s c"
proof (cases "c_state (srv_conns s ! c) = kDisconnected")
  case True
  have "about_conn s c l = (if in_map s c then if l = srv_base s then [RemoveConnectionInLoop c] else []
      else if c_destroyed (srv_conns s ! c) = 0 then if l = c_loop (srv_conns s ! c) then [ConnectDestroyed c] else [] else [])" for l
    using assms True by (simp add: life_inv_def due_def Let_def)
  moreover have "in_map s c \<longrightarrow> c_destroyed (srv_conns s ! c) = 0" "c_established (srv_conns s ! c) = 1"
    using assms True by (simp_all add: life_inv_def)
  ultimately show ?thesis using True by (auto simp: ref_inv_def Let_def split: if_splits)
qed (use assms in \<open>simp add: ref_inv_def\<close>)

lemma server_inv_refs: "server_inv s \<Longrightarrow> server_refs s"
  by (simp add: server_inv_def server_refs_def life_ref)

lemma ref_closed:
  assumes "ref_inv s c" and "c_state (srv_conns s ! c) = kDisconnected"
  shows "f \<in> set (about_conn s c l) \<Longrightarrow> f = RemoveConnectionInLoop c \<and> l = srv_base s \<or>
      f = ConnectDestroyed c \<and> l = c_loop (srv_conns s ! c) \<and> \<not> in_map s c"
    and "in_map s c \<Longrightarrow> c_destroyed (srv_conns s ! c) = 0 \<and> RemoveConnectionInLoop c \<in> set (about_conn s c (srv_base s))"
    and "\<not> in_map s c \<Longrightarrow> c_destroyed (srv_conns s ! c) = 0 \<Longrightarrow>
      ConnectDestroyed c \<in> set (about_conn s c (c_loop (srv_conns s ! c)))"
    and "c_established (srv_conns s ! c) = 1"
  using assms by (auto simp: ref_inv_def Let_def)

lemma ref_closedI:
  assumes "c_state (srv_conns s ! c) = kDisconnected"
    and "\<And>l f. f \<in> set (about_conn s c l) \<Longrightarrow> f = RemoveConnectionInLoop c \<and> l = srv_base s \<or>
      f = ConnectDestroyed c \<and> l = c_loop (srv_conns s ! c) \<and> \<not> in_map s c"
    and "in_map s c \<Longrightarrow> c_destroyed (srv_conns s ! c) = 0 \<and> RemoveConnectionInLoop c \<in> set (about_conn s c (srv_base s))"
    and "\<not> in_map s c \<Longrightarrow> c_destroyed (srv_conns s ! c) = 0 \<Longrightarrow>
      ConnectDestroyed c \<in> set (about_conn s c (c_loop (srv_conns s ! c)))"
    and "c_established (srv_conns s ! c) = 1"
  shows "ref_inv s c"
  using assms by (auto simp: ref_inv_def Let_def)

lemma ref_alive: "ref_inv s c \<Longrightarrow> c_state (srv_conns s ! c) \<noteq> kDisconnected \<Longrightarrow> life_inv s c"
  by (simp add: ref_inv_def)

text \<open>What the invariants see of a connection.\<close>

definition same_view :: "TcpServer \<Rightarrow> TcpServer \<Rightarrow> nat \<Rightarrow> bool" where
  "same_view s s' d \<longleftrightarrow> srv_conns s' ! d = srv_conns s ! d \<and> about_conn s' d = about_conn s d \<and>
     srv_base s' = srv_base s \<and> in_map s' d = in_map s d"

lemma same_view_inv:
  assumes "same_view s s' d"
  shows "life_inv s' d = life_inv s d" and "ref_inv s' d = ref_inv s d"
proof -
  have v: "srv_conns s' ! d = srv_conns s ! d" "about_conn s' d = about_conn s d" "srv_base s' = srv_base s" "in_map s' d = in_map s d"
    using assms by (simp_all add: same_view_def)
  have due: "due s' d l = due s d l" for l unfolding due_def v ..
  show l: "life_inv s' d = life_inv s d" unfolding life_inv_def v due ..
  show "ref_inv s' d = ref_inv s d" unfolding ref_inv_def l v ..
qed

lemma conn_name_inj:
  assumes "length (srv_ipPort s) \<le> 21" and "0 \<le> i" "i \<le> INT_MAX" "0 \<le> j" "j \<le> INT_MAX" and "conn_name s i = conn_name s j"
  shows "i = j"
proof -
  have len: "length (''-'' @ srv_ipPort s @ ''#'' @ print_int x) \<le> 63" if "0 \<le> x" "x \<le> INT_MAX" for x
  proof -
    have "nat x < 10 ^ 10" using that by (simp add: INT_MAX_def)
    then have "length (dec (nat x)) \<le> 10" by (rule length_dec_le) simp
    then show ?thesis using that assms(1) by (simp add: print_int_def)
  qed
  have "print_int i = print_int j"
    using assms(6) len [OF assms(2,3)] len [OF assms(4,5)] by (simp add: conn_name_def)
  then have "dec_val (dec (nat i)) = dec_val (dec (nat j))" using assms(2,4) by (simp add: print_int_def)
  then show ?thesis using assms(2,4) by simp
qed

lemma names_distinct:
  assumes "server_wf s" and "c < length (srv_conns s)" "d < length (srv_conns s)"
    and "c_name (srv_conns s ! c) = c_name (srv_conns s ! d)"
  shows "c = d"
proof -
  have "int c + 1 = int d + 1"
    by (rule conn_name_inj [of s]) (use assms in \<open>auto simp: server_wf_def\<close>)
  then show ?thesis by simp
qed


text \<open>Steps that concern one connection only.\<close>

definition only_conn :: "nat \<Rightarrow> TcpServer \<Rightarrow> TcpServer \<Rightarrow> bool" where
  "only_conn c s s' \<longleftrightarrow>
     srv_name s' = srv_name s \<and> srv_ipPort s' = srv_ipPort s \<and> srv_pool s' = srv_pool s \<and> srv_nextConnId s' = srv_nextConnId s \<and>
     length (srv_conns s') = length (srv_conns s) \<and>
     (\<forall>d. c_name (srv_conns s' ! d) = c_name (srv_conns s ! d) \<and> c_loop (srv_conns s' ! d) = c_loop (srv_conns s ! d)) \<and>
     (\<forall>d. d \<noteq> c \<longrightarrow> srv_conns s' ! d = srv_conns s ! d) \<and>
     (\<forall>n. srv_connections s' n = srv_connections s n \<or> n = c_name (srv_conns s ! c) \<and> srv_connections s' n = None) \<and>
     (\<forall>d l. d \<noteq> c \<longrightarrow> about_conn s' d l = about_conn s d l) \<and>
     (\<forall>l. set (srv_queues s' l) \<subseteq> set (srv_queues s l) \<union> {f. about f = Some c})"

lemma only_conn_trans: "only_conn c s t \<Longrightarrow> only_conn c t u \<Longrightarrow> only_conn c s u"
proof -
  assume a: "only_conn c s t" and b: "only_conn c t u"
  have m: "srv_connections u n = srv_connections s n \<or> n = c_name (srv_conns s ! c) \<and> srv_connections u n = None" for n
    using a b unfolding only_conn_def by metis
  have q: "set (srv_queues u l) \<subseteq> set (srv_queues s l) \<union> {f. about f = Some c}" for l
  proof -
    have "set (srv_queues t l) \<subseteq> set (srv_queues s l) \<union> {f. about f = Some c}"
      "set (srv_queues u l) \<subseteq> set (srv_queues t l) \<union> {f. about f = Some c}"
      using a b unfolding only_conn_def by blast+
    then show ?thesis by blast
  qed
  show ?thesis unfolding only_conn_def
  proof (intro conjI allI)
    show "srv_connections u n = srv_connections s n \<or> n = c_name (srv_conns s ! c) \<and> srv_connections u n = None" for n by (rule m)
    show "set (srv_queues u l) \<subseteq> set (srv_queues s l) \<union> {f. about f = Some c}" for l by (rule q)
  qed (use a b in \<open>simp_all add: only_conn_def\<close>)
qed

lemma only_conn_update:
  assumes "\<And>k. c_name (f k) = c_name k" and "\<And>k. c_loop (f k) = c_loop k"
  shows "only_conn c s (update_conn c f s)"
proof -
  have "(srv_conns s)[c := f (srv_conns s ! c)] ! d = (if d = c \<and> c < length (srv_conns s) then f (srv_conns s ! c) else srv_conns s ! d)" for d
    by (cases "c < length (srv_conns s)") (auto simp: nth_list_update_eq nth_list_update_neq list_update_beyond)
  then show ?thesis using assms by (auto simp: only_conn_def update_conn_def about_conn_def)
qed

lemma only_conn_queue: "about f = Some c \<Longrightarrow> only_conn c s (srv_queueInLoop l f s)"
  by (auto simp: only_conn_def srv_queueInLoop_def about_conn_def)

lemma only_conn_erase: "only_conn c s (s\<lparr>srv_connections := (srv_connections s)(c_name (srv_conns s ! c) := None)\<rparr>)"
  by (auto simp: only_conn_def about_conn_def)

lemma only_conn_pop: "srv_queues s l = f # fs \<Longrightarrow> about f = Some c \<Longrightarrow> only_conn c s (s\<lparr>srv_queues := (srv_queues s)(l := fs)\<rparr>)"
  by (auto simp: only_conn_def about_conn_def)

lemma only_conn_wf:
  assumes "server_wf s" and "c < length (srv_conns s)" and "only_conn c s s'"
  shows "server_wf s'"
proof -
  have o: "srv_name s' = srv_name s" "srv_ipPort s' = srv_ipPort s" "srv_pool s' = srv_pool s" "srv_nextConnId s' = srv_nextConnId s"
    "length (srv_conns s') = length (srv_conns s)"
    "\<And>d. c_name (srv_conns s' ! d) = c_name (srv_conns s ! d)" "\<And>d. c_loop (srv_conns s' ! d) = c_loop (srv_conns s ! d)"
    "\<And>l. set (srv_queues s' l) \<subseteq> set (srv_queues s l) \<union> {f. about f = Some c}"
    using assms(3) by (simp_all add: only_conn_def)
  have m: "srv_connections s' n = srv_connections s n \<or> srv_connections s' n = None" for n
    using assms(3) unfolding only_conn_def by meson
  have n: "conn_name s' i = conn_name s i" for i by (simp add: conn_name_def o(1,2))
  have "\<forall>n d. srv_connections s' n = Some d \<longrightarrow> d < length (srv_conns s)"
    using assms(1) m unfolding server_wf_def by (metis option.distinct(1))
  moreover have "\<forall>l. \<forall>f \<in> set (srv_queues s' l). \<forall>d. about f = Some d \<longrightarrow> d < length (srv_conns s)"
  proof (intro allI ballI impI)
    fix l f d
    assume f: "f \<in> set (srv_queues s' l)" "about f = Some d"
    then consider "f \<in> set (srv_queues s l)" | "about f = Some c" using o(8) by blast
    then show "d < length (srv_conns s)"
    proof cases
      case 1
      then show ?thesis using assms(1) f(2) unfolding server_wf_def by blast
    qed (use assms(2) f(2) in simp)
  qed
  ultimately show ?thesis using assms(1) unfolding server_wf_def by (simp add: o(2-7) n)
qed

lemma only_conn_others:
  assumes "server_wf s" and "c < length (srv_conns s)" and "only_conn c s s'" and "d < length (srv_conns s)" "d \<noteq> c"
  shows "same_view s s' d"
proof -
  have k: "srv_conns s' ! d = srv_conns s ! d" "about_conn s' d = about_conn s d" "srv_base s' = srv_base s"
    using assms(3,5) unfolding only_conn_def by (auto simp: srv_base_def)
  have "c_name (srv_conns s ! d) \<noteq> c_name (srv_conns s ! c)" using names_distinct [OF assms(1,4,2)] assms(5) by blast
  then have "in_map s' d = in_map s d" using assms(3) k(1) unfolding only_conn_def in_map_def by metis
  then show ?thesis using k by (simp add: same_view_def)
qed

lemma only_conn_inv:
  assumes "server_inv s" and "c < length (srv_conns s)" and "only_conn c s s'" and "life_inv s' c"
  shows "server_inv s'"
proof -
  have "length (srv_conns s') = length (srv_conns s)" using assms(3) by (simp add: only_conn_def)
  then show ?thesis using assms only_conn_wf [of s c s'] same_view_inv(1) [OF only_conn_others [of s c s']]
    unfolding server_inv_def by metis
qed

lemma only_conn_refs:
  assumes "server_refs s" and "c < length (srv_conns s)" and "only_conn c s s'" and "ref_inv s' c"
  shows "server_refs s'"
proof -
  have "length (srv_conns s') = length (srv_conns s)" using assms(3) by (simp add: only_conn_def)
  then show ?thesis using assms only_conn_wf [of s c s'] same_view_inv(2) [OF only_conn_others [of s c s']]
    unfolding server_refs_def by metis
qed


lemma due_single: "due s c l = f # r \<Longrightarrow> r = [] \<and> (\<forall>l'. l' \<noteq> l \<longrightarrow> due s c l' = [])"
  by (auto simp: due_def Let_def split: StateE.splits if_splits)

text \<open>When a functor about a connection is taken from a queue, no other is left, and the connection is in the state that goes with it.\<close>

lemma pop_about:
  assumes "life_inv s c" and "srv_queues s l = f # fs" and "about f = Some c"
  shows "about_conn (s\<lparr>srv_queues := (srv_queues s)(l := fs)\<rparr>) c l' = []" and "due s c l = [f]"
proof -
  have h: "due s c l = f # filter (\<lambda>g. about g = Some c) fs"
    using assms unfolding life_inv_def about_conn_def by (metis (mono_tags, lifting) filter.simps(2))
  from due_single [OF h] have e: "filter (\<lambda>g. about g = Some c) fs = []" "\<And>l'. l' \<noteq> l \<Longrightarrow> due s c l' = []" by blast+
  then show "due s c l = [f]" using h by simp
  show "about_conn (s\<lparr>srv_queues := (srv_queues s)(l := fs)\<rparr>) c l' = []"
    using e assms(1) unfolding life_inv_def by (auto simp: about_conn_def)
qed

lemma about_conn_simps [simp]:
  "about_conn (update_conn d f s) c = about_conn s c"
  "about_conn (s\<lparr>srv_connections := m\<rparr>) c = about_conn s c"
  "about_conn (srv_queueInLoop k g s) c l = about_conn s c l @ (if l = k \<and> about g = Some c then [g] else [])"
  by (auto simp: about_conn_def [abs_def] update_conn_def srv_queueInLoop_def)

lemma update_conn_simps [simp]:
  "c < length (srv_conns s) \<Longrightarrow> srv_conns (update_conn c f s) ! c = f (srv_conns s ! c)"
  "srv_connections (update_conn c f s) = srv_connections s" "srv_base (update_conn c f s) = srv_base s"
  "length (srv_conns (update_conn c f s)) = length (srv_conns s)"
  by (simp_all add: update_conn_def srv_base_def)

text \<open>Removing a closed connection.\<close>

lemma remove_life:
  assumes "\<And>l. about_conn t c l = []" and "c_state (srv_conns t ! c) = kDisconnected"
    and "c_destroyed (srv_conns t ! c) = 0" and "c_established (srv_conns t ! c) = 1"
  shows "life_inv (removeConnectionInLoop c t) c" and "only_conn c t (removeConnectionInLoop c t)"
proof -
  let ?r = "removeConnectionInLoop c t"
  have k: "srv_conns ?r = srv_conns t" by (simp add: removeConnectionInLoop_def srv_queueInLoop_def Let_def)
  have m: "\<not> in_map ?r c" by (simp add: in_map_def removeConnectionInLoop_def srv_queueInLoop_def Let_def)
  have q: "about_conn ?r c l = (if l = c_loop (srv_conns t ! c) then [ConnectDestroyed c] else [])" for l
    using assms(1) by (simp add: removeConnectionInLoop_def Let_def)
  show "life_inv ?r c" using assms(2-4) m by (simp add: life_inv_def q due_def k)
  show "only_conn c t ?r" unfolding removeConnectionInLoop_def Let_def
    by (rule only_conn_trans [OF only_conn_erase only_conn_queue]) simp
qed

lemma listen_view:
  assumes w: "server_wf s" and q: "srv_queues s l = AcceptorListen # fs"
  shows "server_wf (srv_listen (s\<lparr>srv_queues := (srv_queues s)(l := fs)\<rparr>))" (is "server_wf ?t")
    and "same_view s (srv_listen (s\<lparr>srv_queues := (srv_queues s)(l := fs)\<rparr>)) c"
    and "length (srv_conns (srv_listen (s\<lparr>srv_queues := (srv_queues s)(l := fs)\<rparr>))) = length (srv_conns s)"
proof -
  have "about_conn ?t c = about_conn s c" by (simp add: about_conn_def srv_listen_def q fun_eq_iff)
  then show "same_view s ?t c" by (simp add: same_view_def in_map_def) (simp add: srv_base_def srv_listen_def)
  show "length (srv_conns ?t) = length (srv_conns s)" by (simp add: srv_listen_def)
  show "server_wf ?t"
  proof -
    have "\<forall>g \<in> set fs. \<forall>c. about g = Some c \<longrightarrow> c < length (srv_conns s)"
      using w q unfolding server_wf_def by (metis list.set_intros(2))
    then show ?thesis using w by (simp add: server_wf_def srv_listen_def conn_name_def)
  qed
qed

lemma run_about_life:
  assumes c: "c < length (srv_conns s)" "life_inv s c" and q: "srv_queues s l = f # fs" and f: "about f = Some c"
  shows "only_conn c s (run_srv_functor f (s\<lparr>srv_queues := (srv_queues s)(l := fs)\<rparr>)) \<and>
    life_inv (run_srv_functor f (s\<lparr>srv_queues := (srv_queues s)(l := fs)\<rparr>)) c" (is "only_conn c s ?t \<and> _")
proof -
  let ?s = "s\<lparr>srv_queues := (srv_queues s)(l := fs)\<rparr>"
  note pop = pop_about [OF c(2) q f] and o1 = only_conn_pop [OF q f]
  consider "f = ConnectEstablished c" | "f = ConnectDestroyed c" | "f = RemoveConnectionInLoop c"
    using f by (rule about_SomeE)
  then show ?thesis
  proof cases
    case 1
    have "c_state (srv_conns s ! c) = kConnecting"
      using pop(2) unfolding 1 by (auto simp: due_def Let_def split: StateE.splits if_splits)
    then show ?thesis using 1 c pop(1) only_conn_trans [OF o1 only_conn_update]
      by (simp add: run_srv_functor_def srv_connectEstablished_def) (simp add: life_inv_def due_def in_map_def)
  next
    case 2
    have "c_state (srv_conns s ! c) = kDisconnected" "\<not> in_map s c" "c_destroyed (srv_conns s ! c) = 0"
      using pop(2) unfolding 2 by (auto simp: due_def Let_def split: StateE.splits if_splits)
    then show ?thesis using 2 c pop(1) only_conn_trans [OF o1 only_conn_update]
      by (simp add: run_srv_functor_def srv_connectDestroyed_def) (simp add: life_inv_def due_def in_map_def)
  next
    case 3
    have d: "c_state (srv_conns s ! c) = kDisconnected" "in_map s c"
      using pop(2) unfolding 3 by (auto simp: due_def Let_def split: StateE.splits if_splits)
    then have "c_destroyed (srv_conns s ! c) = 0" "c_established (srv_conns s ! c) = 1" using c(2) by (simp_all add: life_inv_def)
    then show ?thesis using 3 d remove_life [OF pop(1)] only_conn_trans [OF o1] by (simp add: run_srv_functor_def)
  qed
qed

text \<open>A functor about a closed connection.\<close>

lemma run_about_ref:
  assumes c: "c < length (srv_conns s)" "ref_inv s c" and st: "c_state (srv_conns s ! c) = kDisconnected"
    and q: "srv_queues s l = f # fs" and f: "about f = Some c"
  shows "only_conn c s (run_srv_functor f (s\<lparr>srv_queues := (srv_queues s)(l := fs)\<rparr>)) \<and>
    ref_inv (run_srv_functor f (s\<lparr>srv_queues := (srv_queues s)(l := fs)\<rparr>)) c" (is "only_conn c s ?t \<and> _")
proof -
  let ?s = "s\<lparr>srv_queues := (srv_queues s)(l := fs)\<rparr>"
  note o1 = only_conn_pop [OF q f]
  have sub: "set (about_conn ?s c l') \<subseteq> set (about_conn s c l')" for l' by (auto simp: about_conn_def q)
  note old = ref_closed [OF c(2) st]
  have "f \<in> set (about_conn s c l)" using q f by (simp add: about_conn_def)
  from old(1) [OF this] consider (destroyed) "f = ConnectDestroyed c" "\<not> in_map s c" | (remove) "f = RemoveConnectionInLoop c" by blast
  then show ?thesis
  proof cases
    case destroyed
    have u: "?t = update_conn c (\<lambda>k. k\<lparr>c_destroyed := Suc (c_destroyed k)\<rparr>) ?s"
      using st by (simp add: destroyed(1) run_srv_functor_def srv_connectDestroyed_def update_conn_def)
    have "\<not> in_map ?t c" using destroyed(2) c(1) by (simp add: u in_map_def)
    moreover have "about_conn ?t c = about_conn ?s c" "srv_base ?t = srv_base s" by (simp_all add: u) (simp add: srv_base_def)
    moreover have "srv_conns ?t ! c = (srv_conns s ! c)\<lparr>c_destroyed := Suc (c_destroyed (srv_conns s ! c))\<rparr>"
      using c(1) by (simp add: u)
    ultimately have "ref_inv ?t c" using old(1,4) st sub destroyed(2) by (intro ref_closedI) (simp_all, blast)
    moreover have "only_conn c s ?t" unfolding u by (rule only_conn_trans [OF o1 only_conn_update]) simp_all
    ultimately show ?thesis by simp
  next
    case remove
    have u: "?t = removeConnectionInLoop c ?s" by (simp add: remove run_srv_functor_def)
    have "\<not> in_map ?t c" by (simp add: u in_map_def removeConnectionInLoop_def srv_queueInLoop_def Let_def)
    moreover have "about_conn ?t c l' = about_conn ?s c l' @ (if l' = c_loop (srv_conns s ! c) then [ConnectDestroyed c] else [])"
      "srv_base ?t = srv_base s" "srv_conns ?t = srv_conns s" for l'
      by (simp_all add: u removeConnectionInLoop_def Let_def) (simp_all add: srv_base_def srv_queueInLoop_def)
    ultimately have "ref_inv ?t c" using old(1,4) st sub by (intro ref_closedI) (simp_all split: if_splits, blast)
    moreover have "only_conn c s ?t" unfolding u removeConnectionInLoop_def Let_def
      by (rule only_conn_trans [OF o1 only_conn_trans [OF only_conn_erase only_conn_queue]]) simp
    ultimately show ?thesis by simp
  qed
qed

lemma queued_conn: "server_wf s \<Longrightarrow> srv_queues s l = f # fs \<Longrightarrow> about f = Some c \<Longrightarrow> c < length (srv_conns s)"
  unfolding server_wf_def by (metis list.set_intros(1))

lemma run_next_about:
  assumes "srv_queues s l = f # fs"
  shows "run_next l s = run_srv_functor f (s\<lparr>srv_queues := (srv_queues s)(l := fs)\<rparr>)"
  using assms by (simp add: run_next_def)

lemma run_next_inv:
  assumes inv: "server_inv s" shows "server_inv (run_next l s)"
proof (cases "srv_queues s l")
  case (Cons f fs)
  have w: "server_wf s" using inv by (simp add: server_inv_def)
  show ?thesis
  proof (cases "about f")
    case None
    then have f: "f = AcceptorListen" by (rule about_NoneE)
    note V = listen_view [OF w Cons [unfolded f]]
    show ?thesis using V(1,3) same_view_inv(1) [OF V(2)] inv
      by (simp add: run_next_about [OF Cons] run_srv_functor_def f server_inv_def)
  next
    case (Some c)
    have c: "c < length (srv_conns s)" "life_inv s c" using queued_conn [OF w Cons Some] inv by (simp_all add: server_inv_def)
    show ?thesis unfolding run_next_about [OF Cons]
      using run_about_life [OF c Cons Some] only_conn_inv [OF inv c(1)] by blast
  qed
qed (use assms in \<open>simp add: run_next_def\<close>)

lemma run_next_refs:
  assumes inv: "server_refs s" shows "server_refs (run_next l s)"
proof (cases "srv_queues s l")
  case (Cons f fs)
  have w: "server_wf s" using inv by (simp add: server_refs_def)
  show ?thesis
  proof (cases "about f")
    case None
    then have f: "f = AcceptorListen" by (rule about_NoneE)
    note V = listen_view [OF w Cons [unfolded f]]
    show ?thesis using V(1,3) same_view_inv(2) [OF V(2)] inv
      by (simp add: run_next_about [OF Cons] run_srv_functor_def f server_refs_def)
  next
    case (Some c)
    have c: "c < length (srv_conns s)" "ref_inv s c" using queued_conn [OF w Cons Some] inv by (simp_all add: server_refs_def)
    show ?thesis unfolding run_next_about [OF Cons]
      using run_about_ref [OF c _ Cons Some] run_about_life [OF c(1) ref_alive [OF c(2)] Cons Some]
        life_ref only_conn_refs [OF inv c(1)] by blast
  qed
qed (use assms in \<open>simp add: run_next_def\<close>)

lemma open_conn:
  assumes "life_inv s c" and "c_state (srv_conns s ! c) = kConnected \<or> c_state (srv_conns s ! c) = kDisconnecting"
  shows "about_conn s c l = []" "in_map s c" "c_destroyed (srv_conns s ! c) = 0" "c_established (srv_conns s ! c) = 1"
  using assms by (auto simp: life_inv_def due_def)

lemma close_life:
  assumes life: "life_inv s c" and c: "c < length (srv_conns s)"
    and st: "c_state (srv_conns s ! c) = kConnected \<or> c_state (srv_conns s ! c) = kDisconnecting"
  shows "only_conn c s (conn_handleClose c s) \<and> life_inv (conn_handleClose c s) c"
proof -
  let ?t = "update_conn c (\<lambda>k. k\<lparr>c_state := kDisconnected\<rparr>) s"
  note o = open_conn [OF life st]
  have t: "only_conn c s ?t" by (rule only_conn_update) simp_all
  have q: "about_conn ?t c l = []" for l using o(1) by simp
  show ?thesis
  proof (cases "c_loop (srv_conns s ! c) = srv_base s")
    case True
    then have "conn_handleClose c s = removeConnectionInLoop c ?t"
      by (simp add: conn_handleClose_def removeConnection_def srv_runInLoop_def run_srv_functor_def)
    then show ?thesis using remove_life [OF q] o(3,4) c only_conn_trans [OF t] by simp
  next
    case False
    then have h: "conn_handleClose c s = srv_queueInLoop (srv_base s) (RemoveConnectionInLoop c) ?t"
      by (simp add: conn_handleClose_def removeConnection_def srv_runInLoop_def)
    have m: "in_map (conn_handleClose c s) c"
      using o(2) c by (simp add: h in_map_def srv_queueInLoop_def)
    have k: "srv_conns (conn_handleClose c s) ! c = (srv_conns s ! c)\<lparr>c_state := kDisconnected\<rparr>"
      "srv_base (conn_handleClose c s) = srv_base s"
      using c by (simp_all add: h srv_queueInLoop_def srv_base_def) (simp add: update_conn_def)
    have a: "about_conn (conn_handleClose c s) c l = (if l = srv_base s then [RemoveConnectionInLoop c] else [])" for l
      using o(1) by (simp add: h)
    have "only_conn c s (conn_handleClose c s)" unfolding h by (rule only_conn_trans [OF t only_conn_queue]) simp
    then show ?thesis using m o(3,4) by (simp add: life_inv_def a due_def k)
  qed
qed

lemma shutdown_life:
  assumes life: "life_inv s c" and c: "c < length (srv_conns s)" and st: "c_state (srv_conns s ! c) = kConnected"
  shows "only_conn c s (conn_shutdown c s) \<and> life_inv (conn_shutdown c s) c"
proof -
  note o = open_conn [OF life disjI1 [OF st]]
  have "only_conn c s (conn_shutdown c s)" using st by (simp add: conn_shutdown_def only_conn_update)
  moreover have "life_inv (conn_shutdown c s) c"
    using st o c by (simp add: conn_shutdown_def life_inv_def due_def in_map_def)
  ultimately show ?thesis by simp
qed

lemma close_inv:
  assumes "server_inv s" and "c < length (srv_conns s)"
    and "c_state (srv_conns s ! c) = kConnected \<or> c_state (srv_conns s ! c) = kDisconnecting"
  shows "server_inv (conn_handleClose c s)"
  using close_life [OF _ assms(2,3)] only_conn_inv [OF assms(1,2)] assms(1,2) unfolding server_inv_def by blast

lemma conn_shutdown_inv:
  assumes "server_inv s" and "c < length (srv_conns s)" shows "server_inv (conn_shutdown c s)"
proof (cases "c_state (srv_conns s ! c) = kConnected")
  case True
  show ?thesis
    using shutdown_life [OF _ assms(2) True] only_conn_inv [OF assms] assms unfolding server_inv_def by blast
qed (use assms in \<open>simp add: conn_shutdown_def\<close>)

lemma conn_shutdown_refs:
  assumes "server_refs s" and "c < length (srv_conns s)" shows "server_refs (conn_shutdown c s)"
proof (cases "c_state (srv_conns s ! c) = kConnected")
  case True
  have "life_inv s c" using assms True ref_alive by (simp add: server_refs_def)
  from shutdown_life [OF this assms(2) True] show ?thesis using only_conn_refs [OF assms] life_ref by blast
qed (use assms in \<open>simp add: conn_shutdown_def\<close>)

text \<open>A connection is closed, for the first time or again.\<close>

lemma reclose_ref:
  assumes ref: "ref_inv s c" and c: "c < length (srv_conns s)" and st: "c_state (srv_conns s ! c) = kDisconnected"
  shows "only_conn c s (conn_handleClose c s) \<and> ref_inv (conn_handleClose c s) c"
proof -
  have "(srv_conns s ! c)\<lparr>c_state := kDisconnected\<rparr> = srv_conns s ! c" by (simp flip: st)
  then have same: "update_conn c (\<lambda>k. k\<lparr>c_state := kDisconnected\<rparr>) s = s" by (simp add: update_conn_def)
  let ?h = "conn_handleClose c s"
  note old = ref_closed [OF ref st]
  show ?thesis
  proof (cases "c_loop (srv_conns s ! c) = srv_base s")
    case True
    then have u: "?h = removeConnectionInLoop c s"
      by (simp add: conn_handleClose_def same removeConnection_def srv_runInLoop_def run_srv_functor_def)
    have "\<not> in_map ?h c" by (simp add: u in_map_def removeConnectionInLoop_def srv_queueInLoop_def Let_def)
    moreover have "about_conn ?h c l' = about_conn s c l' @ (if l' = c_loop (srv_conns s ! c) then [ConnectDestroyed c] else [])"
      "srv_base ?h = srv_base s" "srv_conns ?h = srv_conns s" for l'
      by (simp_all add: u removeConnectionInLoop_def Let_def) (simp_all add: srv_base_def srv_queueInLoop_def)
    ultimately have "ref_inv ?h c" using old(1,4) st by (intro ref_closedI) (simp_all split: if_splits, blast)
    moreover have "only_conn c s ?h" unfolding u removeConnectionInLoop_def Let_def
      by (rule only_conn_trans [OF only_conn_erase only_conn_queue]) simp
    ultimately show ?thesis by simp
  next
    case False
    then have u: "?h = srv_queueInLoop (srv_base s) (RemoveConnectionInLoop c) s"
      by (simp add: conn_handleClose_def same removeConnection_def srv_runInLoop_def)
    have "in_map ?h c = in_map s c" "srv_base ?h = srv_base s" "srv_conns ?h = srv_conns s"
      by (simp_all add: u in_map_def srv_queueInLoop_def srv_base_def)
    moreover have "about_conn ?h c l' = about_conn s c l' @ (if l' = srv_base s then [RemoveConnectionInLoop c] else [])" for l'
      by (simp add: u)
    ultimately have "ref_inv ?h c" using old st by (intro ref_closedI) (simp_all split: if_splits, blast+)
    moreover have "only_conn c s ?h" unfolding u by (rule only_conn_queue) simp
    ultimately show ?thesis by simp
  qed
qed

lemma close_refs:
  assumes "server_refs s" and "c < length (srv_conns s)" and "c_state (srv_conns s ! c) \<noteq> kConnecting"
  shows "server_refs (conn_handleClose c s)"
proof -
  have ref: "ref_inv s c" using assms(1,2) by (simp add: server_refs_def)
  have "only_conn c s (conn_handleClose c s) \<and> ref_inv (conn_handleClose c s) c"
  proof (cases "c_state (srv_conns s ! c) = kDisconnected")
    case False
    then have "c_state (srv_conns s ! c) = kConnected \<or> c_state (srv_conns s ! c) = kDisconnecting"
      using assms(3) by (cases "c_state (srv_conns s ! c)") simp_all
    from close_life [OF ref_alive [OF ref False] assms(2) this] show ?thesis using life_ref by blast
  qed (use reclose_ref [OF ref assms(2)] in blast)
  then show ?thesis using only_conn_refs [OF assms(1,2)] by blast
qed

text \<open>Accepting a connection faults only when a counter overflows; the loops take turns.\<close>

lemma getNextLoop_ok:
  assumes "server_wf s" and "getNextLoop (srv_pool s) = Inr (ioLoop, pool)"
  shows "ioLoop = next_loop (srv_pool s) (length (srv_conns s))" and "pool_loops pool = pool_loops (srv_pool s)"
    and "pool_base pool = pool_base (srv_pool s)"
    and "pool_loops pool \<noteq> [] \<Longrightarrow> pool_next pool = int (length (srv_conns s)) + 1"
proof -
  have n: "pool_loops (srv_pool s) \<noteq> [] \<Longrightarrow> pool_next (srv_pool s) = int (length (srv_conns s))"
    and b: "int (length (srv_conns s)) < INT_MAX" using assms(1) by (auto simp: server_wf_def)
  have "nat (to_size_t (int (length (srv_conns s)))) = length (srv_conns s)"
    using b by (simp add: to_size_t_def INT_MAX_def)
  then show "ioLoop = next_loop (srv_pool s) (length (srv_conns s))" "pool_loops pool = pool_loops (srv_pool s)"
    "pool_base pool = pool_base (srv_pool s)" "pool_loops pool \<noteq> [] \<Longrightarrow> pool_next pool = int (length (srv_conns s)) + 1"
    using assms(2) n
    by (auto simp: getNextLoop_def next_loop_def bind_result_Inr_iff checked_int_def split: if_splits)
qed

lemma next_loop_cong:
  "pool_loops p = pool_loops q \<Longrightarrow> pool_base p = pool_base q \<Longrightarrow> next_loop p = next_loop q"
  by (simp add: next_loop_def fun_eq_iff)


text \<open>The server with one more connection, about which nothing is queued yet.\<close>

lemma added_conn:
  assumes w: "server_wf s" and g: "getNextLoop (srv_pool s) = Inr (ioLoop, pool)" and id: "srv_nextConnId s + 1 \<le> INT_MAX"
    and k: "c_name k = conn_name s (srv_nextConnId s)" "c_loop k = ioLoop" and c_def: "c = length (srv_conns s)"
    and s1_def: "s1 = s\<lparr>srv_pool := pool, srv_nextConnId := srv_nextConnId s + 1, srv_conns := srv_conns s @ [k],
      srv_connections := (srv_connections s)(conn_name s (srv_nextConnId s) \<mapsto> c)\<rparr>"
  shows "server_wf s1" and "d < c \<Longrightarrow> same_view s s1 d" and "about_conn s1 c l = []" and "in_map s1 c"
proof -
  note nl = getNextLoop_ok [OF w g]
  have idn: "srv_nextConnId s = int c + 1" using w by (simp add: server_wf_def c_def)
  have name1: "conn_name s1 = conn_name s" by (simp add: conn_name_def [abs_def] s1_def)
  have base1: "srv_base s1 = srv_base s" by (simp add: srv_base_def s1_def nl(3))
  have old: "srv_conns s1 ! d = srv_conns s ! d" if "d < c" for d using that by (simp add: s1_def c_def nth_append)
  have new: "c_name (srv_conns s1 ! c) = conn_name s (srv_nextConnId s)" "c_loop (srv_conns s1 ! c) = ioLoop"
    "length (srv_conns s1) = Suc c" by (simp_all add: s1_def c_def k)
  have loops1: "next_loop (srv_pool s1) = next_loop (srv_pool s)" by (rule next_loop_cong) (simp_all add: s1_def nl(2,3))
  show w1: "server_wf s1"
  proof -
    have "\<forall>d < Suc c. c_name (srv_conns s1 ! d) = conn_name s1 (int d + 1) \<and> c_loop (srv_conns s1 ! d) = next_loop (srv_pool s1) d"
      using w old new(1,2) idn nl(1) by (auto simp: less_Suc_eq name1 loops1 server_wf_def c_def)
    moreover have "\<forall>l. \<forall>f \<in> set (srv_queues s1 l). \<forall>d. about f = Some d \<longrightarrow> d < Suc c"
      using w by (fastforce simp: server_wf_def s1_def c_def)
    moreover have "\<forall>n d. srv_connections s1 n = Some d \<longrightarrow> d < Suc c"
      using w by (fastforce simp: server_wf_def s1_def c_def split: if_splits)
    moreover have "length (srv_ipPort s1) \<le> 21" "srv_nextConnId s1 = int (Suc c) + 1"
      "pool_loops (srv_pool s1) \<noteq> [] \<longrightarrow> pool_next (srv_pool s1) = int (Suc c)"
      using w idn nl(4) by (simp_all add: server_wf_def s1_def c_def)
    moreover have "int (Suc c) < INT_MAX" using id idn by simp
    ultimately show ?thesis unfolding server_wf_def new(3) by blast
  qed
  show "same_view s s1 d" if d: "d < c"
  proof -
    have "c_name (srv_conns s ! d) \<noteq> conn_name s (srv_nextConnId s)"
      using names_distinct [OF w1, of d c] d old new by auto
    then have m: "in_map s1 d = in_map s d" using old [OF d] by (simp add: in_map_def) (simp add: s1_def)
    have q: "about_conn s1 d = about_conn s d" by (simp add: about_conn_def [abs_def] s1_def)
    then show ?thesis using m base1 old [OF d] by (simp add: same_view_def)
  qed
  have "\<forall>f \<in> set (srv_queues s l). \<forall>d. about f = Some d \<longrightarrow> d < c" using w unfolding server_wf_def c_def by blast
  then show "about_conn s1 c l = []" by (auto simp: about_conn_def s1_def filter_empty_conv)
  show "in_map s1 c" by (simp add: in_map_def new) (simp add: s1_def)
qed

lemma accept_view:
  assumes w: "server_wf s" and res: "newConnection construct sockfd peer localAddr s = Inr s'"
  shows "server_wf s'" and "length (srv_conns s') = Suc (length (srv_conns s))" and "life_inv s' (length (srv_conns s))"
    and "d < length (srv_conns s) \<Longrightarrow> same_view s s' d"
proof -
  let ?c = "length (srv_conns s)" and ?id = "srv_nextConnId s"
  let ?k = "\<lambda>ioLoop. \<lparr>c_name = conn_name s ?id, c_loop = ioLoop, c_sockfd = sockfd, c_local = localAddr, c_peer = peer,
        c_state = kConnecting, c_established = 0, c_destroyed = 0\<rparr>"
  obtain ioLoop pool where g: "getNextLoop (srv_pool s) = Inr (ioLoop, pool)" and id: "?id + 1 \<le> INT_MAX"
    and s': "s' = srv_runInLoop (srv_base s) ioLoop (ConnectEstablished ?c) (s\<lparr>srv_pool := pool, srv_nextConnId := ?id + 1,
      srv_conns := srv_conns s @ [?k ioLoop], srv_connections := (srv_connections s)(conn_name s ?id \<mapsto> ?c)\<rparr>)"
    using res by (auto simp: newConnection_def bind_result_Inr_iff checked_int_def Let_def split: if_splits)
  define s1 where "s1 = s\<lparr>srv_pool := pool, srv_nextConnId := ?id + 1, srv_conns := srv_conns s @ [?k ioLoop],
      srv_connections := (srv_connections s)(conn_name s ?id \<mapsto> ?c)\<rparr>"
  have s1: "server_wf s1" "\<And>d. d < ?c \<Longrightarrow> same_view s s1 d" "\<And>l. about_conn s1 ?c l = []" "in_map s1 ?c"
    by (rule added_conn [OF w g id _ _ refl s1_def]; simp)+
  have new: "srv_conns s1 ! ?c = ?k ioLoop" "length (srv_conns s1) = Suc ?c" by (simp_all add: s1_def)
  have "only_conn ?c s1 s' \<and> life_inv s' ?c"
  proof (cases "ioLoop = srv_base s")
    case True
    then have "s' = srv_connectEstablished ?c s1" unfolding s' by (simp add: srv_runInLoop_def run_srv_functor_def s1_def)
    then show ?thesis using s1(3,4) new
      by (simp add: srv_connectEstablished_def only_conn_update life_inv_def due_def in_map_def)
  next
    case False
    then have "s' = srv_queueInLoop ioLoop (ConnectEstablished ?c) s1" unfolding s' by (simp add: srv_runInLoop_def s1_def)
    moreover have "srv_conns (srv_queueInLoop ioLoop (ConnectEstablished ?c) s1) = srv_conns s1"
      "in_map (srv_queueInLoop ioLoop (ConnectEstablished ?c) s1) ?c"
      using s1(4) by (simp_all add: srv_queueInLoop_def in_map_def)
    ultimately show ?thesis using s1(3) new by (simp add: only_conn_queue life_inv_def due_def)
  qed
  then have o: "only_conn ?c s1 s'" and l: "life_inv s' ?c" by blast+
  have c1: "?c < length (srv_conns s1)" by (simp add: new(2))
  show "length (srv_conns s') = Suc ?c" using o new(2) by (simp add: only_conn_def)
  show "same_view s s' d" if "d < ?c"
    using that only_conn_others [OF s1(1) c1 o, of d] s1(2) [OF that] new(2) by (simp add: same_view_def)
  show "life_inv s' ?c" by (rule l)
  show "server_wf s'" by (rule only_conn_wf [OF s1(1) c1 o])
qed

lemma accept_inv:
  assumes inv: "server_inv s" and res: "newConnection construct sockfd peer localAddr s = Inr s'"
  shows "server_inv s'"
  using accept_view(1-3) [OF _ res] same_view_inv(1) [OF accept_view(4) [OF _ res]] inv by (auto simp: server_inv_def less_Suc_eq)

lemma accept_refs:
  assumes inv: "server_refs s" and res: "newConnection construct sockfd peer localAddr s = Inr s'"
  shows "server_refs s'"
  using accept_view(1-3) [OF _ res] same_view_inv(2) [OF accept_view(4) [OF _ res]] life_ref inv
  by (auto simp: server_refs_def less_Suc_eq)

lemma server_reach_inv: "server_reach s0 s \<Longrightarrow> server_inv s0 \<Longrightarrow> server_inv s"
  by (induction rule: server_reach.induct) (auto intro: accept_inv conn_shutdown_inv close_inv run_next_inv)


section \<open>The life of a connection\<close>

text \<open>The connections after each step.\<close>

lemma server_reach_trans: "server_reach t u \<Longrightarrow> server_reach s t \<Longrightarrow> server_reach s u"
  by (induction rule: server_reach.induct) (auto intro: server_reach.intros)

lemma close_conns:
  "srv_conns (conn_handleClose c s) = (srv_conns s)[c := (srv_conns s ! c)\<lparr>c_state := kDisconnected\<rparr>]"
  by (simp add: conn_handleClose_def removeConnection_def srv_runInLoop_def run_srv_functor_def removeConnectionInLoop_def
      srv_queueInLoop_def update_conn_def Let_def)

lemma newConnection_conns:
  assumes "newConnection construct sockfd peer localAddr s = Inr s'"
  shows "\<exists>a. srv_conns s' = srv_conns s @ [a] \<and> c_destroyed a = 0 \<and>
    c_state a = (if c_loop a = srv_base s then kConnected else kConnecting)"
proof -
  obtain ioLoop pool nextId where s': "s' = srv_runInLoop (srv_base s) ioLoop (ConnectEstablished (length (srv_conns s)))
      (s\<lparr>srv_pool := pool, srv_nextConnId := nextId,
         srv_conns := srv_conns s @ [\<lparr>c_name = conn_name s (srv_nextConnId s), c_loop = ioLoop, c_sockfd = sockfd,
           c_local = localAddr, c_peer = peer, c_state = kConnecting, c_established = 0, c_destroyed = 0\<rparr>],
         srv_connections := (srv_connections s)(conn_name s (srv_nextConnId s) \<mapsto> length (srv_conns s))\<rparr>)"
    using assms by (auto simp: newConnection_def bind_result_Inr_iff Let_def)
  then show ?thesis
    by (simp add: srv_runInLoop_def run_srv_functor_def srv_connectEstablished_def update_conn_def srv_queueInLoop_def)
qed

text \<open>Of the constructor, only that it succeeds in the loop of the connection matters.\<close>

lemma newConnection_fault:
  "newConnection construct sockfd peer localAddr s = Inl e \<Longrightarrow> e = SignedOverflow \<or> (\<exists>l. construct l = Inl e)"
  by (auto simp: newConnection_def getNextLoop_def checked_int_def bind_result_Inl_iff Let_def split: if_splits)

lemma newConnection_constructs:
  assumes "newConnection construct sockfd peer localAddr s = Inr s'"
  shows "\<exists>u. construct (c_loop (srv_conns s' ! length (srv_conns s))) = Inr u"
  using assms
  by (auto simp: newConnection_def bind_result_Inr_iff Let_def srv_runInLoop_def run_srv_functor_def srv_connectEstablished_def
      update_conn_def srv_queueInLoop_def)

lemma newConnection_other:
  assumes "newConnection f sockfd peer localAddr s = Inr s'" and "g (c_loop (srv_conns s' ! length (srv_conns s))) = Inr u"
  shows "newConnection g sockfd peer localAddr s = Inr s'"
  using assms
  by (auto simp: newConnection_def bind_result_Inr_iff Let_def srv_runInLoop_def run_srv_functor_def srv_connectEstablished_def
      update_conn_def srv_queueInLoop_def split: if_splits)

text \<open>What the next functor means for the connections.\<close>

lemma run_next_conns:
  assumes "srv_queues s l = f # fs"
  shows "srv_conns (run_next l s) =
    (case f of
       ConnectEstablished c \<Rightarrow> (srv_conns s)[c := (srv_conns s ! c)\<lparr>c_state := kConnected, c_established := Suc (c_established (srv_conns s ! c))\<rparr>]
     | ConnectDestroyed c \<Rightarrow> (srv_conns s)[c := (if c_state (srv_conns s ! c) = kConnected then (srv_conns s ! c)\<lparr>c_state := kDisconnected\<rparr>
           else srv_conns s ! c)\<lparr>c_destroyed := Suc (c_destroyed (srv_conns s ! c))\<rparr>]
     | _ \<Rightarrow> srv_conns s)"
  using assms
  by (cases f) (simp_all add: run_next_def run_srv_functor_def srv_connectEstablished_def srv_connectDestroyed_def update_conn_def
      removeConnectionInLoop_def srv_queueInLoop_def srv_listen_def Let_def)

lemma next_functor:
  assumes inv: "server_inv s" and q: "srv_queues s l = f # fs" and f: "about f = Some c"
  shows "c < length (srv_conns s)" "c_destroyed (srv_conns s ! c) = 0"
    and "f = ConnectEstablished c \<Longrightarrow> c_loop (srv_conns s ! c) = l \<and> c_state (srv_conns s ! c) = kConnecting"
    and "f = ConnectDestroyed c \<Longrightarrow> c_loop (srv_conns s ! c) = l \<and> c_state (srv_conns s ! c) = kDisconnected"
proof -
  show c: "c < length (srv_conns s)" using inv q f unfolding server_inv_def server_wf_def by (metis list.set_intros(1))
  have life: "life_inv s c" using inv c by (simp add: server_inv_def)
  have d: "due s c l = [f]" using pop_about(2) [OF life q f] .
  then show "c_destroyed (srv_conns s ! c) = 0"
    using life by (auto simp: due_def life_inv_def Let_def split: StateE.splits if_splits)
  show "f = ConnectEstablished c \<Longrightarrow> c_loop (srv_conns s ! c) = l \<and> c_state (srv_conns s ! c) = kConnecting"
    "f = ConnectDestroyed c \<Longrightarrow> c_loop (srv_conns s ! c) = l \<and> c_state (srv_conns s ! c) = kDisconnected"
    using d by (auto simp: due_def Let_def split: StateE.splits if_splits)
qed

text \<open>The state of a connection only moves on.\<close>

lemma server_reach_moves_on:
  assumes "server_reach s t" and "server_inv s" and "c < length (srv_conns s)"
  shows "c < length (srv_conns t) \<and> c_state (srv_conns s ! c) \<le> c_state (srv_conns t ! c)"
  using assms
proof (induction rule: server_reach.induct)
  case (accept t construct sockfd peer localAddr t')
  then show ?case using newConnection_conns [OF accept.hyps(2)] by (auto simp: nth_append)
next
  case (shut t d)
  have "c_state (srv_conns t ! c) \<le> c_state (srv_conns (conn_shutdown d t) ! c)" if "c < length (srv_conns t)"
    using that shut.hyps(2) by (auto simp: conn_shutdown_def update_conn_def state_order nth_list_update)
  then show ?case using shut by (auto simp: conn_shutdown_def update_conn_def intro: order_trans)
next
  case (close t d)
  then show ?case by (auto simp: close_conns nth_list_update state_order)
next
  case (run t l)
  have inv: "server_inv t" using server_reach_inv run by blast
  have "c_state (srv_conns t ! c) \<le> c_state (srv_conns (run_next l t) ! c) \<and> length (srv_conns (run_next l t)) = length (srv_conns t)"
    if "c < length (srv_conns t)"
  proof (cases "srv_queues t l")
    case (Cons f fs)
    note N = next_functor [OF inv Cons] and C = run_next_conns [OF Cons]
    have "d < length (srv_conns t)" if "about f = Some d" for d using N(1) [OF that] .
    then show ?thesis
      using N(3) [of c] N(4) [of c] that by (cases f) (auto simp: C nth_list_update state_order)
  qed (simp add: run_next_def)
  then show ?case using run by (auto intro: order_trans)
qed simp

section \<open>Connections that are closed more than once\<close>

text \<open>
  The server refers to a connection through its map and through the functors it has queued about it; the
  functors are in the queues of its loops.
\<close>

definition referenced :: "TcpServer \<Rightarrow> nat \<Rightarrow> bool" where
  "referenced s c \<longleftrightarrow> in_map s c \<or>
     (\<exists>l \<in> set (srv_base s # pool_loops (srv_pool s)). \<exists>f \<in> set (srv_queues s l). about f = Some c)"

text \<open>Runs in which, besides, a closed connection to which the server still refers can be closed again.\<close>

inductive server_runs :: "TcpServer \<Rightarrow> TcpServer \<Rightarrow> bool" for s0 where
  start: "server_runs s0 s0"
| step: "server_runs s0 s \<Longrightarrow> server_reach s s' \<Longrightarrow> server_runs s0 s'"
| again: "server_runs s0 s \<Longrightarrow> c < length (srv_conns s) \<Longrightarrow> c_state (srv_conns s ! c) = kDisconnected \<Longrightarrow>
    referenced s c \<Longrightarrow> server_runs s0 (conn_handleClose c s)"

lemma server_reach_runs: "server_reach s t \<Longrightarrow> server_runs s t"
  by (rule server_runs.step [OF server_runs.start])

lemma server_runs_trans: "server_runs t u \<Longrightarrow> server_runs s t \<Longrightarrow> server_runs s u"
  by (induction rule: server_runs.induct) (auto intro: server_runs.intros)

lemma server_reach_refs: "server_reach s0 s \<Longrightarrow> server_refs s0 \<Longrightarrow> server_refs s"
  by (induction rule: server_reach.induct) (auto intro: accept_refs conn_shutdown_refs close_refs run_next_refs)

lemma server_runs_refs: "server_runs s0 s \<Longrightarrow> server_refs s0 \<Longrightarrow> server_refs s"
  by (induction rule: server_runs.induct) (auto intro: server_reach_refs close_refs)

lemma next_loop_in: "next_loop p c \<in> set (pool_base p # pool_loops p)"
  by (simp add: next_loop_def)

lemma ref_queues:
  assumes s: "server_refs s" "c < length (srv_conns s)" and f: "f \<in> set (about_conn s c l)"
  shows "l \<in> set (srv_base s # pool_loops (srv_pool s))"
proof -
  have "c_loop (srv_conns s ! c) = next_loop (srv_pool s) c" and ref: "ref_inv s c"
    using s by (simp_all add: server_refs_def server_wf_def)
  then have "c_loop (srv_conns s ! c) \<in> set (srv_base s # pool_loops (srv_pool s))"
    using next_loop_in [of "srv_pool s" c] by (simp add: srv_base_def)
  moreover have "l = srv_base s \<or> l = c_loop (srv_conns s ! c)"
    using ref f by (auto simp: ref_inv_def life_inv_def due_def Let_def split: if_splits StateE.splits)
  ultimately show ?thesis by auto
qed

lemma referenced_iff:
  assumes "server_refs s" and "c < length (srv_conns s)"
  shows "referenced s c \<longleftrightarrow> in_map s c \<or> (\<exists>l. about_conn s c l \<noteq> [])"
  using ref_queues [OF assms] by (fastforce simp: referenced_def about_conn_def filter_empty_conv)

text \<open>A connection the server no longer refers to is closed and destroyed.\<close>

lemma unreferenced_destroyed:
  assumes s: "server_refs s" "c < length (srv_conns s)" and r: "\<not> referenced s c"
  shows "c_state (srv_conns s ! c) = kDisconnected" and "0 < c_destroyed (srv_conns s ! c)"
proof -
  have n: "\<not> in_map s c" "\<And>l. about_conn s c l = []" using r by (auto simp: referenced_iff [OF s])
  have ref: "ref_inv s c" using s by (simp add: server_refs_def)
  show st: "c_state (srv_conns s ! c) = kDisconnected" using ref n(1) by (auto simp: ref_inv_def life_inv_def Let_def split: if_splits)
  show "0 < c_destroyed (srv_conns s ! c)" using ref_closed(3) [OF ref st n(1)] n(2) by fastforce
qed

lemma undestroyed_referenced:
  "server_refs s \<Longrightarrow> c < length (srv_conns s) \<Longrightarrow> c_destroyed (srv_conns s ! c) = 0 \<Longrightarrow> referenced s c"
  using unreferenced_destroyed(2) by fastforce

lemma referenced_idle:
  assumes "\<forall>l. srv_queues s l = []" and "referenced s c"
  shows "in_map s c"
  using assms by (simp add: referenced_def)

lemma same_view_referenced:
  assumes "server_refs s" "server_refs s'" and "c < length (srv_conns s)" "c < length (srv_conns s')" and "same_view s s' c"
  shows "referenced s' c = referenced s c"
  using assms(5) by (simp add: referenced_iff [OF assms(1,3)] referenced_iff [OF assms(2,4)] same_view_def)

text \<open>When no connection is closed twice, the server refers to a connection until it is destroyed.\<close>

lemma life_referenced:
  assumes inv: "server_inv s" and c: "c < length (srv_conns s)"
  shows "referenced s c \<longleftrightarrow> c_destroyed (srv_conns s ! c) = 0"
proof
  assume ref: "referenced s c"
  have life: "life_inv s c" using inv c by (simp add: server_inv_def)
  have "in_map s c \<or> (\<exists>l. due s c l \<noteq> [])"
    using ref referenced_iff [OF server_inv_refs [OF inv] c] life by (simp add: life_inv_def)
  then show "c_destroyed (srv_conns s ! c) = 0"
    using life by (auto simp: life_inv_def due_def Let_def split: StateE.splits if_splits)
qed (use undestroyed_referenced [OF server_inv_refs [OF inv] c] in simp)

lemma close_referenced:
  assumes "server_refs s" and "c < length (srv_conns s)" and "c_state (srv_conns s ! c) \<noteq> kConnecting"
  shows "referenced (conn_handleClose c s) c"
proof -
  have "\<exists>l. about_conn (conn_handleClose c s) c l \<noteq> []"
    by (auto simp: conn_handleClose_def removeConnection_def srv_runInLoop_def run_srv_functor_def removeConnectionInLoop_def Let_def)
  moreover have "c < length (srv_conns (conn_handleClose c s))" using assms(2) by (simp add: close_conns)
  ultimately show ?thesis using referenced_iff [OF close_refs [OF assms]] by blast
qed

lemma close_only:
  assumes "server_refs s" and "c < length (srv_conns s)" and "c_state (srv_conns s ! c) \<noteq> kConnecting"
  shows "only_conn c s (conn_handleClose c s)"
proof -
  have ref: "ref_inv s c" using assms(1,2) by (simp add: server_refs_def)
  show ?thesis
  proof (cases "c_state (srv_conns s ! c) = kDisconnected")
    case False
    then have "c_state (srv_conns s ! c) = kConnected \<or> c_state (srv_conns s ! c) = kDisconnecting"
      using assms(3) by (cases "c_state (srv_conns s ! c)") simp_all
    from close_life [OF ref_alive [OF ref False] assms(2) this] show ?thesis ..
  qed (use reclose_ref [OF ref assms(2)] in blast)
qed

text \<open>A connection is closed any number of times.\<close>

lemma close_again:
  assumes "server_refs s" and "c < length (srv_conns s)" and "c_state (srv_conns s ! c) = kDisconnected" and "referenced s c"
  shows "server_runs s ((conn_handleClose c ^^ n) s) \<and> server_refs ((conn_handleClose c ^^ n) s) \<and>
    srv_conns ((conn_handleClose c ^^ n) s) = srv_conns s \<and> only_conn c s ((conn_handleClose c ^^ n) s) \<and>
    referenced ((conn_handleClose c ^^ n) s) c"
proof (induction n)
  case 0
  then show ?case using assms by (simp add: server_runs.start only_conn_def)
next
  case (Suc n)
  let ?t = "(conn_handleClose c ^^ n) s"
  have t: "server_refs ?t" "c < length (srv_conns ?t)" "c_state (srv_conns ?t ! c) \<noteq> kConnecting" "referenced ?t c"
    using Suc assms(2,3) by simp_all
  have "(srv_conns s ! c)\<lparr>c_state := kDisconnected\<rparr> = srv_conns s ! c" by (simp flip: assms(3))
  then have "srv_conns (conn_handleClose c ?t) = srv_conns s" using Suc assms(2) by (simp add: close_conns)
  moreover have "server_runs s (conn_handleClose c ?t)"
    using Suc assms(2,3) t(4) by (intro server_runs.again) simp_all
  ultimately show ?case
    using close_refs [OF t(1-3)] close_referenced [OF t(1-3)] only_conn_trans [OF _ close_only [OF t(1-3)], of s] Suc by simp
qed

text \<open>What the next functor means for the connection it is about.\<close>

lemma next_functor_ref:
  assumes s: "server_refs s" and q: "srv_queues s l = f # fs" and f: "about f = Some c"
  shows "c < length (srv_conns s)" "referenced s c" "only_conn c s (run_next l s)"
    and "f = ConnectEstablished c \<Longrightarrow> c_loop (srv_conns s ! c) = l \<and> c_state (srv_conns s ! c) = kConnecting \<and>
      c_destroyed (srv_conns s ! c) = 0 \<and> referenced (run_next l s) c"
    and "f = ConnectDestroyed c \<Longrightarrow> c_loop (srv_conns s ! c) = l \<and> c_state (srv_conns s ! c) = kDisconnected"
    and "f = RemoveConnectionInLoop c \<Longrightarrow> referenced (run_next l s) c"
proof -
  have w: "server_wf s" using s by (simp add: server_refs_def)
  show c: "c < length (srv_conns s)" by (rule queued_conn [OF w q f])
  have ref: "ref_inv s c" using s c by (simp add: server_refs_def)
  have in_q: "f \<in> set (about_conn s c l)" using q f by (simp add: about_conn_def)
  then show "referenced s c" using referenced_iff [OF s c] by (metis empty_iff empty_set)
  have life: "life_inv s c \<and> due s c l = [f]" if "c_state (srv_conns s ! c) \<noteq> kDisconnected"
    using ref_alive [OF ref that] pop_about(2) [OF _ q f] by blast
  show o: "only_conn c s (run_next l s)" unfolding run_next_about [OF q]
    using run_about_ref [OF c ref _ q f] run_about_life [OF c _ q f] life by blast
  note t = run_next_refs [OF s, of l]
  have ct: "c < length (srv_conns (run_next l s))" using o c by (simp add: only_conn_def)
  show "c_loop (srv_conns s ! c) = l \<and> c_state (srv_conns s ! c) = kDisconnected" if "f = ConnectDestroyed c"
    using life ref_closed(1) [OF ref _ in_q] that
    by (cases "c_state (srv_conns s ! c)") (auto simp: due_def Let_def split: if_splits)
  show "referenced (run_next l s) c" if "f = RemoveConnectionInLoop c"
  proof -
    have "about_conn (run_next l s) c (c_loop (srv_conns s ! c)) \<noteq> []"
      by (simp add: run_next_about [OF q] that run_srv_functor_def removeConnectionInLoop_def Let_def)
    then show ?thesis using referenced_iff [OF t ct] by blast
  qed
  show "c_loop (srv_conns s ! c) = l \<and> c_state (srv_conns s ! c) = kConnecting \<and>
      c_destroyed (srv_conns s ! c) = 0 \<and> referenced (run_next l s) c" if e: "f = ConnectEstablished c"
  proof -
    have "c_state (srv_conns s ! c) \<noteq> kDisconnected" using ref_closed(1) [OF ref _ in_q] e by auto
    note L = life [OF this]
    then have k: "c_loop (srv_conns s ! c) = l" "c_state (srv_conns s ! c) = kConnecting" "c_destroyed (srv_conns s ! c) = 0"
      using e by (auto simp: life_inv_def due_def Let_def split: StateE.splits if_splits)
    then have "c_destroyed (srv_conns (run_next l s) ! c) = 0" using c by (simp add: run_next_conns [OF q] e)
    then show ?thesis using k undestroyed_referenced [OF t ct] by simp
  qed
qed

text \<open>A server that was given its threads and started in its own loop.\<close>

definition started_server :: "(nat \<Rightarrow> nat) \<Rightarrow> bool \<Rightarrow> nat \<Rightarrow> sockaddr_in \<Rightarrow> string \<Rightarrow> int \<Rightarrow> TcpServer" where
  "started_server startLoop cb loop addr nm n = server_start startLoop cb loop (setThreadNum n (new_TcpServer loop addr nm))"

lemma started_server_fields:
  "srv_conns (started_server startLoop cb loop addr nm n) = []"
  "srv_pool (started_server startLoop cb loop addr nm n) = fst (pool_start startLoop cb (pool_setThreadNum n (new_EventLoopThreadPool loop nm)))"
  by (simp_all add: started_server_def server_start_def setThreadNum_def new_TcpServer_def srv_runInLoop_def run_srv_functor_def
      srv_listen_def srv_base_def pool_start_def pool_setThreadNum_def new_EventLoopThreadPool_def Let_def)

lemma started_server_inv:
  assumes "length (sin_addr addr) = 4"
  shows "server_inv (started_server startLoop cb loop addr nm n)"
proof -
  let ?s = "started_server startLoop cb loop addr nm n"
  have "srv_ipPort ?s = toIpPort addr" "srv_nextConnId ?s = 1" "srv_connections ?s = Map.empty" "srv_queues ?s = (\<lambda>_. [])"
    "pool_next (srv_pool ?s) = 0"
    by (simp_all add: started_server_def server_start_def setThreadNum_def new_TcpServer_def srv_runInLoop_def run_srv_functor_def
      srv_listen_def srv_base_def pool_start_def pool_setThreadNum_def new_EventLoopThreadPool_def Let_def)
  then show ?thesis using length_toIpPort [OF assms]
    by (simp add: server_inv_def server_wf_def started_server_fields(1) INT_MAX_def)
qed

lemma run_srv_functor_pool [simp]: "srv_pool (run_srv_functor f s) = srv_pool s"
  by (cases f) (simp_all add: run_srv_functor_def srv_connectEstablished_def srv_connectDestroyed_def removeConnectionInLoop_def
      srv_listen_def update_conn_def srv_queueInLoop_def Let_def)

lemma srv_runInLoop_pool [simp]: "srv_pool (srv_runInLoop here l f s) = srv_pool s"
  by (simp add: srv_runInLoop_def srv_queueInLoop_def)

lemma pool_kept: "server_reach s0 s \<Longrightarrow> server_inv s0 \<Longrightarrow> next_loop (srv_pool s) = next_loop (srv_pool s0) \<and> srv_base s = srv_base s0"
proof (induction rule: server_reach.induct)
  case (accept s construct sockfd peer localAddr s')
  have "server_wf s" using server_reach_inv [OF accept.hyps(1) accept.prems] by (simp add: server_inv_def)
  moreover obtain ioLoop pool where "getNextLoop (srv_pool s) = Inr (ioLoop, pool)" "srv_pool s' = pool"
    using accept.hyps(2) by (auto simp: newConnection_def bind_result_Inr_iff Let_def)
  ultimately have "pool_loops (srv_pool s') = pool_loops (srv_pool s)" "pool_base (srv_pool s') = pool_base (srv_pool s)"
    using getNextLoop_ok(2,3) by blast+
  then show ?case using accept next_loop_cong [of "srv_pool s'" "srv_pool s"] by (simp add: srv_base_def)
next
  case (run s l)
  have "srv_pool (run_next l s) = srv_pool s"
    by (simp add: run_next_def split: list.split)
  then show ?case using run by (simp add: srv_base_def)
qed (simp_all add: conn_shutdown_def conn_handleClose_def removeConnection_def update_conn_def srv_base_def)

text \<open>A server with two threads, and its first connection.\<close>

definition sample_addr :: sockaddr_in where
  "sample_addr = \<lparr>sin_family = AF_INET, sin_port = htons 8000, sin_addr = [127, 0, 0, 1]\<rparr>"

definition sample_server :: TcpServer where
  "sample_server = started_server (\<lambda>i. i + 2) False 1 sample_addr ''web'' 2"

lemma sample_accept:
  "\<exists>s. newConnection (\<lambda>_. Inr ()) 5 sample_addr sample_addr sample_server = Inr s \<and> length (srv_conns s) = 1 \<and>
     c_loop (srv_conns s ! 0) = 2 \<and> c_destroyed (srv_conns s ! 0) = 0 \<and> srv_queues s = (\<lambda>_. [])(2 := [ConnectEstablished 0])"
proof -
  have "srv_nextConnId sample_server = 1" "pool_next (srv_pool sample_server) = 0" "srv_conns sample_server = []"
    "srv_queues sample_server = (\<lambda>_. [])" "pool_loops (srv_pool sample_server) = [2, 3]" "srv_base sample_server = 1"
    by (simp_all add: sample_server_def started_server_def server_start_def setThreadNum_def new_TcpServer_def srv_runInLoop_def
      run_srv_functor_def srv_listen_def srv_base_def pool_start_def pool_setThreadNum_def new_EventLoopThreadPool_def Let_def upt_conv_Cons)
  then show ?thesis
    by (simp add: newConnection_def getNextLoop_def checked_int_def INT_MAX_def INT_MIN_def srv_runInLoop_def run_srv_functor_def
      srv_connectEstablished_def update_conn_def srv_queueInLoop_def to_size_t_def Let_def)
qed






end
