(* ===== verification/Conn_Rounds.thy ===== *)
theory Conn_Rounds
  imports Conn_Loop
begin

text \<open>
  Rounds of a loop over its connections, inside the contract of the message handler: every step of the
  loop keeps the invariant of all its connections, no event reaches a freed one, and what follows
  for the kernel's interest list, the removals, and the output on writable sockets.  All of it holds for whatever events
  the kernel reports; \<open>once\<close> says in addition that they are sane, so that no connection is closed twice.
\<close>

section \<open>Events\<close>

text \<open>What is left of the callbacks of an event that may close the connection.\<close>

definition closers :: "callback list \<Rightarrow> callback list" where
  "closers = filter (\<lambda>k. k \<noteq> ErrCallback \<and> k \<noteq> WriteCallback)"

lemma closers_simps [simp]:
  "closers [] = []" "closers (k # ks) = (if k \<noteq> ErrCallback \<and> k \<noteq> WriteCallback then k # closers ks else closers ks)"
  "closers (ks @ ks') = closers ks @ closers ks'"
  by (simp_all add: closers_def)

lemma and_or_zero: "x AND (y OR z) = 0 \<longleftrightarrow> x AND y = 0 \<and> x AND z = (0 :: events)"
  by (simp add: bit.conj_disj_distrib) (metis and_zero_eq or_eq_0_iff)

lemma closers_event:
  assumes "sane_event (ch_revents ch)"
  shows "length (closers (handleEvent locked T ch)) \<le> 1"
  using assms by (auto simp: handleEvent_def handleEventWithGuard_def sane_event_def and_or_zero)

text \<open>
  Without the restriction on urgent data: on a hang-up that is reported with urgent data and no readable
  input, the close callback and the read callback both close the connection.  The server is asked
  twice to remove it, and the second \<^verbatim>\<open>disableAll\<close> registers the channel again, for no events.
\<close>

lemma handleClose_total:
  assumes "0 \<le> k_ctl (kern w) (clock w)"
  shows "\<exists>w1. handleClose server_callbacks w = Inr (emit (Queue RemoveConnection) w1) \<and>
    channel_call disableAll (set_conn (\<lambda>t. t\<lparr>tc_state := kDisconnected\<rparr>) w) = Inr w1"
proof -
  obtain p where "disableAll (k_ctl (kern w) (clock w)) (tc_channel (conn w)) (poller w) = Inr p"
    using updateChannel_total [OF assms] unfolding disableAll_def change_events_def by blast
  then show ?thesis by (simp add: handleClose_def server_callbacks_def channel_call_def)
qed

lemma urgent_hangup_closes_twice:
  assumes ok: "conn_ok True w" and op: "is_open w" and ev: "ch_revents (my_channel w) = (EPOLLHUP OR EPOLLPRI)"
    and k: "\<forall>n. k_read (kern w) n = Inr [] \<and> 0 \<le> k_ctl (kern w) n"
  shows "\<exists>w'. conn_event h T (x, w) = Some (Inr (x, w')) \<and> removals w' = 2 \<and>
    ch_index (my_channel w') = kAdded \<and> ch_events (my_channel w') = 0"
proof -
  obtain w1 where w1: "handleClose server_callbacks w = Inr w1" using handleClose_total k by blast
  have nc: "tc_state (conn w) \<noteq> kConnecting" using op by auto
  have c1: "conn_ok True w1" "tc_state (conn w1) = kDisconnected" "kern w1 = kern w"
    using handleClose_ok [OF ok nc op w1] by (auto simp: local_step_def good_step_def)
  note a = good_stepD(1) [OF after_read_ok [OF c1(1)]]
  have st: "tc_state (conn (after_read w1)) = kDisconnected" "kern (after_read w1) = kern w" using c1 by simp_all
  obtain w2 where w2: "handleClose server_callbacks (after_read w1) = Inr (emit (Queue RemoveConnection) w2)"
    "channel_call disableAll (set_conn (\<lambda>t. t\<lparr>tc_state := kDisconnected\<rparr>) (after_read w1)) = Inr w2"
    using handleClose_total [of "after_read w1"] k st(2) by auto
  have rm: "removals (after_read w1) = 1" using conn_okD(5) [OF a] st(1) by (auto simp: le_Suc_eq)
  have "ch_index (my_channel (after_read w1)) \<in> {kNew, kAdded, kDeleted}"
    using conn_okD(2) [OF a] by (simp add: poller_inv_def chan_ok_def my_channel_def Let_def)
  then have d: "ch_index (my_channel (after_read w1)) \<in> {kNew, kDeleted}" "removals (after_read w1) = 1"
    using conn_okD(4) [OF a] st(1) rm by simp_all
  have "ch_index (my_channel w2) = kAdded \<and> ch_events (my_channel w2) = 0"
    using w2(2) d(1) by (auto elim!: channel_call_frame simp: my_channel_def channel_op_defs updateChannel_def update_ctl_def
        set_channel_def Let_def kNoneEvent_def index_defs split: if_splits)
  moreover have "removals w2 = 1" using channel_call_same [OF w2(2)] d(2) by (simp add: removals_def)
  moreover have "handleRead server_callbacks T w1 = Inr (emit (Queue RemoveConnection) w2)" "read_outcome w1 = Inr []"
    using handleRead_after(3) [OF conn_okD(1) [OF c1(1)], of server_callbacks T] k c1(3) w2(1)
    by (simp_all add: read_outcome_def)
  moreover have "handleEvent True T (my_channel w) = [CloseCallback, ReadCallback T]"
    using conn_okD(6) [OF ok] ev by (simp add: handleEvent_def handleEventWithGuard_def wired_def mask_defs)
  ultimately show ?thesis
    using w1 by (intro exI [of _ "emit (Queue RemoveConnection) w2"]) (simp add: conn_event_def run_callback_def read_event_def)
qed

lemma moves_connecting: "moves s s' \<Longrightarrow> s \<noteq> kConnecting \<Longrightarrow> s' \<noteq> kConnecting"
  by (cases s; cases s') (simp_all add: moves_def state_order)

lemma good_step_connecting: "good_step once w w' \<Longrightarrow> tc_state (conn w) \<noteq> kConnecting \<Longrightarrow> tc_state (conn w') \<noteq> kConnecting"
  using moves_connecting good_stepD(3) by blast

context message_handler
begin

lemma read_event_ok:
  assumes x: "ok x" and w: "conn_ok once w" "tc_state (conn w) \<noteq> kConnecting" and op0: "once \<Longrightarrow> is_open w"
  shows "\<exists>r. read_event h T (x, w) = Some r \<and> faults_in faults r \<and>
    (\<forall>s'. r = Inr s' \<longrightarrow> ok (fst s') \<and> good_step once w (snd s'))"
proof -
  note g = after_read_ok [OF w(1)] and a = good_stepD(1) [OF after_read_ok [OF w(1)]]
    and R = handleRead_after(3) [OF conn_okD(1) [OF w(1)], of server_callbacks T]
  have op: "once \<Longrightarrow> is_open (after_read w)" and nc: "tc_state (conn (after_read w)) \<noteq> kConnecting" using w(2) op0 by simp_all
  show ?thesis
  proof (cases "read_outcome w")
    case (Inl e)
    then have "read_event h T (x, w) = Some (Inr (x, handleError (emit LogError (after_read w))))"
      using R by (simp add: read_event_def)
    then show ?thesis using x g by (simp add: handleError_def good_step_emit)
  next
    case (Inr d)
    show ?thesis
    proof (cases "d = []")
      case True
      then show ?thesis
        using R Inr x abort handleClose_ok [OF a nc op] handleClose_fault good_step_trans [OF g]
        by (cases "handleClose server_callbacks (after_read w)") (auto simp: read_event_def)
    next
      case False
      then have r: "read_event h T (x, w) = h T x (after_read w)" using R Inr by (simp add: read_event_def server_callbacks_def)
      note a' = conn_ok_weaken [OF a]
      obtain r where h: "h T x (after_read w) = Some r" "faults_in faults r" using returns [OF x a'] by blast
      have "ok x' \<and> good_step once w w'" if "r = Inr (x', w')" for x' w'
        using calls [OF x a'] h(1) that user_calls_ok [OF _ a] good_step_trans [OF g] by blast
      then show ?thesis using r h by auto
    qed
  qed
qed

text \<open>One callback; when no connection is closed twice, it is still open or the callback is none that could close it again.\<close>

lemma run_callback_ok:
  assumes x: "ok (fst s)" and w: "conn_ok once (snd s)" and nc: "tc_state (conn (snd s)) \<noteq> kConnecting"
    and k: "once \<longrightarrow> is_open (snd s) \<or> closers [k] = []"
  shows "\<exists>r. run_callback h k s = Some r \<and> faults_in faults r \<and>
    (\<forall>s'. r = Inr s' \<longrightarrow> ok (fst s') \<and> good_step once (snd s) (snd s') \<and>
       (closers [k] = [] \<longrightarrow> tc_state (conn (snd s')) = tc_state (conn (snd s))))"
proof (cases k)
  case CloseCallback
  then show ?thesis
    using k x abort handleClose_ok [OF w nc] handleClose_fault [of "snd s"]
    by (cases "handleClose server_callbacks (snd s)") (auto simp: run_callback_def)
next
  case ErrCallback
  then show ?thesis using x w by (simp add: run_callback_def handleError_def good_step_emit good_step_refl)
next
  case (ReadCallback T)
  then show ?thesis using k read_event_ok [OF x w nc] by (simp add: run_callback_def)
next
  case WriteCallback
  then show ?thesis
    using x abort handleWrite_ok [OF w] handleWrite_fault [OF conn_invD(2) [OF conn_okD(1) [OF w]]]
    by (cases "handleWrite (snd s)") (auto simp: run_callback_def)
qed

lemma conn_event_ok:
  assumes x: "ok x" and w: "conn_ok once w" "tc_state (conn w) \<noteq> kConnecting"
    and ev: "once \<Longrightarrow> is_open w \<and> sane_event (ch_revents (my_channel w))"
  shows "\<exists>r. conn_event h T (x, w) = Some r \<and> faults_in faults r \<and>
    (\<forall>s'. r = Inr s' \<longrightarrow> ok (fst s') \<and> good_step once w (snd s'))"
proof -
  let ?J = "\<lambda>ks s. ok (fst s) \<and> good_step once w (snd s) \<and>
    (once \<longrightarrow> length (closers ks) \<le> 1 \<and> (is_open (snd s) \<or> closers ks = []))"
  have step: "\<exists>r. run_callback h k s = Some r \<and> faults_in faults r \<and> (\<forall>s'. r = Inr s' \<longrightarrow> ?J ks s')"
    if J: "?J (k # ks) s" for k ks s
  proof -
    from J have k: "once \<longrightarrow> is_open (snd s) \<or> closers [k] = []" by (auto split: if_splits)
    from J have s: "ok (fst s)" "conn_ok once (snd s)" "tc_state (conn (snd s)) \<noteq> kConnecting"
      using good_stepD(1) good_step_connecting w(2) by blast+
    obtain r where r: "run_callback h k s = Some r" "faults_in faults r"
      "\<forall>s'. r = Inr s' \<longrightarrow> ok (fst s') \<and> good_step once (snd s) (snd s') \<and>
        (closers [k] = [] \<longrightarrow> tc_state (conn (snd s')) = tc_state (conn (snd s)))"
      using run_callback_ok [OF s k] by blast
    have "?J ks s'" if "r = Inr s'" for s'
      using r(3) that J good_step_trans [of once w "snd s" "snd s'"] by (auto split: if_splits)
    then show ?thesis using r(1,2) by blast
  qed
  have "?J (handleEvent True T (my_channel w)) (x, w)" using x w ev closers_event by (simp add: good_step_refl)
  from fold_run_keeps [where f = "run_callback h" and J = ?J and E = "\<lambda>e. e \<in> faults", OF this step]
  show ?thesis by (auto simp: conn_event_def)
qed

section \<open>The invariant of the loop\<close>

definition loop_ok :: "bool \<Rightarrow> nat set \<Rightarrow> 'x conn_loop \<Rightarrow> bool" where
  "loop_ok once R L \<longleftrightarrow> poller_inv (cl_poller L) \<and>
     (\<forall>c k. cl_conns L c = Some k \<longrightarrow> c \<notin> R \<and> tc_channel (cn_tcp k) = c \<and> ok (cn_ctx k) \<and> conn_ok once (conn_world L k)) \<and>
     (\<forall>c. c \<notin> R \<and> cl_conns L c = None \<longrightarrow> ch_index (store (cl_poller L) c) \<noteq> kAdded)"

lemma loop_okD:
  assumes "loop_ok once R L"
  shows "poller_inv (cl_poller L)"
    and "cl_conns L c = Some k \<Longrightarrow> c \<notin> R \<and> tc_channel (cn_tcp k) = c \<and> ok (cn_ctx k) \<and> conn_ok once (conn_world L k)"
    and "c \<notin> R \<Longrightarrow> cl_conns L c = None \<Longrightarrow> ch_index (store (cl_poller L) c) \<noteq> kAdded"
  using assms by (simp_all add: loop_ok_def)

text \<open>A connection is replaced, and the poller has changed at its channel only.\<close>

lemma loop_ok_update:
  assumes L: "loop_ok once R L" and c: "c \<notin> R" and p: "poller_inv p" "\<forall>d. d \<noteq> c \<longrightarrow> store p d = store (cl_poller L) d"
    and new: "\<forall>k. e = Some k \<longrightarrow> tc_channel (cn_tcp k) = c \<and> ok (cn_ctx k) \<and>
      conn_ok once (conn_world (L\<lparr>cl_poller := p, cl_clock := n\<rparr>) k)"
    and gone: "e = None \<longrightarrow> ch_index (store p c) \<noteq> kAdded"
  shows "loop_ok once R (L\<lparr>cl_conns := (cl_conns L)(c := e), cl_poller := p, cl_clock := n\<rparr>)" (is "loop_ok once R ?L")
proof -
  have "d \<notin> R \<and> tc_channel (cn_tcp k) = d \<and> ok (cn_ctx k) \<and> conn_ok once (conn_world ?L k)" if k: "cl_conns ?L d = Some k" for d k
  proof (cases "d = c")
    case True
    then show ?thesis using k new c by (simp add: conn_world_def)
  next
    case False
    then have D: "d \<notin> R" "tc_channel (cn_tcp k) = d" "ok (cn_ctx k)" "conn_ok once (conn_world L k)"
      using k loop_okD(2) [OF L, of d k] by simp_all
    moreover have "my_channel (conn_world ?L k) = my_channel (conn_world L k)"
      using False D(2) p(2) by (simp add: conn_world_def my_channel_def)
    then have "conn_ok once (conn_world ?L k)" using p(1) by (intro conn_ok_cong [OF D(4)]) (simp_all add: conn_world_def)
    ultimately show ?thesis by simp
  qed
  then show ?thesis using p loop_okD(3) [OF L] gone by (auto simp: loop_ok_def)
qed

lemma store_world_ok:
  assumes L: "loop_ok once R L" and k: "cl_conns L c = Some k" and l: "local_step (conn_world L k) (snd s)"
    and s: "ok (fst s)" "conn_ok once (snd s)"
  shows "loop_ok once R (store_world c s L)"
proof -
  have D: "c \<notin> R" "tc_channel (cn_tcp k) = c" using loop_okD(2) [OF L k] by simp_all
  have eq: "store_world c s L = L\<lparr>cl_conns := (cl_conns L)(c \<mapsto> \<lparr>cn_tcp = conn (snd s), cn_trace = trace (snd s), cn_ctx = fst s\<rparr>),
      cl_poller := poller (snd s), cl_clock := clock (snd s)\<rparr>" by (cases s) (simp add: store_world_def)
  show ?thesis unfolding eq
    using l s conn_okD(2) [OF s(2)] D
    by (intro loop_ok_update [OF L]) (auto simp: local_step_def conn_world_def my_channel_def intro!: conn_ok_cong [OF s(2)])
qed

text \<open>An operation on one connection in the loop.\<close>

definition good_op :: "bool \<Rightarrow> ('x \<times> world \<Rightarrow> ('x \<times> world) result option) \<Rightarrow> 'x connection \<Rightarrow> 'x conn_loop \<Rightarrow> bool" where
  "good_op once f k L \<longleftrightarrow> (\<exists>r. f (cn_ctx k, conn_world L k) = Some r \<and> faults_in faults r \<and>
     (\<forall>s. r = Inr s \<longrightarrow> ok (fst s) \<and> good_step once (conn_world L k) (snd s)))"

lemma on_conn_ok:
  assumes L: "loop_ok once R L" and k: "cl_conns L c = Some k" and f: "good_op once f k L"
  shows "\<exists>r. on_conn c f L = Some r \<and> faults_in faults r \<and>
    (\<forall>L'. r = Inr L' \<longrightarrow> loop_ok once R L' \<and> others_kept c L L' \<and> cl_kern L' = cl_kern L \<and>
       (\<exists>k'. cl_conns L' c = Some k' \<and> moves (tc_state (cn_tcp k)) (tc_state (cn_tcp k'))))"
proof -
  obtain r where r: "f (cn_ctx k, conn_world L k) = Some r" "faults_in faults r"
    "\<forall>s. r = Inr s \<longrightarrow> ok (fst s) \<and> good_step once (conn_world L k) (snd s)"
    using f by (auto simp: good_op_def)
  have c: "tc_channel (conn (conn_world L k)) = c" using loop_okD(2) [OF L k] by (simp add: conn_world_def)
  have p: "poller (conn_world L k) = cl_poller L" by (simp add: conn_world_def)
  show ?thesis
  proof (cases r)
    case (Inl e)
    then show ?thesis using r(1,2) k by (simp add: on_conn_def)
  next
    case (Inr s)
    then have s: "ok (fst s)" "conn_ok once (snd s)" "local_step (conn_world L k) (snd s)"
      "moves (tc_state (cn_tcp k)) (tc_state (conn (snd s)))"
      using r(3) good_stepD [of once "conn_world L k" "snd s"] by (auto simp: conn_world_def)
    have "on_conn c f L = Some (Inr (store_world c s L))" using k r(1) Inr by (simp add: on_conn_def)
    moreover have "store (poller (snd s)) d = store (cl_poller L) d" if "d \<noteq> c" for d
      using s(3) that c p by (simp add: local_step_def)
    ultimately show ?thesis
      using store_world_ok [OF L k s(3,1,2)] s(4) by (cases s) (auto simp: store_world_def)
  qed
qed

lemma conn_event_good:
  assumes "loop_ok once R L" and "cl_conns L c = Some k"
    and "ch_index (store (cl_poller L) c) = kAdded" and "once \<longrightarrow> sane_event (ch_revents (store (cl_poller L) c))"
  shows "good_op once (conn_event h T) k L"
proof -
  let ?w = "conn_world L k"
  have D: "ok (cn_ctx k)" "conn_ok once ?w" and ch: "my_channel ?w = store (cl_poller L) c"
    using loop_okD(2) [OF assms(1,2)] by (simp_all add: conn_world_def my_channel_def)
  have reg: "is_open ?w \<or> \<not> removals ?w \<le> 1" using conn_okD(4) [OF D(2)] assms(3) ch by auto
  then have "tc_state (conn ?w) \<noteq> kConnecting" "once \<longrightarrow> is_open ?w" using conn_okD(5) [OF D(2)] by auto
  then show ?thesis using conn_event_ok [OF D] assms(4) ch by (simp add: good_op_def)
qed

section \<open>A round of the loop\<close>

text \<open>What holds of the channels that are still to be handled in a round.\<close>

definition active_ok :: "bool \<Rightarrow> nat set \<Rightarrow> nat list \<Rightarrow> 'x conn_loop \<Rightarrow> bool" where
  "active_ok once R cs L \<longleftrightarrow> distinct cs \<and> (\<forall>c \<in> set cs. c \<notin> R \<longrightarrow> cl_conns L c \<noteq> None \<and>
     ch_index (store (cl_poller L) c) = kAdded \<and> (once \<longrightarrow> sane_event (ch_revents (store (cl_poller L) c))))"

lemma active_ok_cong:
  assumes "active_ok once R cs L"
    and "\<And>c. c \<in> set cs \<Longrightarrow> c \<notin> R \<Longrightarrow> cl_conns L' c = cl_conns L c \<and> store (cl_poller L') c = store (cl_poller L) c"
  shows "active_ok once R cs L'"
  using assms by (auto simp: active_ok_def)

lemma dispatch_ok:
  assumes L: "loop_ok once R L" and a: "active_ok once R (c # cs) L"
  shows "\<exists>r. dispatch h R T c L = Some r \<and> faults_in faults r \<and>
    (\<forall>L'. r = Inr L' \<longrightarrow> loop_ok once R L' \<and> active_ok once R cs L' \<and>
       others_kept c L L' \<and> (cl_conns L' c = None \<longleftrightarrow> cl_conns L c = None) \<and>
       (if c \<in> R then L' = L
        else \<exists>k k'. cl_conns L c = Some k \<and> cl_conns L' c = Some k' \<and> moves (tc_state (cn_tcp k)) (tc_state (cn_tcp k'))))"
proof (cases "c \<in> R")
  case True
  then show ?thesis using L a by (simp add: dispatch_def active_ok_def)
next
  case False
  then obtain k where k: "cl_conns L c = Some k" "ch_index (store (cl_poller L) c) = kAdded"
    "once \<longrightarrow> sane_event (ch_revents (store (cl_poller L) c))" using a by (auto simp: active_ok_def)
  from on_conn_ok [OF L k(1) conn_event_good [OF L k]] obtain r where
    r: "on_conn c (conn_event h T) L = Some r" "faults_in faults r"
      "\<And>L'. r = Inr L' \<Longrightarrow> loop_ok once R L' \<and> others_kept c L L' \<and>
        (\<exists>k'. cl_conns L' c = Some k' \<and> moves (tc_state (cn_tcp k)) (tc_state (cn_tcp k')))" by blast
  have rest: "active_ok once R cs L" "c \<notin> set cs" using a by (auto simp: active_ok_def)
  have act: "active_ok once R cs L'" if "r = Inr L'" for L'
  proof (rule active_ok_cong [OF rest(1)])
    fix d assume "d \<in> set cs"
    with rest(2) have "d \<noteq> c" by blast
    with r(3) [OF that] show "cl_conns L' d = cl_conns L d \<and> store (cl_poller L') d = store (cl_poller L) d" by blast
  qed
  have "loop_ok once R L' \<and> active_ok once R cs L' \<and> others_kept c L L' \<and> (cl_conns L' c = None \<longleftrightarrow> cl_conns L c = None) \<and>
      (\<exists>k k'. cl_conns L c = Some k \<and> cl_conns L' c = Some k' \<and> moves (tc_state (cn_tcp k)) (tc_state (cn_tcp k')))"
    if "r = Inr L'" for L'
    using r(3) [OF that] act [OF that] k(1) by (elim conjE exE) (intro conjI exI; simp)
  then show ?thesis using r(1,2) False by (auto simp: dispatch_def)
qed

lemma poll_loop_ok:
  assumes L: "loop_ok once R L" and p: "poll outcome (cl_poller L) = (active, p)"
  shows "loop_ok once R (L\<lparr>cl_poller := p\<rparr>)"
proof -
  have same: "ch_index (store p c) = ch_index (store (cl_poller L) c)" "ch_events (store p c) = ch_events (store (cl_poller L) c)"
    "wired (store p c) = wired (store (cl_poller L) c)" for c
  proof -
    obtain r where "store p c = (store (cl_poller L) c)\<lparr>ch_revents := r\<rparr>" using poll_frame [OF p] by blast
    then show "ch_index (store p c) = ch_index (store (cl_poller L) c)" "ch_events (store p c) = ch_events (store (cl_poller L) c)"
      "wired (store p c) = wired (store (cl_poller L) c)"
      by (simp_all add: wired_def)
  qed
  have pi: "poller_inv p" using channel_step_keeps [OF channel_step.wait [OF p] loop_okD(1) [OF L]] .
  have "conn_ok once (conn_world (L\<lparr>cl_poller := p\<rparr>) k)" if "conn_ok once (conn_world L k)" for k
    using conn_ok_cong [OF that, of "conn_world (L\<lparr>cl_poller := p\<rparr>) k"] pi same by (simp add: conn_world_def my_channel_def)
  then show ?thesis using L pi same by (simp add: loop_ok_def)
qed

lemma reported_active:
  assumes L: "loop_ok once R L" and p: "poll outcome (cl_poller L) = (active, p)" and rep: "kernel_reports P outcome (cl_poller L)"
    and sane: "\<And>ev. once \<Longrightarrow> P ev \<Longrightarrow> sane_event ev"
  shows "active_ok once R active (L\<lparr>cl_poller := p\<rparr>)"
proof (cases outcome)
  case (Inl e)
  then show ?thesis using p by (simp add: poll_def active_ok_def)
next
  case (Inr evs)
  have d: "distinct (map snd evs)" using rep Inr by (simp add: kernel_reports_def)
  note E = poll_events [OF p [unfolded Inr] d]
  have "cl_conns L c \<noteq> None \<and> ch_index (store p c) = kAdded \<and> (once \<longrightarrow> sane_event (ch_revents (store p c)))"
    if c: "c \<in> set active" "c \<notin> R" for c
  proof -
    obtain ev where ev: "(ev, c) \<in> set evs" using c(1) E(1) by auto
    then obtain m where "P ev" and i: "interest (ctls (cl_poller L)) (ch_fd (store (cl_poller L) c)) = Some (m, c)"
      using rep Inr by (auto simp: kernel_reports_def)
    moreover from i have "ch_index (store (cl_poller L) c) = kAdded"
      using loop_okD(1) [OF L] by (auto simp: poller_inv_def chan_ok_def Let_def split: if_splits)
    moreover obtain e where "store p c = (store (cl_poller L) c)\<lparr>ch_revents := e\<rparr>" using poll_frame [OF p] by blast
    ultimately show ?thesis using loop_okD(3) [OF L c(2)] E(2) [OF ev] sane by auto
  qed
  then show ?thesis using d E(1) by (auto simp: active_ok_def)
qed

text \<open>
  A round returns, no event reaches a freed connection, and the connections and channels that were not reported
  are as they were.
\<close>

lemma round_ok:
  assumes L: "loop_ok once R L" and rep: "kernel_reports P outcome (cl_poller L)"
    and sane: "\<And>ev. once \<Longrightarrow> P ev \<Longrightarrow> sane_event ev"
  shows "\<exists>r. loop_round h R T outcome L = Some r \<and> faults_in faults r \<and>
    (\<forall>L'. r = Inr L' \<longrightarrow> loop_ok once R L' \<and> (\<forall>c. (cl_conns L' c = None \<longleftrightarrow> cl_conns L c = None) \<and>
       (c \<notin> set (fst (poll outcome (cl_poller L))) \<longrightarrow>
          cl_conns L' c = cl_conns L c \<and> ch_events (store (cl_poller L') c) = ch_events (store (cl_poller L) c))))"
proof -
  obtain active p where p: "poll outcome (cl_poller L) = (active, p)" by (cases "poll outcome (cl_poller L)")
  let ?L = "L\<lparr>cl_poller := p\<rparr>"
  let ?J = "\<lambda>cs L'. loop_ok once R L' \<and> active_ok once R cs L' \<and> set cs \<subseteq> set active \<and>
    (\<forall>c. (cl_conns L' c = None \<longleftrightarrow> cl_conns L c = None) \<and>
       (c \<notin> set active \<longrightarrow> cl_conns L' c = cl_conns L c \<and> store (cl_poller L') c = store p c))"
  have step: "\<exists>r. dispatch h R T c L1 = Some r \<and> faults_in faults r \<and> (\<forall>L2. r = Inr L2 \<longrightarrow> ?J cs L2)"
    if J: "?J (c # cs) L1" for c cs L1
  proof -
    from J have j: "loop_ok once R L1" "active_ok once R (c # cs) L1" "set (c # cs) \<subseteq> set active" by simp_all
    from dispatch_ok [OF j(1,2), of T] obtain r where r: "dispatch h R T c L1 = Some r" "faults_in faults r"
      "\<And>L'. r = Inr L' \<Longrightarrow> loop_ok once R L' \<and> active_ok once R cs L' \<and>
       others_kept c L1 L' \<and> (cl_conns L' c = None \<longleftrightarrow> cl_conns L1 c = None)" by blast
    have "?J cs L2" if "r = Inr L2" for L2
    proof -
      note r3 = r(3) [OF that]
      have "(cl_conns L2 d = None \<longleftrightarrow> cl_conns L d = None) \<and>
        (d \<notin> set active \<longrightarrow> cl_conns L2 d = cl_conns L d \<and> store (cl_poller L2) d = store p d)" for d
        using r3 J by (cases "d = c") auto
      then show ?thesis using r3 j(3) by auto
    qed
    then show ?thesis using r(1,2) by auto
  qed
  have "?J active ?L" using poll_loop_ok [OF L p] reported_active [OF L p rep sane] by simp
  from fold_run_keeps [where f = "dispatch h R T" and J = ?J and E = "\<lambda>e. e \<in> faults", OF this step]
  obtain r where r: "fold_run (dispatch h R T) active ?L = Some r" "faults_in faults r"
    "\<forall>L'. r = Inr L' \<longrightarrow> ?J [] L'" by blast
  have ev: "ch_events (store p c) = ch_events (store (cl_poller L) c)" for c
  proof -
    obtain r where "store p c = (store (cl_poller L) c)\<lparr>ch_revents := r\<rparr>" using poll_frame [OF p] by blast
    then show ?thesis by simp
  qed
  have "loop_round h R T outcome L = Some r" using r(1) p by (simp add: loop_round_def)
  then show ?thesis using r(2,3) ev p by auto
qed

section \<open>Every step keeps the invariant\<close>

lemma new_loop_ok: "inj fds \<Longrightarrow> loop_ok once R (new_conn_loop fds k)"
  using poller_inv_new [of fds] by (simp add: loop_ok_def new_conn_loop_def new_EPollPoller_def new_Channel_def index_defs)

lemma open_connection_ok:
  assumes L: "loop_ok once R L" and c: "c \<notin> R" "cl_conns L c = None"
    and ch: "ch_events (store (cl_poller L) c) = 0" "ch_index (store (cl_poller L) c) = kNew"
    and res: "open_connection fresh c L = Inr L'"
  shows "loop_ok once R L' \<and> others_kept c L L' \<and> (\<exists>k. cl_conns L' c = Some k \<and> tc_state (cn_tcp k) = kConnecting)"
proof -
  obtain w where w: "new_TcpConnection c (cl_poller L) (shift_kernel (cl_clock L) (cl_kern L)) = Inr w"
    and L': "L' = L\<lparr>cl_conns := (cl_conns L)(c \<mapsto> \<lparr>cn_tcp = conn w, cn_trace = trace w, cn_ctx = fresh\<rparr>),
      cl_poller := poller w, cl_clock := cl_clock L + clock w\<rparr>"
    using res by (auto simp: open_connection_def bind_result_Inr_iff store_world_def)
  note N = new_TcpConnection_ok [OF w loop_okD(1) [OF L] ch, of once]
  have "loop_ok once R L'" unfolding L'
    using N fresh_ok conn_okD(2) [of once w]
    by (intro loop_ok_update [OF L c(1)]) (auto simp: conn_world_def my_channel_def intro!: conn_ok_cong [of once w])
  moreover have "tc_state (conn w) = kConnecting"
    using w by (auto simp: new_TcpConnection_def Let_def bind_result_Inr_iff channel_call_same)
  ultimately show ?thesis using N by (simp add: L')
qed

lemma establish_ok:
  assumes L: "loop_ok once R L" and k: "cl_conns L c = Some k" "tc_state (cn_tcp k) = kConnecting"
  shows "\<exists>r. establish fresh c L = Some r \<and> faults_in {FatalAbort} r \<and>
    (\<forall>L'. r = Inr L' \<longrightarrow> loop_ok once R L' \<and> others_kept c L L' \<and>
       (\<exists>k'. cl_conns L' c = Some k' \<and> tc_state (cn_tcp k') = kConnected))"
proof -
  let ?w = "conn_world L k"
  have ok: "conn_ok once ?w" "tc_state (conn ?w) = kConnecting" "tc_channel (conn ?w) = c" "poller ?w = cl_poller L"
    using loop_okD(2) [OF L k(1)] k(2) by (simp_all add: conn_world_def)
  show ?thesis
  proof (cases "connectEstablished server_callbacks ?w")
    case (Inl e)
    then have "e = FatalAbort" by (auto simp: connectEstablished_def server_callbacks_def bind_result_Inl_iff dest: channel_call_fault)
    then show ?thesis using Inl k(1) by (simp add: establish_def on_conn_def)
  next
    case (Inr w)
    then have e: "establish fresh c L = Some (Inr (store_world c (fresh, w) L))" using k(1) by (simp add: establish_def on_conn_def)
    from connectEstablished_ok [OF ok(1,2) Inr] have w: "conn_ok once w" "local_step ?w w" "tc_state (conn w) = kConnected" by simp_all
    then have "loop_ok once R (store_world c (fresh, w) L)" using fresh_ok by (intro store_world_ok [OF L k(1)]) simp_all
    then show ?thesis using e w ok(3,4) by (simp add: store_world_def local_step_def)
  qed
qed

lemma destroy_ok:
  assumes L: "loop_ok once R L" and k: "cl_conns L c = Some k" and final: "final \<or> tc_state (cn_tcp k) = kDisconnected"
  shows "\<exists>r. destroy c final L = Some r \<and> faults_in {FatalAbort} r \<and>
    (\<forall>L'. r = Inr L' \<longrightarrow> loop_ok once R L' \<and> others_kept c L L' \<and> ch_index (store (cl_poller L') c) = kNew \<and>
       (if final then cl_conns L' c = None else \<exists>k'. cl_conns L' c = Some k' \<and> tc_state (cn_tcp k') = kDisconnected))"
proof -
  have D: "c \<notin> R" "tc_channel (cn_tcp k) = c" "conn_ok once (conn_world L k)" using loop_okD(2) [OF L k] by simp_all
  show ?thesis
  proof (cases "connectDestroyed server_callbacks (conn_world L k)")
    case (Inl e)
    then have "e = FatalAbort"
      by (auto simp: connectDestroyed_def server_callbacks_def bind_result_Inl_iff split: if_splits dest: channel_call_fault)
    then show ?thesis using Inl k by (simp add: destroy_def on_conn_def)
  next
    case (Inr w)
    let ?e = "if final then None else Some \<lparr>cn_tcp = conn w, cn_trace = trace w, cn_ctx = cn_ctx k\<rparr>"
    let ?L = "L\<lparr>cl_conns := (cl_conns L)(c := ?e), cl_poller := poller w, cl_clock := clock w\<rparr>"
    note R = connectDestroyed_removes [OF D(3) Inr]
    have keep: "conn_ok once w \<and> tc_state (conn w) = kDisconnected \<and> tc_channel (conn w) = c" if "\<not> final"
      using connectDestroyed_keeps [OF D(3) _ Inr] that final R D(2) by (simp add: conn_world_def local_step_def)
    have p: "poller_inv (poller w)" "\<forall>d. d \<noteq> c \<longrightarrow> store (poller w) d = store (cl_poller L) d"
      "ch_index (store (poller w) c) = kNew" "tc_channel (conn w) = c"
      using R D(2) conn_okD(2) [OF D(3)] by (auto simp: local_step_def conn_world_def my_channel_def)
    have "loop_ok once R ?L"
    proof (rule loop_ok_update [OF L D(1) p(1,2)])
      show "\<forall>k'. ?e = Some k' \<longrightarrow> tc_channel (cn_tcp k') = c \<and> ok (cn_ctx k') \<and>
          conn_ok once (conn_world (L\<lparr>cl_poller := poller w, cl_clock := clock w\<rparr>) k')"
      proof (intro allI impI)
        fix k' assume "?e = Some k'"
        then have nf: "\<not> final" and k': "k' = \<lparr>cn_tcp = conn w, cn_trace = trace w, cn_ctx = cn_ctx k\<rparr>" by (simp_all split: if_splits)
        have "conn_ok once (conn_world (L\<lparr>cl_poller := poller w, cl_clock := clock w\<rparr>) k')"
          using p(1) by (intro conn_ok_cong [OF conjunct1 [OF keep [OF nf]]]) (simp_all add: k' conn_world_def my_channel_def)
        then show "tc_channel (cn_tcp k') = c \<and> ok (cn_ctx k') \<and>
            conn_ok once (conn_world (L\<lparr>cl_poller := poller w, cl_clock := clock w\<rparr>) k')"
          using keep [OF nf] loop_okD(2) [OF L k] by (simp add: k')
      qed
    qed (use p(3) in \<open>simp add: index_defs\<close>)
    moreover have "destroy c final L = Some (Inr ?L)" using Inr k by (simp add: destroy_def on_conn_def store_world_def)
    ultimately show ?thesis using p(2,3) keep by (cases final) simp_all
  qed
qed

lemma other_ok:
  assumes L: "loop_ok once R L" and d: "d \<in> R"
    and f: "f \<in> {enableReading, disableReading, enableWriting, disableWriting, disableAll, setReadCallback, removeChannel}"
      "f r d (cl_poller L) = Inr p"
  shows "loop_ok once R (L\<lparr>cl_poller := p\<rparr>)"
proof -
  have p: "poller_inv p" "\<And>c. c \<noteq> d \<Longrightarrow> store p c = store (cl_poller L) c"
    using channel_op_one_call [OF f(2,1) loop_okD(1) [OF L]] by auto
  have "conn_ok once (conn_world (L\<lparr>cl_poller := p\<rparr>) k)" if k: "cl_conns L c = Some k" for c k
  proof -
    have "c \<noteq> d" "tc_channel (cn_tcp k) = c" "conn_ok once (conn_world L k)" using loop_okD(2) [OF L k] d by auto
    then show ?thesis
      using p conn_ok_cong [of once "conn_world L k" "conn_world (L\<lparr>cl_poller := p\<rparr>) k"] by (simp add: conn_world_def my_channel_def)
  qed
  moreover have "ch_index (store p c) \<noteq> kAdded" if "c \<notin> R" "cl_conns L c = None" for c
    using loop_okD(3) [OF L that] p(2) [of c] that(1) d by (cases "c = d") auto
  ultimately show ?thesis using L p(1) by (simp add: loop_ok_def)
qed

lemma loop_reach_ok:
  assumes "loop_reach P h fresh R L0 L" and "loop_ok once R L0" and sane: "\<And>ev. once \<Longrightarrow> P ev \<Longrightarrow> sane_event ev"
  shows "loop_ok once R L"
  using assms(1,2)
proof (induction rule: loop_reach.induct)
  case (round L outcome T L')
  then have "loop_ok once R L" by simp
  from round_ok [OF this round.hyps(2) sane, of T] round.hyps(3) show ?case by auto
next
  case (opened L c L')
  have "ch_events (store (cl_poller L) c) = 0 \<and> ch_index (store (cl_poller L) c) = kNew"
    using opened.hyps(4) by (metis Channel.select_convs(2,4) kNew_def new_Channel_def)
  then show ?case using opened open_connection_ok by blast
next
  case (established L c k L')
  then show ?case using establish_ok by fastforce
next
  case (called L c k w)
  then have "conn_ok once (conn_world L k)" "ok (cn_ctx k)" using loop_okD(2) by blast+
  then show ?case
    using called good_stepD(1,2) [OF conjunct1 [OF user_calls_ok [of "conn_world L k" w once]]] store_world_ok [of once R L c k "(cn_ctx k, w)"]
    by simp
next
  case (destroyed L c k final L')
  then show ?case using destroy_ok [of once R L c k final] by auto
next
  case (other L d f r p)
  then show ?case using other_ok by blast
qed

section \<open>What the loop guarantees for each connection\<close>

lemma requests_in_loop:
  assumes L: "loop_ok once R L" and k: "cl_conns L c = Some k"
  shows "(removal_requests k = 0 \<longleftrightarrow> tc_state (cn_tcp k) \<noteq> kDisconnected) \<and> (once \<longrightarrow> removal_requests k \<le> 1)"
  using conn_okD(5) [of once "conn_world L k"] loop_okD(2) [OF L k] by (simp add: removal_requests_def conn_world_def removals_def)

lemma watched_in_loop:
  assumes L: "loop_ok once R L" and k: "cl_conns L c = Some k"
  shows "let i = interest (ctls (cl_poller L)) (ch_fd (store (cl_poller L) c)) in
    if tc_state (cn_tcp k) \<in> {kConnected, kDisconnecting}
    then i = Some (if readableBytes (outputBuffer (cn_tcp k)) = 0 then kReadEvent else kReadEvent OR kWriteEvent, c)
    else i = None \<or> 2 \<le> removal_requests k \<and> i = Some (0, c)"
proof -
  define w where "w = conn_world L k"
  have ok: "conn_ok once w" and c: "tc_channel (cn_tcp k) = c" using loop_okD(2) [OF L k] by (simp_all add: w_def)
  have st: "is_open w \<longleftrightarrow> tc_state (cn_tcp k) \<in> {kConnected, kDisconnecting}" by (simp add: w_def conn_world_def)
  have ch: "my_channel w = store (cl_poller L) c" using c by (simp add: w_def conn_world_def my_channel_def)
  have i: "interest (ctls (cl_poller L)) (ch_fd (store (cl_poller L) c)) =
      (if ch_index (store (cl_poller L) c) = kAdded then Some (ch_events (store (cl_poller L) c), c) else None)"
    using loop_okD(1) [OF L] by (simp add: poller_inv_def chan_ok_def Let_def)
  have rm: "removal_requests k = removals w" by (simp add: w_def conn_world_def removals_def removal_requests_def)
  show ?thesis
  proof (cases "is_open w")
    case True
    note W = conn_okD(3) [OF ok True] and D = conn_invD [OF conn_okD(1) [OF ok]]
    have "isWriting (my_channel w) \<longleftrightarrow> readableBytes (outputBuffer (cn_tcp k)) \<noteq> 0"
      using D(4) readableBytes_0_iff [OF D(2)] True by (auto simp: w_def conn_world_def pending_def)
    moreover have "isWriting (my_channel w) \<longleftrightarrow> ch_events (my_channel w) = kReadEvent OR kWriteEvent"
      using W by (auto simp: watched_def isWriting_def both_masks)
    ultimately have "ch_events (my_channel w) =
        (if readableBytes (outputBuffer (cn_tcp k)) = 0 then kReadEvent else kReadEvent OR kWriteEvent)"
      using W by (auto simp: watched_def)
    then show ?thesis using W True st i ch by (simp add: watched_def)
  next
    case False
    then show ?thesis using conn_okD(4) [OF ok False] st i rm ch by auto
  qed
qed

lemma watched_exactly:
  assumes "loop_reach P h fresh R (new_conn_loop fds kn) L" and "inj fds" and "cl_conns L c = Some k"
  shows "(let i = interest (ctls (cl_poller L)) (ch_fd (store (cl_poller L) c)) in
    if tc_state (cn_tcp k) \<in> {kConnected, kDisconnecting}
    then i = Some (if readableBytes (outputBuffer (cn_tcp k)) = 0 then kReadEvent else kReadEvent OR kWriteEvent, c)
    else i = None \<or> 2 \<le> removal_requests k \<and> i = Some (0, c)) \<and>
    (removal_requests k = 0 \<longleftrightarrow> tc_state (cn_tcp k) \<noteq> kDisconnected) \<and>
    ((\<forall>ev. P ev \<longrightarrow> sane_event ev) \<longrightarrow> removal_requests k \<le> 1)"
proof -
  have L: "loop_ok (\<forall>ev. P ev \<longrightarrow> sane_event ev) R L" by (rule loop_reach_ok [OF assms(1) new_loop_ok [OF assms(2)]]) blast
  show ?thesis using watched_in_loop [OF L assms(3)] requests_in_loop [OF L assms(3)] by blast
qed

lemma rounds_safe:
  assumes "loop_reach P h fresh R (new_conn_loop fds kn) L" and "inj fds" and "kernel_reports P outcome (cl_poller L)"
  shows "\<exists>r. loop_round h R T outcome L = Some r \<and> faults_in faults r \<and>
    (\<forall>L' c. r = Inr L' \<longrightarrow> (cl_conns L' c = None \<longleftrightarrow> cl_conns L c = None) \<and>
       (c \<notin> set (fst (poll outcome (cl_poller L))) \<longrightarrow>
          cl_conns L' c = cl_conns L c \<and> ch_events (store (cl_poller L') c) = ch_events (store (cl_poller L) c)))"
proof -
  have L: "loop_ok False R L" by (rule loop_reach_ok [OF assms(1) new_loop_ok [OF assms(2)]]) simp
  from round_ok [OF L assms(3), of T] show ?thesis by auto
qed

section \<open>Draining all connections\<close>

lemma writable_dispatch:
  assumes L: "loop_ok False R L" and k: "cl_conns L c = Some k" "tc_state (cn_tcp k) \<in> {kConnected, kDisconnecting}"
    and ev: "ch_revents (store (cl_poller L) c) = EPOLLOUT" and wr: "wants_write L c" and w: "willing (cl_kern L)"
  shows "\<exists>L' k'. dispatch h R T c L = Some (Inr L') \<and> loop_ok False R L' \<and> cl_kern L' = cl_kern L \<and>
    cl_conns L' c = Some k' \<and> wrote_some 1 k k' \<and> others_kept c L L'"
proof -
  let ?w = "conn_world L k"
  have D: "c \<notin> R" "tc_channel (cn_tcp k) = c" "conn_ok False ?w" using loop_okD(2) [OF L k(1)] by simp_all
  have ch: "my_channel ?w = store (cl_poller L) c" using D(2) by (simp add: conn_world_def my_channel_def)
  have "isWriting (my_channel ?w)"
    using wr loop_okD(1) [OF L] unfolding ch
    by (auto simp: wants_write_def poller_inv_def chan_ok_def Let_def isWriting_def kWriteEvent_def split: if_splits)
  with handleWrite_progress [OF conn_okD(1) [OF D(3)]] w obtain w' where
    w': "handleWrite ?w = Inr w'" "conn_inv (wire (trace ?w) @ pending ?w) w'" "tc_state (conn w') = tc_state (conn ?w)"
      "length (pending w') \<le> length (pending ?w) - 1"
    by (auto simp: conn_world_def)
  have "conn_event h T (cn_ctx k, ?w) = Some (Inr (cn_ctx k, w'))"
    using write_event [of "(cn_ctx k, ?w)"] ch ev conn_okD(6) [OF D(3)] w'(1) by simp
  then have d: "dispatch h R T c L = Some (Inr (store_world c (cn_ctx k, w') L))"
    using D(1) k(1) by (simp add: dispatch_def on_conn_def)
  let ?k = "\<lparr>cn_tcp = conn w', cn_trace = trace w', cn_ctx = cn_ctx k\<rparr>"
  have "wrote_some 1 k ?k" using w'(3,4) conn_invD(3) [OF w'(2)] by (simp add: wrote_some_def conn_world_def pending_def)
  moreover have idx: "ch_index (store (cl_poller L) c) = kAdded" using conn_okD(3) [OF D(3)] k(2) ch by (simp add: watched_def conn_world_def)
  have "False \<longrightarrow> sane_event (ch_revents (store (cl_poller L) c))" using ev EPOLLOUT_event(5) by simp
  from on_conn_ok [OF L k(1) conn_event_good [OF L k(1) idx this], of T] d D(1)
  have "loop_ok False R (store_world c (cn_ctx k, w') L) \<and> others_kept c L (store_world c (cn_ctx k, w') L)"
    by (auto simp: dispatch_def)
  ultimately show ?thesis using d by (intro exI [of _ "store_world c (cn_ctx k, w') L"] exI [of _ ?k]) (simp add: store_world_def)
qed

lemma wants_write_channel:
  "loop_ok False R L \<Longrightarrow> wants_write L c \<longleftrightarrow>
    ch_index (store (cl_poller L) c) = kAdded \<and> ch_events (store (cl_poller L) c) AND EPOLLOUT \<noteq> 0"
  using loop_okD(1) [of False R L] by (auto simp: wants_write_def poller_inv_def chan_ok_def Let_def)

lemma wants_write_open:
  assumes L: "loop_ok False R L" and c: "c \<notin> R" and wr: "wants_write L c"
  shows "\<exists>k. cl_conns L c = Some k \<and> tc_state (cn_tcp k) \<in> {kConnected, kDisconnecting}"
proof -
  have i: "ch_index (store (cl_poller L) c) = kAdded" "ch_events (store (cl_poller L) c) \<noteq> 0"
    using wants_write_channel [OF L] wr by auto
  obtain k where k: "cl_conns L c = Some k" using loop_okD(3) [OF L c] i(1) by auto
  have D: "tc_channel (cn_tcp k) = c" "conn_ok False (conn_world L k)" using loop_okD(2) [OF L k] by simp_all
  have "is_open (conn_world L k)" using conn_okD(4) [OF D(2)] i(2) D(1) by (auto simp: conn_world_def my_channel_def)
  then show ?thesis using k by (simp add: conn_world_def)
qed

text \<open>The wait of such a round changes no registration.\<close>

lemma writable_poll:
  assumes L: "loop_ok False R L" and d: "distinct cs" and poll: "poll (writable_report cs L) (cl_poller L) = (act, p)"
  shows "act = filter (wants_write L) cs" and "c \<in> set act \<Longrightarrow> ch_revents (store p c) = EPOLLOUT"
    and "wants_write (L\<lparr>cl_poller := p\<rparr>) c = wants_write L c"
proof -
  let ?act = "filter (wants_write L) cs"
  have d': "distinct (map snd (map (\<lambda>c. (EPOLLOUT, c)) ?act))" using d by (simp add: comp_def)
  note P = poll_events [OF poll [unfolded writable_report_def] d']
  show a: "act = ?act" using P(1) by (simp add: comp_def)
  show "ch_revents (store p c) = EPOLLOUT" if "c \<in> set act" using P(2) [of EPOLLOUT c] that a by auto
  obtain r where "store p c = (store (cl_poller L) c)\<lparr>ch_revents := r\<rparr>" using poll_frame [OF poll] by blast
  then show "wants_write (L\<lparr>cl_poller := p\<rparr>) c = wants_write L c"
    using wants_write_channel [OF L, of c] wants_write_channel [OF poll_loop_ok [OF L poll], of c] by simp
qed

text \<open>In the middle of a round from \<open>L\<close> to whose channels the wait gave \<open>p\<close>: the channels in \<open>rest\<close> are still to be handled.\<close>

definition draining :: "nat set \<Rightarrow> 'x conn_loop \<Rightarrow> EPollPoller \<Rightarrow> nat set \<Rightarrow> nat list \<Rightarrow> 'x conn_loop \<Rightarrow> bool" where
  "draining R L p act rest L1 \<longleftrightarrow> loop_ok False R L1 \<and> cl_kern L1 = cl_kern L \<and> distinct rest \<and> set rest \<subseteq> act \<and>
    (\<forall>c \<in> set rest. cl_conns L1 c = cl_conns L c \<and> store (cl_poller L1) c = store p c) \<and>
    (\<forall>c k. cl_conns L c = Some k \<longrightarrow> (\<exists>k'. cl_conns L1 c = Some k' \<and> wrote_some (if c \<in> act - set rest then 1 else 0) k k'))"

lemma draining_dispatch:
  assumes L: "loop_ok False R L" and cs: "distinct cs" "set cs \<inter> R = {}" and w: "willing (cl_kern L)"
    and poll: "poll (writable_report cs L) (cl_poller L) = (act, p)" and J: "draining R L p (set act) (c # rest) L1"
  shows "\<exists>L2. dispatch h R T c L1 = Some (Inr L2) \<and> draining R L p (set act) rest L2"
proof -
  note P = writable_poll [OF L cs(1) poll]
  have c: "c \<in> set act" "c \<notin> R" "c \<notin> set rest" using J cs(2) P(1) by (auto simp: draining_def)
  then have wr: "wants_write L c" using P(1) by simp
  obtain k where k: "cl_conns L c = Some k" "tc_state (cn_tcp k) \<in> {kConnected, kDisconnecting}"
    using wants_write_open [OF L c(2) wr] by blast
  have same: "cl_conns L1 c = Some k" "store (cl_poller L1) c = store p c" and J1: "loop_ok False R L1" "cl_kern L1 = cl_kern L"
    using J k(1) by (simp_all add: draining_def)
  have "wants_write L1 c"
    using wants_write_channel [OF J1(1), of c] wants_write_channel [OF poll_loop_ok [OF L poll], of c] P(3) [of c] wr same(2) by simp
  from writable_dispatch [OF J1(1) same(1) k(2) _ this, of T] P(2) [OF c(1)] same(2) w J1(2)
  obtain L2 k' where r: "dispatch h R T c L1 = Some (Inr L2)" "loop_ok False R L2" "cl_kern L2 = cl_kern L" "cl_conns L2 c = Some k'"
      "wrote_some 1 k k'" "\<And>d. d \<noteq> c \<Longrightarrow> cl_conns L2 d = cl_conns L1 d \<and> store (cl_poller L2) d = store (cl_poller L1) d"
    by auto
  have "\<exists>k'. cl_conns L2 d = Some k' \<and> wrote_some (if d \<in> set act - set rest then 1 else 0) kd k'"
    if kd: "cl_conns L d = Some kd" for d kd
  proof (cases "d = c")
    case True
    then show ?thesis using r(4,5) kd k(1) c by simp
  next
    case False
    have "\<exists>k'. cl_conns L1 d = Some k' \<and> wrote_some (if d \<in> set act - set (c # rest) then 1 else 0) kd k'"
      using J kd unfolding draining_def by blast
    then show ?thesis using r(6) [OF False] False by auto
  qed
  moreover have "cl_conns L2 d = cl_conns L d \<and> store (cl_poller L2) d = store p d" if "d \<in> set rest" for d
    using r(6) [of d] J that c(3) by (auto simp: draining_def)
  ultimately have "draining R L p (set act) rest L2" using r(2,3) J by (simp add: draining_def)
  with r(1) show ?thesis by blast
qed

lemma writable_round:
  assumes L: "loop_ok False R L" and cs: "distinct cs" "set cs \<inter> R = {}" and w: "willing (cl_kern L)"
  shows "\<exists>L'. loop_round h R T (writable_report cs L) L = Some (Inr L') \<and> loop_ok False R L' \<and> cl_kern L' = cl_kern L \<and>
    (\<forall>c k. cl_conns L c = Some k \<longrightarrow>
       (\<exists>k'. cl_conns L' c = Some k' \<and> wrote_some (if c \<in> set cs \<and> wants_write L c then 1 else 0) k k'))"
proof -
  obtain act p where poll: "poll (writable_report cs L) (cl_poller L) = (act, p)" by (cases "poll (writable_report cs L) (cl_poller L)")
  note P = writable_poll [OF L cs(1) poll]
  have start: "draining R L p (set act) act (L\<lparr>cl_poller := p\<rparr>)"
    using poll_loop_ok [OF L poll] cs(1) P(1) by (simp add: draining_def)
  have step: "\<exists>r. dispatch h R T c L1 = Some r \<and> (\<forall>e. r = Inl e \<longrightarrow> False) \<and>
      (\<forall>L2. r = Inr L2 \<longrightarrow> draining R L p (set act) rest L2)"
    if "draining R L p (set act) (c # rest) L1" for c rest L1
    using draining_dispatch [OF L cs w poll that, of T] by auto
  from fold_run_keeps [where f = "dispatch h R T" and J = "draining R L p (set act)" and E = "\<lambda>e. False", OF start step]
  obtain r where r: "fold_run (dispatch h R T) act (L\<lparr>cl_poller := p\<rparr>) = Some r" "\<forall>e. r \<noteq> Inl e"
    "\<forall>L'. r = Inr L' \<longrightarrow> draining R L p (set act) [] L'" by blast
  obtain L' where L': "r = Inr L'" using r(2) by (cases r) auto
  then have "loop_round h R T (writable_report cs L) L = Some (Inr L')" using r(1) poll by (simp add: loop_round_def)
  then show ?thesis using r(3) L' P(1) by (intro exI [of _ L']) (simp add: draining_def)
qed

text \<open>The kernel watches write events of a connection exactly while it is open and has something to write.\<close>

lemma wants_write_iff:
  assumes L: "loop_ok False R L" and k: "cl_conns L c = Some k"
  shows "wants_write L c \<longleftrightarrow>
    tc_state (cn_tcp k) \<in> {kConnected, kDisconnecting} \<and> contents (outputBuffer (cn_tcp k)) \<noteq> []"
proof -
  let ?w = "conn_world L k"
  have D: "tc_channel (cn_tcp k) = c" "conn_ok False ?w" using loop_okD(2) [OF L k] by simp_all
  have ch: "my_channel ?w = store (cl_poller L) c" using D(1) by (simp add: conn_world_def my_channel_def)
  have st: "tc_state (conn ?w) = tc_state (cn_tcp k)" "pending ?w = contents (outputBuffer (cn_tcp k))"
    by (simp_all add: conn_world_def pending_def)
  have wr: "isWriting (my_channel ?w) \<longleftrightarrow> tc_state (cn_tcp k) \<noteq> kDisconnected \<and> contents (outputBuffer (cn_tcp k)) \<noteq> []"
    using conn_invD(4) [OF conn_okD(1) [OF D(2)]] st by simp
  have eq: "wants_write L c \<longleftrightarrow> ch_index (my_channel ?w) = kAdded \<and> isWriting (my_channel ?w)"
    using wants_write_channel [OF L] ch by (simp add: isWriting_def kWriteEvent_def)
  show ?thesis
  proof (cases "is_open ?w")
    case True
    then show ?thesis using conn_okD(3) [OF D(2)] wr eq st(1) by (auto simp: watched_def)
  next
    case False
    then show ?thesis using conn_okD(4) [OF D(2) False] eq st(1) by (simp add: isWriting_def)
  qed
qed

text \<open>Rounds are repeated until nothing is left.\<close>

definition drain_goal :: "nat set \<Rightarrow> 'x conn_loop \<Rightarrow> 'x conn_loop \<Rightarrow> bool" where
  "drain_goal cs L L' \<longleftrightarrow> (\<forall>c k. cl_conns L c = Some k \<longrightarrow> (\<exists>k'. cl_conns L' c = Some k' \<and> wrote_some 0 k k' \<and>
     (c \<in> cs \<and> tc_state (cn_tcp k) \<in> {kConnected, kDisconnecting} \<longrightarrow> contents (outputBuffer (cn_tcp k')) = [])))"

definition drain_bound :: "nat set \<Rightarrow> nat \<Rightarrow> 'x conn_loop \<Rightarrow> bool" where
  "drain_bound cs n L \<longleftrightarrow> (\<forall>c \<in> cs. \<forall>k. cl_conns L c = Some k \<and> tc_state (cn_tcp k) \<in> {kConnected, kDisconnecting} \<longrightarrow>
     length (contents (outputBuffer (cn_tcp k))) \<le> n)"

text \<open>One round takes a byte off the bound, and what the later rounds reach is reached from the first.\<close>

lemma round_lowers_bound:
  assumes L: "loop_ok False R L" and cs: "distinct cs" and r: "loop_round h R T (writable_report cs L) L = Some (Inr L1)"
    and w: "\<And>c k. cl_conns L c = Some k \<Longrightarrow> \<exists>k'. cl_conns L1 c = Some k' \<and>
      wrote_some (if c \<in> set cs \<and> wants_write L c then 1 else 0) k k'"
    and b: "drain_bound (set cs) (Suc n) L"
  shows "drain_bound (set cs) n L1"
  unfolding drain_bound_def
proof (intro ballI allI impI, elim conjE)
  fix c k1 assume c: "c \<in> set cs" "cl_conns L1 c = Some k1" "tc_state (cn_tcp k1) \<in> {kConnected, kDisconnecting}"
  have "cl_conns L1 c = None \<longleftrightarrow> cl_conns L c = None" using round_ok [OF L writable_report_ok [OF cs], of T] r by simp
  then obtain k where k: "cl_conns L c = Some k" using c(2) by (cases "cl_conns L c") simp_all
  then have W: "wrote_some (if wants_write L c then 1 else 0) k k1" using w [OF k] c(1,2) by auto
  then have st: "tc_state (cn_tcp k) \<in> {kConnected, kDisconnecting}" using c(3) by (simp add: wrote_some_def)
  have "length (contents (outputBuffer (cn_tcp k))) \<le> Suc n" using b c(1) k st unfolding drain_bound_def by blast
  then show "length (contents (outputBuffer (cn_tcp k1))) \<le> n"
    using W wants_write_iff [OF L k] st by (cases "contents (outputBuffer (cn_tcp k))") (auto simp: wrote_some_def)
qed

lemma drain_goal_step:
  assumes w: "\<And>c k. cl_conns L c = Some k \<Longrightarrow> \<exists>k'. cl_conns L1 c = Some k' \<and> wrote_some (m c) k k'"
    and g: "drain_goal cs L1 L'"
  shows "drain_goal cs L L'"
  unfolding drain_goal_def
proof (intro allI impI)
  fix c k assume k: "cl_conns L c = Some k"
  obtain k1 where k1: "cl_conns L1 c = Some k1" "wrote_some (m c) k k1" using w [OF k] by blast
  obtain k' where k': "cl_conns L' c = Some k'" "wrote_some 0 k1 k'"
    "c \<in> cs \<and> tc_state (cn_tcp k1) \<in> {kConnected, kDisconnecting} \<longrightarrow> contents (outputBuffer (cn_tcp k')) = []"
    using g k1(1) unfolding drain_goal_def by blast
  have "wrote_some 0 k k'" using k1(2) k'(2) by (auto simp: wrote_some_def)
  then show "\<exists>k'. cl_conns L' c = Some k' \<and> wrote_some 0 k k' \<and>
      (c \<in> cs \<and> tc_state (cn_tcp k) \<in> {kConnected, kDisconnecting} \<longrightarrow> contents (outputBuffer (cn_tcp k')) = [])"
    using k' k1(2) by (auto simp: wrote_some_def)
qed

lemma drain_rounds_empty:
  assumes "loop_ok False R L" and "distinct cs" "set cs \<inter> R = {}" and "willing (cl_kern L)" and "drain_bound (set cs) n L"
  shows "\<exists>L'. drain_rounds h R T cs n L = Some (Inr L') \<and> loop_ok False R L' \<and> drain_goal (set cs) L L'"
  using assms
proof (induction n arbitrary: L)
  case 0
  then have "drain_goal (set cs) L L" by (auto simp: drain_goal_def drain_bound_def)
  then show ?case using 0(1) by simp
next
  case (Suc n)
  from writable_round [OF Suc.prems(1-4), of T] obtain L1 where
    L1: "loop_round h R T (writable_report cs L) L = Some (Inr L1)" "loop_ok False R L1" "cl_kern L1 = cl_kern L"
      "\<And>c k. cl_conns L c = Some k \<Longrightarrow> \<exists>k'. cl_conns L1 c = Some k' \<and>
        wrote_some (if c \<in> set cs \<and> wants_write L c then 1 else 0) k k'" by blast
  from Suc.IH [OF L1(2) Suc.prems(2,3) _ round_lowers_bound [OF Suc.prems(1,2) L1(1,4) Suc.prems(5)]] L1(3) Suc.prems(4)
  obtain L' where L': "drain_rounds h R T cs n L1 = Some (Inr L')" "loop_ok False R L'" "drain_goal (set cs) L1 L'" by auto
  then show ?case using drain_goal_step [OF L1(4) L'(3)] L1(1) by simp
qed

lemma all_drained:
  assumes "loop_reach P h fresh R (new_conn_loop fds kn) L" and "inj fds" and "distinct cs" "set cs \<inter> R = {}"
    and "willing (cl_kern L)"
    and n: "\<forall>c \<in> set cs. \<forall>k. cl_conns L c = Some k \<longrightarrow> readableBytes (outputBuffer (cn_tcp k)) \<le> n"
  shows "\<exists>L'. drain_rounds h R T cs n L = Some (Inr L') \<and>
    (\<forall>c \<in> set cs. \<forall>k. cl_conns L c = Some k \<and> tc_state (cn_tcp k) \<in> {kConnected, kDisconnecting} \<longrightarrow>
       (\<exists>k'. cl_conns L' c = Some k' \<and> tc_state (cn_tcp k') = tc_state (cn_tcp k) \<and>
          readableBytes (outputBuffer (cn_tcp k')) = 0 \<and>
          wire (cn_trace k') = wire (cn_trace k) @ contents (outputBuffer (cn_tcp k)) \<and>
          (tc_state (cn_tcp k) = kDisconnecting \<longrightarrow> ShutdownWrite \<in> set (cn_trace k')) \<and>
          \<not> wants_write L' c))"
proof -
  have L: "loop_ok False R L" by (rule loop_reach_ok [OF assms(1) new_loop_ok [OF assms(2)]]) simp
  have len: "length (contents (outputBuffer (cn_tcp k))) = readableBytes (outputBuffer (cn_tcp k))" if "cl_conns M c = Some k" "loop_ok False R M" for M c k
    using conn_invD(2) [OF conn_okD(1)] loop_okD(2) [OF that(2,1)] by (force simp: conn_world_def)
  have "drain_bound (set cs) n L" using n len [OF _ L] by (fastforce simp: drain_bound_def)
  from drain_rounds_empty [OF L assms(3-5) this, of T] obtain L' where
    L': "drain_rounds h R T cs n L = Some (Inr L')" "loop_ok False R L'"
      "\<And>c k. cl_conns L c = Some k \<Longrightarrow> \<exists>k'. cl_conns L' c = Some k' \<and> wrote_some 0 k k' \<and>
       (c \<in> set cs \<and> tc_state (cn_tcp k) \<in> {kConnected, kDisconnecting} \<longrightarrow> contents (outputBuffer (cn_tcp k')) = [])"
    unfolding drain_goal_def by blast
  have "\<exists>k'. cl_conns L' c = Some k' \<and> tc_state (cn_tcp k') = tc_state (cn_tcp k) \<and>
          readableBytes (outputBuffer (cn_tcp k')) = 0 \<and>
          wire (cn_trace k') = wire (cn_trace k) @ contents (outputBuffer (cn_tcp k)) \<and>
          (tc_state (cn_tcp k) = kDisconnecting \<longrightarrow> ShutdownWrite \<in> set (cn_trace k')) \<and> \<not> wants_write L' c"
    if c: "c \<in> set cs" "cl_conns L c = Some k" "tc_state (cn_tcp k) \<in> {kConnected, kDisconnecting}" for c k
  proof -
    obtain k' where k': "cl_conns L' c = Some k'" "wrote_some 0 k k'" "contents (outputBuffer (cn_tcp k')) = []"
      using L'(3) [OF c(2)] c(1,3) by blast
    have ok: "conn_ok False (conn_world L' k')" using loop_okD(2) [OF L'(2) k'(1)] by simp
    have "ShutdownWrite \<in> set (cn_trace k')" if "tc_state (cn_tcp k) = kDisconnecting"
      using conn_invD(4,5) [OF conn_okD(1) [OF ok]] k'(2,3) that
      by (auto simp: shut_ok_def conn_world_def pending_def wrote_some_def split: if_splits)
    moreover have "readableBytes (outputBuffer (cn_tcp k')) = 0" using len [OF k'(1) L'(2)] k'(3) by simp
    ultimately show ?thesis
      using k' wants_write_iff [OF L'(2) k'(1)] by (auto simp: wrote_some_def)
  qed
  then show ?thesis using L'(1) by blast
qed

end

end
