(* ===== verification/Server_System.thy ===== *)
theory Server_System
  imports Tcp_Server Conn_Rounds
begin

text \<open>
  The server with its loops and their connections in one system: \<^verbatim>\<open>src/TcpServer.cpp\<close> above,
  \<^verbatim>\<open>src/EventLoop.cpp\<close>, \<^verbatim>\<open>src/EPollPoller.cpp\<close> and \<^verbatim>\<open>src/TcpConnection.cpp\<close> below.  The steps of the loops are
  interleaved in any order, event by event and functor by functor.  The lemmas show that the system
  refines the server of Tcp\_Server, which keeps of a connection its state only, and that the
  functors the server queues never reach a connection object that does not exist.  A descriptor belongs
  to its channel for good: that the kernel gives the number of a closed socket to a later one is not modelled.
\<close>

section \<open>The system\<close>

text \<open>
  The connection \<open>c\<close> of the server has the channel \<open>r + c\<close> of its loop; the channels below \<open>r\<close> belong to the other
  objects of the loop.  \<open>sy_active\<close> holds the channels that a loop still has to handle in its round.
\<close>

record 'x server_system =
  sy_server :: TcpServer
  sy_loops :: "nat \<Rightarrow> 'x conn_loop"
  sy_active :: "nat \<Rightarrow> nat list"

text \<open>
  What the server sees of a step of a connection: the state of the object it shares, and a call of
  \<^verbatim>\<open>removeConnection\<close> in the loop of the connection for each time the close callback was run.
\<close>

definition tell_server :: "nat \<Rightarrow> 'x connection \<Rightarrow> 'x connection \<Rightarrow> TcpServer \<Rightarrow> TcpServer" where
  "tell_server c k k' s =
     (removeConnection (c_loop (srv_conns s ! c)) c ^^ (removal_requests k' - removal_requests k))
       (update_conn c (\<lambda>a. a\<lparr>c_state := tc_state (cn_tcp k')\<rparr>) s)"

definition after_conn :: "nat \<Rightarrow> nat \<Rightarrow> nat \<Rightarrow> 'x conn_loop \<Rightarrow> 'x server_system \<Rightarrow> 'x server_system" where
  "after_conn r l d L y =
     y\<lparr>sy_loops := (sy_loops y)(l := L),
       sy_server := (case (cl_conns (sy_loops y l) d, cl_conns L d) of
                       (Some k, Some k') \<Rightarrow> tell_server (d - r) k k' (sy_server y) | _ \<Rightarrow> sy_server y)\<rparr>"

text \<open>
  \<^verbatim>\<open>newConnection\<close> in the base loop: the object is constructed there, on the poller of its loop, before it is
  put into the map, and is established at once when its loop is the base loop.
\<close>

definition sys_accept ::
    "'x \<Rightarrow> nat \<Rightarrow> int \<Rightarrow> sockaddr_in \<Rightarrow> sockaddr_in \<Rightarrow> 'x server_system \<Rightarrow> 'x server_system result option" where
  "sys_accept x r sockfd peerAddr localAddr y =
     (let c = length (srv_conns (sy_server y));
          construct = (\<lambda>l. open_connection x (r + c) (sy_loops y l))
      in case newConnection (\<lambda>l. bind_result (construct l) (\<lambda>_. Inr ())) sockfd peerAddr localAddr (sy_server y) of
           Inl e \<Rightarrow> Some (Inl e)
         | Inr s \<Rightarrow>
             (let l = c_loop (srv_conns s ! c)
              in case construct l of
                   Inl e \<Rightarrow> Some (Inl e)
                 | Inr L \<Rightarrow>
                     map_option (\<lambda>res. bind_result res (\<lambda>L'. Inr (y\<lparr>sy_server := s, sy_loops := (sy_loops y)(l := L')\<rparr>)))
                       (if l = srv_base (sy_server y) then establish x (r + c) L else Some (Inr L))))"

text \<open>
  The wait of a loop, the next event of its round, and, when the round is done, the next functor.  After \<^verbatim>\<open>connectDestroyed\<close>
  the object is freed, unless the map or another functor of the server still refers to it.
\<close>

definition sys_wait :: "nat \<Rightarrow> int + (events \<times> nat) list \<Rightarrow> 'x server_system \<Rightarrow> 'x server_system" where
  "sys_wait l outcome y =
     (let (active, p) = poll outcome (cl_poller (sy_loops y l))
      in y\<lparr>sy_loops := (sy_loops y)(l := (sy_loops y l)\<lparr>cl_poller := p\<rparr>), sy_active := (sy_active y)(l := active)\<rparr>)"

definition sys_event :: "'x handler \<Rightarrow> nat \<Rightarrow> int \<Rightarrow> nat \<Rightarrow> 'x server_system \<Rightarrow> 'x server_system result option" where
  "sys_event h r T l y =
     (case sy_active y l of
        [] \<Rightarrow> Some (Inr y)
      | d # ds \<Rightarrow>
          map_option (\<lambda>res. bind_result res (\<lambda>L. Inr (after_conn r l d L (y\<lparr>sy_active := (sy_active y)(l := ds)\<rparr>))))
            (dispatch h {..<r} T d (sy_loops y l)))"

definition sys_functor :: "'x \<Rightarrow> nat \<Rightarrow> nat \<Rightarrow> 'x server_system \<Rightarrow> 'x server_system result option" where
  "sys_functor x r l y =
     map_option (\<lambda>res. bind_result res (\<lambda>L.
         Inr (y\<lparr>sy_server := run_next l (sy_server y), sy_loops := (sy_loops y)(l := L)\<rparr>)))
       (case srv_queues (sy_server y) l of
          ConnectEstablished c # fs \<Rightarrow> establish x (r + c) (sy_loops y l)
        | ConnectDestroyed c # fs \<Rightarrow> destroy (r + c) (\<not> referenced (run_next l (sy_server y)) c) (sy_loops y l)
        | _ \<Rightarrow> Some (Inr (sy_loops y l)))"

text \<open>
  Runs of the system, in which the kernel reports events that satisfy \<open>P\<close>: besides these steps, what the application
  does with a connection from its loop, and the channel operations of the other objects of a loop.
\<close>

inductive sys_reach ::
    "(events \<Rightarrow> bool) \<Rightarrow> 'x handler \<Rightarrow> 'x \<Rightarrow> nat \<Rightarrow> 'x server_system \<Rightarrow> 'x server_system \<Rightarrow> bool" for P h x r y0 where
  start: "sys_reach P h x r y0 y0"
| accept: "sys_reach P h x r y0 y \<Longrightarrow> sys_accept x r sockfd peer localAddr y = Some (Inr y') \<Longrightarrow> sys_reach P h x r y0 y'"
| wait: "sys_reach P h x r y0 y \<Longrightarrow> sy_active y l = [] \<Longrightarrow> kernel_reports P outcome (cl_poller (sy_loops y l)) \<Longrightarrow>
    sys_reach P h x r y0 (sys_wait l outcome y)"
| event: "sys_reach P h x r y0 y \<Longrightarrow> sys_event h r T l y = Some (Inr y') \<Longrightarrow> sys_reach P h x r y0 y'"
| run: "sys_reach P h x r y0 y \<Longrightarrow> sy_active y l = [] \<Longrightarrow> sys_functor x r l y = Some (Inr y') \<Longrightarrow> sys_reach P h x r y0 y'"
| called: "sys_reach P h x r y0 y \<Longrightarrow> cl_conns (sy_loops y l) d = Some k \<Longrightarrow> user_calls (conn_world (sy_loops y l) k) w \<Longrightarrow>
    sys_reach P h x r y0 (after_conn r l d (store_world d (cn_ctx k, w) (sy_loops y l)) y)"
| other: "sys_reach P h x r y0 y \<Longrightarrow> d < r \<Longrightarrow>
    f \<in> {enableReading, disableReading, enableWriting, disableWriting, disableAll, setReadCallback, removeChannel} \<Longrightarrow>
    f res d (cl_poller (sy_loops y l)) = Inr p \<Longrightarrow>
    sys_reach P h x r y0 (y\<lparr>sy_loops := (sy_loops y)(l := (sy_loops y l)\<lparr>cl_poller := p\<rparr>)\<rparr>)"

definition new_system :: "TcpServer \<Rightarrow> (nat \<Rightarrow> nat \<Rightarrow> int) \<Rightarrow> (nat \<Rightarrow> kernel) \<Rightarrow> 'x server_system" where
  "new_system s fds kn = \<lparr>sy_server = s, sy_loops = (\<lambda>l. new_conn_loop (fds l) (kn l)), sy_active = (\<lambda>l. [])\<rparr>"

section \<open>What the server is told\<close>

lemma tell_closed:
  assumes c: "c < length (srv_conns s)" and st: "tc_state (cn_tcp k') = kDisconnected"
    and n: "removal_requests k < removal_requests k' \<or> c_state (srv_conns s ! c) = kDisconnected"
  shows "tell_server c k k' s = (conn_handleClose c ^^ (removal_requests k' - removal_requests k)) s"
proof -
  let ?rm = "removeConnection (c_loop (srv_conns s ! c)) c" and ?u = "update_conn c (\<lambda>a. a\<lparr>c_state := kDisconnected\<rparr>)"
  have conns: "srv_conns (?rm t) = srv_conns t" for t
    by (simp add: removeConnection_def srv_runInLoop_def run_srv_functor_def removeConnectionInLoop_def srv_queueInLoop_def Let_def)
  have closed: "conn_handleClose c t = ?rm t" if "srv_conns t = srv_conns (?u s)" for t
  proof -
    have t: "t\<lparr>srv_conns := srv_conns t\<rparr> = t" by simp
    have "?u t = t" using c by (subst (2) t [symmetric]) (simp add: that update_conn_def)
    then show ?thesis using that c by (simp add: conn_handleClose_def)
  qed
  have rm: "srv_conns ((?rm ^^ m) t) = srv_conns t" for m t by (induction m) (simp_all add: conns)
  have again: "(conn_handleClose c ^^ m) (?u s) = (?rm ^^ m) (?u s)" for m
    by (induction m) (simp_all add: closed rm)
  have t: "tell_server c k k' s = (?rm ^^ (removal_requests k' - removal_requests k)) (?u s)" by (simp add: tell_server_def st)
  show ?thesis
  proof (cases "c_state (srv_conns s ! c) = kDisconnected")
    case True
    then have "(srv_conns s ! c)\<lparr>c_state := kDisconnected\<rparr> = srv_conns s ! c" by (simp flip: True)
    then have "?u s = s" by (simp add: update_conn_def)
    then show ?thesis using again t by simp
  next
    case False
    then obtain m where m: "removal_requests k' - removal_requests k = Suc m"
      using n by (metis Suc_diff_Suc)
    have "conn_handleClose c s = ?rm (?u s)" by (simp add: conn_handleClose_def)
    moreover have "(conn_handleClose c ^^ m) (?rm (?u s)) = (?rm ^^ m) (?rm (?u s))"
      by (induction m) (simp_all add: closed rm conns)
    ultimately show ?thesis using t unfolding m by (simp add: funpow_Suc_right del: funpow.simps)
  qed
qed

text \<open>
  A step of a connection is one the server allows: none, a shutdown, or a close, perhaps of a connection that is closed already.
\<close>

lemma tell_server_refines:
  assumes s: "server_refs s" and c: "c < length (srv_conns s)" "c_state (srv_conns s ! c) = tc_state (cn_tcp k)" "referenced s c"
    and m: "moves (tc_state (cn_tcp k)) (tc_state (cn_tcp k'))"
    and rm: "removal_requests k = 0 \<longleftrightarrow> tc_state (cn_tcp k) \<noteq> kDisconnected"
      "removal_requests k' = 0 \<longleftrightarrow> tc_state (cn_tcp k') \<noteq> kDisconnected"
  shows "server_runs s (tell_server c k k' s) \<and> (removal_requests k' \<le> 1 \<longrightarrow> server_reach s (tell_server c k k' s)) \<and>
    srv_conns (tell_server c k k' s) = (srv_conns s)[c := (srv_conns s ! c)\<lparr>c_state := tc_state (cn_tcp k')\<rparr>] \<and>
    only_conn c s (tell_server c k k' s) \<and> referenced (tell_server c k k' s) c"
proof -
  consider (same) "tc_state (cn_tcp k') = tc_state (cn_tcp k)" "tc_state (cn_tcp k) \<noteq> kDisconnected"
    | (shut) "tc_state (cn_tcp k) = kConnected" "tc_state (cn_tcp k') = kDisconnecting"
    | (close) "tc_state (cn_tcp k) = kConnected \<or> tc_state (cn_tcp k) = kDisconnecting" "tc_state (cn_tcp k') = kDisconnected"
    | (again) "tc_state (cn_tcp k) = kDisconnected" "tc_state (cn_tcp k') = kDisconnected"
    using m by (cases "tc_state (cn_tcp k)"; cases "tc_state (cn_tcp k')") (simp_all add: moves_def state_order)
  then show ?thesis
  proof cases
    case same
    have "tell_server c k k' s = s" using same c(1) rm by (simp add: tell_server_def update_conn_def flip: c(2))
    then show ?thesis
      using same c(1,3) by (simp add: server_reach.start server_runs.start only_conn_def flip: c(2))
  next
    case shut
    then have t: "tell_server c k k' s = conn_shutdown c s" using c rm by (simp add: tell_server_def conn_shutdown_def)
    have "life_inv s c" using s c(1,2) shut(1) ref_alive by (simp add: server_refs_def)
    then have "only_conn c s (conn_shutdown c s)" "life_inv (conn_shutdown c s) c" using shutdown_life [of s c] c shut(1) by simp_all
    moreover have conns: "srv_conns (conn_shutdown c s) = (srv_conns s)[c := (srv_conns s ! c)\<lparr>c_state := kDisconnecting\<rparr>]"
      using shut(1) c(2) by (simp add: conn_shutdown_def update_conn_def)
    ultimately have "in_map (conn_shutdown c s) c" using c(1) by (simp add: life_inv_def)
    then have "referenced (conn_shutdown c s) c" by (simp add: referenced_def)
    moreover have "server_reach s (conn_shutdown c s)" using server_reach.shut [OF server_reach.start c(1)] .
    ultimately show ?thesis
      using t conns shut(2) \<open>only_conn c s (conn_shutdown c s)\<close> server_reach_runs by simp
  next
    case close
    define t where "t = conn_handleClose c s"
    define n where "n = removal_requests k' - removal_requests k"
    have k: "removal_requests k = 0" "removal_requests k' \<noteq> 0" using close rm by auto
    then obtain m where m: "n = Suc m" unfolding n_def by (cases "removal_requests k'") auto
    have "tell_server c k k' s = (conn_handleClose c ^^ n) s" using tell_closed [OF c(1) close(2), of k] k by (simp add: n_def)
    then have tell: "tell_server c k k' s = (conn_handleClose c ^^ m) t"
      by (simp add: t_def m funpow_Suc_right del: funpow.simps)
    have nc: "c_state (srv_conns s ! c) \<noteq> kConnecting" using close c(2) by auto
    have "server_reach s t" unfolding t_def using server_reach.close [OF server_reach.start c(1)] close c(2) by simp
    moreover have conns: "srv_conns t = (srv_conns s)[c := (srv_conns s ! c)\<lparr>c_state := kDisconnected\<rparr>]"
      by (simp add: t_def close_conns)
    moreover have "server_refs t" "referenced t c" "only_conn c s t"
      unfolding t_def using close_refs [OF s c(1) nc] close_referenced [OF s c(1) nc] close_only [OF s c(1) nc] by blast+
    moreover from this have "server_runs t ((conn_handleClose c ^^ m) t) \<and> server_refs ((conn_handleClose c ^^ m) t) \<and>
        srv_conns ((conn_handleClose c ^^ m) t) = srv_conns t \<and> only_conn c t ((conn_handleClose c ^^ m) t) \<and>
        referenced ((conn_handleClose c ^^ m) t) c"
      using c(1) conns by (intro close_again) simp_all
    moreover have "m = 0" if "removal_requests k' \<le> 1" using that k m by (simp add: n_def)
    ultimately show ?thesis using tell close(2) only_conn_trans server_runs_trans server_reach_runs by auto
  next
    case again
    let ?n = "removal_requests k' - removal_requests k"
    have st: "c_state (srv_conns s ! c) = kDisconnected" using again c(2) by simp
    have tell: "tell_server c k k' s = (conn_handleClose c ^^ ?n) s" using tell_closed [OF c(1) again(2)] st by blast
    have "(srv_conns s ! c)\<lparr>c_state := kDisconnected\<rparr> = srv_conns s ! c" by (simp flip: st)
    moreover have "removal_requests k \<noteq> 0" using again(1) rm(1) by simp
    then have "?n = 0" if "removal_requests k' \<le> 1" using that by simp
    ultimately show ?thesis
      using tell close_again [OF s c(1) st c(3)] again(2) by (auto simp: server_reach.start)
  qed
qed

section \<open>The invariant of the system\<close>

text \<open>
  The loop \<open>l\<close> holds the objects of the connections that the server gave it and refers to, in the state the server knows;
  a destroyed connection is not registered.
\<close>

definition agrees :: "nat \<Rightarrow> nat \<Rightarrow> TcpServer \<Rightarrow> 'x conn_loop \<Rightarrow> nat \<Rightarrow> bool" where
  "agrees r l s L c \<longleftrightarrow>
     (case cl_conns L (r + c) of
        None \<Rightarrow> \<not> (c < length (srv_conns s) \<and> c_loop (srv_conns s ! c) = l \<and> referenced s c)
      | Some k \<Rightarrow> c < length (srv_conns s) \<and> c_loop (srv_conns s ! c) = l \<and> referenced s c \<and>
          c_state (srv_conns s ! c) = tc_state (cn_tcp k) \<and>
          (c_destroyed (srv_conns s ! c) \<noteq> 0 \<longrightarrow> ch_index (store (cl_poller L) (r + c)) \<noteq> kAdded)) \<and>
     (length (srv_conns s) \<le> c \<longrightarrow> ch_events (store (cl_poller L) (r + c)) = 0 \<and> ch_index (store (cl_poller L) (r + c)) = kNew)"

context message_handler
begin

definition sys_ok :: "bool \<Rightarrow> nat \<Rightarrow> 'x server_system \<Rightarrow> bool" where
  "sys_ok once r y \<longleftrightarrow> server_refs (sy_server y) \<and> (once \<longrightarrow> server_inv (sy_server y)) \<and>
     (\<forall>l. loop_ok once {..<r} (sy_loops y l) \<and> active_ok once {..<r} (sy_active y l) (sy_loops y l) \<and>
       (\<forall>c. agrees r l (sy_server y) (sy_loops y l) c))"

lemma sys_okD:
  assumes "sys_ok once r y"
  shows "server_refs (sy_server y)" "loop_ok once {..<r} (sy_loops y l)" "active_ok once {..<r} (sy_active y l) (sy_loops y l)"
    "agrees r l (sy_server y) (sy_loops y l) c" "once \<Longrightarrow> server_inv (sy_server y)"
  using assms by (simp_all add: sys_ok_def)

lemma sys_okI:
  assumes "server_refs (sy_server y)" and "once \<Longrightarrow> server_inv (sy_server y)"
    and "\<And>l. loop_ok once {..<r} (sy_loops y l)" and "\<And>l. active_ok once {..<r} (sy_active y l) (sy_loops y l)"
    and "\<And>l c. agrees r l (sy_server y) (sy_loops y l) c"
  shows "sys_ok once r y"
  using assms by (simp add: sys_ok_def)

text \<open>The connection of an object.\<close>

lemma object_conn:
  assumes y: "sys_ok once r y" and k: "cl_conns (sy_loops y l) d = Some k"
  shows "r \<le> d" "d - r < length (srv_conns (sy_server y))" "c_loop (srv_conns (sy_server y) ! (d - r)) = l"
    "referenced (sy_server y) (d - r)" "c_state (srv_conns (sy_server y) ! (d - r)) = tc_state (cn_tcp k)"
    "removal_requests k = 0 \<longleftrightarrow> tc_state (cn_tcp k) \<noteq> kDisconnected"
    "c_destroyed (srv_conns (sy_server y) ! (d - r)) \<noteq> 0 \<Longrightarrow> ch_index (store (cl_poller (sy_loops y l)) d) \<noteq> kAdded"
proof -
  show d: "r \<le> d" using loop_okD(2) [OF sys_okD(2) [OF y] k] by simp
  have "agrees r l (sy_server y) (sy_loops y l) (d - r)" by (rule sys_okD(4) [OF y])
  then show "d - r < length (srv_conns (sy_server y))" "c_loop (srv_conns (sy_server y) ! (d - r)) = l"
    "referenced (sy_server y) (d - r)" "c_state (srv_conns (sy_server y) ! (d - r)) = tc_state (cn_tcp k)"
    "c_destroyed (srv_conns (sy_server y) ! (d - r)) \<noteq> 0 \<Longrightarrow> ch_index (store (cl_poller (sy_loops y l)) d) \<noteq> kAdded"
    using d k by (simp_all add: agrees_def)
  show "removal_requests k = 0 \<longleftrightarrow> tc_state (cn_tcp k) \<noteq> kDisconnected" using requests_in_loop [OF sys_okD(2) [OF y] k] by blast
qed

lemma conn_object:
  assumes y: "sys_ok once r y" and c: "c < length (srv_conns (sy_server y))" "c_loop (srv_conns (sy_server y) ! c) = l"
    "referenced (sy_server y) c"
  shows "\<exists>k. cl_conns (sy_loops y l) (r + c) = Some k \<and> tc_state (cn_tcp k) = c_state (srv_conns (sy_server y) ! c)"
  using sys_okD(4) [OF y, of l c] c by (auto simp: agrees_def split: option.splits)

text \<open>A step of one connection, in its loop and in the server; the connection may be new.\<close>

lemma sys_ok_step:
  assumes y: "sys_ok once r y" and c: "\<And>l'. l' \<noteq> l \<Longrightarrow> cl_conns (sy_loops y l') (r + c) = None"
    and s: "server_refs s" "once \<longrightarrow> server_inv s" "c < length (srv_conns s)" "c_loop (srv_conns s ! c) = l"
    and others: "\<And>d. d \<noteq> c \<Longrightarrow> d < length (srv_conns s) \<longleftrightarrow> d < length (srv_conns (sy_server y))"
      "\<And>d. d \<noteq> c \<Longrightarrow> d < length (srv_conns s) \<Longrightarrow> same_view (sy_server y) s d"
    and L: "loop_ok once {..<r} L" "others_kept (r + c) (sy_loops y l) L" "active_ok once {..<r} act L"
    and e: "case cl_conns L (r + c) of None \<Rightarrow> \<not> referenced s c
      | Some k \<Rightarrow> referenced s c \<and> c_state (srv_conns s ! c) = tc_state (cn_tcp k) \<and>
          (c_destroyed (srv_conns s ! c) \<noteq> 0 \<longrightarrow> ch_index (store (cl_poller L) (r + c)) \<noteq> kAdded)"
  shows "sys_ok once r (y\<lparr>sy_server := s, sy_loops := (sy_loops y)(l := L), sy_active := (sy_active y)(l := act)\<rparr>)"
proof (rule sys_okI, goal_cases)
  case 1
  show ?case using s by simp
next
  case 2
  then show ?case using s by simp
next
  case (3 l')
  show ?case using sys_okD(2) [OF y] L by simp
next
  case (4 l')
  show ?case using sys_okD(3) [OF y] L by simp
next
  case (5 l' d)
  show ?case
  proof (cases "d = c")
    case True
    then show ?thesis using c [of l'] s(3,4) e by (auto simp: agrees_def split: option.splits)
  next
    case False
    then have "r + d \<noteq> r + c" by simp
    with L(2) have same: "cl_conns L (r + d) = cl_conns (sy_loops y l) (r + d)"
      "store (cl_poller L) (r + d) = store (cl_poller (sy_loops y l)) (r + d)" by blast+
    show ?thesis
    proof (cases "d < length (srv_conns s)")
      case True
      note V = others(2) [OF False True] and d = others(1) [OF False]
      have "referenced s d = referenced (sy_server y) d" "srv_conns s ! d = srv_conns (sy_server y) ! d"
        using same_view_referenced [OF sys_okD(1) [OF y] s(1) _ True V] d True V by (simp_all add: same_view_def)
      then show ?thesis using sys_okD(4) [OF y, of l' d] True d same
        by (cases "l' = l") (simp_all add: agrees_def cong: option.case_cong)
    next
      case out: False
      then show ?thesis using sys_okD(4) [OF y, of l' d] others(1) [OF False] same
        by (cases "l' = l") (simp_all add: agrees_def not_less [symmetric] cong: option.case_cong)
    qed
  qed
qed

text \<open>The same for an existing connection.\<close>

lemma sys_ok_conn:
  assumes y: "sys_ok once r y" and c: "c < length (srv_conns (sy_server y))" "c_loop (srv_conns (sy_server y) ! c) = l"
    and s: "server_refs s" "once \<longrightarrow> server_inv s" "only_conn c (sy_server y) s"
    and L: "loop_ok once {..<r} L" "others_kept (r + c) (sy_loops y l) L" "active_ok once {..<r} act L"
    and e: "case cl_conns L (r + c) of None \<Rightarrow> \<not> referenced s c
      | Some k \<Rightarrow> referenced s c \<and> c_state (srv_conns s ! c) = tc_state (cn_tcp k) \<and>
          (c_destroyed (srv_conns s ! c) \<noteq> 0 \<longrightarrow> ch_index (store (cl_poller L) (r + c)) \<noteq> kAdded)"
  shows "sys_ok once r (y\<lparr>sy_server := s, sy_loops := (sy_loops y)(l := L), sy_active := (sy_active y)(l := act)\<rparr>)"
proof (rule sys_ok_step [where c = c, OF y _ s(1,2) _ _ _ _ L e])
  show "cl_conns (sy_loops y l') (r + c) = None" if "l' \<noteq> l" for l'
    using sys_okD(4) [OF y, of l' c] c that by (auto simp: agrees_def split: option.splits)
  show "c < length (srv_conns s)" "c_loop (srv_conns s ! c) = l" using c s(3) by (simp_all add: only_conn_def)
  show "d < length (srv_conns s) \<longleftrightarrow> d < length (srv_conns (sy_server y))" for d using s(3) by (simp add: only_conn_def)
  show "same_view (sy_server y) s d" if "d \<noteq> c" "d < length (srv_conns s)" for d
    using that s(3) sys_okD(1) [OF y] only_conn_others [OF _ c(1) s(3), of d] by (simp add: only_conn_def server_refs_def)
qed

lemma after_conn_ok:
  assumes y: "sys_ok once r y" and k: "cl_conns (sy_loops y l) d = Some k" "cl_conns L d = Some k'"
    and m: "moves (tc_state (cn_tcp k)) (tc_state (cn_tcp k'))"
    and L: "loop_ok once {..<r} L" "others_kept d (sy_loops y l) L" "active_ok once {..<r} act L"
    and unwatched: "c_destroyed (srv_conns (sy_server y) ! (d - r)) \<noteq> 0 \<Longrightarrow> ch_index (store (cl_poller L) d) \<noteq> kAdded"
  shows "sys_ok once r (after_conn r l d L (y\<lparr>sy_active := (sy_active y)(l := act)\<rparr>)) \<and>
    server_runs (sy_server y) (sy_server (after_conn r l d L (y\<lparr>sy_active := (sy_active y)(l := act)\<rparr>))) \<and>
    (once \<longrightarrow> server_reach (sy_server y) (sy_server (after_conn r l d L (y\<lparr>sy_active := (sy_active y)(l := act)\<rparr>))))"
proof -
  let ?s = "sy_server y" and ?c = "d - r"
  let ?t = "tell_server ?c k k' ?s"
  note K = object_conn [OF y k(1)] and rm = requests_in_loop [OF L(1) k(2)]
  note T = tell_server_refines [OF sys_okD(1) [OF y] K(2,5,4) m K(6) conjunct1 [OF rm]]
  have d: "r + ?c = d" using K(1) by simp
  have reach: "once \<longrightarrow> server_reach ?s ?t" using T rm by blast
  then have inv: "once \<longrightarrow> server_inv ?t" using server_reach_inv sys_okD(5) [OF y] by blast
  have "sys_ok once r (y\<lparr>sy_server := ?t, sy_loops := (sy_loops y)(l := L), sy_active := (sy_active y)(l := act)\<rparr>)"
  proof (rule sys_ok_conn [OF y K(2,3) _ inv _ L(1) _ L(3)])
    show "server_refs ?t" using T server_runs_refs sys_okD(1) [OF y] by blast
  qed (use T L(2) K(2) k(2) d unwatched in simp_all)
  moreover have "after_conn r l d L (y\<lparr>sy_active := (sy_active y)(l := act)\<rparr>) =
      y\<lparr>sy_server := ?t, sy_loops := (sy_loops y)(l := L), sy_active := (sy_active y)(l := act)\<rparr>"
    using k by (simp add: after_conn_def)
  ultimately show ?thesis using T reach by simp
qed

section \<open>The steps\<close>

text \<open>A step returns, fails at most in the given ways, and otherwise keeps the invariant and is a run of the server.\<close>

definition safe_step :: "bool \<Rightarrow> fault set \<Rightarrow> nat \<Rightarrow> 'x server_system \<Rightarrow> 'x server_system result option \<Rightarrow> bool" where
  "safe_step once F r y res \<longleftrightarrow> (\<exists>q. res = Some q \<and> faults_in F q \<and>
     (\<forall>y'. q = Inr y' \<longrightarrow> sys_ok once r y' \<and> server_runs (sy_server y) (sy_server y') \<and>
        (once \<longrightarrow> server_reach (sy_server y) (sy_server y'))))"

lemma sys_event_ok:
  assumes y: "sys_ok once r y"
  shows "safe_step once faults r y (sys_event h r T l y)"
proof (cases "sy_active y l")
  case Nil
  then show ?thesis using y by (simp add: sys_event_def safe_step_def server_reach.start server_runs.start)
next
  case (Cons d ds)
  let ?L = "sy_loops y l"
  note L = sys_okD(2) [OF y, of l] and a = sys_okD(3) [OF y, of l, unfolded Cons]
  from dispatch_ok [OF L a, of T] obtain q where q: "dispatch h {..<r} T d ?L = Some q" "faults_in faults q"
    "\<And>L'. q = Inr L' \<Longrightarrow> loop_ok once {..<r} L' \<and> active_ok once {..<r} ds L' \<and> others_kept d ?L L' \<and>
       (if d \<in> {..<r} then L' = ?L
        else \<exists>k k'. cl_conns ?L d = Some k \<and> cl_conns L' d = Some k' \<and> moves (tc_state (cn_tcp k)) (tc_state (cn_tcp k')))"
    by blast
  let ?y = "\<lambda>L'. after_conn r l d L' (y\<lparr>sy_active := (sy_active y)(l := ds)\<rparr>)"
  have "sys_ok once r (?y L') \<and> server_runs (sy_server y) (sy_server (?y L')) \<and>
      (once \<longrightarrow> server_reach (sy_server y) (sy_server (?y L')))" if L': "q = Inr L'" for L'
  proof (cases "d < r")
    case True
    have "cl_conns ?L d = None" using True loop_okD(2) [OF L, of d] by (cases "cl_conns ?L d") auto
    have "active_ok once {..<r} ds L'" using q(3) [OF L'] by blast
    moreover have "L' = ?L" using q(3) [OF L'] True by simp
    ultimately have "?y L' = y\<lparr>sy_active := (sy_active y)(l := ds)\<rparr>" "active_ok once {..<r} ds ?L"
      using \<open>cl_conns ?L d = None\<close> by (simp_all add: after_conn_def)
    then show ?thesis using y by (auto simp: sys_ok_def server_reach.start server_runs.start)
  next
    case False
    then obtain k k' where k: "cl_conns ?L d = Some k" "cl_conns L' d = Some k'" "moves (tc_state (cn_tcp k)) (tc_state (cn_tcp k'))"
      using q(3) [OF L'] by auto
    have "ch_index (store (cl_poller ?L) d) = kAdded" using a False by (simp add: active_ok_def)
    then have "c_destroyed (srv_conns (sy_server y) ! (d - r)) = 0" using object_conn(7) [OF y k(1)] by blast
    then show ?thesis using q(3) [OF L'] after_conn_ok [OF y k] by blast
  qed
  then show ?thesis using q(1,2) Cons by (cases q) (auto simp: sys_event_def safe_step_def)
qed

lemma called_ok:
  assumes y: "sys_ok once r y" and k: "cl_conns (sy_loops y l) d = Some k" and u: "user_calls (conn_world (sy_loops y l) k) w"
  defines "y' \<equiv> after_conn r l d (store_world d (cn_ctx k, w) (sy_loops y l)) y"
  shows "sys_ok once r y' \<and> server_runs (sy_server y) (sy_server y') \<and> (once \<longrightarrow> server_reach (sy_server y) (sy_server y'))"
proof -
  let ?L = "sy_loops y l" and ?w = "conn_world (sy_loops y l) k"
  let ?L' = "store_world d (cn_ctx k, w) ?L"
  note L = sys_okD(2) [OF y, of l]
  have D: "tc_channel (cn_tcp k) = d" "ok (cn_ctx k)" "conn_ok once ?w" using loop_okD(2) [OF L k] by simp_all
  note U = user_calls_ok [OF u D(3)]
  then have g: "conn_ok once w" "local_step ?w w" "moves (tc_state (conn ?w)) (tc_state (conn w))" by (simp_all add: good_step_def)
  have kept: "others_kept d ?L ?L'" using g(2) D(1) by (simp add: store_world_def local_step_def conn_world_def)
  have d: "tc_channel (conn w) = d" using g(2) D(1) by (simp add: local_step_def conn_world_def)
  then have ch: "ch_revents (store (cl_poller ?L') d) = ch_revents (store (cl_poller ?L) d)"
    using g(2) D(1) by (simp add: store_world_def local_step_def conn_world_def my_channel_def)
  have chan: "my_channel ?w = store (cl_poller ?L) d" "my_channel w = store (cl_poller ?L') d"
    using D(1) d by (simp_all add: my_channel_def conn_world_def store_world_def)
  have idx: "ch_index (store (cl_poller ?L') d) = ch_index (store (cl_poller ?L) d)"
  proof (cases "is_open ?w")
    case True
    then show ?thesis using conn_okD(3) [OF g(1)] conn_okD(3) [OF D(3)] U chan by (simp add: watched_def)
  next
    case False
    then show ?thesis using user_calls_closed [OF u] by (simp add: store_world_def conn_world_def)
  qed
  have "active_ok once {..<r} (sy_active y l) ?L'"
  proof -
    have "cl_conns ?L' c \<noteq> None \<longleftrightarrow> cl_conns ?L c \<noteq> None" "ch_index (store (cl_poller ?L') c) = ch_index (store (cl_poller ?L) c)"
      "ch_revents (store (cl_poller ?L') c) = ch_revents (store (cl_poller ?L) c)" for c
    proof -
      have "cl_conns ?L' d \<noteq> None" by (simp add: store_world_def)
      then show "cl_conns ?L' c \<noteq> None \<longleftrightarrow> cl_conns ?L c \<noteq> None" using kept k by (cases "c = d") simp_all
      show "ch_index (store (cl_poller ?L') c) = ch_index (store (cl_poller ?L) c)"
        "ch_revents (store (cl_poller ?L') c) = ch_revents (store (cl_poller ?L) c)"
        using kept idx ch by (cases "c = d"; simp)+
    qed
    then show ?thesis using sys_okD(3) [OF y, of l] by (simp add: active_ok_def)
  qed
  moreover have "loop_ok once {..<r} ?L'" using store_world_ok [OF L k, of "(cn_ctx k, w)"] g D(2) by simp
  ultimately have "sys_ok once r (after_conn r l d ?L' (y\<lparr>sy_active := (sy_active y)(l := sy_active y l)\<rparr>)) \<and>
      server_runs (sy_server y) (sy_server (after_conn r l d ?L' (y\<lparr>sy_active := (sy_active y)(l := sy_active y l)\<rparr>))) \<and>
      (once \<longrightarrow> server_reach (sy_server y) (sy_server (after_conn r l d ?L' (y\<lparr>sy_active := (sy_active y)(l := sy_active y l)\<rparr>))))"
    using kept g(3) object_conn(7) [OF y k] idx
    by (intro after_conn_ok [OF y k, where k' = "\<lparr>cn_tcp = conn w, cn_trace = trace w, cn_ctx = cn_ctx k\<rparr>"])
      (simp_all add: conn_world_def, simp_all add: store_world_def)
  moreover have "y\<lparr>sy_active := (sy_active y)(l := sy_active y l)\<rparr> = y" by (cases y) simp
  ultimately show ?thesis by (simp add: y'_def)
qed

lemma sys_wait_ok:
  assumes y: "sys_ok once r y" and rep: "kernel_reports P outcome (cl_poller (sy_loops y l))"
    and sane: "\<And>ev. once \<Longrightarrow> P ev \<Longrightarrow> sane_event ev"
  shows "sys_ok once r (sys_wait l outcome y)"
proof -
  let ?L = "sy_loops y l"
  obtain act p where p: "poll outcome (cl_poller ?L) = (act, p)" by (cases "poll outcome (cl_poller ?L)")
  have same: "ch_events (store p c) = ch_events (store (cl_poller ?L) c)" "ch_index (store p c) = ch_index (store (cl_poller ?L) c)" for c
  proof -
    obtain q where "store p c = (store (cl_poller ?L) c)\<lparr>ch_revents := q\<rparr>" using poll_frame [OF p] by blast
    then show "ch_events (store p c) = ch_events (store (cl_poller ?L) c)" "ch_index (store p c) = ch_index (store (cl_poller ?L) c)"
      by simp_all
  qed
  have "agrees r l (sy_server y) (?L\<lparr>cl_poller := p\<rparr>) c" for c
    using sys_okD(4) [OF y, of l c] same by (simp add: agrees_def cong: option.case_cong)
  then show ?thesis
    using sys_okD [OF y] poll_loop_ok [OF sys_okD(2) [OF y] p] reported_active [OF sys_okD(2) [OF y] p rep sane]
    by (intro sys_okI) (simp_all add: sys_wait_def p)
qed

text \<open>A functor that is not about an object, and one that is.\<close>

lemma functor_elsewhere:
  assumes y: "sys_ok once r y" and s: "server_refs s" "once \<longrightarrow> server_inv s" "srv_conns s = srv_conns (sy_server y)"
    and ref: "\<And>c. c < length (srv_conns s) \<Longrightarrow> referenced s c = referenced (sy_server y) c"
  shows "sys_ok once r (y\<lparr>sy_server := s, sy_loops := (sy_loops y)(l := sy_loops y l)\<rparr>)"
proof -
  have "agrees r l' s (sy_loops y l') c" for l' c
    using sys_okD(4) [OF y, of l' c] s(3) ref [of c]
    by (cases "c < length (srv_conns (sy_server y))") (simp_all add: agrees_def cong: option.case_cong)
  then show ?thesis using sys_okD [OF y] s(1,2) by (intro sys_okI) simp_all
qed

lemma functor_object:
  assumes y: "sys_ok once r y" "sy_active y l = []" and c: "c < length (srv_conns (sy_server y))" "c_loop (srv_conns (sy_server y) ! c) = l"
    and s: "server_refs s" "once \<longrightarrow> server_inv s" "only_conn c (sy_server y) s"
    and L: "loop_ok once {..<r} L" "others_kept (r + c) (sy_loops y l) L"
    and e: "case cl_conns L (r + c) of None \<Rightarrow> \<not> referenced s c
      | Some k \<Rightarrow> referenced s c \<and> c_state (srv_conns s ! c) = tc_state (cn_tcp k) \<and>
          (c_destroyed (srv_conns s ! c) \<noteq> 0 \<longrightarrow> ch_index (store (cl_poller L) (r + c)) \<noteq> kAdded)"
  shows "sys_ok once r (y\<lparr>sy_server := s, sy_loops := (sy_loops y)(l := L)\<rparr>)" (is "sys_ok once r ?y")
proof -
  have "sys_ok once r (y\<lparr>sy_server := s, sy_loops := (sy_loops y)(l := L), sy_active := (sy_active y)(l := [])\<rparr>)"
    by (rule sys_ok_conn [OF y(1) c s L _ e]) (simp add: active_ok_def)
  moreover have "(sy_active y)(l := []) = sy_active y" using y(2) by auto
  then have "y\<lparr>sy_server := s, sy_loops := (sy_loops y)(l := L), sy_active := (sy_active y)(l := [])\<rparr> = ?y" by (cases y) simp
  ultimately show ?thesis by simp
qed

lemma sys_functor_ok:
  assumes y: "sys_ok once r y" and idle: "sy_active y l = []"
  shows "safe_step once {FatalAbort} r y (sys_functor fresh r l y)"
proof -
  let ?s = "sy_server y" and ?L = "sy_loops y l"
  let ?s' = "run_next l ?s"
  let ?y = "\<lambda>L. y\<lparr>sy_server := ?s', sy_loops := (sy_loops y)(l := L)\<rparr>"
  note refs = sys_okD(1) [OF y] and L = sys_okD(2) [OF y, of l]
  have reach: "server_reach ?s ?s'" by (rule server_reach.run [OF server_reach.start])
  note refs' = run_next_refs [OF refs, of l]
  have inv': "once \<longrightarrow> server_inv ?s'" using server_reach_inv [OF reach sys_okD(5) [OF y]] by blast
  have none: ?thesis if "srv_conns ?s' = srv_conns ?s" "sys_functor fresh r l y = Some (Inr (?y ?L))"
    "\<And>c. c < length (srv_conns ?s) \<Longrightarrow> referenced ?s' c = referenced ?s c"
    using functor_elsewhere [OF y refs' inv' that(1), of l] that reach by (simp add: safe_step_def server_reach_runs)
  have some: ?thesis if q: "sys_functor fresh r l y = map_option (\<lambda>res. bind_result res (\<lambda>L. Inr (?y L))) (Some q)"
    "faults_in {FatalAbort} q" "\<And>L'. q = Inr L' \<Longrightarrow> sys_ok once r (?y L')" for q
    using q reach by (cases q) (auto simp: safe_step_def server_reach_runs)
  show ?thesis
  proof (cases "srv_queues ?s l")
    case Nil
    then show ?thesis by (intro none) (simp_all add: run_next_def sys_functor_def)
  next
    case (Cons f fs)
    note N = next_functor_ref [OF refs Cons] and C = run_next_conns [OF Cons]
    show ?thesis
    proof (cases f)
      case (ConnectEstablished c)
      then have c: "c < length (srv_conns ?s)" "c_loop (srv_conns ?s ! c) = l" "referenced ?s c" "only_conn c ?s ?s'"
        "c_state (srv_conns ?s ! c) = kConnecting" "c_destroyed (srv_conns ?s ! c) = 0" "referenced ?s' c" using N [of c] by simp_all
      obtain k where k: "cl_conns ?L (r + c) = Some k" "tc_state (cn_tcp k) = kConnecting" using conn_object [OF y c(1-3)] c(5) by auto
      from establish_ok [OF L k] obtain q where q: "establish fresh (r + c) ?L = Some q" "faults_in {FatalAbort} q"
        "\<And>L'. q = Inr L' \<Longrightarrow> loop_ok once {..<r} L' \<and> others_kept (r + c) ?L L' \<and>
          (\<exists>k'. cl_conns L' (r + c) = Some k' \<and> tc_state (cn_tcp k') = kConnected)" by blast
      have new: "c_state (srv_conns ?s' ! c) = kConnected" "c_destroyed (srv_conns ?s' ! c) = 0"
        using c(1,6) by (simp_all add: C ConnectEstablished)
      have "sys_ok once r (?y L')" if "q = Inr L'" for L'
        using q(3) [OF that] new c(7) by (intro functor_object [OF y idle c(1,2) refs' inv' c(4)]) auto
      then show ?thesis using q(1,2) Cons ConnectEstablished by (intro some) (simp_all add: sys_functor_def)
    next
      case (ConnectDestroyed c)
      then have c: "c < length (srv_conns ?s)" "c_loop (srv_conns ?s ! c) = l" "referenced ?s c" "only_conn c ?s ?s'"
        "c_state (srv_conns ?s ! c) = kDisconnected" using N [of c] by simp_all
      obtain k where k: "cl_conns ?L (r + c) = Some k" "tc_state (cn_tcp k) = kDisconnected" using conn_object [OF y c(1-3)] c(5) by auto
      let ?final = "\<not> referenced ?s' c"
      from destroy_ok [OF L k(1) disjI2 [OF k(2)], of ?final] obtain q where
        q: "destroy (r + c) ?final ?L = Some q" "faults_in {FatalAbort} q"
        "\<And>L'. q = Inr L' \<Longrightarrow> loop_ok once {..<r} L' \<and> others_kept (r + c) ?L L' \<and> ch_index (store (cl_poller L') (r + c)) = kNew \<and>
          (if ?final then cl_conns L' (r + c) = None else \<exists>k'. cl_conns L' (r + c) = Some k' \<and> tc_state (cn_tcp k') = kDisconnected)"
        by blast
      have new: "c_state (srv_conns ?s' ! c) = kDisconnected" using c(1,5) by (simp add: C ConnectDestroyed)
      have "sys_ok once r (?y L')" if "q = Inr L'" for L'
        using q(3) [OF that] new
        by (intro functor_object [OF y idle c(1,2) refs' inv' c(4)]) (auto simp: index_defs split: if_splits)
      then show ?thesis using q(1,2) Cons ConnectDestroyed by (intro some) (simp_all add: sys_functor_def)
    next
      case (RemoveConnectionInLoop c)
      then have c: "c < length (srv_conns ?s)" "referenced ?s c" "only_conn c ?s ?s'" "referenced ?s' c" using N [of c] by simp_all
      have "referenced ?s' d = referenced ?s d" if "d < length (srv_conns ?s)" for d
      proof (cases "d = c")
        case False
        have "length (srv_conns ?s') = length (srv_conns ?s)" using c(3) by (simp add: only_conn_def)
        moreover have "same_view ?s ?s' d" using only_conn_others [OF _ c(1,3) that False] refs by (simp add: server_refs_def)
        ultimately show ?thesis using same_view_referenced [OF refs refs' that] that by simp
      qed (use c in simp)
      then show ?thesis by (intro none) (simp_all add: C Cons RemoveConnectionInLoop sys_functor_def)
    next
      case AcceptorListen
      have "server_wf ?s" using refs by (simp add: server_refs_def)
      note V = listen_view(2,3) [OF this Cons [unfolded AcceptorListen]]
      have s': "?s' = srv_listen (?s\<lparr>srv_queues := (srv_queues ?s)(l := fs)\<rparr>)"
        by (simp add: run_next_about [OF Cons] AcceptorListen run_srv_functor_def)
      have "referenced ?s' d = referenced ?s d" if "d < length (srv_conns ?s)" for d
        using same_view_referenced [OF refs refs' that] V(1) [of d] V(2) that by (simp add: s')
      then show ?thesis by (intro none) (simp_all add: C Cons AcceptorListen sys_functor_def)
    qed
  qed
qed

text \<open>A new object.\<close>

lemma open_connection_fault: "open_connection x c L = Inl e \<Longrightarrow> e = FatalAbort"
  by (auto simp: open_connection_def new_TcpConnection_def bind_result_Inl_iff Let_def dest: channel_call_fault)

lemma new_object:
  assumes y: "sys_ok once r y" and s: "server_refs s" "once \<longrightarrow> server_inv s" "srv_conns s = srv_conns (sy_server y) @ [a]" "c_destroyed a = 0"
    and others: "\<forall>d < length (srv_conns (sy_server y)). same_view (sy_server y) s d"
    and L: "loop_ok once {..<r} L" "others_kept (r + length (srv_conns (sy_server y))) (sy_loops y (c_loop a)) L"
      "cl_conns L (r + length (srv_conns (sy_server y))) = Some k" "tc_state (cn_tcp k) = c_state a"
  shows "sys_ok once r (y\<lparr>sy_server := s, sy_loops := (sy_loops y)(c_loop a := L)\<rparr>)" (is "sys_ok once r ?y")
proof -
  let ?c = "length (srv_conns (sy_server y))" and ?l = "c_loop a"
  have new: "cl_conns (sy_loops y l') (r + ?c) = None" for l' using sys_okD(4) [OF y, of l' ?c] by (auto simp: agrees_def split: option.splits)
  have ref: "referenced s ?c" using undestroyed_referenced [OF s(1), of ?c] s(3,4) by simp
  have "active_ok once {..<r} (sy_active y ?l) L"
  proof (rule active_ok_cong [OF sys_okD(3) [OF y]])
    fix d assume "d \<in> set (sy_active y ?l)" "d \<notin> {..<r}"
    then have "cl_conns (sy_loops y ?l) d \<noteq> None" using sys_okD(3) [OF y, of ?l] by (auto simp: active_ok_def)
    then have "d \<noteq> r + ?c" using new by auto
    then show "cl_conns L d = cl_conns (sy_loops y ?l) d \<and> store (cl_poller L) d = store (cl_poller (sy_loops y ?l)) d"
      using L(2) by blast
  qed
  then have "sys_ok once r (y\<lparr>sy_server := s, sy_loops := (sy_loops y)(?l := L), sy_active := (sy_active y)(?l := sy_active y ?l)\<rparr>)"
    using new s L ref others by (intro sys_ok_step [where c = ?c, OF y]) (auto simp: nth_append)
  moreover have "y\<lparr>sy_server := s, sy_loops := (sy_loops y)(?l := L), sy_active := (sy_active y)(?l := sy_active y ?l)\<rparr> = ?y"
    by (cases y) simp
  ultimately show ?thesis by simp
qed

lemma sys_accept_ok:
  assumes y: "sys_ok once r y"
  shows "safe_step once {FatalAbort, SignedOverflow} r y (sys_accept fresh r sockfd peer localAddr y)"
proof -
  let ?s = "sy_server y"
  let ?c = "length (srv_conns ?s)"
  let ?open = "\<lambda>l. open_connection fresh (r + ?c) (sy_loops y l)"
  let ?construct = "\<lambda>l. bind_result (?open l) (\<lambda>_. Inr ())"
  show ?thesis
  proof (cases "newConnection ?construct sockfd peer localAddr ?s")
    case (Inl e)
    then show ?thesis using newConnection_fault [OF Inl] open_connection_fault
      by (auto simp: sys_accept_def safe_step_def Let_def bind_result_Inl_iff)
  next
    case (Inr s)
    have reach: "server_reach ?s s" by (rule server_reach.accept [OF server_reach.start Inr])
    have refs: "server_refs s" using server_reach_refs [OF reach sys_okD(1) [OF y]] .
    have inv: "once \<longrightarrow> server_inv s" using server_reach_inv [OF reach sys_okD(5) [OF y]] by blast
    have others: "\<forall>d < ?c. same_view ?s s d"
      using accept_view(4) [OF _ Inr] sys_okD(1) [OF y] by (simp add: server_refs_def)
    obtain a where a: "srv_conns s = srv_conns ?s @ [a]" "c_destroyed a = 0"
      "c_state a = (if c_loop a = srv_base ?s then kConnected else kConnecting)" using newConnection_conns [OF Inr] by blast
    let ?L = "sy_loops y (c_loop a)"
    let ?y = "\<lambda>L. y\<lparr>sy_server := s, sy_loops := (sy_loops y)(c_loop a := L)\<rparr>"
    have nth: "srv_conns s ! ?c = a" by (simp add: a(1))
    have fresh: "r + ?c \<notin> {..<r}" "cl_conns ?L (r + ?c) = None" "ch_events (store (cl_poller ?L) (r + ?c)) = 0"
      "ch_index (store (cl_poller ?L) (r + ?c)) = kNew"
      using sys_okD(4) [OF y, of "c_loop a" ?c] by (auto simp: agrees_def split: option.splits)
    obtain L1 where L1: "?open (c_loop a) = Inr L1"
      using newConnection_constructs [OF Inr] unfolding nth by (auto simp: bind_result_Inr_iff)
    from open_connection_ok [OF sys_okD(2) [OF y] fresh L1] obtain k where
      o: "loop_ok once {..<r} L1" "others_kept (r + ?c) ?L L1" "cl_conns L1 (r + ?c) = Some k" "tc_state (cn_tcp k) = kConnecting" by blast
    note new = new_object [OF y refs inv a(1,2) others]
    show ?thesis
    proof (cases "c_loop a = srv_base ?s")
      case False
      then have "sys_accept fresh r sockfd peer localAddr y = Some (Inr (?y L1))" using Inr L1 nth by (simp add: sys_accept_def)
      moreover have "sys_ok once r (?y L1)" using new [OF o(1-3)] o(4) a(3) False by simp
      ultimately show ?thesis using reach by (simp add: safe_step_def server_reach_runs)
    next
      case True
      from establish_ok [OF o(1,3,4)] obtain q where q: "establish fresh (r + ?c) L1 = Some q" "faults_in {FatalAbort} q"
        "\<And>L'. q = Inr L' \<Longrightarrow> loop_ok once {..<r} L' \<and> others_kept (r + ?c) L1 L' \<and>
          (\<exists>k'. cl_conns L' (r + ?c) = Some k' \<and> tc_state (cn_tcp k') = kConnected)" by blast
      have "sys_ok once r (?y L')" if L': "q = Inr L'" for L'
      proof -
        obtain k' where k': "loop_ok once {..<r} L'" "others_kept (r + ?c) L1 L'" "cl_conns L' (r + ?c) = Some k'"
          "tc_state (cn_tcp k') = kConnected" using q(3) [OF L'] by blast
        have "others_kept (r + ?c) ?L L'" using o(2) k'(2) by metis
        then show ?thesis using new [OF k'(1) _ k'(3)] k'(4) a(3) True by simp
      qed
      then show ?thesis using q(1,2) Inr L1 nth True reach by (cases q) (auto simp: sys_accept_def safe_step_def server_reach_runs)
    qed
  qed
qed

lemma sys_other_ok:
  assumes y: "sys_ok once r y" and d: "d < r"
    and f: "f \<in> {enableReading, disableReading, enableWriting, disableWriting, disableAll, setReadCallback, removeChannel}"
      "f res d (cl_poller (sy_loops y l)) = Inr p"
  shows "sys_ok once r (y\<lparr>sy_loops := (sy_loops y)(l := (sy_loops y l)\<lparr>cl_poller := p\<rparr>)\<rparr>)"
proof -
  let ?L = "sy_loops y l"
  note L = sys_okD(2) [OF y, of l]
  have p: "store p c = store (cl_poller ?L) c" if "c \<noteq> d" for c using channel_op_one_call [OF f(2,1) loop_okD(1) [OF L]] that by blast
  have "active_ok once {..<r} (sy_active y l) (?L\<lparr>cl_poller := p\<rparr>)"
    using d p by (intro active_ok_cong [OF sys_okD(3) [OF y]]) auto
  moreover have "agrees r l (sy_server y) (?L\<lparr>cl_poller := p\<rparr>) c" for c
    using sys_okD(4) [OF y, of l c] p [of "r + c"] d by (simp add: agrees_def cong: option.case_cong)
  ultimately show ?thesis
    using sys_okD [OF y] other_ok [OF L _ f] d by (intro sys_okI) simp_all
qed

section \<open>Runs of the system\<close>

lemma new_system_ok:
  assumes "length (sin_addr addr) = 4" and "\<And>l. inj (fds l)"
  shows "sys_ok once r (new_system (started_server startLoop cb loop addr nm n) fds kn)"
  using assms started_server_inv [OF assms(1)] server_inv_refs new_loop_ok
  by (intro sys_okI) (simp_all add: new_system_def active_ok_def agrees_def started_server_fields new_conn_loop_def
      new_EPollPoller_def new_Channel_def kNew_def)

lemma sys_reach_ok:
  assumes "sys_reach P h fresh r y0 y" and "sys_ok once r y0" and sane: "\<And>ev. once \<Longrightarrow> P ev \<Longrightarrow> sane_event ev"
  shows "sys_ok once r y \<and> server_runs (sy_server y0) (sy_server y) \<and> (once \<longrightarrow> server_reach (sy_server y0) (sy_server y))"
  using assms(1,2)
proof (induction rule: sys_reach.induct)
  case start
  then show ?case by (simp add: server_reach.start server_runs.start)
next
  case (accept y sockfd peer localAddr y')
  then show ?case using sys_accept_ok [of once r y sockfd peer localAddr] server_reach_trans server_runs_trans
    by (auto simp: safe_step_def)
next
  case (wait y l outcome)
  then show ?case using sys_wait_ok [OF _ wait.hyps(3) sane] by (auto simp: sys_wait_def split: prod.split)
next
  case (event y T l y')
  then show ?case using sys_event_ok [of once r y T l] server_reach_trans server_runs_trans by (auto simp: safe_step_def)
next
  case (run y l y')
  then show ?case using sys_functor_ok [of once r y l] server_reach_trans server_runs_trans by (auto simp: safe_step_def)
next
  case (called y l d k w)
  then show ?case using called_ok [of once r y l d k w] server_reach_trans server_runs_trans by blast
next
  case (other y d f res l p)
  then show ?case using sys_other_ok by simp
qed

lemma sys_reach_sane:
  assumes "sys_reach P h fresh r y0 y" and "\<And>once. sys_ok once r y0"
  shows "sys_ok (\<forall>ev. P ev \<longrightarrow> sane_event ev) r y" "server_runs (sy_server y0) (sy_server y)"
    "(\<forall>ev. P ev \<longrightarrow> sane_event ev) \<Longrightarrow> server_reach (sy_server y0) (sy_server y)"
  using sys_reach_ok [OF assms, of "\<forall>ev. P ev \<longrightarrow> sane_event ev"] by blast+

text \<open>The system behaves like the server alone, and every object is where the server thinks it is.\<close>

lemma system_refines:
  assumes "sys_reach P h fresh r (new_system S fds kn) y" and "\<And>once. sys_ok once r (new_system S fds kn)"
  shows "server_runs S (sy_server y)" and "(\<forall>ev. P ev \<longrightarrow> sane_event ev) \<Longrightarrow> server_reach S (sy_server y)"
    and "c < length (srv_conns (sy_server y)) \<Longrightarrow>
      (case cl_conns (sy_loops y (c_loop (srv_conns (sy_server y) ! c))) (r + c) of
         None \<Rightarrow> \<not> referenced (sy_server y) c \<and> c_state (srv_conns (sy_server y) ! c) = kDisconnected \<and>
           0 < c_destroyed (srv_conns (sy_server y) ! c)
       | Some k \<Rightarrow> referenced (sy_server y) c \<and> tc_state (cn_tcp k) = c_state (srv_conns (sy_server y) ! c) \<and>
           (0 < c_destroyed (srv_conns (sy_server y) ! c) \<longrightarrow>
              interest (ctls (cl_poller (sy_loops y (c_loop (srv_conns (sy_server y) ! c)))))
                (ch_fd (store (cl_poller (sy_loops y (c_loop (srv_conns (sy_server y) ! c)))) (r + c))) = None))"
    and "(\<forall>ev. P ev \<longrightarrow> sane_event ev) \<Longrightarrow> c < length (srv_conns (sy_server y)) \<Longrightarrow>
      referenced (sy_server y) c \<longleftrightarrow> c_destroyed (srv_conns (sy_server y) ! c) = 0"
proof -
  let ?s = "sy_server y"
  note y = sys_reach_sane [OF assms]
  show "server_runs S ?s" "(\<forall>ev. P ev \<longrightarrow> sane_event ev) \<Longrightarrow> server_reach S ?s" using y(2,3) by (simp_all add: new_system_def)
  show "referenced ?s c \<longleftrightarrow> c_destroyed (srv_conns ?s ! c) = 0" if "\<forall>ev. P ev \<longrightarrow> sane_event ev" "c < length (srv_conns ?s)"
    using life_referenced [OF sys_okD(5) [OF y(1) that(1)] that(2)] .
  assume c: "c < length (srv_conns ?s)"
  let ?l = "c_loop (srv_conns ?s ! c)"
  have A: "agrees r ?l ?s (sy_loops y ?l) c" by (rule sys_okD(4) [OF y(1)])
  have "poller_inv (cl_poller (sy_loops y ?l))" using loop_okD(1) [OF sys_okD(2) [OF y(1)]] .
  then have "interest (ctls (cl_poller (sy_loops y ?l))) (ch_fd (store (cl_poller (sy_loops y ?l)) (r + c))) = None"
    if "ch_index (store (cl_poller (sy_loops y ?l)) (r + c)) \<noteq> kAdded"
    using that by (simp add: poller_inv_def chan_ok_def Let_def)
  then show "case cl_conns (sy_loops y ?l) (r + c) of
         None \<Rightarrow> \<not> referenced ?s c \<and> c_state (srv_conns ?s ! c) = kDisconnected \<and> 0 < c_destroyed (srv_conns ?s ! c)
       | Some k \<Rightarrow> referenced ?s c \<and> tc_state (cn_tcp k) = c_state (srv_conns ?s ! c) \<and>
           (0 < c_destroyed (srv_conns ?s ! c) \<longrightarrow>
              interest (ctls (cl_poller (sy_loops y ?l))) (ch_fd (store (cl_poller (sy_loops y ?l)) (r + c))) = None)"
    using A c unreferenced_destroyed [OF sys_okD(1) [OF y(1)] c]
    by (cases "cl_conns (sy_loops y ?l) (r + c)") (simp_all add: agrees_def)
qed

text \<open>When the queues are empty, the objects are the open connections: each is in the map and watched.\<close>

lemma system_settled:
  assumes y: "sys_ok once r y" and q: "\<forall>l. srv_queues (sy_server y) l = []" and k: "cl_conns (sy_loops y l) d = Some k"
  shows "srv_connections (sy_server y) (c_name (srv_conns (sy_server y) ! (d - r))) = Some (d - r) \<and>
    tc_state (cn_tcp k) \<in> {kConnected, kDisconnecting} \<and>
    interest (ctls (cl_poller (sy_loops y l))) (ch_fd (store (cl_poller (sy_loops y l)) d)) =
      Some (if readableBytes (outputBuffer (cn_tcp k)) = 0 then kReadEvent else kReadEvent OR kWriteEvent, d)"
proof -
  let ?s = "sy_server y" and ?c = "d - r"
  note K = object_conn [OF y k]
  have m: "in_map ?s ?c" using referenced_idle [OF q K(4)] .
  have ref: "ref_inv ?s ?c" using sys_okD(1) [OF y] K(2) by (simp add: server_refs_def)
  have none: "about_conn ?s ?c l' = []" for l' using q by (simp add: about_conn_def)
  have "c_state (srv_conns ?s ! ?c) \<noteq> kDisconnected" using ref_closed(2) [OF ref _ m] none by auto
  moreover from this have "due ?s ?c (c_loop (srv_conns ?s ! ?c)) = []" using ref_alive [OF ref] none by (simp add: life_inv_def)
  ultimately have "tc_state (cn_tcp k) \<in> {kConnected, kDisconnecting}"
    using K(5) by (cases "tc_state (cn_tcp k)") (auto simp: due_def Let_def)
  then show ?thesis using m watched_in_loop [OF sys_okD(2) [OF y] k] by (auto simp: in_map_def Let_def)
qed

lemma system_safe:
  assumes "sys_ok once r y"
  shows "(\<exists>q. sys_accept fresh r sockfd peer localAddr y = Some q \<and> faults_in {FatalAbort, SignedOverflow} q) \<and>
    (\<exists>q. sys_event h r T l y = Some q \<and> faults_in faults q) \<and>
    (sy_active y l = [] \<longrightarrow> (\<exists>q. sys_functor fresh r l y = Some q \<and> faults_in {FatalAbort} q))"
  using sys_accept_ok [OF assms, of sockfd peer localAddr] sys_event_ok [OF assms, of T l] sys_functor_ok [OF assms, of l]
  by (auto simp: safe_step_def)

end

section \<open>A sample system\<close>

lemma open_connection_total:
  assumes "willing (cl_kern L)"
  shows "\<exists>L' k. open_connection x c L = Inr L' \<and> cl_kern L' = cl_kern L \<and> cl_conns L' c = Some k"
  using new_TcpConnection_total [OF willing_shift [OF assms], of c "cl_poller L" "cl_clock L"]
  by (auto simp: open_connection_def store_world_def)

lemma establish_total:
  assumes "willing (cl_kern L)" and "cl_conns L c = Some k"
  shows "\<exists>L'. establish x c L = Some (Inr L')"
proof -
  let ?w = "conn_world L k"
  let ?v = "(set_conn (\<lambda>t. t\<lparr>tc_state := kConnected\<rparr>) ?w)\<lparr>poller := set_channel (tc_channel (conn ?w)) tie_channel (poller ?w)\<rparr>"
  obtain w where "channel_call enableReading ?v = Inr w" using channel_call_total [of ?v enableReading] assms(1) by (auto simp: conn_world_def)
  then show ?thesis
    using assms(2) by (simp add: establish_def on_conn_def connectEstablished_def server_callbacks_def)
qed

text \<open>A server with two threads accepts a connection; its loop establishes it.\<close>

definition sample_system :: "'x server_system" where
  "sample_system = new_system sample_server (\<lambda>l. int) (\<lambda>l. demo_kernel)"

lemma sample_system_runs:
  fixes x :: 'x
  shows "\<exists>y y'. sys_accept x 2 5 sample_addr sample_addr sample_system = Some (Inr y) \<and> sy_active y = (\<lambda>l. []) \<and>
     srv_queues (sy_server y) 2 = [ConnectEstablished 0] \<and>
     sys_functor x 2 2 y = Some (Inr y') \<and> length (srv_conns (sy_server y')) = 1 \<and> c_loop (srv_conns (sy_server y') ! 0) = 2 \<and>
     c_state (srv_conns (sy_server y') ! 0) = kConnected \<and> c_destroyed (srv_conns (sy_server y') ! 0) = 0 \<and> (\<forall>l. srv_queues (sy_server y') l = [])"
proof -
  let ?y0 = "sample_system :: 'x server_system"
  obtain s where s: "newConnection (\<lambda>_. Inr ()) 5 sample_addr sample_addr sample_server = Inr s" "length (srv_conns s) = 1"
    "c_loop (srv_conns s ! 0) = 2" "c_destroyed (srv_conns s ! 0) = 0" "srv_queues s = (\<lambda>_. [])(2 := [ConnectEstablished 0])" using sample_accept by blast
  have y0: "sy_server ?y0 = sample_server" "srv_conns sample_server = []" "srv_base sample_server = 1"
    "cl_kern (sy_loops ?y0 2) = demo_kernel" "sy_active ?y0 = (\<lambda>l. [])"
    by (simp_all add: sample_system_def new_system_def new_conn_loop_def sample_server_def started_server_fields srv_base_def
        pool_start_def pool_setThreadNum_def new_EventLoopThreadPool_def Let_def)
  obtain L1 k where L1: "open_connection x 2 (sy_loops ?y0 2) = Inr L1" "cl_kern L1 = demo_kernel" "cl_conns L1 2 = Some k"
    using open_connection_total [of "sy_loops ?y0 2" x 2] demo_willing y0(4) by auto
  obtain L2 where L2: "establish x 2 L1 = Some (Inr L2)" using establish_total [OF _ L1(3), of x] demo_willing L1(2) by auto
  let ?y1 = "?y0\<lparr>sy_server := s, sy_loops := (sy_loops ?y0)(2 := L1)\<rparr>"
  let ?y2 = "?y1\<lparr>sy_server := run_next 2 s, sy_loops := (sy_loops ?y1)(2 := L2)\<rparr>"
  have "newConnection (\<lambda>l. bind_result (open_connection x 2 (sy_loops ?y0 l)) (\<lambda>_. Inr ())) 5 sample_addr sample_addr sample_server = Inr s"
    using newConnection_other [OF s(1)] s(3) L1(1) y0(2) by simp
  then have "sys_accept x 2 5 sample_addr sample_addr ?y0 = Some (Inr ?y1)"
    using s(2-) L1(1) y0 by (simp add: sys_accept_def Let_def del: add_2_eq_Suc add_2_eq_Suc')
  moreover have "sys_functor x 2 2 ?y1 = Some (Inr ?y2)" using s(5) L2 by (simp add: sys_functor_def del: add_2_eq_Suc add_2_eq_Suc')
  moreover have "length (srv_conns (run_next 2 s)) = 1 \<and> c_loop (srv_conns (run_next 2 s) ! 0) = 2 \<and>
      c_state (srv_conns (run_next 2 s) ! 0) = kConnected \<and> c_destroyed (srv_conns (run_next 2 s) ! 0) = 0 \<and> (\<forall>l. srv_queues (run_next 2 s) l = [])"
    using s by (simp add: run_next_def run_srv_functor_def srv_connectEstablished_def update_conn_def)
  ultimately show ?thesis using s y0(5) by (intro exI [of _ ?y1] exI [of _ ?y2]) simp
qed

end
