(* ===== verification/Http_Request.thy ===== *)
theory Http_Request
  imports Prelude
begin

text \<open>
  The parsed request (\<^verbatim>\<open>http/HttpRequest.h\<close>): its fields, the setters the parser calls on byte
  ranges of the input buffer, and the getters the server reads.  The lemmas describe what
  \<open>addHeader\<close> stores for a trimmed value, which method names are accepted, and that \<open>swap\<close> with
  a fresh request clears every field.
\<close>

section \<open>State and operations\<close>

type_synonym Timestamp = int

datatype Method = kInvalid | kGet | kPost | kHead | kPut | kDelete

datatype Version = kUnknown | kHttp10 | kHttp11

record HttpRequest =
  reqMethod :: Method
  version :: Version
  path :: string
  query :: string
  receiveTime :: Timestamp
  headers :: "string \<rightharpoonup> string"
  body :: string

definition new_HttpRequest :: HttpRequest where
  "new_HttpRequest =
     \<lparr>reqMethod = kInvalid, version = kUnknown, path = [], query = [], receiveTime = 0,
      headers = Map.empty, body = []\<rparr>"

definition method_of_name :: "string \<Rightarrow> Method" where
  "method_of_name m =
     (if m = ''GET'' then kGet
      else if m = ''POST'' then kPost
      else if m = ''HEAD'' then kHead
      else if m = ''PUT'' then kPut
      else if m = ''DELETE'' then kDelete
      else kInvalid)"

definition setMethod :: "string \<Rightarrow> nat \<Rightarrow> nat \<Rightarrow> HttpRequest \<Rightarrow> bool \<times> HttpRequest" where
  "setMethod mem start stop rq =
     (let m = method_of_name (slice start stop mem)
      in (m \<noteq> kInvalid, rq\<lparr>reqMethod := m\<rparr>))"

definition setPath :: "string \<Rightarrow> nat \<Rightarrow> nat \<Rightarrow> HttpRequest \<Rightarrow> HttpRequest" where
  "setPath mem start stop rq = rq\<lparr>path := slice start stop mem\<rparr>"

definition setQuery :: "string \<Rightarrow> nat \<Rightarrow> nat \<Rightarrow> HttpRequest \<Rightarrow> HttpRequest" where
  "setQuery mem start stop rq = rq\<lparr>query := slice start stop mem\<rparr>"

text \<open>The two trimming loops of \<^verbatim>\<open>addHeader\<close>.\<close>

function skip_spaces :: "string \<Rightarrow> nat \<Rightarrow> nat \<Rightarrow> nat" where
  "skip_spaces mem colon stop =
     (if colon < stop \<and> isspace (mem ! colon) then skip_spaces mem (Suc colon) stop else colon)"
  by pat_completeness auto
termination
  by (relation "measure (\<lambda>(mem, colon, stop). stop - colon)") auto

declare skip_spaces.simps [simp del]

function trim_right :: "string \<Rightarrow> string" where
  "trim_right v = (if v \<noteq> [] \<and> isspace (last v) then trim_right (butlast v) else v)"
  by pat_completeness auto
termination
  by (relation "measure length") auto

declare trim_right.simps [simp del]

definition addHeader ::
    "string \<Rightarrow> nat option \<Rightarrow> nat option \<Rightarrow> nat option \<Rightarrow> HttpRequest \<Rightarrow> HttpRequest result" where
  "addHeader mem start colon stop rq =
     bind_result (mk_string mem start colon) (\<lambda>field.
       case (colon, stop) of
         (Some c, Some e) \<Rightarrow>
           bind_result (mk_string mem (Some (skip_spaces mem (Suc c) e)) (Some e)) (\<lambda>value.
             Inr (rq\<lparr>headers := (headers rq)(field \<mapsto> trim_right value)\<rparr>))
       | _ \<Rightarrow> Inl NullPointer)"

definition methodString :: "HttpRequest \<Rightarrow> string" where
  "methodString rq =
     (case reqMethod rq of
        kGet \<Rightarrow> ''GET'' | kPost \<Rightarrow> ''POST'' | kHead \<Rightarrow> ''HEAD''
      | kPut \<Rightarrow> ''PUT'' | kDelete \<Rightarrow> ''DELETE'' | _ \<Rightarrow> ''UNKNOWN'')"

definition getHeader :: "string \<Rightarrow> HttpRequest \<Rightarrow> string" where
  "getHeader field rq = (case headers rq field of Some v \<Rightarrow> v | None \<Rightarrow> [])"

text \<open>\<^verbatim>\<open>swap\<close> copies the receive time instead of exchanging it.\<close>

definition swap_request :: "HttpRequest \<Rightarrow> HttpRequest \<Rightarrow> HttpRequest \<times> HttpRequest" where
  "swap_request this that =
     (that, this\<lparr>receiveTime := receiveTime that\<rparr>)"

section \<open>Properties\<close>

lemma swap_fresh_clears: "fst (swap_request rq new_HttpRequest) = new_HttpRequest"
  by (simp add: swap_request_def)

lemma method_of_name_methodString:
  "reqMethod rq \<noteq> kInvalid \<Longrightarrow> method_of_name (methodString rq) = reqMethod rq"
  by (cases "reqMethod rq") (simp_all add: methodString_def method_of_name_def)

lemma setMethod_accepts_iff:
  "fst (setMethod mem p q rq) \<longleftrightarrow>
   slice p q mem \<in> {''GET'', ''POST'', ''HEAD'', ''PUT'', ''DELETE''}"
  by (auto simp: setMethod_def method_of_name_def Let_def)

lemma trim_right_id: "v = [] \<or> \<not> isspace (last v) \<Longrightarrow> trim_right v = v"
  by (subst trim_right.simps) auto

lemma trim_right_snoc: "isspace c \<Longrightarrow> trim_right (v @ [c]) = trim_right v"
  by (subst trim_right.simps) simp

lemma trim_right_no_space: "trim_right v = [] \<or> \<not> isspace (last (trim_right v))"
proof (induction v rule: trim_right.induct)
  case (1 v)
  then show ?case by (cases "v \<noteq> [] \<and> isspace (last v)") (auto simp: trim_right.simps [of v])
qed

lemma skip_spaces_step:
  "colon < stop \<Longrightarrow> isspace (mem ! colon) \<Longrightarrow> skip_spaces mem colon stop = skip_spaces mem (Suc colon) stop"
  by (subst skip_spaces.simps) simp

lemma skip_spaces_stop:
  "\<not> (colon < stop \<and> isspace (mem ! colon)) \<Longrightarrow> skip_spaces mem colon stop = colon"
  by (subst skip_spaces.simps) auto

lemma skip_spaces_bounds:
  "colon \<le> stop \<Longrightarrow> colon \<le> skip_spaces mem colon stop \<and> skip_spaces mem colon stop \<le> stop"
proof (induction mem colon stop rule: skip_spaces.induct)
  case (1 mem colon stop)
  then show ?case
    by (cases "colon < stop \<and> isspace (mem ! colon)")
      (auto simp: skip_spaces_step skip_spaces_stop)
qed

text \<open>The range that is left is the range without its leading white space.\<close>

lemma skip_spaces_slice:
  assumes "p \<le> e" and "e \<le> length mem"
  shows "slice (skip_spaces mem p e) e mem = dropWhile isspace (slice p e mem)"
proof -
  have "skip_spaces mem p e = p + length (takeWhile isspace (slice p e mem))"
    using assms(1)
  proof (induction "e - p" arbitrary: p)
    case 0
    then show ?case by (simp add: skip_spaces_stop)
  next
    case (Suc n)
    then have sl: "slice p e mem = mem ! p # slice (Suc p) e mem"
      using assms(2) by (simp add: slice_Cons)
    show ?case
      using Suc by (cases "isspace (mem ! p)") (simp_all add: sl skip_spaces_step skip_spaces_stop)
  qed
  then show ?thesis by (simp add: drop_slice dropWhile_eq_drop)
qed

definition trimmed :: "string \<Rightarrow> bool" where
  "trimmed v \<longleftrightarrow> v = [] \<or> (\<not> isspace (hd v) \<and> \<not> isspace (last v))"

text \<open>
  What \<open>addHeader\<close> stores when the range between the colon and the end is a space, a trimmed
  value and possibly trailing white space.
\<close>

lemma addHeader_stores:
  assumes key: "slice s c mem = k" "s \<le> c"
    and rng: "slice (Suc c) e mem = CHR '' '' # v @ w" "Suc c \<le> e" "e \<le> length mem"
    and v: "trimmed v" and w: "\<forall>x \<in> set w. isspace x"
  shows "addHeader mem (Some s) (Some c) (Some e) rq
           = Inr (rq\<lparr>headers := (headers rq)(k \<mapsto> v)\<rparr>)"
proof -
  have tail: "trim_right (v @ w) = v" if "\<forall>x \<in> set w. isspace x" for w
    using that
  proof (induction w rule: rev_induct)
    case Nil
    then show ?case using v by (auto simp: trimmed_def intro: trim_right_id)
  next
    case (snoc x xs)
    then show ?case using trim_right_snoc [of x "v @ xs"] by simp
  qed
  let ?p = "skip_spaces mem (Suc c) e"
  note sl = skip_spaces_slice [OF rng(2,3)]
  have "trim_right (slice ?p e mem) = v"
  proof (cases "v = []")
    case True
    then have "dropWhile isspace (slice (Suc c) e mem) = []"
      using rng(1) w by (simp add: isspace_def)
    with True sl show ?thesis by (simp add: trim_right_id)
  next
    case False
    then have "dropWhile isspace (slice (Suc c) e mem) = v @ w"
      using rng(1) v by (cases v) (auto simp: trimmed_def isspace_def)
    with sl tail w show ?thesis by simp
  qed
  moreover have "?p \<le> e" using skip_spaces_bounds rng(2) by blast
  ultimately show ?thesis
    using key rng by (simp add: addHeader_def)
qed

text \<open>With a null key or value pointer \<open>addHeader\<close> never succeeds.\<close>

lemma addHeader_null:
  "start = None \<or> colon = None \<or> stop = None \<Longrightarrow> \<exists>e. addHeader mem start colon stop rq = Inl e"
  by (cases start; cases colon; cases stop) (auto simp: addHeader_def)

text \<open>What \<open>addHeader\<close> stores in general: the bytes behind the colon without the white space around them.\<close>

lemma trim_right_prefix: "\<exists>w. v = trim_right v @ w"
proof (induction v rule: trim_right.induct)
  case (1 v)
  show ?case
  proof (cases "v \<noteq> [] \<and> isspace (last v)")
    case True
    with 1 obtain w where "butlast v = trim_right (butlast v) @ w" by blast
    have "trim_right v = trim_right (butlast v)" using True by (subst trim_right.simps) simp
    moreover have "v = butlast v @ [last v]" using True by simp
    ultimately have "v = trim_right v @ w @ [last v]" using \<open>butlast v = _\<close> by (metis append.assoc)
    then show ?thesis by blast
  next
    case False
    then show ?thesis by (subst trim_right.simps) auto
  qed
qed

lemma trimmed_trim: "trimmed (trim_right (dropWhile isspace s))"
proof -
  let ?d = "dropWhile isspace s"
  obtain w where w: "?d = trim_right ?d @ w" using trim_right_prefix by blast
  have "\<not> isspace (hd (trim_right ?d))" if "trim_right ?d \<noteq> []"
    using that w hd_dropWhile [of isspace s] by (metis append_is_Nil_conv hd_append2)
  then show ?thesis using trim_right_no_space [of ?d] by (auto simp: trimmed_def)
qed

lemma set_trim: "set (trim_right (dropWhile isspace s)) \<subseteq> set s"
  using trim_right_prefix [of "dropWhile isspace s"] by (metis Un_upper1 order_trans set_append set_dropWhileD subsetI)

lemma addHeader_trims:
  assumes "addHeader mem (Some s) (Some c) (Some e) rq = Inr rq'" and "c < e" and "e \<le> length mem" and "s \<le> c"
  shows "rq' = rq\<lparr>headers := (headers rq)(slice s c mem \<mapsto>
    trim_right (dropWhile isspace (slice (Suc c) e mem)))\<rparr>"
  using assms skip_spaces_bounds [of "Suc c" e mem] skip_spaces_slice [of "Suc c" e mem]
  by (auto simp: addHeader_def)


end
