(* ===== verification/Http_Context.thy ===== *)
theory Http_Context
  imports Net_Buffer Http_Request
begin

text \<open>
  The incremental HTTP parser (\<^verbatim>\<open>http/HttpContext.h\<close>, \<^verbatim>\<open>http/HttpContext.cpp\<close>): the request-line
  parser \<open>parseURI\<close>, the character state machine \<open>parseHeaders\<close> and the driver loop
  \<open>parseRequest\<close>.  Pointers are indices into the buffer's vector, the four local pointers of
  \<^verbatim>\<open>parseHeaders\<close> are options (\<open>None\<close> is \<^verbatim>\<open>nullptr\<close>), undefined behaviour and the exceptions of
  \<^verbatim>\<open>std::stoul\<close> are faults, and the driver loop is a partial function whose value \<open>None\<close> means that
  it never returns.
\<close>

section \<open>State\<close>

datatype ProcessState =
    STATE_PARSE_URI | STATE_PARSE_HEADERS | STATE_RECV_BODY | STATE_ANALYSIS | STATE_FINISH

datatype URIState = PARSE_URI_AGAIN | PARSE_URI_ERROR | PARSE_URI_SUCCESS

datatype HeaderState = PARSE_HEADER_SUCCESS | PARSE_HEADER_AGAIN | PARSE_HEADER_ERROR

datatype ParseState =
    H_START | H_KEY | H_COLON | H_SPACES_AFTER_COLON | H_VALUE | H_CR | H_LF | H_END_CR | H_END_LF

record HttpContext =
  ctxState :: ProcessState
  hState :: ParseState
  request :: HttpRequest

definition new_HttpContext :: HttpContext where
  "new_HttpContext = \<lparr>ctxState = STATE_PARSE_URI, hState = H_START, request = new_HttpRequest\<rparr>"

definition gotAll :: "HttpContext \<Rightarrow> bool" where
  "gotAll ctx \<longleftrightarrow> ctxState ctx = STATE_FINISH"

definition reset_context :: "HttpContext \<Rightarrow> HttpContext" where
  "reset_context ctx =
     ctx\<lparr>ctxState := STATE_PARSE_URI, hState := H_START,
         request := fst (swap_request (request ctx) new_HttpRequest)\<rparr>"

section \<open>The request line\<close>

text \<open>The target between the two spaces: the path, and the query after the first question mark.\<close>

definition set_target :: "string \<Rightarrow> nat \<Rightarrow> nat \<Rightarrow> HttpRequest \<Rightarrow> HttpRequest" where
  "set_target mem first space2 rq =
     (let question = std_find first space2 (CHR ''?'') mem
      in if question \<noteq> space2
         then setQuery mem (question + 1) space2 (setPath mem first question rq)
         else setPath mem first space2 rq)"

definition parseURI :: "HttpContext \<Rightarrow> Buffer \<Rightarrow> (URIState \<times> HttpContext \<times> Buffer) result" where
  "parseURI ctx buf =
     (if readableBytes buf = 0 then Inr (PARSE_URI_AGAIN, ctx, buf) else
      let mem = buffer buf; begin = peek buf; end' = begin + readableBytes buf;
          crlf = std_find begin end' CR mem
      in if crlf = end' then Inr (PARSE_URI_AGAIN, ctx, buf) else
      let space = std_find begin crlf (CHR '' '') mem
      in if space = crlf then Inr (PARSE_URI_ERROR, ctx, buf) else
      let (valid, rq1) = setMethod mem begin space (request ctx)
      in if \<not> valid then Inr (PARSE_URI_ERROR, ctx\<lparr>request := rq1\<rparr>, buf) else
      let space2 = std_find (space + 1) crlf (CHR '' '') mem
      in if space2 = crlf then Inr (PARSE_URI_ERROR, ctx\<lparr>request := rq1\<rparr>, buf) else
      let rq2 = set_target mem (space + 1) space2 rq1;
          ver = slice (space2 + 1) crlf mem
      in if ver \<noteq> ''HTTP/1.0'' \<and> ver \<noteq> ''HTTP/1.1''
         then Inr (PARSE_URI_ERROR, ctx\<lparr>request := rq2\<rparr>, buf) else
      let rq3 = rq2\<lparr>version := (if ver = ''HTTP/1.0'' then kHttp10 else kHttp11)\<rparr>
      in if length mem \<le> crlf + 1 then Inl OutOfBounds
         else if mem ! (crlf + 1) = LF
         then Inr (PARSE_URI_SUCCESS, ctx\<lparr>request := rq3\<rparr>, retrieveUntil (crlf + 2) buf)
         else Inr (PARSE_URI_ERROR, ctx\<lparr>request := rq3\<rparr>, buf))"

section \<open>The header state machine\<close>

record hdr_ptrs =
  key_start :: "nat option"
  key_end :: "nat option"
  val_start :: "nat option"
  val_end :: "nat option"

definition null_ptrs :: hdr_ptrs where
  "null_ptrs = \<lparr>key_start = None, key_end = None, val_start = None, val_end = None\<rparr>"

text \<open>
  One iteration either goes on with the next character or returns.  Each \<^verbatim>\<open>LOG_INFO\<close> builds a
  \<^verbatim>\<open>std::string\<close> from the current pointers; \<open>log_range\<close> is that construction, whose only effect on
  the parser is that it can be undefined.
\<close>

datatype hdr_act =
    Go hdr_ptrs ParseState HttpRequest
  | Ret HeaderState ParseState HttpRequest

definition log_range :: "string \<Rightarrow> nat option \<Rightarrow> nat option \<Rightarrow> 'a \<Rightarrow> 'a result" where
  "log_range mem p q k = bind_result (mk_string mem p q) (\<lambda>_. Inr k)"

definition hdr_step ::
    "string \<Rightarrow> nat \<Rightarrow> nat \<Rightarrow> hdr_ptrs \<Rightarrow> ParseState \<Rightarrow> HttpRequest \<Rightarrow> hdr_act result" where
  "hdr_step mem end' current p h rq =
     (let ch = mem ! current in
      case h of
        H_START \<Rightarrow>
          if ch = LF \<or> ch = CR then Inr (Go p H_START rq)
          else log_range mem (Some current) (Some end') (Go (p\<lparr>key_start := Some current\<rparr>) H_KEY rq)
      | H_KEY \<Rightarrow>
          if ch = CHR '':''
          then log_range mem (key_start p) (Some current) (Go (p\<lparr>key_end := Some current\<rparr>) H_COLON rq)
          else if ch = LF \<or> ch = CR then Inr (Ret PARSE_HEADER_ERROR H_KEY rq)
          else Inr (Go p H_KEY rq)
      | H_COLON \<Rightarrow>
          if ch = CHR '' ''
          then log_range mem (key_end p) (Some (current + 1)) (Go p H_SPACES_AFTER_COLON rq)
          else Inr (Ret PARSE_HEADER_ERROR H_COLON rq)
      | H_SPACES_AFTER_COLON \<Rightarrow>
          log_range mem (Some current) (Some end') (Go (p\<lparr>val_start := Some current\<rparr>) H_VALUE rq)
      | H_VALUE \<Rightarrow>
          if ch = CR
          then log_range mem (val_start p) (Some current) (Go (p\<lparr>val_end := Some current\<rparr>) H_CR rq)
          else if ch = LF
          then bind_result (addHeader mem (key_start p) (key_end p) (Some current) rq) (\<lambda>rq'.
                 log_range mem (val_start p) (Some current) (Go (p\<lparr>val_end := Some current\<rparr>) H_LF rq'))
          else Inr (Go p H_VALUE rq)
      | H_CR \<Rightarrow>
          if ch = LF
          then bind_result (addHeader mem (key_start p) (key_end p) (val_end p) rq) (\<lambda>rq'.
                 log_range mem (val_start p) (val_end p) (Go p H_LF rq'))
          else Inr (Ret PARSE_HEADER_ERROR H_CR rq)
      | H_LF \<Rightarrow>
          if ch = CR then log_range mem (Some current) (Some (current + 1)) (Go p H_END_CR rq)
          else log_range mem (Some current) (Some end') (Go (p\<lparr>key_start := Some current\<rparr>) H_KEY rq)
      | H_END_CR \<Rightarrow>
          if ch = LF then Inr (Ret PARSE_HEADER_SUCCESS H_END_LF rq)
          else Inr (Ret PARSE_HEADER_ERROR H_END_CR rq)
      | H_END_LF \<Rightarrow> Inr (Go p H_END_LF rq))"

text \<open>The loop gives the returned state with the value of \<^verbatim>\<open>current\<close> at that moment.\<close>

function hdr_loop ::
    "string \<Rightarrow> nat \<Rightarrow> nat \<Rightarrow> hdr_ptrs \<Rightarrow> ParseState \<Rightarrow> HttpRequest \<Rightarrow>
     (HeaderState \<times> nat \<times> ParseState \<times> HttpRequest) result" where
  "hdr_loop mem end' current p h rq =
     (if current < end' then
        bind_result (hdr_step mem end' current p h rq) (\<lambda>a. case a of
          Go p' h' rq' \<Rightarrow> hdr_loop mem end' (Suc current) p' h' rq'
        | Ret r h' rq' \<Rightarrow> Inr (r, current, h', rq'))
      else Inr (PARSE_HEADER_AGAIN, current, h, rq))"
  by pat_completeness auto
termination
  by (relation "measure (\<lambda>(mem, end', current, p, h, rq). end' - current)") auto

declare hdr_loop.simps [simp del]

definition parseHeaders :: "HttpContext \<Rightarrow> Buffer \<Rightarrow> (HeaderState \<times> HttpContext \<times> Buffer) result" where
  "parseHeaders ctx buf =
     (if readableBytes buf = 0 then Inr (PARSE_HEADER_AGAIN, ctx, buf) else
      let start = peek buf; end' = start + readableBytes buf
      in bind_result (hdr_loop (buffer buf) end' start null_ptrs (hState ctx) (request ctx))
           (\<lambda>(r, current, h, rq).
              Inr (r, ctx\<lparr>hState := h, request := rq\<rparr>,
                   if r = PARSE_HEADER_SUCCESS then retrieve (current - start + 1) buf else buf)))"

section \<open>The driver loop\<close>

text \<open>\<^verbatim>\<open>std::stoul\<close> in base ten on the C string of its argument.\<close>

definition stoul :: "string \<Rightarrow> nat result" where
  "stoul s =
     (let t = dropWhile isspace (takeWhile (\<lambda>c. c \<noteq> CHR 0x00) s);
          neg = (t \<noteq> [] \<and> hd t = CHR ''-'');
          u = (if t \<noteq> [] \<and> (hd t = CHR ''-'' \<or> hd t = CHR ''+'') then tl t else t);
          ds = takeWhile is_digit u
      in if ds = [] then Inl InvalidArgument
         else if 2 ^ 64 \<le> dec_val ds then Inl OutOfRange
         else Inr (if neg then (2 ^ 64 - dec_val ds) mod 2 ^ 64 else dec_val ds))"

text \<open>One iteration of the loop: the values of \<^verbatim>\<open>hasMore\<close> and \<^verbatim>\<open>ok\<close> after it, and the new state.\<close>

definition parse_iter ::
    "Timestamp \<Rightarrow> HttpContext \<Rightarrow> Buffer \<Rightarrow> (bool \<times> bool \<times> HttpContext \<times> Buffer) result" where
  "parse_iter receiveT ctx buf =
     (case ctxState ctx of
        STATE_PARSE_URI \<Rightarrow>
          bind_result (parseURI ctx buf) (\<lambda>(flag, ctx', buf').
            case flag of
              PARSE_URI_AGAIN \<Rightarrow> Inr (False, True, ctx', buf')
            | PARSE_URI_ERROR \<Rightarrow> Inr (False, False, ctx', buf')
            | PARSE_URI_SUCCESS \<Rightarrow>
                Inr (True, True,
                     ctx'\<lparr>request := (request ctx')\<lparr>receiveTime := receiveT\<rparr>,
                          ctxState := STATE_PARSE_HEADERS\<rparr>, buf'))
      | STATE_PARSE_HEADERS \<Rightarrow>
          bind_result (parseHeaders ctx buf) (\<lambda>(flag, ctx', buf').
            case flag of
              PARSE_HEADER_AGAIN \<Rightarrow> Inr (False, True, ctx', buf')
            | PARSE_HEADER_ERROR \<Rightarrow> Inr (False, False, ctx', buf')
            | PARSE_HEADER_SUCCESS \<Rightarrow>
                Inr (True, True,
                     ctx'\<lparr>ctxState := (if reqMethod (request ctx') = kPost then STATE_RECV_BODY
                                       else STATE_ANALYSIS)\<rparr>, buf'))
      | STATE_RECV_BODY \<Rightarrow>
          (case headers (request ctx) ''Content-Length'' of
             Some v \<Rightarrow>
               bind_result (stoul v) (\<lambda>len.
                 if len \<le> readableBytes buf
                 then Inr (True, True,
                        ctx\<lparr>request := (request ctx)\<lparr>body := slice (peek buf) (peek buf + len) (buffer buf)\<rparr>,
                            ctxState := STATE_ANALYSIS\<rparr>,
                        retrieve len buf)
                 else Inr (False, True, ctx, buf))
           | None \<Rightarrow> Inr (True, True, ctx\<lparr>ctxState := STATE_ANALYSIS\<rparr>, buf))
      | STATE_ANALYSIS \<Rightarrow> Inr (False, True, ctx\<lparr>ctxState := STATE_FINISH\<rparr>, buf)
      | STATE_FINISH \<Rightarrow> Inr (True, True, ctx, buf))"

partial_function (option) parseRequest ::
    "Timestamp \<Rightarrow> HttpContext \<Rightarrow> Buffer \<Rightarrow> (bool \<times> HttpContext \<times> Buffer) result option" where
  "parseRequest receiveT ctx buf =
     (case parse_iter receiveT ctx buf of
        Inl e \<Rightarrow> Some (Inl e)
      | Inr (hasMore, ok, ctx', buf') \<Rightarrow>
          if hasMore then parseRequest receiveT ctx' buf' else Some (Inr (ok, ctx', buf')))"

declare parseRequest.simps [code]

section \<open>Rendering requests\<close>

definition render_line :: "string \<Rightarrow> string \<Rightarrow> string \<Rightarrow> string" where
  "render_line m t ver = m @ CHR '' '' # t @ CHR '' '' # ver @ CRLF"

definition render_headers :: "(string \<times> string) list \<Rightarrow> string" where
  "render_headers hs = concat (map (\<lambda>(k, v). k @ '': '' @ v @ CRLF) hs)"

definition hdr_ok :: "string \<times> string \<Rightarrow> bool" where
  "hdr_ok kv \<longleftrightarrow> (case kv of (k, v) \<Rightarrow>
     k \<noteq> [] \<and> CHR '':'' \<notin> set k \<and> CR \<notin> set k \<and> LF \<notin> set k \<and>
     CR \<notin> set v \<and> LF \<notin> set v \<and> trimmed v)"

definition target_ok :: "string \<Rightarrow> bool" where
  "target_ok t \<longleftrightarrow> CHR '' '' \<notin> set t \<and> CR \<notin> set t"

definition target_path :: "string \<Rightarrow> string" where
  "target_path t = takeWhile (\<lambda>c. c \<noteq> CHR ''?'') t"

definition target_query :: "string \<Rightarrow> string" where
  "target_query t = tl (dropWhile (\<lambda>c. c \<noteq> CHR ''?'') t)"

definition version_of :: "string \<Rightarrow> Version" where
  "version_of ver = (if ver = ''HTTP/1.0'' then kHttp10 else kHttp11)"

lemma method_names_clean:
  assumes "method_of_name m \<noteq> kInvalid"
  shows "CHR '' '' \<notin> set m" and "CR \<notin> set m" and "m \<noteq> []"
  using assms by (auto simp: method_of_name_def split: if_splits)

lemma target_split:
  assumes "CHR ''?'' \<in> set t"
  shows "t = target_path t @ CHR ''?'' # target_query t" and "CHR ''?'' \<notin> set (target_path t)"
proof -
  have "dropWhile (\<lambda>c. c \<noteq> CHR ''?'') t \<noteq> []" using assms by (simp add: dropWhile_eq_Nil_conv)
  moreover from this have "hd (dropWhile (\<lambda>c. c \<noteq> CHR ''?'') t) = CHR ''?''"
    using hd_dropWhile by blast
  ultimately have "dropWhile (\<lambda>c. c \<noteq> CHR ''?'') t = CHR ''?'' # target_query t"
    by (metis target_query_def list.collapse)
  then show "t = target_path t @ CHR ''?'' # target_query t"
    by (metis target_path_def takeWhile_dropWhile_id)
  show "CHR ''?'' \<notin> set (target_path t)"
    by (auto simp: target_path_def dest: set_takeWhileD)
qed

text \<open>The positions the three searches of \<open>parseURI\<close> find in a complete line.\<close>

lemma line_positions:
  assumes sl: "slice b e mem = render_line m t ver @ rest" and bound: "e \<le> length mem" "b \<le> e"
    and clean: "CHR '' '' \<notin> set m" "CR \<notin> set m" "CHR '' '' \<notin> set t" "CR \<notin> set t" "CR \<notin> set ver"
  defines "sp \<equiv> b + length m" and "sp2 \<equiv> b + length m + 1 + length t"
    and "cr \<equiv> b + length m + 1 + length t + 1 + length ver"
  shows "std_find b e CR mem = cr" and "std_find b cr (CHR '' '') mem = sp"
    and "std_find (sp + 1) cr (CHR '' '') mem = sp2"
    and "slice b sp mem = m" and "slice (sp + 1) sp2 mem = t" and "slice (sp2 + 1) cr mem = ver"
    and "cr + 2 + length rest = e" and "mem ! (cr + 1) = LF"
proof -
  have all: "slice b e mem = (m @ CHR '' '' # t @ CHR '' '' # ver) @ CR # LF # rest"
    using sl by (simp add: render_line_def)
  show "std_find b e CR mem = cr"
    using std_find_at [OF all _ bound] clean by (simp add: cr_def)
  from slice_decomp [OF all bound] have
      line: "slice b cr mem = m @ CHR '' '' # t @ CHR '' '' # ver"
    and tail: "slice cr e mem = CR # LF # rest" and len: "cr + 2 + length rest = e"
    by (simp_all add: cr_def add.assoc)
  show "cr + 2 + length rest = e" by (rule len)
  show "mem ! (cr + 1) = LF" using tail bound len nth_slice [of 1 e cr mem] by simp
  have crb: "cr \<le> length mem" and bcr: "b \<le> cr" using len bound by (simp_all add: cr_def)
  show "std_find b cr (CHR '' '') mem = sp"
    using std_find_at [OF line clean(1) crb bcr] by (simp add: sp_def)
  from slice_decomp [OF line crb bcr] have
      "slice b sp mem = m" and "slice sp cr mem = [CHR '' ''] @ t @ CHR '' '' # ver"
    by (simp_all add: sp_def)
  then show "slice b sp mem = m" by simp
  have sp1: "sp + 1 \<le> cr" and "sp \<le> cr" by (simp_all add: sp_def cr_def)
  then have t1: "slice (sp + 1) cr mem = t @ CHR '' '' # ver"
    using slice_decomp(2) [OF \<open>slice sp cr mem = _\<close> crb] by simp
  show "std_find (sp + 1) cr (CHR '' '') mem = sp2"
    using std_find_at [OF t1 clean(3) crb sp1] by (simp add: sp_def sp2_def)
  from slice_decomp [OF t1 crb sp1] have
      "slice (sp + 1) sp2 mem = t" and "slice sp2 cr mem = [CHR '' ''] @ ver"
    by (simp_all add: sp_def sp2_def)
  then show "slice (sp + 1) sp2 mem = t" by simp
  show "slice (sp2 + 1) cr mem = ver"
    using slice_decomp(2) [OF \<open>slice sp2 cr mem = _\<close> crb] by (simp add: sp2_def cr_def)
qed

text \<open>The target is split at its first question mark.\<close>

lemma target_update:
  assumes ts: "slice p e mem = t" and bound: "e \<le> length mem" "p \<le> e"
  shows "set_target mem p e rq
        = rq\<lparr>path := target_path t,
             query := (if CHR ''?'' \<in> set t then target_query t else query rq)\<rparr>"
proof (cases "CHR ''?'' \<in> set t")
  case True
  let ?q = "p + length (target_path t)"
  note split = target_split [OF True]
  have sl: "slice p e mem = target_path t @ CHR ''?'' # target_query t" using ts split(1) by simp
  have q: "std_find p e (CHR ''?'') mem = ?q" using std_find_at [OF sl split(2) bound] .
  have "?q \<noteq> e" using slice_decomp(3) [OF sl bound] by simp
  moreover have "slice p ?q mem = target_path t" using slice_decomp(1) [OF sl bound] .
  moreover have "slice (?q + 1) e mem = target_query t"
    using slice_decomp(2) [of p e mem "target_path t @ [CHR ''?'']" "target_query t"] sl bound by simp
  ultimately show ?thesis using True q by (simp add: set_target_def setQuery_def setPath_def)
next
  case False
  then have "std_find p e (CHR ''?'') mem = e" using std_find_none ts bound by metis
  moreover have "target_path t = t" using False takeWhile_neq_all by (simp add: target_path_def)
  ultimately show ?thesis using False ts by (simp add: set_target_def setPath_def)
qed

text \<open>A complete request line is parsed into its parts and removed from the buffer.\<close>

lemma parseURI_line:
  assumes inv: "buf_inv buf" and m: "method_of_name m \<noteq> kInvalid" and t: "target_ok t"
    and ver: "ver \<in> {''HTTP/1.0'', ''HTTP/1.1''}"
    and c: "contents buf = render_line m t ver @ rest"
  shows "\<exists>buf'. parseURI ctx buf =
      Inr (PARSE_URI_SUCCESS,
           ctx\<lparr>request := (request ctx)
             \<lparr>reqMethod := method_of_name m, version := version_of ver, path := target_path t,
              query := (if CHR ''?'' \<in> set t then target_query t else query (request ctx))\<rparr>\<rparr>, buf')
    \<and> buf_inv buf' \<and> contents buf' = rest"
proof -
  let ?mem = "buffer buf" and ?b = "peek buf"
  let ?e = "?b + readableBytes buf" and ?sp = "?b + length m"
  let ?sp2 = "?sp + 1 + length t"
  let ?cr = "?sp2 + 1 + length ver"
  note bound = readable_in_vector [OF inv]
  have sl: "slice ?b ?e ?mem = render_line m t ver @ rest" using slice_contents [OF inv] c by simp
  have "CR \<notin> set ver" and "CHR '' '' \<notin> set t" "CR \<notin> set t"
    using ver t by (auto simp: target_ok_def)
  note pos = line_positions [OF sl bound _ method_names_clean(1,2) [OF m] this(2,3,1), simplified]
  have "set_target ?mem (?sp + 1) ?sp2 rq
        = rq\<lparr>path := target_path t,
             query := (if CHR ''?'' \<in> set t then target_query t else query rq)\<rparr>" for rq
    using target_update [of "?sp + 1" ?sp2 ?mem t rq] pos bound by simp
  then have "parseURI ctx buf =
      Inr (PARSE_URI_SUCCESS,
           ctx\<lparr>request := (request ctx)
             \<lparr>reqMethod := method_of_name m, version := version_of ver, path := target_path t,
              query := (if CHR ''?'' \<in> set t then target_query t else query (request ctx))\<rparr>\<rparr>,
           retrieveUntil (?cr + 2) buf)"
    using pos bound m ver
    by (auto simp: parseURI_def Let_def setMethod_def version_of_def)
  moreover have "contents (retrieveUntil (?cr + 2) buf) = rest"
  proof -
    have "?cr + 2 - ?b = length (render_line m t ver)" by (simp add: render_line_def)
    then show ?thesis using contents_retrieveUntil [OF inv, of "?cr + 2"] c by simp
  qed
  ultimately show ?thesis using retrieveUntil_inv [OF inv] by blast
qed

section \<open>Headers\<close>

lemma hdr_loop_go:
  "current < e \<Longrightarrow> hdr_step mem e current p h rq = Inr (Go p' h' rq') \<Longrightarrow>
   hdr_loop mem e current p h rq = hdr_loop mem e (Suc current) p' h' rq'"
  by (subst hdr_loop.simps) simp

lemma hdr_loop_ret:
  "current < e \<Longrightarrow> hdr_step mem e current p h rq = Inr (Ret r h' rq') \<Longrightarrow>
   hdr_loop mem e current p h rq = Inr (r, current, h', rq')"
  by (subst hdr_loop.simps) simp

lemma hdr_loop_fault:
  "current < e \<Longrightarrow> hdr_step mem e current p h rq = Inl f \<Longrightarrow>
   hdr_loop mem e current p h rq = Inl f"
  by (subst hdr_loop.simps) simp

lemma hdr_loop_end: "e \<le> current \<Longrightarrow> hdr_loop mem e current p h rq = Inr (PARSE_HEADER_AGAIN, current, h, rq)"
  by (subst hdr_loop.simps) simp

lemma slice_ConsD:
  "slice c e mem = x # ys \<Longrightarrow> e \<le> length mem \<Longrightarrow> c < e \<and> mem ! c = x \<and> slice (Suc c) e mem = ys"
  by (metis Cons_nth_drop_Suc drop_eq_Nil linorder_not_less list.distinct(1) list.inject slice_Cons slice_empty)

text \<open>Characters inside a key or inside a value are skipped.\<close>

lemma hdr_loop_skip:
  assumes "slice c e mem = xs @ ys" and "e \<le> length mem"
    and "h = H_KEY \<and> CHR '':'' \<notin> set xs \<or> h = H_VALUE" and "CR \<notin> set xs" and "LF \<notin> set xs"
  shows "hdr_loop mem e c p h rq = hdr_loop mem e (c + length xs) p h rq"
  using assms
proof (induction xs arbitrary: c)
  case Nil
  then show ?case by simp
next
  case (Cons x xs)
  from slice_ConsD [of c e mem x] Cons.prems(1,2)
  have c: "c < e" "mem ! c = x" "slice (Suc c) e mem = xs @ ys" by simp_all
  have "hdr_step mem e c p h rq = Inr (Go p h rq)"
    using c Cons.prems by (auto simp: hdr_step_def Let_def)
  then have "hdr_loop mem e c p h rq = hdr_loop mem e (Suc c) p h rq"
    using c by (simp add: hdr_loop_go)
  also have "\<dots> = hdr_loop mem e (Suc c + length xs) p h rq"
    using Cons.prems by (intro Cons.IH [OF c(3)]) auto
  finally show ?case by simp
qed

text \<open>From the start of a header line to the start of its value.\<close>

lemma hdr_loop_key:
  assumes sl: "slice c e mem = k @ '': '' @ x # ys" and e: "e \<le> length mem"
    and k: "hdr_ok (k, v)" and h: "h \<in> {H_START, H_LF}"
  shows "hdr_loop mem e c p h rq =
    hdr_loop mem e (c + length k + 3)
      (p\<lparr>key_start := Some c, key_end := Some (c + length k), val_start := Some (c + length k + 2)\<rparr>)
      H_VALUE rq"
proof -
  let ?c1 = "c + length k"
  obtain k0 ks where kk: "k = k0 # ks" using k by (cases k) (auto simp: hdr_ok_def)
  have s0: "c < e" "mem ! c = k0" "slice (Suc c) e mem = ks @ CHR '':'' # CHR '' '' # x # ys"
    using slice_ConsD [of c e mem k0] sl e kk by simp_all
  have ce: "?c1 + 2 < e" using slice_decomp(3) [OF sl e] s0(1) by simp
  have s1: "slice ?c1 e mem = CHR '':'' # CHR '' '' # x # ys"
    using slice_decomp(2) [OF sl e] s0(1) by simp
  note s2 = slice_ConsD [OF s1 e]
  note s3 = slice_ConsD [OF s2 [THEN conjunct2, THEN conjunct2] e]
  have "hdr_loop mem e c p h rq = hdr_loop mem e (Suc c) (p\<lparr>key_start := Some c\<rparr>) H_KEY rq"
    using s0 h k kk e by (intro hdr_loop_go) (auto simp: hdr_step_def hdr_ok_def log_range_def)
  also have "\<dots> = hdr_loop mem e ?c1 (p\<lparr>key_start := Some c\<rparr>) H_KEY rq"
    using hdr_loop_skip [OF s0(3) e] k kk by (simp add: hdr_ok_def)
  also have "\<dots> = hdr_loop mem e (Suc ?c1) (p\<lparr>key_start := Some c, key_end := Some ?c1\<rparr>) H_COLON rq"
    using s2 e by (intro hdr_loop_go) (auto simp: hdr_step_def log_range_def)
  also have "\<dots> = hdr_loop mem e (Suc (Suc ?c1))
      (p\<lparr>key_start := Some c, key_end := Some ?c1\<rparr>) H_SPACES_AFTER_COLON rq"
    using s3 ce e by (intro hdr_loop_go) (auto simp: hdr_step_def log_range_def)
  also have "\<dots> = hdr_loop mem e (Suc (Suc (Suc ?c1)))
      (p\<lparr>key_start := Some c, key_end := Some ?c1, val_start := Some (Suc (Suc ?c1))\<rparr>) H_VALUE rq"
    using ce e by (intro hdr_loop_go) (auto simp: hdr_step_def log_range_def)
  finally show ?thesis by (simp add: eval_nat_numeral)
qed

text \<open>One complete header line: the machine is at the next line, the header is stored.\<close>

lemma hdr_loop_line:
  assumes sl: "slice c e mem = (k @ '': '' @ v @ CRLF) @ ys" and e: "e \<le> length mem"
    and kv: "hdr_ok (k, v)" and h: "h \<in> {H_START, H_LF}"
  shows "\<exists>p'. hdr_loop mem e c p h rq =
    hdr_loop mem e (c + length (k @ '': '' @ v @ CRLF)) p' H_LF
      (rq\<lparr>headers := (headers rq)(k \<mapsto> v)\<rparr>)"
proof -
  let ?c1 = "c + length k"
  have ce: "?c1 + 4 + length v + length ys = e" "c \<le> e"
    using sl e by (auto simp: slice_def dest: arg_cong [of _ _ length])
  have k: "slice c ?c1 mem = k" using slice_decomp(1) [of c e mem k] sl e ce by simp
  let ?p = "p\<lparr>key_start := Some c, key_end := Some ?c1, val_start := Some (?c1 + 2)\<rparr>"
  have val: "slice (Suc ?c1) e mem = (CHR '' '' # v) @ CRLF @ ys"
    using slice_decomp(2) [of c e mem "k @ '':''"] sl e ce by simp
  show ?thesis
  proof (cases v)
    case Nil
    have "hdr_loop mem e c p h rq = hdr_loop mem e (?c1 + 3) ?p H_VALUE rq"
      using hdr_loop_key [of c e mem k CR "LF # ys"] sl e kv h Nil by simp
    moreover have "slice (?c1 + 3) e mem = LF # ys"
      using slice_decomp(2) [of c e mem "k @ '': '' @ [CR]"] sl e ce Nil by (simp add: eval_nat_numeral)
    note lf = slice_ConsD [OF this e]
    moreover have "slice (Suc ?c1) (?c1 + 3) mem = CHR '' '' # [] @ [CR]"
      using slice_decomp(1) [of "Suc ?c1" e mem "[CHR '' '', CR]"] val Nil e ce
      by (simp add: eval_nat_numeral)
    then have "addHeader mem (Some c) (Some ?c1) (Some (?c1 + 3)) rq
        = Inr (rq\<lparr>headers := (headers rq)(k \<mapsto> [])\<rparr>)"
      using ce e by (intro addHeader_stores [OF k, where w = "[CR]"]) (auto simp: trimmed_def isspace_def)
    ultimately show ?thesis
      using ce e Nil
      by (intro exI [of _ "?p\<lparr>val_end := Some (?c1 + 3)\<rparr>"])
        (simp add: hdr_loop_go hdr_step_def log_range_def eval_nat_numeral)
  next
    case (Cons x xs)
    let ?cr = "?c1 + 2 + length v"
    have "hdr_loop mem e c p h rq = hdr_loop mem e (?c1 + 3) ?p H_VALUE rq"
      using hdr_loop_key [of c e mem k x "xs @ CRLF @ ys"] sl e kv h Cons by simp
    moreover have "slice (?c1 + 3) e mem = xs @ CRLF @ ys"
      using slice_decomp(2) [of c e mem "k @ '': '' @ [x]"] sl e ce Cons by (simp add: eval_nat_numeral)
    then have "hdr_loop mem e (?c1 + 3) ?p H_VALUE rq = hdr_loop mem e ?cr ?p H_VALUE rq"
      using hdr_loop_skip [of "?c1 + 3" e mem xs] e kv Cons by (simp add: hdr_ok_def eval_nat_numeral)
    moreover have "slice ?cr e mem = CR # LF # ys"
      using slice_decomp(2) [of c e mem "k @ '': '' @ v"] sl e ce by (simp add: add.assoc)
    note cr = slice_ConsD [OF this e]
    note lf = slice_ConsD [OF cr [THEN conjunct2, THEN conjunct2] e]
    moreover have "slice (Suc ?c1) ?cr mem = CHR '' '' # v @ []"
      using slice_decomp(1) [OF val e] ce by (simp add: add.assoc)
    then have "addHeader mem (Some c) (Some ?c1) (Some ?cr) rq
        = Inr (rq\<lparr>headers := (headers rq)(k \<mapsto> v)\<rparr>)"
      using ce e kv by (intro addHeader_stores [OF k, where w = "[]"]) (auto simp: hdr_ok_def)
    ultimately show ?thesis
      using ce e cr
      by (intro exI [of _ "?p\<lparr>val_end := Some ?cr\<rparr>"])
        (simp add: hdr_loop_go hdr_step_def log_range_def add.assoc)
  qed
qed

definition add_headers :: "(string \<times> string) list \<Rightarrow> HttpRequest \<Rightarrow> HttpRequest" where
  "add_headers hs rq = rq\<lparr>headers := headers rq ++ map_of (rev hs)\<rparr>"

lemma add_headers_Cons:
  "add_headers ((k, v) # hs) rq = add_headers hs (rq\<lparr>headers := (headers rq)(k \<mapsto> v)\<rparr>)"
  by (simp add: add_headers_def map_add_def fun_eq_iff split: option.splits)

lemma add_headers_frame [simp]:
  "reqMethod (add_headers hs rq) = reqMethod rq" "headers (add_headers hs rq) = headers rq ++ map_of (rev hs)"
  by (simp_all add: add_headers_def)

lemma hdr_loop_lines:
  assumes "slice c e mem = render_headers hs @ ys" and "e \<le> length mem"
    and "\<forall>kv \<in> set hs. hdr_ok kv" and "h \<in> {H_START, H_LF}" and "hs = [] \<longrightarrow> h = H_LF"
  shows "\<exists>p'. hdr_loop mem e c p h rq =
    hdr_loop mem e (c + length (render_headers hs)) p' H_LF (add_headers hs rq)"
  using assms
proof (induction hs arbitrary: c p h rq)
  case Nil
  then show ?case by (auto simp: render_headers_def add_headers_def)
next
  case (Cons kv hs)
  obtain k v where kv: "kv = (k, v)" by (cases kv)
  let ?l = "k @ '': '' @ v @ CRLF" and ?rq = "rq\<lparr>headers := (headers rq)(k \<mapsto> v)\<rparr>"
  have sl: "slice c e mem = ?l @ render_headers hs @ ys"
    using Cons.prems(1) kv by (simp add: render_headers_def)
  from hdr_loop_line [OF sl Cons.prems(2), of h p rq] Cons.prems(3,4) kv
  obtain p1 where p1: "hdr_loop mem e c p h rq = hdr_loop mem e (c + length ?l) p1 H_LF ?rq"
    by auto
  have "c \<le> e" using sl by (metis Nil_is_append_conv append_is_Nil_conv list.distinct(1) nat_le_linear slice_empty)
  then have "slice (c + length ?l) e mem = render_headers hs @ ys"
    using slice_decomp(2) [OF sl Cons.prems(2)] by blast
  from Cons.IH [OF this Cons.prems(2), of H_LF p1 ?rq] Cons.prems(3)
  obtain p2 where "hdr_loop mem e (c + length ?l) p1 H_LF ?rq =
      hdr_loop mem e (c + length ?l + length (render_headers hs)) p2 H_LF (add_headers hs ?rq)"
    by auto
  with p1 show ?case
    by (auto simp: kv add_headers_Cons render_headers_def add.assoc intro!: exI [of _ p2])
qed

text \<open>A complete header block is parsed into the header map and removed from the buffer.\<close>

lemma parseHeaders_block:
  assumes inv: "buf_inv buf" and h: "hState ctx \<in> {H_START, H_LF}"
    and hs: "hs \<noteq> []" "\<forall>kv \<in> set hs. hdr_ok kv"
    and c: "contents buf = render_headers hs @ CRLF @ rest"
  shows "\<exists>buf'. parseHeaders ctx buf =
      Inr (PARSE_HEADER_SUCCESS, ctx\<lparr>hState := H_END_LF, request := add_headers hs (request ctx)\<rparr>, buf')
    \<and> buf_inv buf' \<and> contents buf' = rest"
proof -
  let ?mem = "buffer buf" and ?b = "peek buf" and ?e = "peek buf + readableBytes buf"
  let ?c = "?b + length (render_headers hs)" and ?rq = "add_headers hs (request ctx)"
  note e = readable_in_vector [OF inv]
  have sl: "slice ?b ?e ?mem = render_headers hs @ CRLF @ rest" using slice_contents [OF inv] c by simp
  from slice_decomp(2) [OF this e] have "slice ?c ?e ?mem = CR # LF # rest" by simp
  note cr = slice_ConsD [OF this e]
  note lf = slice_ConsD [OF cr [THEN conjunct2, THEN conjunct2] e]
  from hdr_loop_lines [OF sl e hs(2) h] hs(1) obtain p where
    "hdr_loop ?mem ?e ?b null_ptrs (hState ctx) (request ctx) = hdr_loop ?mem ?e ?c p H_LF ?rq"
    by blast
  also have "\<dots> = hdr_loop ?mem ?e (Suc ?c) p H_END_CR ?rq"
    using cr e by (intro hdr_loop_go) (auto simp: hdr_step_def log_range_def)
  also have "\<dots> = Inr (PARSE_HEADER_SUCCESS, Suc ?c, H_END_LF, ?rq)"
    using lf by (intro hdr_loop_ret) (auto simp: hdr_step_def)
  finally have "parseHeaders ctx buf = Inr (PARSE_HEADER_SUCCESS,
      ctx\<lparr>hState := H_END_LF, request := ?rq\<rparr>, retrieve (length (render_headers hs) + 2) buf)"
    using cr by (auto simp: parseHeaders_def Let_def)
  then show ?thesis
    using retrieve_inv [OF inv] contents_retrieve [OF inv, of "length (render_headers hs) + 2"] c
    by simp
qed

section \<open>Whole requests\<close>

definition request_ok :: "string \<Rightarrow> string \<Rightarrow> string \<Rightarrow> (string \<times> string) list \<Rightarrow> string \<Rightarrow> bool" where
  "request_ok m t ver hs bd \<longleftrightarrow>
     method_of_name m \<noteq> kInvalid \<and> target_ok t \<and> ver \<in> {''HTTP/1.0'', ''HTTP/1.1''} \<and>
     hs \<noteq> [] \<and> (\<forall>kv \<in> set hs. hdr_ok kv) \<and>
     (if m = ''POST'' \<and> map_of (rev hs) ''Content-Length'' \<noteq> None
      then map_of (rev hs) ''Content-Length'' = Some (dec (length bd)) \<and> length bd < 2 ^ 64
      else bd = [])"

definition render_request ::
    "string \<Rightarrow> string \<Rightarrow> string \<Rightarrow> (string \<times> string) list \<Rightarrow> string \<Rightarrow> string" where
  "render_request m t ver hs bd = render_line m t ver @ render_headers hs @ CRLF @ bd"

definition request_of ::
    "Timestamp \<Rightarrow> string \<Rightarrow> string \<Rightarrow> string \<Rightarrow> (string \<times> string) list \<Rightarrow> string \<Rightarrow> HttpRequest" where
  "request_of T m t ver hs bd =
     \<lparr>reqMethod = method_of_name m, version = version_of ver, path = target_path t,
      query = (if CHR ''?'' \<in> set t then target_query t else []), receiveTime = T,
      headers = map_of (rev hs), body = bd\<rparr>"

lemma method_of_name_Post: "method_of_name m = kPost \<longleftrightarrow> m = ''POST''"
  by (auto simp: method_of_name_def)

lemma stoul_dec: "n < 2 ^ 64 \<Longrightarrow> stoul (dec n) = Inr n"
proof -
  assume n: "n < 2 ^ 64"
  obtain d ds where d: "dec n = d # ds" by (cases "dec n") auto
  have dig: "\<forall>c \<in> set (dec n). is_digit c" by (rule dec_digits)
  then have nz: "takeWhile (\<lambda>c. c \<noteq> CHR 0x00) (dec n) = dec n"
    by (intro takeWhile_eq_all_conv [THEN iffD2]) (auto simp: is_digit_def)
  have "is_digit d" using dig d by simp
  then have "\<not> isspace d" and "d \<noteq> CHR ''-''" and "d \<noteq> CHR ''+''"
    by (auto simp: digit_not_space is_digit_def)
  moreover have "takeWhile is_digit (d # ds) = d # ds"
    using dig d by (intro takeWhile_eq_all_conv [THEN iffD2]) simp
  moreover have "dec_val (d # ds) = n" using dec_val_dec [of n] d by simp
  ultimately show ?thesis
    using n nz unfolding d by (simp add: stoul_def Let_def)
qed

text \<open>The context after the request line and the headers of a request without its body.\<close>

definition head_ctx ::
    "Timestamp \<Rightarrow> string \<Rightarrow> string \<Rightarrow> string \<Rightarrow> (string \<times> string) list \<Rightarrow> ProcessState \<Rightarrow> string \<Rightarrow> HttpContext" where
  "head_ctx T m t ver hs st bd = \<lparr>ctxState = st, hState = H_END_LF, request = request_of T m t ver hs bd\<rparr>"

lemma parseRequest_head:
  assumes inv: "buf_inv buf" and line: "method_of_name m \<noteq> kInvalid" "target_ok t"
      "ver \<in> {''HTTP/1.0'', ''HTTP/1.1''}"
    and hs: "hs \<noteq> []" "\<forall>kv \<in> set hs. hdr_ok kv"
    and c: "contents buf = render_line m t ver @ render_headers hs @ CRLF @ rest"
  shows "\<exists>b. parseRequest T new_HttpContext buf
      = parseRequest T (head_ctx T m t ver hs
          (if m = ''POST'' then STATE_RECV_BODY else STATE_ANALYSIS) []) b
    \<and> buf_inv b \<and> contents b = rest"
proof -
  let ?c1 = "\<lparr>ctxState = STATE_PARSE_HEADERS, hState = H_START, request = request_of T m t ver [] []\<rparr>"
  let ?c2 = "head_ctx T m t ver hs (if m = ''POST'' then STATE_RECV_BODY else STATE_ANALYSIS) []"
  from parseURI_line [OF inv line c, of new_HttpContext] obtain b1 where
    i1: "parse_iter T new_HttpContext buf = Inr (True, True, ?c1, b1)" "buf_inv b1"
      "contents b1 = render_headers hs @ CRLF @ rest"
    by (auto simp: parse_iter_def new_HttpContext_def new_HttpRequest_def request_of_def)
  have "add_headers hs (request_of T m t ver [] []) = request_of T m t ver hs []"
    by (simp add: request_of_def add_headers_def)
  with parseHeaders_block [OF i1(2) _ hs i1(3), of ?c1] obtain b2 where
    h: "parseHeaders ?c1 b1 = Inr (PARSE_HEADER_SUCCESS,
          \<lparr>ctxState = STATE_PARSE_HEADERS, hState = H_END_LF, request = request_of T m t ver hs []\<rparr>, b2)"
      "buf_inv b2" "contents b2 = rest"
    by auto
  have "parse_iter T ?c1 b1 = Inr (True, True, ?c2, b2)"
    unfolding parse_iter_def head_ctx_def by (simp add: h(1)) (simp add: request_of_def method_of_name_Post)
  then have "parseRequest T new_HttpContext buf = parseRequest T ?c2 b2"
    using i1(1) by (simp add: parseRequest.simps [of T new_HttpContext] parseRequest.simps [of T ?c1])
  with h show ?thesis by blast
qed

lemma parseRequest_analysis:
  "parseRequest T' (head_ctx T m t ver hs STATE_ANALYSIS bd) b
     = Some (Inr (True, head_ctx T m t ver hs STATE_FINISH bd, b))"
  by (subst parseRequest.simps) (simp add: parse_iter_def head_ctx_def)

lemma parseRequest_body:
  assumes "buf_inv b" and "contents b = bd @ rest"
    and "map_of (rev hs) ''Content-Length'' = Some (dec (length bd))" and "length bd < 2 ^ 64"
  shows "parseRequest T' (head_ctx T m t ver hs STATE_RECV_BODY []) b
     = Some (Inr (True, head_ctx T m t ver hs STATE_FINISH bd, retrieve (length bd) b))"
proof -
  have len: "length bd \<le> readableBytes b" using assms(1,2) length_contents [of b] by simp
  have "slice (peek b) (peek b + length bd) (buffer b) = bd"
    using slice_decomp(1) [of "peek b" "peek b + readableBytes b" "buffer b" bd rest]
      slice_contents [OF assms(1)] readable_in_vector [OF assms(1)] assms(2) by simp
  then have "parse_iter T' (head_ctx T m t ver hs STATE_RECV_BODY []) b
      = Inr (True, True, head_ctx T m t ver hs STATE_ANALYSIS bd, retrieve (length bd) b)"
    using assms(3,4) len by (simp add: parse_iter_def head_ctx_def request_of_def stoul_dec)
  then show ?thesis by (subst parseRequest.simps) (simp add: parseRequest_analysis)
qed

text \<open>From the end of the header block to the end of the request.\<close>

lemma parseRequest_after_head:
  assumes ok: "request_ok m t ver hs bd" and b: "buf_inv b" "contents b = bd @ rest"
  shows "\<exists>b'. parseRequest T' (head_ctx T m t ver hs (if m = ''POST'' then STATE_RECV_BODY else STATE_ANALYSIS) []) b
      = Some (Inr (True, head_ctx T m t ver hs STATE_FINISH bd, b'))
    \<and> buf_inv b' \<and> contents b' = rest"
proof (cases "m = ''POST'' \<and> map_of (rev hs) ''Content-Length'' \<noteq> None")
  case True
  then have "map_of (rev hs) ''Content-Length'' = Some (dec (length bd))" "length bd < 2 ^ 64"
    using ok by (simp_all add: request_ok_def)
  from parseRequest_body [OF b this] True b show ?thesis
    using retrieve_inv contents_retrieve by simp
next
  case False
  then have bd: "bd = []" using ok by (auto simp: request_ok_def split: if_splits)
  have "parseRequest T' (head_ctx T m t ver hs STATE_RECV_BODY []) b
      = parseRequest T' (head_ctx T m t ver hs STATE_ANALYSIS []) b" if "m = ''POST''"
    using that False by (subst parseRequest.simps) (simp add: parse_iter_def head_ctx_def request_of_def)
  then show ?thesis using b bd by (auto simp: parseRequest_analysis)
qed

text \<open>A complete request at the front of the buffer is parsed in one call.\<close>

lemma parseRequest_whole:
  assumes inv: "buf_inv buf" and ok: "request_ok m t ver hs bd"
    and c: "contents buf = render_request m t ver hs bd @ rest"
  shows "\<exists>buf'. parseRequest T new_HttpContext buf
      = Some (Inr (True, head_ctx T m t ver hs STATE_FINISH bd, buf'))
    \<and> buf_inv buf' \<and> contents buf' = rest"
proof -
  have parts: "method_of_name m \<noteq> kInvalid" "target_ok t" "ver \<in> {''HTTP/1.0'', ''HTTP/1.1''}"
      "hs \<noteq> []" "\<forall>kv \<in> set hs. hdr_ok kv"
    using ok by (simp_all add: request_ok_def)
  from parseRequest_head [OF inv parts, of "bd @ rest" T] c obtain b where
    h: "parseRequest T new_HttpContext buf = parseRequest T (head_ctx T m t ver hs
          (if m = ''POST'' then STATE_RECV_BODY else STATE_ANALYSIS) []) b"
      "buf_inv b" "contents b = bd @ rest"
    by (auto simp: render_request_def)
  from parseRequest_after_head [OF ok h(2,3), of T T] h(1) show ?thesis by simp
qed

lemma parseRequest_bad_length:
  assumes "buf_inv buf" and "target_ok t" and "ver \<in> {''HTTP/1.0'', ''HTTP/1.1''}"
    and "hs \<noteq> []" "\<forall>kv \<in> set hs. hdr_ok kv"
    and "contents buf = render_line ''POST'' t ver @ render_headers hs @ CRLF @ rest"
    and cl: "map_of (rev hs) ''Content-Length'' = Some v" "stoul v = Inl e"
  shows "parseRequest T new_HttpContext buf = Some (Inl e)"
proof -
  have "method_of_name ''POST'' \<noteq> kInvalid" by (simp add: method_of_name_def)
  from parseRequest_head [OF assms(1) this assms(2-6)] obtain b where
    "parseRequest T new_HttpContext buf = parseRequest T (head_ctx T ''POST'' t ver hs STATE_RECV_BODY []) b"
    by auto
  also have "\<dots> = Some (Inl e)"
    using cl by (subst parseRequest.simps) (simp add: parse_iter_def head_ctx_def request_of_def)
  finally show ?thesis .
qed

section \<open>Termination of the driver loop\<close>

definition state_rank :: "ProcessState \<Rightarrow> nat" where
  "state_rank s = (case s of STATE_PARSE_URI \<Rightarrow> 4 | STATE_PARSE_HEADERS \<Rightarrow> 3 | STATE_RECV_BODY \<Rightarrow> 2
                   | STATE_ANALYSIS \<Rightarrow> 1 | STATE_FINISH \<Rightarrow> 0)"

lemma parseURI_ctxState: "parseURI ctx buf = Inr (r, ctx', buf') \<Longrightarrow> ctxState ctx' = ctxState ctx"
  by (auto simp: parseURI_def Let_def split: if_splits prod.splits)

lemma parseHeaders_ctxState: "parseHeaders ctx buf = Inr (r, ctx', buf') \<Longrightarrow> ctxState ctx' = ctxState ctx"
  by (auto simp: parseHeaders_def Let_def bind_result_Inr_iff split: if_splits)

text \<open>Inversion of one iteration, by main state.\<close>

lemma parse_iter_uriE:
  assumes "ctxState ctx = STATE_PARSE_URI" and "parse_iter T ctx buf = Inr (hm, ok, ctx', buf')"
  obtains flag c where "parseURI ctx buf = Inr (flag, c, buf')" and "hm \<longleftrightarrow> flag = PARSE_URI_SUCCESS"
    and "ok \<longleftrightarrow> flag \<noteq> PARSE_URI_ERROR"
    and "ctx' = (if hm then c\<lparr>request := (request c)\<lparr>receiveTime := T\<rparr>, ctxState := STATE_PARSE_HEADERS\<rparr>
                 else c)"
proof -
  from assms obtain flag c b where "parseURI ctx buf = Inr (flag, c, b)"
    by (auto simp: parse_iter_def bind_result_Inr_iff)
  with assms that show thesis by (cases flag) (auto simp: parse_iter_def)
qed

lemma parse_iter_headersE:
  assumes "ctxState ctx = STATE_PARSE_HEADERS" and "parse_iter T ctx buf = Inr (hm, ok, ctx', buf')"
  obtains flag c where "parseHeaders ctx buf = Inr (flag, c, buf')" and "hm \<longleftrightarrow> flag = PARSE_HEADER_SUCCESS"
    and "ok \<longleftrightarrow> flag \<noteq> PARSE_HEADER_ERROR"
    and "ctx' = (if hm then c\<lparr>ctxState := (if reqMethod (request c) = kPost then STATE_RECV_BODY
                                          else STATE_ANALYSIS)\<rparr> else c)"
proof -
  from assms obtain flag c b where "parseHeaders ctx buf = Inr (flag, c, b)"
    by (auto simp: parse_iter_def bind_result_Inr_iff)
  with assms that show thesis by (cases flag) (auto simp: parse_iter_def)
qed

lemma parse_iter_bodyE:
  assumes "ctxState ctx = STATE_RECV_BODY" and "parse_iter T ctx buf = Inr (hm, ok, ctx', buf')"
  obtains "hm" and "ctxState ctx' = STATE_ANALYSIS" and "hState ctx' = hState ctx"
      and "buf' = buf \<or> (\<exists>n. buf' = retrieve n buf)"
    | "\<not> hm" and "ok" and "ctx' = ctx" and "buf' = buf"
  using assms by (fastforce simp: parse_iter_def bind_result_Inr_iff split: option.splits if_splits)

lemma parse_iter_endE:
  assumes "ctxState ctx = STATE_ANALYSIS \<or> ctxState ctx = STATE_FINISH"
    and "parse_iter T ctx buf = Inr (hm, ok, ctx', buf')"
  shows "buf' = buf" and "hState ctx' = hState ctx" and "ctxState ctx' = STATE_FINISH"
    and "hm \<longleftrightarrow> ctxState ctx = STATE_FINISH"
  using assms by (auto simp: parse_iter_def)

text \<open>An iteration that goes on moves the main state machine forward.\<close>

lemma parse_iter_rank:
  assumes it: "parse_iter T ctx buf = Inr (True, ok, ctx', buf')" and ne: "ctxState ctx \<noteq> STATE_FINISH"
  shows "state_rank (ctxState ctx') < state_rank (ctxState ctx) \<and> ctxState ctx' \<noteq> STATE_FINISH"
proof (cases "ctxState ctx")
  case STATE_PARSE_URI
  show ?thesis
    by (rule parse_iter_uriE [OF STATE_PARSE_URI it]) (auto simp: STATE_PARSE_URI state_rank_def)
next
  case STATE_PARSE_HEADERS
  show ?thesis
    by (rule parse_iter_headersE [OF STATE_PARSE_HEADERS it]) (auto simp: STATE_PARSE_HEADERS state_rank_def)
next
  case STATE_RECV_BODY
  show ?thesis
    by (rule parse_iter_bodyE [OF STATE_RECV_BODY it]) (auto simp: STATE_RECV_BODY state_rank_def)
qed (use it ne in \<open>auto simp: parse_iter_def\<close>)

lemma parseRequest_returns:
  "ctxState ctx \<noteq> STATE_FINISH \<Longrightarrow> \<exists>r. parseRequest T ctx buf = Some r"
proof (induction "state_rank (ctxState ctx)" arbitrary: ctx buf rule: less_induct)
  case less
  show ?case
  proof (cases "parse_iter T ctx buf")
    case (Inl e)
    then show ?thesis by (subst parseRequest.simps) simp
  next
    case (Inr x)
    obtain more ok ctx' buf' where x: "x = (more, ok, ctx', buf')" by (cases x)
    show ?thesis
    proof (cases more)
      case True
      with Inr x have it: "parse_iter T ctx buf = Inr (True, ok, ctx', buf')" by simp
      then show ?thesis
        using less.hyps parse_iter_rank [OF it less.prems] by (subst parseRequest.simps) simp
    next
      case False
      with Inr x show ?thesis by (subst parseRequest.simps) simp
    qed
  qed
qed

text \<open>An induction rule for the calls that return: along the iterations of the loop.\<close>

lemma parseRequest_induct [consumes 1, case_names fault stop step]:
  assumes "parseRequest T ctx buf = Some r"
    and fault: "\<And>ctx buf e. parse_iter T ctx buf = Inl e \<Longrightarrow> P ctx buf (Inl e)"
    and stop: "\<And>ctx buf ok ctx' buf'. parse_iter T ctx buf = Inr (False, ok, ctx', buf') \<Longrightarrow>
      P ctx buf (Inr (ok, ctx', buf'))"
    and step: "\<And>ctx buf ok ctx' buf' r. parse_iter T ctx buf = Inr (True, ok, ctx', buf') \<Longrightarrow>
      P ctx' buf' r \<Longrightarrow> P ctx buf r"
  shows "P ctx buf r"
proof -
  have "T = T \<longrightarrow> P ctx buf r"
  proof (rule parseRequest.raw_induct [where P = "\<lambda>T' ctx buf r. T' = T \<longrightarrow> P ctx buf r", OF _ assms(1)])
    fix f T' ctx buf r
    assume IH: "\<And>T' ctx buf r. f T' ctx buf = Some r \<Longrightarrow> T' = T \<longrightarrow> P ctx buf r"
      and eq: "(case parse_iter T' ctx buf of Inl e \<Rightarrow> Some (Inl e)
        | Inr (hasMore, ok, c, b) \<Rightarrow> if hasMore then f T' c b else Some (Inr (ok, c, b))) = Some r"
    show "T' = T \<longrightarrow> P ctx buf r"
    proof
      assume T: "T' = T"
      show "P ctx buf r"
      proof (cases "parse_iter T ctx buf")
        case (Inl e)
        then show ?thesis using eq T fault by auto
      next
        case (Inr x)
        then obtain hm ok c b where x: "parse_iter T ctx buf = Inr (hm, ok, c, b)" by (cases x) simp
        then show ?thesis
          using eq T IH [of T c b r] by (cases hm) (auto intro: stop step)
      qed
    qed
  qed
  then show ?thesis by simp
qed

lemma parseRequest_finish_diverges:
  assumes "ctxState ctx = STATE_FINISH"
  shows "parseRequest T ctx buf = None"
proof -
  have "ctxState ctx \<noteq> STATE_FINISH" if "parseRequest T ctx buf = Some r" for r
    using that by (induction rule: parseRequest_induct) (auto simp: parse_iter_def)
  with assms show ?thesis by (cases "parseRequest T ctx buf") auto
qed

section \<open>Pointer safety of the header machine\<close>

text \<open>What the four pointers satisfy in each state when parsing started at the head of a line.\<close>

definition ptrs_ok :: "nat \<Rightarrow> hdr_ptrs \<Rightarrow> ParseState \<Rightarrow> bool" where
  "ptrs_ok c p h =
     (case h of
        H_KEY \<Rightarrow> (\<exists>ks. key_start p = Some ks \<and> ks \<le> c)
      | H_COLON \<Rightarrow> (\<exists>ks ke. key_start p = Some ks \<and> key_end p = Some ke \<and> ks \<le> ke \<and> ke < c)
      | H_SPACES_AFTER_COLON \<Rightarrow> (\<exists>ks ke. key_start p = Some ks \<and> key_end p = Some ke \<and> ks \<le> ke \<and> ke < c)
      | H_VALUE \<Rightarrow> (\<exists>ks ke vs. key_start p = Some ks \<and> key_end p = Some ke \<and> val_start p = Some vs \<and>
                      ks \<le> ke \<and> ke < vs \<and> vs \<le> c)
      | H_CR \<Rightarrow> (\<exists>ks ke vs ve. key_start p = Some ks \<and> key_end p = Some ke \<and> val_start p = Some vs \<and>
                   val_end p = Some ve \<and> ks \<le> ke \<and> ke < vs \<and> vs \<le> ve \<and> ve < c)
      | _ \<Rightarrow> True)"

lemma addHeader_in_range:
  assumes "ks \<le> ke" and "ke < e" and "e \<le> length mem"
  shows "\<exists>rq'. addHeader mem (Some ks) (Some ke) (Some e) rq = Inr rq'"
  using assms skip_spaces_bounds [of "Suc ke" e mem] by (auto simp: addHeader_def)

lemma hdr_step_ptrs_ok:
  assumes "ptrs_ok c p h" and "c < e" and "e \<le> length mem"
  shows "\<exists>a. hdr_step mem e c p h rq = Inr a \<and>
    (case a of Go p' h' rq' \<Rightarrow> ptrs_ok (Suc c) p' h' | Ret _ _ _ \<Rightarrow> True)"
proof (cases h)
  case H_VALUE
  then obtain ks ke vs where p: "key_start p = Some ks" "key_end p = Some ke" "val_start p = Some vs"
      "ks \<le> ke" "ke < vs" "vs \<le> c"
    using assms(1) by (auto simp: ptrs_ok_def)
  moreover obtain rq' where "addHeader mem (Some ks) (Some ke) (Some c) rq = Inr rq'"
    using addHeader_in_range [of ks ke c mem rq] p assms by auto
  ultimately show ?thesis
    using assms(2,3) H_VALUE by (auto simp: hdr_step_def log_range_def ptrs_ok_def Let_def)
next
  case H_CR
  then obtain ks ke vs ve where p: "key_start p = Some ks" "key_end p = Some ke" "val_start p = Some vs"
      "val_end p = Some ve" "ks \<le> ke" "ke < vs" "vs \<le> ve" "ve < c"
    using assms(1) by (auto simp: ptrs_ok_def)
  moreover obtain rq' where "addHeader mem (Some ks) (Some ke) (Some ve) rq = Inr rq'"
    using addHeader_in_range [of ks ke ve mem rq] p assms by auto
  ultimately show ?thesis
    using assms(2,3) H_CR by (auto simp: hdr_step_def log_range_def ptrs_ok_def Let_def)
qed (use assms in \<open>auto simp: hdr_step_def log_range_def ptrs_ok_def Let_def\<close>)

lemma hdr_loop_safe:
  "ptrs_ok c p h \<Longrightarrow> e \<le> length mem \<Longrightarrow> \<exists>r. hdr_loop mem e c p h rq = Inr r"
proof (induction mem e c p h rq rule: hdr_loop.induct)
  case (1 mem e c p h rq)
  show ?case
  proof (cases "c < e")
    case True
    from hdr_step_ptrs_ok [OF "1.prems"(1) True "1.prems"(2)] obtain a where
      a: "hdr_step mem e c p h rq = Inr a"
      "case a of Go p' h' rq' \<Rightarrow> ptrs_ok (Suc c) p' h' | Ret _ _ _ \<Rightarrow> True" by blast
    then show ?thesis
      using "1.IH" [OF True] "1.prems"(2) True
      by (cases a) (auto simp: hdr_loop_go hdr_loop_ret)
  next
    case False
    then show ?thesis by (simp add: hdr_loop_end)
  qed
qed

lemma parseHeaders_safe:
  assumes "buf_inv buf" and "hState ctx \<in> {H_START, H_LF, H_END_CR, H_END_LF}"
  shows "\<exists>r. parseHeaders ctx buf = Inr r"
proof -
  have "\<exists>r. hdr_loop (buffer buf) (peek buf + readableBytes buf) (peek buf) null_ptrs (hState ctx) (request ctx) = Inr r"
    using assms readable_in_vector by (intro hdr_loop_safe) (auto simp: ptrs_ok_def)
  then show ?thesis by (auto simp: parseHeaders_def Let_def)
qed

text \<open>
  A parser that was left in the middle of a line has lost its pointers: from such a state no
  input is ever accepted.
\<close>

definition lost_ptrs :: "hdr_ptrs \<Rightarrow> ParseState \<Rightarrow> bool" where
  "lost_ptrs p h \<longleftrightarrow> h = H_KEY \<and> key_start p = None \<or> h = H_COLON \<and> key_end p = None \<or>
     h \<in> {H_SPACES_AFTER_COLON, H_VALUE, H_CR} \<and> key_start p = None \<and> key_end p = None"

lemma hdr_step_lost:
  assumes "lost_ptrs p h" and "hdr_step mem e c p h rq = Inr a"
  shows "case a of Go p' h' _ \<Rightarrow> lost_ptrs p' h' | Ret r _ _ \<Rightarrow> r = PARSE_HEADER_ERROR"
  using assms
  by (cases h) (auto simp: lost_ptrs_def hdr_step_def log_range_def Let_def bind_result_Inr_iff addHeader_def
      split: if_splits)

lemma hdr_loop_lost:
  "lost_ptrs p h \<Longrightarrow> hdr_loop mem e c p h rq = Inr (r, c', h', rq') \<Longrightarrow> r \<noteq> PARSE_HEADER_SUCCESS"
proof (induction mem e c p h rq rule: hdr_loop.induct)
  case (1 mem e c p h rq)
  show ?case
  proof (cases "c < e")
    case True
    with "1.prems"(2) obtain a where a: "hdr_step mem e c p h rq = Inr a"
      by (cases "hdr_step mem e c p h rq") (auto simp: hdr_loop_fault)
    then show ?thesis
      using hdr_step_lost [OF "1.prems"(1) a] "1.IH" [OF True] "1.prems"(2) True
      by (cases a) (auto simp: hdr_loop_go hdr_loop_ret)
  next
    case False
    then show ?thesis using "1.prems" by (simp add: hdr_loop_end)
  qed
qed

lemma parseHeaders_lost:
  assumes "hState ctx \<in> {H_KEY, H_COLON, H_SPACES_AFTER_COLON, H_VALUE, H_CR}"
    and "parseHeaders ctx buf = Inr (r, ctx', buf')"
  shows "r \<noteq> PARSE_HEADER_SUCCESS"
proof -
  have "lost_ptrs null_ptrs (hState ctx)" using assms(1) by (auto simp: lost_ptrs_def null_ptrs_def)
  then show ?thesis
    using assms(2) hdr_loop_lost
    by (fastforce simp: parseHeaders_def Let_def bind_result_Inr_iff split: if_splits)
qed

section \<open>Which faults a request can cause\<close>

lemma parseURI_safe:
  assumes "buf_inv buf" and "0 < writableBytes buf"
  shows "\<exists>r. parseURI ctx buf = Inr r"
proof -
  let ?e = "peek buf + readableBytes buf"
  have "std_find (peek buf) ?e CR (buffer buf) \<le> ?e" by (simp add: std_find_le)
  moreover have "?e < length (buffer buf)" using assms by (auto simp: buffer_defs)
  ultimately show ?thesis by (auto simp: parseURI_def Let_def split: prod.splits)
qed

lemma stoul_faults: "stoul s = Inl e \<Longrightarrow> e \<in> {InvalidArgument, OutOfRange}"
  by (auto simp: stoul_def Let_def split: if_splits)

lemma stoul_bound: "stoul s = Inr n \<Longrightarrow> n < 2 ^ 64"
  by (auto simp: stoul_def Let_def split: if_splits)

text \<open>Parsing consumes a prefix of the readable bytes and keeps the layout invariant.\<close>

definition consumes :: "Buffer \<Rightarrow> Buffer \<Rightarrow> bool" where
  "consumes b b' \<longleftrightarrow> buf_inv b' \<and> (\<exists>k. contents b' = drop k (contents b))"

lemma consumes_refl: "buf_inv b \<Longrightarrow> consumes b b"
  by (auto simp: consumes_def intro: exI [of _ 0])

lemma consumes_trans: "consumes a b \<Longrightarrow> consumes b c \<Longrightarrow> consumes a c"
  by (auto simp: consumes_def)

lemma consumes_retrieve: "buf_inv b \<Longrightarrow> consumes b (retrieve n b)"
  by (auto simp: consumes_def contents_retrieve retrieve_inv)

lemma consumes_retrieveUntil: "buf_inv b \<Longrightarrow> consumes b (retrieveUntil p b)"
  by (simp add: retrieveUntil_def consumes_retrieve)

lemma parseURI_consumes:
  "buf_inv buf \<Longrightarrow> parseURI ctx buf = Inr (r, ctx', buf') \<Longrightarrow> consumes buf buf'"
  by (auto simp: parseURI_def Let_def consumes_refl consumes_retrieveUntil split: if_splits prod.splits)

lemma parseHeaders_consumes:
  "buf_inv buf \<Longrightarrow> parseHeaders ctx buf = Inr (r, ctx', buf') \<Longrightarrow> consumes buf buf'"
  by (auto simp: parseHeaders_def Let_def bind_result_Inr_iff consumes_refl consumes_retrieve split: if_splits)

lemma parse_iter_consumes:
  assumes inv: "buf_inv buf" and it: "parse_iter T ctx buf = Inr (hm, ok, ctx', buf')"
  shows "consumes buf buf'"
proof (cases "ctxState ctx")
  case STATE_PARSE_URI
  show ?thesis
    by (rule parse_iter_uriE [OF STATE_PARSE_URI it]) (rule parseURI_consumes [OF inv])
next
  case STATE_PARSE_HEADERS
  show ?thesis
    by (rule parse_iter_headersE [OF STATE_PARSE_HEADERS it]) (rule parseHeaders_consumes [OF inv])
next
  case STATE_RECV_BODY
  show ?thesis
    by (rule parse_iter_bodyE [OF STATE_RECV_BODY it]) (auto simp: consumes_refl consumes_retrieve inv)
qed (use it inv in \<open>auto simp: parse_iter_def consumes_refl\<close>)

lemma parseRequest_consumes:
  assumes "parseRequest T ctx buf = Some (Inr (ok, ctx', buf'))" and "buf_inv buf"
  shows "consumes buf buf'"
proof -
  have "buf_inv buf \<longrightarrow> (\<forall>ok ctx' buf'. r = Inr (ok, ctx', buf') \<longrightarrow> consumes buf buf')"
    if "parseRequest T ctx buf = Some r" for r
    using that
  proof (induction rule: parseRequest_induct)
    case (step ctx buf ok ctx1 buf1 r)
    show ?case
    proof
      assume "buf_inv buf"
      then have c: "consumes buf buf1" using step.hyps by (rule parse_iter_consumes)
      then have "buf_inv buf1" by (simp add: consumes_def)
      with step.IH c show "\<forall>ok ctx' buf'. r = Inr (ok, ctx', buf') \<longrightarrow> consumes buf buf'"
        by (blast intro: consumes_trans)
    qed
  qed (auto dest: parse_iter_consumes)
  with assms show ?thesis by blast
qed

text \<open>
  On a connection whose context is fresh, with one spare byte behind the data, no input makes
  the parser run into undefined behaviour: the only faults left are the exceptions of
  \<^verbatim>\<open>std::stoul\<close>.
\<close>

definition fault_free_state :: "HttpContext \<Rightarrow> Buffer \<Rightarrow> bool" where
  "fault_free_state ctx buf \<longleftrightarrow> buf_inv buf \<and> hState ctx \<in> {H_START, H_LF, H_END_CR, H_END_LF} \<and>
     (ctxState ctx = STATE_PARSE_URI \<longrightarrow> 0 < writableBytes buf)"

lemma parseURI_hState: "parseURI ctx buf = Inr (r, ctx', buf') \<Longrightarrow> hState ctx' = hState ctx"
  by (auto simp: parseURI_def Let_def split: if_splits prod.splits)

lemma hdr_loop_success_state:
  "hdr_loop mem e c p h rq = Inr (PARSE_HEADER_SUCCESS, c', h', rq') \<Longrightarrow> h' = H_END_LF"
proof (induction mem e c p h rq rule: hdr_loop.induct)
  case (1 mem e c p h rq)
  show ?case
  proof (cases "c < e")
    case True
    with "1.prems" obtain a where a: "hdr_step mem e c p h rq = Inr a"
      by (cases "hdr_step mem e c p h rq") (auto simp: hdr_loop_fault)
    show ?thesis
    proof (cases a)
      case (Go p1 h1 rq1)
      then show ?thesis using "1.IH" [OF True] "1.prems" True a by (simp add: hdr_loop_go)
    next
      case (Ret r h1 rq1)
      then have "h1 = H_END_LF" if "r = PARSE_HEADER_SUCCESS"
        using that a by (auto simp: hdr_step_def Let_def log_range_def bind_result_Inr_iff
            split: ParseState.splits if_splits)
      then show ?thesis using "1.prems" True a Ret by (auto simp: hdr_loop_ret)
    qed
  next
    case False
    then show ?thesis using "1.prems" by (simp add: hdr_loop_end)
  qed
qed

lemma parse_iter_fault:
  assumes "fault_free_state ctx buf" and "parse_iter T ctx buf = Inl e"
  shows "e \<in> {InvalidArgument, OutOfRange}"
proof (cases "ctxState ctx")
  case STATE_PARSE_URI
  then obtain r where "parseURI ctx buf = Inr r"
    using assms(1) parseURI_safe [of buf ctx] by (auto simp: fault_free_state_def)
  then show ?thesis using assms(2) STATE_PARSE_URI
    by (cases r) (auto simp: parse_iter_def split: URIState.splits)
next
  case STATE_PARSE_HEADERS
  then obtain r where "parseHeaders ctx buf = Inr r"
    using assms(1) parseHeaders_safe [of buf ctx] by (auto simp: fault_free_state_def)
  then show ?thesis using assms(2) STATE_PARSE_HEADERS
    by (cases r) (auto simp: parse_iter_def split: HeaderState.splits)
next
  case STATE_RECV_BODY
  then show ?thesis using assms(2) stoul_faults
    by (fastforce simp: parse_iter_def bind_result_def split: option.splits sum.splits if_splits)
qed (use assms(2) in \<open>auto simp: parse_iter_def\<close>)

lemma parse_iter_fault_free:
  assumes "fault_free_state ctx buf" and "parse_iter T ctx buf = Inr (True, ok, ctx', buf')"
  shows "fault_free_state ctx' buf'"
proof -
  have "buf_inv buf'"
    using parse_iter_consumes [OF _ assms(2)] assms(1) by (auto simp: consumes_def fault_free_state_def)
  moreover have "hState ctx' \<in> {H_START, H_LF, H_END_CR, H_END_LF} \<and>
      (ctxState ctx' = STATE_PARSE_URI \<longrightarrow> 0 < writableBytes buf')"
  proof (cases "ctxState ctx")
    case STATE_PARSE_URI
    show ?thesis
      by (rule parse_iter_uriE [OF STATE_PARSE_URI assms(2)])
        (use assms(1) in \<open>auto simp: parseURI_hState fault_free_state_def\<close>)
  next
    case STATE_PARSE_HEADERS
    then obtain c where "parseHeaders ctx buf = Inr (PARSE_HEADER_SUCCESS, c, buf')"
        "hState ctx' = hState c" "ctxState ctx' \<noteq> STATE_PARSE_URI"
      by (rule parse_iter_headersE [OF _ assms(2)]) auto
    moreover from this have "hState c = H_END_LF"
      by (auto simp: parseHeaders_def Let_def bind_result_Inr_iff split: if_splits dest: hdr_loop_success_state)
    ultimately show ?thesis by simp
  next
    case STATE_RECV_BODY
    show ?thesis
      by (rule parse_iter_bodyE [OF STATE_RECV_BODY assms(2)])
        (use assms(1) in \<open>auto simp: fault_free_state_def\<close>)
  qed (use assms in \<open>auto simp: parse_iter_def fault_free_state_def\<close>)
  ultimately show ?thesis by (simp add: fault_free_state_def)
qed

lemma parseRequest_faults:
  assumes "parseRequest T ctx buf = Some (Inl e)" and "fault_free_state ctx buf"
  shows "e \<in> {InvalidArgument, OutOfRange}"
proof -
  have "fault_free_state ctx buf \<longrightarrow> (\<forall>e. r = Inl e \<longrightarrow> e \<in> {InvalidArgument, OutOfRange})"
    if "parseRequest T ctx buf = Some r" for r
    using that
  proof (induction rule: parseRequest_induct)
    case (fault ctx buf e)
    then show ?case using parse_iter_fault by blast
  next
    case (step ctx buf ok ctx1 buf1 r)
    then show ?case using parse_iter_fault_free by blast
  qed simp
  with assms show ?thesis by blast
qed

section \<open>Requests that arrive in pieces\<close>

text \<open>The states in which \<open>parseHeaders\<close> is in the middle of a line.\<close>

definition mid_line :: "ParseState set" where
  "mid_line = {H_KEY, H_COLON, H_SPACES_AFTER_COLON, H_VALUE, H_CR}"

lemma lost_ptrs_mid_line: "lost_ptrs p h \<Longrightarrow> h \<in> mid_line"
  by (auto simp: lost_ptrs_def mid_line_def)

lemma null_ptrs_lost: "h \<in> mid_line \<Longrightarrow> lost_ptrs null_ptrs h"
  by (auto simp: lost_ptrs_def mid_line_def null_ptrs_def)

lemma hdr_step_lost_Ret:
  assumes "lost_ptrs p h" and "hdr_step mem e c p h rq = Inr (Ret r h' rq')"
  shows "h' = h"
  using assms
  by (cases h) (auto simp: lost_ptrs_def hdr_step_def log_range_def Let_def bind_result_Inr_iff addHeader_def
      split: if_splits)

lemma hdr_loop_stays_lost:
  "lost_ptrs p h \<Longrightarrow> hdr_loop mem e c p h rq = Inr (r, c', h', rq') \<Longrightarrow> h' \<in> mid_line"
proof (induction mem e c p h rq rule: hdr_loop.induct)
  case (1 mem e c p h rq)
  show ?case
  proof (cases "c < e")
    case True
    with "1.prems"(2) obtain a where a: "hdr_step mem e c p h rq = Inr a"
      by (cases "hdr_step mem e c p h rq") (auto simp: hdr_loop_fault)
    show ?thesis
    proof (cases a)
      case (Go p1 h1 rq1)
      then show ?thesis
        using hdr_step_lost [OF "1.prems"(1) a] "1.IH" [OF True] "1.prems"(2) True a
        by (simp add: hdr_loop_go)
    next
      case (Ret r1 h1 rq1)
      then show ?thesis
        using hdr_step_lost_Ret [OF "1.prems"(1), of mem e c rq r1 h1 rq1]
          lost_ptrs_mid_line [OF "1.prems"(1)] "1.prems"(2) True a
        by (simp add: hdr_loop_ret)
    qed
  next
    case False
    then show ?thesis using "1.prems" lost_ptrs_mid_line by (simp add: hdr_loop_end)
  qed
qed

lemma parseHeaders_mid_line:
  assumes "hState ctx \<in> mid_line" and "parseHeaders ctx buf = Inr (r, ctx', buf')"
  shows "r \<noteq> PARSE_HEADER_SUCCESS" and "hState ctx' \<in> mid_line"
proof -
  note lost = null_ptrs_lost [OF assms(1)]
  show "r \<noteq> PARSE_HEADER_SUCCESS" and "hState ctx' \<in> mid_line"
    using assms
    by (auto simp: parseHeaders_def Let_def bind_result_Inr_iff split: if_splits
        dest: hdr_loop_lost [OF lost] hdr_loop_stays_lost [OF lost])
qed

text \<open>A call that starts in the middle of a line ends there, if it returns normally.\<close>

lemma parseRequest_mid_line:
  assumes "ctxState ctx = STATE_PARSE_HEADERS" and "hState ctx \<in> mid_line"
    and "parseRequest T ctx buf = Some (Inr (ok, ctx', buf'))"
  shows "ctxState ctx' = STATE_PARSE_HEADERS" and "hState ctx' \<in> mid_line"
proof -
  have hm: "\<not> hm \<and> ctxState c = STATE_PARSE_HEADERS \<and> hState c \<in> mid_line"
    if "parse_iter T ctx buf = Inr (hm, ok, c, b)" for hm ok c b
    by (rule parse_iter_headersE [OF assms(1) that])
      (auto dest: parseHeaders_mid_line [OF assms(2)] parseHeaders_ctxState simp: assms(1))
  from assms(3) obtain hm ok1 c b where it: "parse_iter T ctx buf = Inr (hm, ok1, c, b)"
    by (cases "parse_iter T ctx buf") (auto simp: parseRequest.simps [of T ctx buf])
  with hm [OF it] assms(3) show "ctxState ctx' = STATE_PARSE_HEADERS" and "hState ctx' \<in> mid_line"
    by (auto simp: parseRequest.simps [of T ctx buf])
qed

lemma hdr_loop_partial:
  assumes "slice c e mem = x # xs" and "e \<le> length mem" and "h \<in> {H_START, H_LF}"
    and "\<forall>y \<in> set (x # xs). y \<notin> {CHR '':'', CR, LF}"
  shows "hdr_loop mem e c p h rq = Inr (PARSE_HEADER_AGAIN, e, H_KEY, rq)"
proof -
  have c: "c < e" "mem ! c = x" "slice (Suc c) e mem = xs @ []"
    using slice_ConsD [OF assms(1,2)] by simp_all
  have x: "x \<noteq> CR" "x \<noteq> LF" using assms(4) by auto
  have "hdr_step mem e c p h rq = Inr (Go (p\<lparr>key_start := Some c\<rparr>) H_KEY rq)"
    using assms(2,3) c(1,2) x by (auto simp: hdr_step_def log_range_def)
  then have "hdr_loop mem e c p h rq = hdr_loop mem e (Suc c) (p\<lparr>key_start := Some c\<rparr>) H_KEY rq"
    using c(1) by (rule hdr_loop_go [rotated])
  also have "\<dots> = hdr_loop mem e (Suc c + length xs) (p\<lparr>key_start := Some c\<rparr>) H_KEY rq"
    using assms(4) by (intro hdr_loop_skip [OF c(3) assms(2)]) auto
  also have "Suc c + length xs = e"
    using slice_decomp(3) [OF c(3) assms(2)] c(1) by simp
  finally show ?thesis by (simp add: hdr_loop_end)
qed

text \<open>What the first call leaves behind when the input ends inside a header name.\<close>

lemma parseRequest_cut_in_key:
  assumes inv: "buf_inv buf" and line: "method_of_name m \<noteq> kInvalid" "target_ok t"
      "ver \<in> {''HTTP/1.0'', ''HTTP/1.1''}"
    and hs: "\<forall>kv \<in> set hs. hdr_ok kv"
    and part: "part \<noteq> []" "\<forall>y \<in> set part. y \<notin> {CHR '':'', CR, LF}"
    and c: "contents buf = render_line m t ver @ render_headers hs @ part"
  shows "\<exists>ctx' buf'. parseRequest T new_HttpContext buf = Some (Inr (True, ctx', buf'))
    \<and> ctxState ctx' = STATE_PARSE_HEADERS \<and> hState ctx' = H_KEY"
proof -
  from parseURI_line [OF inv line c, of new_HttpContext] obtain c1 b1 where
    u: "parse_iter T new_HttpContext buf = Inr (True, True, c1, b1)" "ctxState c1 = STATE_PARSE_HEADERS"
      "hState c1 = H_START" "buf_inv b1" "contents b1 = render_headers hs @ part"
    by (auto simp: parse_iter_def new_HttpContext_def)
  let ?mem = "buffer b1" and ?b = "peek b1" and ?e = "peek b1 + readableBytes b1"
  note e = readable_in_vector [OF u(4)]
  have sl: "slice ?b ?e ?mem = render_headers hs @ part" using slice_contents [OF u(4)] u(5) by simp
  have rest: "slice (?b + length (render_headers hs)) ?e ?mem = part" using slice_decomp(2) [OF sl e] by simp
  obtain x xs where px: "part = x # xs" using part(1) by (cases part) auto
  have "\<exists>rq. hdr_loop ?mem ?e ?b null_ptrs H_START (request c1) = Inr (PARSE_HEADER_AGAIN, ?e, H_KEY, rq)"
  proof (cases "hs = []")
    case True
    then show ?thesis
      using hdr_loop_partial [of ?b ?e ?mem x xs] sl e part(2) px by (simp add: render_headers_def)
  next
    case False
    then show ?thesis
      using hdr_loop_lines [OF sl e hs, of H_START null_ptrs "request c1"]
        hdr_loop_partial [OF rest [unfolded px] e] part(2) px by auto
  qed
  moreover have "readableBytes b1 \<noteq> 0" using readableBytes_0_iff [OF u(4)] u(5) part(1) by simp
  ultimately obtain c2 where "parse_iter T c1 b1 = Inr (False, True, c2, b1)" "hState c2 = H_KEY"
      "ctxState c2 = STATE_PARSE_HEADERS"
    using u(2,3) by (auto simp: parse_iter_def parseHeaders_def Let_def)
  then have "parseRequest T new_HttpContext buf = Some (Inr (True, c2, b1))"
    using u(1) by (simp add: parseRequest.simps [of T new_HttpContext] parseRequest.simps [of T c1])
  with \<open>hState c2 = H_KEY\<close> \<open>ctxState c2 = _\<close> show ?thesis by blast
qed

text \<open>A request line whose last byte so far is the carriage return.\<close>

lemma parseURI_cut_before_lf:
  assumes inv: "buf_inv buf" and m: "method_of_name m \<noteq> kInvalid" and t: "target_ok t"
    and ver: "ver \<in> {''HTTP/1.0'', ''HTTP/1.1''}"
    and c: "contents buf = m @ CHR '' '' # t @ CHR '' '' # ver @ [CR]"
    and stale: "writerIndex buf < length (buffer buf) \<Longrightarrow> buffer buf ! writerIndex buf \<noteq> LF"
  shows "parseURI ctx buf = Inl OutOfBounds \<or> (\<exists>ctx'. parseURI ctx buf = Inr (PARSE_URI_ERROR, ctx', buf))"
proof -
  let ?mem = "buffer buf" and ?b = "peek buf" and ?e = "peek buf + readableBytes buf"
  have "slice ?b ?e ?mem = (m @ CHR '' '' # t @ CHR '' '' # ver) @ CR # []"
    using slice_contents [OF inv] c by simp
  moreover have "CR \<notin> set (m @ CHR '' '' # t @ CHR '' '' # ver)"
    using method_names_clean [OF m] t ver by (auto simp: target_ok_def)
  ultimately have "std_find ?b ?e CR ?mem + 1 = ?e"
    using std_find_at [of ?b ?e ?mem _ CR "[]"] slice_decomp(3) [of ?b ?e ?mem _ "[CR]"]
      readable_in_vector [OF inv] by simp
  moreover have "?e = writerIndex buf" and "0 < readableBytes buf"
    using inv c length_contents [OF inv] by (simp_all add: buffer_defs)
  ultimately show ?thesis
    using stale by (auto simp: parseURI_def Let_def split: prod.splits)
qed

text \<open>Empty lines alone never leave the start state of the header machine.\<close>

lemma hdr_loop_blank:
  assumes "slice c e mem = xs" and "e \<le> length mem" and "set xs \<subseteq> {CR, LF}" and "c \<le> e"
  shows "hdr_loop mem e c p H_START rq = Inr (PARSE_HEADER_AGAIN, e, H_START, rq)"
  using assms
proof (induction xs arbitrary: c)
  case Nil
  then have "c = e" using slice_Cons [of c e mem] by (metis le_eq_less_or_eq list.distinct(1))
  then show ?case by (simp add: hdr_loop_end)
next
  case (Cons x xs)
  have c: "c < e" "mem ! c = x" "slice (Suc c) e mem = xs"
    using slice_ConsD [OF Cons.prems(1,2)] by simp_all
  then have "hdr_loop mem e c p H_START rq = hdr_loop mem e (Suc c) p H_START rq"
    using Cons.prems(3) by (intro hdr_loop_go) (auto simp: hdr_step_def)
  with Cons.IH [OF c(3) Cons.prems(2)] Cons.prems(3) c(1) show ?case by simp
qed

lemma parseRequest_blank:
  assumes "buf_inv b" and "set (contents b) \<subseteq> {CR, LF}"
    and "ctxState ctx = STATE_PARSE_HEADERS" and "hState ctx = H_START"
  shows "parseRequest T ctx b = Some (Inr (True, ctx, b))"
proof -
  let ?e = "peek b + readableBytes b"
  have "hdr_loop (buffer b) ?e (peek b) null_ptrs H_START (request ctx)
      = Inr (PARSE_HEADER_AGAIN, ?e, H_START, request ctx)"
    using hdr_loop_blank [OF slice_contents [OF assms(1)] readable_in_vector [OF assms(1)] assms(2)] by simp
  then have "parse_iter T ctx b = Inr (False, True, ctx, b)"
    using assms(3,4) by (simp add: parse_iter_def parseHeaders_def Let_def)
  then show ?thesis by (simp add: parseRequest.simps [of T ctx])
qed

lemma parseRequest_no_headers:
  assumes inv: "buf_inv buf" and line: "method_of_name m \<noteq> kInvalid" "target_ok t"
      "ver \<in> {''HTTP/1.0'', ''HTTP/1.1''}"
    and c: "contents buf = render_line m t ver @ CRLF"
  shows "\<exists>ctx' buf'. parseRequest T new_HttpContext buf = Some (Inr (True, ctx', buf'))
    \<and> ctxState ctx' = STATE_PARSE_HEADERS \<and> hState ctx' = H_START \<and> contents buf' = CRLF"
proof -
  from parseURI_line [OF inv line c, of new_HttpContext] obtain c1 b1 where
    u: "parse_iter T new_HttpContext buf = Inr (True, True, c1, b1)" "ctxState c1 = STATE_PARSE_HEADERS"
      "hState c1 = H_START" "buf_inv b1" "contents b1 = CRLF"
    by (auto simp: parse_iter_def new_HttpContext_def)
  have "parseRequest T c1 b1 = Some (Inr (True, c1, b1))"
    using u by (intro parseRequest_blank) auto
  then have "parseRequest T new_HttpContext buf = Some (Inr (True, c1, b1))"
    using u(1) by (simp add: parseRequest.simps [of T new_HttpContext])
  with u show ?thesis by blast
qed

section \<open>Properties of the parser\<close>

text \<open>C2. Round trip: a well-formed request that lies complete at the front of the input is parsed in one
  call, whatever follows it.  The context holds exactly the request's method, path, query, version,
  headers (the last value of a repeated name) and body, and the bytes that follow are left unread.\<close>

theorem parse_render_roundtrip:
  assumes "buf_inv buf" and "request_ok m t ver hs bd"
    and "contents buf = render_request m t ver hs bd @ rest"
  shows "\<exists>ctx' buf'. parseRequest T new_HttpContext buf = Some (Inr (True, ctx', buf'))
    \<and> gotAll ctx' \<and> request ctx' = request_of T m t ver hs bd \<and> contents buf' = rest"
  using parseRequest_whole [OF assms, of T] by (auto simp: gotAll_def head_ctx_def)

theorem parse_render_roundtrip_witness:
  "\<exists>ctx' buf'. parseRequest 7 new_HttpContext
        (received (render_request ''POST'' ''/a?b=1'' ''HTTP/1.1'' [(''Content-Length'', ''2'')] ''hi'' @ ''GET''))
      = Some (Inr (True, ctx', buf'))
    \<and> gotAll ctx' \<and> request ctx' = request_of 7 ''POST'' ''/a?b=1'' ''HTTP/1.1'' [(''Content-Length'', ''2'')] ''hi''
    \<and> contents buf' = ''GET''"
proof (rule parse_render_roundtrip)
  have "dec (Suc (Suc 0)) = ''2''" by code_simp
  then show "request_ok ''POST'' ''/a?b=1'' ''HTTP/1.1'' [(''Content-Length'', ''2'')] ''hi''"
    by (simp add: request_ok_def method_of_name_def target_ok_def hdr_ok_def trimmed_def isspace_def
        del: dec.simps)
qed simp_all

text \<open>C34. The driver loop returns from every state of the context except \<^verbatim>\<open>STATE_FINISH\<close>, in which
  its switch has no case and it spins for ever; so the caller has to reset the context after a
  finished request.\<close>

theorem parseRequest_returns_iff:
  "(\<exists>r. parseRequest T ctx buf = Some r) \<longleftrightarrow> ctxState ctx \<noteq> STATE_FINISH"
  using parseRequest_returns [of ctx T buf] parseRequest_finish_diverges [of ctx T buf] by fastforce

text \<open>C28. Memory safety: a call on a fresh context, with at least one spare byte behind the readable
  range, reads no byte outside the vector and follows no null pointer: it returns normally, having
  removed a prefix of the input, or ends with an exception of \<^verbatim>\<open>std::stoul\<close>.\<close>

theorem parseRequest_safe:
  assumes "buf_inv buf" and "0 < writableBytes buf"
  shows "\<exists>r. parseRequest T new_HttpContext buf = Some r \<and>
    (case r of Inl e \<Rightarrow> e \<in> {InvalidArgument, OutOfRange}
     | Inr (ok, ctx', buf') \<Rightarrow> buf_inv buf' \<and> (\<exists>k. contents buf' = drop k (contents buf)))"
proof -
  obtain r where r: "parseRequest T new_HttpContext buf = Some r"
    using parseRequest_returns [of new_HttpContext T buf] by (auto simp: new_HttpContext_def)
  have "fault_free_state new_HttpContext buf"
    using assms by (simp add: fault_free_state_def new_HttpContext_def)
  then show ?thesis
    using r parseRequest_faults [of T new_HttpContext buf] parseRequest_consumes [of T new_HttpContext buf] assms(1)
    by (cases r) (auto simp: consumes_def)
qed

theorem parseRequest_safe_witness:
  "\<exists>r. parseRequest 0 new_HttpContext (received ''GET / HTTP'') = Some r \<and>
    (case r of Inl e \<Rightarrow> e \<in> {InvalidArgument, OutOfRange}
     | Inr (ok, ctx', buf') \<Rightarrow> buf_inv buf' \<and> (\<exists>k. contents buf' = drop k ''GET / HTTP''))"
proof -
  have "0 < writableBytes (received ''GET / HTTP'')"
    by (simp add: received_def readFd_def buffer_defs new_Buffer_def kCheapPrepend_def kInitialSize_def Let_def)
  from parseRequest_safe [OF received_inv this, of 0] show ?thesis by (simp only: contents_received)
qed

text \<open>The contexts that later calls can reach, with whatever input they are given.\<close>

inductive later :: "HttpContext \<Rightarrow> HttpContext \<Rightarrow> bool" for ctx where
  now: "later ctx ctx"
| call: "later ctx c \<Longrightarrow> parseRequest T c b = Some (Inr (ok, c', b')) \<Longrightarrow> later ctx c'"

lemma later_mid_line:
  assumes "later ctx c" and "ctxState ctx = STATE_PARSE_HEADERS" and "hState ctx \<in> mid_line"
  shows "ctxState c = STATE_PARSE_HEADERS \<and> hState c \<in> mid_line"
  using assms by (induction rule: later.induct) (auto dest: parseRequest_mid_line)

text \<open>A request whose first segment ends inside a header name is lost: the first call reports success
  and asks for more, but the positions it had found are local variables, and no later call,
  whatever bytes it is given, completes the request.\<close>

lemma cut_header_never_completes:
  assumes "buf_inv buf" and "method_of_name m \<noteq> kInvalid" and "target_ok t"
    and "ver \<in> {''HTTP/1.0'', ''HTTP/1.1''}" and "\<forall>kv \<in> set hs. hdr_ok kv"
    and "part \<noteq> []" and "\<forall>y \<in> set part. y \<notin> {CHR '':'', CR, LF}"
    and "contents buf = render_line m t ver @ render_headers hs @ part"
  shows "\<exists>ctx' buf'. parseRequest T new_HttpContext buf = Some (Inr (True, ctx', buf')) \<and>
    (\<forall>c. later ctx' c \<longrightarrow> \<not> gotAll c)"
proof -
  from parseRequest_cut_in_key [OF assms, of T] obtain ctx' buf' where
    "parseRequest T new_HttpContext buf = Some (Inr (True, ctx', buf'))"
    "ctxState ctx' = STATE_PARSE_HEADERS" "hState ctx' \<in> mid_line" by (auto simp: mid_line_def)
  then show ?thesis using later_mid_line by (force simp: gotAll_def)
qed

text \<open>A request line whose carriage return is the last byte received so far is never taken as
  incomplete: with a spare byte in the vector that is not a left-over line feed the request is
  rejected, and with a full vector the byte after it is read out of bounds.\<close>

lemma cut_before_lf_rejected:
  assumes "buf_inv buf" and "method_of_name m \<noteq> kInvalid" and "target_ok t"
    and "ver \<in> {''HTTP/1.0'', ''HTTP/1.1''}"
    and "contents buf = m @ CHR '' '' # t @ CHR '' '' # ver @ [CR]"
    and "writerIndex buf < length (buffer buf) \<Longrightarrow> buffer buf ! writerIndex buf \<noteq> LF"
  shows "parseRequest T new_HttpContext buf = Some (Inl OutOfBounds) \<or>
    (\<exists>ctx'. parseRequest T new_HttpContext buf = Some (Inr (False, ctx', buf)))"
  using parseURI_cut_before_lf [OF assms, of new_HttpContext]
  by (subst (1 2) parseRequest.simps) (auto simp: parse_iter_def new_HttpContext_def)

text \<open>A request without any header is never completed: the empty line that ends it is skipped as if
  it preceded the first header, so the parser keeps waiting with the empty line unread, and so does
  every later call that is given more empty lines.\<close>

lemma no_headers_never_completes:
  assumes "buf_inv buf" and "method_of_name m \<noteq> kInvalid" and "target_ok t"
    and "ver \<in> {''HTTP/1.0'', ''HTTP/1.1''}"
    and "contents buf = render_line m t ver @ CRLF"
  shows "\<exists>ctx' buf'. parseRequest T new_HttpContext buf = Some (Inr (True, ctx', buf')) \<and>
    contents buf' = CRLF \<and> \<not> gotAll ctx' \<and>
    (\<forall>b. buf_inv b \<and> set (contents b) \<subseteq> {CR, LF} \<longrightarrow> parseRequest T ctx' b = Some (Inr (True, ctx', b)))"
proof -
  from parseRequest_no_headers [OF assms, of T] obtain ctx' buf' where
    r: "parseRequest T new_HttpContext buf = Some (Inr (True, ctx', buf'))"
      "ctxState ctx' = STATE_PARSE_HEADERS" "hState ctx' = H_START" "contents buf' = CRLF" by blast
  have "parseRequest T ctx' b = Some (Inr (True, ctx', b))"
    if "buf_inv b" "set (contents b) \<subseteq> {CR, LF}" for b
    using parseRequest_blank [OF that r(2,3)] .
  with r show ?thesis by (auto simp: gotAll_def)
qed

text \<open>The \<^verbatim>\<open>Content-Length\<close> of a POST request goes to \<^verbatim>\<open>std::stoul\<close> unchecked: a value it does not
  accept ends the call with the exception, which nothing in the library catches.\<close>

lemma bad_content_length_throws:
  assumes "buf_inv buf" and "target_ok t" and "ver \<in> {''HTTP/1.0'', ''HTTP/1.1''}"
    and "hs \<noteq> []" and "\<forall>kv \<in> set hs. hdr_ok kv"
    and "contents buf = render_line ''POST'' t ver @ render_headers hs @ CRLF @ rest"
    and "map_of (rev hs) ''Content-Length'' = Some v" and "stoul v = Inl e"
  shows "parseRequest T new_HttpContext buf = Some (Inl e)"
  by (rule parseRequest_bad_length [OF assms])

end
