(* ===== verification/Http_Response.thy ===== *)
theory Http_Response
  imports Net_Buffer "HOL-Library.Char_ord" "HOL-Library.List_Lexorder"
begin

text \<open>
  The response object and its serialisation (\<^verbatim>\<open>http/HttpResponse.h\<close>, \<^verbatim>\<open>http/HttpResponce.cpp\<close>) and
  the table of media types (\<^verbatim>\<open>http/HttpData.cpp\<close>).  The header map is a \<^verbatim>\<open>std::map\<close>, which is
  iterated in the order of its keys: an association list kept sorted.  The lemmas give the bytes
  \<open>appendToBuffer\<close> produces, and that a client which reads lines up to the empty line and then
  \<^verbatim>\<open>Content-Length\<close> bytes recovers the response.
\<close>

section \<open>Ordered maps\<close>

text \<open>\<open>m[k] = v\<close> on a \<^verbatim>\<open>std::map\<close>.\<close>

fun map_put :: "'k::linorder \<Rightarrow> 'v \<Rightarrow> ('k \<times> 'v) list \<Rightarrow> ('k \<times> 'v) list" where
  "map_put k v [] = [(k, v)]"
| "map_put k v ((k', v') # m) =
     (if k < k' then (k, v) # (k', v') # m
      else if k = k' then (k, v) # m
      else (k', v') # map_put k v m)"

definition ordered :: "('k::linorder \<times> 'v) list \<Rightarrow> bool" where
  "ordered m \<longleftrightarrow> sorted_wrt (<) (map fst m)"

lemma fst_map_put: "set (map fst (map_put k v m)) = insert k (set (map fst m))"
  by (induction m rule: map_put.induct) auto

lemma ordered_map_put: "ordered m \<Longrightarrow> ordered (map_put k v m)"
proof (induction k v m rule: map_put.induct)
  case (2 k v k' v' m)
  then have "\<forall>x \<in> set (map fst m). k' < x" by (simp add: ordered_def)
  then show ?case
    using 2 fst_map_put [of k v m] by (auto simp: ordered_def)
qed (simp add: ordered_def)

lemma map_of_map_put: "ordered m \<Longrightarrow> map_of (map_put k v m) = (map_of m)(k \<mapsto> v)"
  by (induction k v m rule: map_put.induct) (auto simp: ordered_def fun_eq_iff)

lemma set_map_put: "set (map_put k v m) \<subseteq> insert (k, v) (set m)"
  by (induction k v m rule: map_put.induct) auto

section \<open>The response\<close>

type_synonym HttpStatusCode = int

definition kUnknownStatus :: HttpStatusCode where "kUnknownStatus = 0"
definition k200Ok :: HttpStatusCode where "k200Ok = 200"
definition k301MovedPermanently :: HttpStatusCode where "k301MovedPermanently = 301"
definition k400BadRequest :: HttpStatusCode where "k400BadRequest = 400"
definition k404NotFound :: HttpStatusCode where "k404NotFound = 404"
definition k500InternalServerError :: HttpStatusCode where "k500InternalServerError = 500"

record HttpResponse =
  respHeaders :: "(string \<times> string) list"
  statusCode :: HttpStatusCode
  statusMessage :: string
  closeConnection :: bool
  respBody :: string

definition new_HttpResponse :: "bool \<Rightarrow> HttpResponse" where
  "new_HttpResponse close =
     \<lparr>respHeaders = [], statusCode = kUnknownStatus, statusMessage = [], closeConnection = close,
      respBody = []\<rparr>"

definition setStatusCode :: "HttpStatusCode \<Rightarrow> HttpResponse \<Rightarrow> HttpResponse" where
  "setStatusCode code r = r\<lparr>statusCode := code\<rparr>"

definition setStatusMessage :: "string \<Rightarrow> HttpResponse \<Rightarrow> HttpResponse" where
  "setStatusMessage message r = r\<lparr>statusMessage := message\<rparr>"

definition setCloseConnection :: "bool \<Rightarrow> HttpResponse \<Rightarrow> HttpResponse" where
  "setCloseConnection on r = r\<lparr>closeConnection := on\<rparr>"

definition addResponseHeader :: "string \<Rightarrow> string \<Rightarrow> HttpResponse \<Rightarrow> HttpResponse" where
  "addResponseHeader key value r = r\<lparr>respHeaders := map_put key value (respHeaders r)\<rparr>"

definition setContentType :: "string \<Rightarrow> HttpResponse \<Rightarrow> HttpResponse" where
  "setContentType contentType r = addResponseHeader ''Content-Type'' contentType r"

definition setResponseBody :: "string \<Rightarrow> HttpResponse \<Rightarrow> HttpResponse" where
  "setResponseBody b r = r\<lparr>respBody := b\<rparr>"

lemmas response_setters = setStatusCode_def setStatusMessage_def setCloseConnection_def
  addResponseHeader_def setContentType_def setResponseBody_def

section \<open>Serialisation\<close>

text \<open>
  \<^verbatim>\<open>snprintf(buf, sizeof(buf), ...)\<close> keeps at most one character less than the buffer holds;
  \<^verbatim>\<open>%d\<close> prints an integer with its sign.
\<close>

definition snprintf :: "nat \<Rightarrow> string \<Rightarrow> string" where
  "snprintf n s = take (n - 1) s"

definition format_int :: "int \<Rightarrow> string" where
  "format_int i = (if i < 0 then CHR ''-'' # dec (nat (- i)) else dec (nat i))"

definition appendToBuffer :: "HttpResponse \<Rightarrow> Buffer \<Rightarrow> Buffer" where
  "appendToBuffer r output =
     (let b1 = append_buf (snprintf 32 (''HTTP/1.1 '' @ format_int (statusCode r) @ '' '')) output;
          b2 = append_buf (statusMessage r) b1;
          b3 = append_buf CRLF b2;
          b4 = (if closeConnection r then append_buf (''Connection: close'' @ CRLF) b3
                else append_buf (''Connection: Keep-Alive'' @ CRLF)
                  (append_buf (snprintf 32 (''Content-Length: '' @ dec (length (respBody r)) @ CRLF)) b3));
          b5 = fold (\<lambda>(k, v) b. append_buf CRLF (append_buf v (append_buf '': '' (append_buf k b))))
                 (respHeaders r) b4;
          b6 = append_buf CRLF b5
      in append_buf (respBody r) b6)"

section \<open>Media types\<close>

definition mime :: "string \<rightharpoonup> string" where
  "mime = map_of
     [(''.html'', ''text/html''), (''.avi'', ''video/x-msvideo''), (''.bmp'', ''image/bmp''),
      (''.c'', ''text/plain''), (''.doc'', ''application/msword''), (''.gif'', ''image/gif''),
      (''.gz'', ''application/x-gzip''), (''.htm'', ''text/html''), (''.ico'', ''image/x-icon''),
      (''.jpg'', ''image/jpeg''), (''.png'', ''image/png''), (''.txt'', ''text/plain''),
      (''.mp3'', ''audio/mpeg''), (''default'', ''text/html'')]"

definition getMime :: "string \<Rightarrow> string" where
  "getMime suffix =
     (case mime suffix of None \<Rightarrow> (case mime ''default'' of Some v \<Rightarrow> v | None \<Rightarrow> []) | Some v \<Rightarrow> v)"

section \<open>The bytes of a response\<close>

definition header_line :: "string \<times> string \<Rightarrow> string" where
  "header_line kv = fst kv @ '': '' @ snd kv"

definition response_lines :: "HttpResponse \<Rightarrow> string list" where
  "response_lines r =
     (''HTTP/1.1 '' @ format_int (statusCode r) @ '' '' @ statusMessage r) #
     (if closeConnection r then [''Connection: close'']
      else [''Content-Length: '' @ dec (length (respBody r)), ''Connection: Keep-Alive'']) @
     map header_line (respHeaders r)"

definition render_lines :: "string list \<Rightarrow> string" where
  "render_lines ls = concat (map (\<lambda>l. l @ CRLF) ls)"

definition render_response :: "HttpResponse \<Rightarrow> string" where
  "render_response r = render_lines (response_lines r) @ CRLF @ respBody r"

text \<open>The sizes for which neither \<^verbatim>\<open>snprintf\<close> truncates.\<close>

definition response_fits :: "HttpResponse \<Rightarrow> bool" where
  "response_fits r \<longleftrightarrow> \<bar>statusCode r\<bar> < 10 ^ 10 \<and> length (respBody r) < 10 ^ 13"

lemma length_format_int: "\<bar>i\<bar> < 10 ^ 10 \<Longrightarrow> length (format_int i) \<le> 11"
proof -
  assume "\<bar>i\<bar> < 10 ^ 10"
  then have "nat (- i) < 10 ^ 10" "nat i < 10 ^ 10" by simp_all
  then have "length (dec (nat (- i))) \<le> 10" "length (dec (nat i)) \<le> 10"
    by (simp_all add: length_dec_le)
  then show ?thesis by (simp add: format_int_def)
qed

lemma snprintf_fits: "length s < n \<Longrightarrow> snprintf n s = s"
  by (simp add: snprintf_def)

lemma append_header_lines:
  "buf_inv b \<Longrightarrow>
   buf_inv (fold (\<lambda>(k, v) b. append_buf CRLF (append_buf v (append_buf '': '' (append_buf k b)))) hs b) \<and>
   contents (fold (\<lambda>(k, v) b. append_buf CRLF (append_buf v (append_buf '': '' (append_buf k b)))) hs b)
     = contents b @ render_lines (map header_line hs)"
proof (induction hs arbitrary: b)
  case (Cons kv hs)
  obtain k v where kv: "kv = (k, v)" by (cases kv)
  let ?b = "append_buf CRLF (append_buf v (append_buf '': '' (append_buf k b)))"
  have "buf_inv ?b" "contents ?b = contents b @ header_line kv @ CRLF"
    using Cons.prems by (simp_all add: kv header_line_def buf_queue.inv_put buf_queue.bytes_put)
  with Cons.IH [of ?b] show ?case by (simp add: kv render_lines_def)
qed (simp add: render_lines_def)

lemma appendToBuffer_bytes:
  assumes "buf_inv b" and "response_fits r"
  shows "buf_inv (appendToBuffer r b) \<and> contents (appendToBuffer r b) = contents b @ render_response r"
proof -
  have "length (''HTTP/1.1 '' @ format_int (statusCode r) @ '' '') < 32"
    using assms(2) length_format_int [of "statusCode r"] by (simp add: response_fits_def)
  moreover have "length (''Content-Length: '' @ dec (length (respBody r)) @ CRLF) < 32"
    using assms(2) length_dec_le [of "length (respBody r)" 13] by (simp add: response_fits_def)
  ultimately show ?thesis
    using assms(1)
    by (simp add: appendToBuffer_def Let_def snprintf_fits append_header_lines buf_queue.inv_put
        buf_queue.bytes_put render_response_def response_lines_def render_lines_def)
qed

lemma appendToBuffer_inv: "buf_inv b \<Longrightarrow> buf_inv (appendToBuffer r b)"
  by (simp add: appendToBuffer_def Let_def append_header_lines buf_queue.inv_put)

section \<open>A client that reads the response\<close>

fun split_crlf :: "string \<Rightarrow> (string \<times> string) option" where
  "split_crlf [] = None"
| "split_crlf (c # s) =
     (if c = CR \<and> s \<noteq> [] \<and> hd s = LF then Some ([], tl s)
      else map_option (apfst (Cons c)) (split_crlf s))"

lemma split_crlf_shorter: "split_crlf s = Some (l, r) \<Longrightarrow> length r < length s"
  by (induction s arbitrary: l) (auto split: if_splits)

lemma split_crlf_line: "CR \<notin> set l \<Longrightarrow> split_crlf (l @ CR # LF # r) = Some (l, r)"
  by (induction l) auto

function read_lines :: "string \<Rightarrow> (string list \<times> string) option" where
  "read_lines s =
     (case split_crlf s of None \<Rightarrow> None
      | Some (l, r) \<Rightarrow> if l = [] then Some ([], r) else map_option (apfst (Cons l)) (read_lines r))"
  by pat_completeness auto
termination
  by (relation "measure length") (auto dest: split_crlf_shorter)

declare read_lines.simps [simp del]

lemma read_lines_render:
  "\<forall>l \<in> set ls. l \<noteq> [] \<and> CR \<notin> set l \<Longrightarrow> read_lines (render_lines ls @ CR # LF # r) = Some (ls, r)"
proof (induction ls)
  case Nil
  then show ?case by (subst read_lines.simps) (simp add: render_lines_def)
next
  case (Cons l ls)
  then have "split_crlf (render_lines (l # ls) @ CR # LF # r) = Some (l, render_lines ls @ CR # LF # r)"
    by (simp add: render_lines_def split_crlf_line)
  with Cons show ?case by (subst read_lines.simps) simp
qed

text \<open>
  The client takes \<^verbatim>\<open>Content-Length\<close> bytes of body when the head has that field, and everything
  up to the end of the stream otherwise.
\<close>

definition client_read :: "string \<Rightarrow> (string list \<times> string \<times> string) option" where
  "client_read s =
     (case read_lines s of None \<Rightarrow> None
      | Some (ls, rest) \<Rightarrow>
          (case find (\<lambda>l. take 16 l = ''Content-Length: '') ls of
             None \<Rightarrow> Some (ls, rest, [])
           | Some l \<Rightarrow> let n = dec_val (drop 16 l) in
               if n \<le> length rest then Some (ls, take n rest, drop n rest) else None))"

definition clean_response :: "HttpResponse \<Rightarrow> bool" where
  "clean_response r \<longleftrightarrow> CR \<notin> set (statusMessage r) \<and>
     (\<forall>kv \<in> set (respHeaders r). CR \<notin> set (fst kv) \<and> CR \<notin> set (snd kv) \<and>
        take 16 (header_line kv) \<noteq> ''Content-Length: '')"

lemma CR_not_digit: "CR \<notin> set (dec n)"
  using dec_digits [of n] by (auto simp: is_digit_def)

lemma response_lines_clean:
  "clean_response r \<Longrightarrow> \<forall>l \<in> set (response_lines r). l \<noteq> [] \<and> CR \<notin> set l"
  by (auto simp: clean_response_def response_lines_def format_int_def CR_not_digit header_line_def)

lemma find_no_length:
  "\<forall>kv \<in> set hs. take 16 (header_line kv) \<noteq> ''Content-Length: '' \<Longrightarrow>
   find (\<lambda>l. take 16 l = ''Content-Length: '') (map header_line hs) = None"
  by (induction hs) auto

lemma client_read_response:
  assumes "clean_response r"
  shows "client_read (render_response r @ rest) =
    Some (if closeConnection r then (response_lines r, respBody r @ rest, [])
          else (response_lines r, respBody r, rest))"
proof -
  have rd: "read_lines (render_response r @ rest) = Some (response_lines r, respBody r @ rest)"
    using read_lines_render [OF response_lines_clean [OF assms]] by (simp add: render_response_def)
  have "find (\<lambda>l. take 16 l = ''Content-Length: '') (map header_line (respHeaders r)) = None"
    using assms by (intro find_no_length) (simp add: clean_response_def)
  then have "find (\<lambda>l. take 16 l = ''Content-Length: '') (response_lines r) =
      (if closeConnection r then None else Some (''Content-Length: '' @ dec (length (respBody r))))"
    by (simp add: response_lines_def)
  with rd show ?thesis by (simp add: client_read_def Let_def)
qed

section \<open>Properties\<close>

text \<open>C37. Serialisation round trip: for a response whose fields contain no carriage return and whose
  body is shorter than \<open>10 ^ 13\<close> bytes, \<open>appendToBuffer\<close> appends bytes from which a client recovers
  the status line, the headers in key order and the body.  On a kept-alive connection the
  \<^verbatim>\<open>Content-Length\<close> delimits the body exactly, so that the bytes of a following response are left
  over; without it the body runs to the end of the stream.\<close>

theorem response_roundtrip:
  assumes "buf_inv b" and "contents b = []" and "response_fits r" and "clean_response r"
  shows "client_read (contents (appendToBuffer r b) @ rest) =
    Some (if closeConnection r then (response_lines r, respBody r @ rest, [])
          else (response_lines r, respBody r, rest))"
  using appendToBuffer_bytes [OF assms(1,3)] client_read_response [OF assms(4), of rest] assms(2) by simp

theorem response_roundtrip_witness:
  "client_read (contents (appendToBuffer
      (setResponseBody ''hi'' (setContentType ''text/plain'' (setStatusCode k200Ok (new_HttpResponse False))))
      (new_Buffer kInitialSize)) @ ''next'') =
    Some ([''HTTP/1.1 200 '', ''Content-Length: 2'', ''Connection: Keep-Alive'', ''Content-Type: text/plain''],
      ''hi'', ''next'')"
proof -
  let ?r = "setResponseBody ''hi'' (setContentType ''text/plain'' (setStatusCode k200Ok (new_HttpResponse False)))"
  have "response_fits ?r"
    by (simp add: response_fits_def response_setters new_HttpResponse_def k200Ok_def)
  moreover have "clean_response ?r"
    by (simp add: clean_response_def response_setters new_HttpResponse_def header_line_def)
  moreover have "response_lines ?r =
      [''HTTP/1.1 200 '', ''Content-Length: 2'', ''Connection: Keep-Alive'', ''Content-Type: text/plain'']"
    by code_simp
  ultimately show ?thesis
    using response_roundtrip [where b = "new_Buffer kInitialSize" and r = ?r and rest = "''next''",
        OF new_Buffer_inv contents_new_Buffer]
    by (simp add: response_setters new_HttpResponse_def)
qed

text \<open>The header map of a response is always sorted by name with one value per name, the one set
  last, in whatever order the handler sets the headers.\<close>

lemma response_headers_last:
  "ordered (respHeaders (fold (\<lambda>(k, v). addResponseHeader k v) kvs (new_HttpResponse c))) \<and>
   map_of (respHeaders (fold (\<lambda>(k, v). addResponseHeader k v) kvs (new_HttpResponse c))) = map_of (rev kvs)"
proof (induction kvs rule: rev_induct)
  case Nil
  then show ?case by (simp add: new_HttpResponse_def ordered_def)
next
  case (snoc kv kvs)
  then show ?case
    by (cases kv) (simp add: addResponseHeader_def ordered_map_put map_of_map_put)
qed

end
