(* ===== verification/Http_Server.thy ===== *)
theory Http_Server
  imports Http_Context Http_Response Tcp_Connection
begin

text \<open>
  The HTTP server (\<^verbatim>\<open>http/HttpServer.h\<close>, \<^verbatim>\<open>http/HttpServer.cpp\<close>) and the application callback of
  \<^verbatim>\<open>http/main.cpp\<close>.  What the handlers do to the connection is a list of actions; the file system and
  the callback are parameters (\<open>http_env\<close>).  \<open>onMessage\<close> is a partial function because it calls the
  parser, which may not return.  The lemmas show that it returns on every context it can meet, that
  pipelined requests are answered one after the other, and which files a request can reach; the
  actions are then run on the connection of \<open>Tcp_Connection\<close>.
\<close>

section \<open>Actions and environment\<close>

datatype action =
    Send string
  | SendBuffer Buffer
  | Shutdown
  | AsyncRead string nat bool string

record http_env =
  webRoot :: string
  httpCallback :: "(HttpRequest \<Rightarrow> HttpResponse \<Rightarrow> HttpResponse) option"
  stat :: "string \<Rightarrow> (bool \<times> nat) option"
  has_uring :: bool
  registerFile :: "string \<Rightarrow> bool"

definition c_str :: "string \<Rightarrow> string" where
  "c_str s = takeWhile (\<lambda>c. c \<noteq> CHR 0x00) s"

fun find_dotdot :: "string \<Rightarrow> bool" where
  "find_dotdot (a # b # s) \<longleftrightarrow> a = CHR ''.'' \<and> b = CHR ''.'' \<or> find_dotdot (b # s)"
| "find_dotdot _ \<longleftrightarrow> False"

definition suffix_of :: "string \<Rightarrow> string" where
  "suffix_of p =
     (if CHR ''.'' \<in> set p then CHR ''.'' # rev (takeWhile (\<lambda>c. c \<noteq> CHR ''.'') (rev p)) else [])"

section \<open>Requests\<close>

definition should_close :: "HttpRequest \<Rightarrow> bool" where
  "should_close req =
     (let connection = getHeader ''Connection'' req
      in connection = ''close'' \<or> (version req = kHttp10 \<and> connection \<noteq> ''Keep-Alive''))"

definition handleServerError :: "HttpResponse \<Rightarrow> int \<Rightarrow> string \<Rightarrow> action list" where
  "handleServerError response code msg =
     (let r1 = setStatusCode code response;
          r2 = setStatusMessage msg r1;
          r3 = setResponseBody (''<html><body><h1>'' @ format_int code @ '' '' @ msg @ ''</h1></body></html>'') r2;
          r4 = setCloseConnection True r3
      in [SendBuffer (appendToBuffer r4 (new_Buffer kInitialSize)), Shutdown])"

definition handleStaticFile :: "http_env \<Rightarrow> HttpRequest \<Rightarrow> HttpResponse \<Rightarrow> action list" where
  "handleStaticFile env req response =
     (let p = (if path req = ''/'' then ''/index.html'' else path req)
      in if find_dotdot p then handleServerError response 403 ''Forbidden'' else
      let filepath = webRoot env @ p
      in case stat env (c_str filepath) of
           None \<Rightarrow> handleServerError response 404 ''Not Found''
         | Some (isdir, st_size) \<Rightarrow>
             if isdir then handleServerError response 404 ''Not Found (Is Directory)'' else
             let shouldClose = should_close req;
                 contentType = getMime (suffix_of p)
             in if \<not> has_uring env then []
                else if \<not> registerFile env filepath then handleServerError response 404 ''Open Failed''
                else [AsyncRead filepath st_size shouldClose contentType])"

text \<open>The completion of the asynchronous read: its result and the bytes it stored.\<close>

definition file_read_callback :: "bool \<Rightarrow> string \<Rightarrow> int \<Rightarrow> string \<Rightarrow> action list" where
  "file_read_callback shouldClose contentType res readBuffer =
     (if res < 0 then [Shutdown] else
      let r1 = setStatusCode k200Ok (new_HttpResponse shouldClose);
          r2 = setStatusMessage ''OK'' r1;
          r3 = setContentType contentType r2;
          r4 = addResponseHeader ''Server'' ''muduoX-io_uring'' r3;
          r5 = setResponseBody (take (nat res) readBuffer) r4;
          outputBuf = appendToBuffer r5 (new_Buffer kInitialSize)
      in (case retrieveAllAsString outputBuf of
            Inr (sendData, _) \<Rightarrow> [Send sendData] @ (if shouldClose then [Shutdown] else [])
          | Inl _ \<Rightarrow> []))"

definition onRequest :: "http_env \<Rightarrow> HttpRequest \<Rightarrow> action list" where
  "onRequest env req =
     (let close = should_close req;
          response = (case httpCallback env of None \<Rightarrow> new_HttpResponse close
                      | Some cb \<Rightarrow> cb req (new_HttpResponse close))
      in if statusCode response \<noteq> kUnknownStatus
         then SendBuffer (appendToBuffer response (new_Buffer kInitialSize)) #
              (if closeConnection response then [Shutdown] else [])
         else handleStaticFile env req response)"

text \<open>The application callback of the example server.\<close>

definition onHttpRequest :: "HttpRequest \<Rightarrow> HttpResponse \<Rightarrow> HttpResponse" where
  "onHttpRequest req resp =
     (if path req = ''/api/hello''
      then setResponseBody (''{'' @ [CHR 0x22] @ ''message'' @ [CHR 0x22] @ '': '' @ [CHR 0x22] @
             ''Hello from muduoX io_uring server!'' @ [CHR 0x22] @ '', '' @ [CHR 0x22] @ ''status'' @
             [CHR 0x22] @ '': 1}'')
             (setContentType ''application/json'' (setStatusMessage ''OK'' (setStatusCode k200Ok resp)))
      else if path req = ''/api/version''
      then setResponseBody ''muduoX v1.0.0 with io_uring''
             (setContentType ''text/plain'' (setStatusMessage ''OK'' (setStatusCode k200Ok resp)))
      else resp)"

section \<open>Connections and messages\<close>

definition onConnection :: "bool \<Rightarrow> HttpContext option \<Rightarrow> HttpContext option" where
  "onConnection connected ctx = (if connected then Some new_HttpContext else ctx)"

definition bad_request :: string where
  "bad_request = ''HTTP/1.1 400 Bad Request'' @ CRLF @ CRLF"

text \<open>The actions up to the end of the loop, or up to the fault that ends it.\<close>

partial_function (option) onMessage ::
    "http_env \<Rightarrow> Timestamp \<Rightarrow> HttpContext \<Rightarrow> Buffer \<Rightarrow> (action list \<times> (HttpContext \<times> Buffer) result) option" where
  "onMessage env T ctx buf =
     (if readableBytes buf = 0 then Some ([], Inr (ctx, buf)) else
      Option.bind (parseRequest T ctx buf) (\<lambda>r.
        case r of
          Inl e \<Rightarrow> Some ([], Inl e)
        | Inr (ok, ctx', buf') \<Rightarrow>
            let failed = (if ok then [] else [Send bad_request, Shutdown])
            in if gotAll ctx'
               then Option.bind (onMessage env T (reset_context ctx') buf') (\<lambda>(acts, res).
                      Some (failed @ onRequest env (request ctx') @ acts, res))
               else Some (failed, Inr (ctx', buf'))))"

declare onMessage.simps [code]

section \<open>The loop returns\<close>

lemma reset_context_fresh [simp]: "reset_context ctx = new_HttpContext"
  by (cases ctx) (simp add: reset_context_def new_HttpContext_def swap_request_def)

lemma parseURI_success_shorter:
  assumes "buf_inv buf" and "parseURI ctx buf = Inr (PARSE_URI_SUCCESS, c, b)"
  shows "length (contents b) < length (contents buf)"
proof -
  let ?cr = "std_find (peek buf) (peek buf + readableBytes buf) CR (buffer buf)"
  have "0 < readableBytes buf" and b: "b = retrieveUntil (?cr + 2) buf"
    using assms(2) by (auto simp: parseURI_def Let_def split: if_splits prod.splits)
  moreover have "peek buf \<le> ?cr" by (rule std_find_ge)
  ultimately have "contents b = drop (?cr + 2 - peek buf) (contents buf)"
    using contents_retrieveUntil [OF assms(1)] by simp
  then show ?thesis
    using \<open>peek buf \<le> ?cr\<close> \<open>0 < readableBytes buf\<close> length_contents [OF assms(1)] by simp
qed

lemma parseRequest_fresh_shorter:
  assumes inv: "buf_inv buf" and p: "parseRequest T new_HttpContext buf = Some (Inr (ok, ctx', buf'))"
    and got: "gotAll ctx'"
  shows "length (contents buf') < length (contents buf)" and "buf_inv buf'"
proof -
  have st: "ctxState new_HttpContext = STATE_PARSE_URI" by (simp add: new_HttpContext_def)
  obtain hm ok1 c b where it: "parse_iter T new_HttpContext buf = Inr (hm, ok1, c, b)"
    using p by (cases "parse_iter T new_HttpContext buf") (auto simp: parseRequest.simps [of T new_HttpContext])
  obtain flag c1 where u: "parseURI new_HttpContext buf = Inr (flag, c1, b)" "hm \<longleftrightarrow> flag = PARSE_URI_SUCCESS"
      "\<not> hm \<Longrightarrow> c = c1"
    by (rule parse_iter_uriE [OF st it]) auto
  have hm: "hm"
  proof (rule ccontr)
    assume n: "\<not> hm"
    then have "ctx' = c1" using p it u by (simp add: parseRequest.simps [of T new_HttpContext])
    with got parseURI_ctxState [OF u(1)] st show False by (simp add: gotAll_def)
  qed
  then have "parseRequest T c b = Some (Inr (ok, ctx', buf'))"
    using p it by (simp add: parseRequest.simps [of T new_HttpContext])
  moreover have "buf_inv b"
    using parse_iter_consumes [OF inv it] by (simp add: consumes_def)
  ultimately have "consumes b buf'" using parseRequest_consumes by blast
  then show "buf_inv buf'" by (simp add: consumes_def)
  have "length (contents b) < length (contents buf)"
    using parseURI_success_shorter [OF inv] u(1,2) hm by simp
  moreover have "length (contents buf') \<le> length (contents b)"
    using \<open>consumes b buf'\<close> by (auto simp: consumes_def simp del: length_contents)
  ultimately show "length (contents buf') < length (contents buf)" by simp
qed

lemma onMessage_returns_fresh:
  assumes "buf_inv buf"
  shows "\<exists>r. onMessage env T new_HttpContext buf = Some r"
  using assms
proof (induction "length (contents buf)" arbitrary: buf rule: less_induct)
  case less
  obtain r where r: "parseRequest T new_HttpContext buf = Some r"
    using parseRequest_returns [of new_HttpContext T buf] by (auto simp: new_HttpContext_def)
  show ?case
  proof (cases r)
    case (Inl e)
    then show ?thesis using r by (subst onMessage.simps) simp
  next
    case (Inr x)
    obtain ok ctx' buf' where x: "x = (ok, ctx', buf')" by (cases x)
    show ?thesis
    proof (cases "gotAll ctx'")
      case True
      then have "\<exists>r. onMessage env T new_HttpContext buf' = Some r"
        using less.hyps less.prems parseRequest_fresh_shorter [of buf T ok ctx' buf'] r Inr x by blast
      then show ?thesis using r Inr x True by (subst onMessage.simps) auto
    next
      case False
      then show ?thesis using r Inr x by (subst onMessage.simps) simp
    qed
  qed
qed

lemma onMessage_returns:
  assumes "buf_inv buf" and "ctxState ctx \<noteq> STATE_FINISH"
  shows "\<exists>r. onMessage env T ctx buf = Some r"
proof -
  obtain r where r: "parseRequest T ctx buf = Some r" using parseRequest_returns [OF assms(2)] by blast
  show ?thesis
  proof (cases r)
    case (Inl e)
    then show ?thesis using r by (subst onMessage.simps) simp
  next
    case (Inr x)
    obtain ok ctx' buf' where x: "x = (ok, ctx', buf')" by (cases x)
    have "buf_inv buf'" using parseRequest_consumes r Inr x assms(1) by (fastforce simp: consumes_def)
    from onMessage_returns_fresh [OF this, of env T] obtain acts res where
      "onMessage env T new_HttpContext buf' = Some (acts, res)" by auto
    then show ?thesis using r Inr x by (subst onMessage.simps) (simp add: Let_def)
  qed
qed

text \<open>An induction rule for the calls that return, along the iterations of the loop.\<close>

lemma onMessage_induct [consumes 1, case_names empty fault wait request]:
  assumes "onMessage env T ctx buf = Some r"
    and empty: "\<And>ctx buf. readableBytes buf = 0 \<Longrightarrow> P ctx buf ([], Inr (ctx, buf))"
    and fault: "\<And>ctx buf e. parseRequest T ctx buf = Some (Inl e) \<Longrightarrow> P ctx buf ([], Inl e)"
    and wait: "\<And>ctx buf ok c b. parseRequest T ctx buf = Some (Inr (ok, c, b)) \<Longrightarrow> \<not> gotAll c \<Longrightarrow>
      P ctx buf (if ok then [] else [Send bad_request, Shutdown], Inr (c, b))"
    and request: "\<And>ctx buf ok c b acts res. parseRequest T ctx buf = Some (Inr (ok, c, b)) \<Longrightarrow> gotAll c \<Longrightarrow>
      P new_HttpContext b (acts, res) \<Longrightarrow>
      P ctx buf ((if ok then [] else [Send bad_request, Shutdown]) @ onRequest env (request c) @ acts, res)"
  shows "P ctx buf r"
proof -
  have "env = env \<longrightarrow> T = T \<longrightarrow> P ctx buf r"
  proof (rule onMessage.raw_induct [where P = "\<lambda>env' T' ctx buf r. env' = env \<longrightarrow> T' = T \<longrightarrow> P ctx buf r",
        OF _ assms(1)], intro impI)
    fix f env' T' ctx buf r
    assume IH: "\<And>env' T' ctx buf r. f env' T' ctx buf = Some r \<Longrightarrow> env' = env \<longrightarrow> T' = T \<longrightarrow> P ctx buf r"
      and eq: "(if readableBytes buf = 0 then Some ([], Inr (ctx, buf)) else
        Option.bind (parseRequest T' ctx buf) (\<lambda>r. case r of Inl e \<Rightarrow> Some ([], Inl e)
          | Inr (ok, ctx', buf') \<Rightarrow> let failed = (if ok then [] else [Send bad_request, Shutdown])
            in if gotAll ctx' then Option.bind (f env' T' (reset_context ctx') buf') (\<lambda>(acts, res).
                 Some (failed @ onRequest env' (HttpContext.request ctx') @ acts, res))
               else Some (failed, Inr (ctx', buf')))) = Some r"
      and same: "env' = env" "T' = T"
    consider "readableBytes buf = 0" | e where "parseRequest T ctx buf = Some (Inl e)" "readableBytes buf \<noteq> 0"
      | ok c b where "parseRequest T ctx buf = Some (Inr (ok, c, b))" "readableBytes buf \<noteq> 0"
      using eq same by (cases "parseRequest T ctx buf") (auto split: sum.splits if_splits)
    then show "P ctx buf r"
    proof cases
      case 3
      then show ?thesis
        using eq same wait [OF 3(1)] request [OF 3(1)] IH
        by (cases "gotAll c") (auto simp: Let_def bind_eq_Some_conv)
    qed (use eq same empty fault in auto)
  qed
  then show ?thesis by simp
qed

text \<open>The context and the buffer a returning call leaves are ones the next call can be made on.\<close>

lemma onMessage_leaves:
  assumes "onMessage env T ctx buf = Some r" and "buf_inv buf" and "ctxState ctx \<noteq> STATE_FINISH"
    and "r = (acts, Inr (ctx', buf'))"
  shows "ctxState ctx' \<noteq> STATE_FINISH \<and> consumes buf buf'"
  using assms
proof (induction arbitrary: acts ctx' buf' rule: onMessage_induct)
  case (empty ctx buf)
  then show ?case by (simp add: consumes_refl)
next
  case (wait ctx buf ok c b)
  then show ?case using parseRequest_consumes by (auto simp: gotAll_def)
next
  case (request ctx buf ok c b acts1 res)
  have "consumes buf b" using parseRequest_consumes [OF request.hyps(1)] request.prems(1) .
  moreover have "ctxState new_HttpContext \<noteq> STATE_FINISH" by (simp add: new_HttpContext_def)
  ultimately show ?case
    using request.IH [of acts1 ctx' buf'] request.prems consumes_trans by (auto simp: consumes_def)
qed simp

section \<open>Pipelined requests\<close>

record http_message =
  msg_method :: string
  msg_target :: string
  msg_version :: string
  msg_headers :: "(string \<times> string) list"
  msg_body :: string

definition message_ok :: "http_message \<Rightarrow> bool" where
  "message_ok m \<longleftrightarrow> request_ok (msg_method m) (msg_target m) (msg_version m) (msg_headers m) (msg_body m)"

definition render_message :: "http_message \<Rightarrow> string" where
  "render_message m = render_request (msg_method m) (msg_target m) (msg_version m) (msg_headers m) (msg_body m)"

definition request_of_message :: "Timestamp \<Rightarrow> http_message \<Rightarrow> HttpRequest" where
  "request_of_message T m = request_of T (msg_method m) (msg_target m) (msg_version m) (msg_headers m) (msg_body m)"

lemma render_message_nonempty: "render_message m \<noteq> []"
  by (simp add: render_message_def render_request_def render_line_def)

lemma onMessage_one:
  assumes "buf_inv buf" and "message_ok m" and "contents buf = render_message m @ rest"
  shows "\<exists>b. onMessage env T new_HttpContext buf =
      Option.bind (onMessage env T new_HttpContext b)
        (\<lambda>(acts, res). Some (onRequest env (request_of_message T m) @ acts, res))
    \<and> buf_inv b \<and> contents b = rest"
proof -
  from parseRequest_whole [OF assms(1) assms(2) [unfolded message_ok_def]
      assms(3) [unfolded render_message_def], of T] obtain b where
    p: "parseRequest T new_HttpContext buf = Some (Inr (True,
         head_ctx T (msg_method m) (msg_target m) (msg_version m) (msg_headers m) STATE_FINISH (msg_body m), b))"
      "buf_inv b" "contents b = rest" by blast
  have "readableBytes buf \<noteq> 0"
    using readableBytes_0_iff [OF assms(1)] assms(3) render_message_nonempty by simp
  then have "onMessage env T new_HttpContext buf = Option.bind (onMessage env T new_HttpContext b)
      (\<lambda>(acts, res). Some (onRequest env (request_of_message T m) @ acts, res))"
    using p(1) by (subst onMessage.simps) (simp add: gotAll_def head_ctx_def request_of_message_def)
  with p show ?thesis by blast
qed

lemma onMessage_pipelined:
  assumes "buf_inv buf" and "\<forall>m \<in> set ms. message_ok m"
    and "contents buf = concat (map render_message ms) @ rest"
  shows "\<exists>b. onMessage env T new_HttpContext buf =
      Option.bind (onMessage env T new_HttpContext b)
        (\<lambda>(acts, res). Some (concat (map (\<lambda>m. onRequest env (request_of_message T m)) ms) @ acts, res))
    \<and> buf_inv b \<and> contents b = rest"
  using assms
proof (induction ms arbitrary: buf)
  case Nil
  then show ?case by (auto intro!: exI [of _ buf] split: option.splits)
next
  case (Cons m ms)
  then obtain b1 where b1: "onMessage env T new_HttpContext buf =
      Option.bind (onMessage env T new_HttpContext b1)
        (\<lambda>(acts, res). Some (onRequest env (request_of_message T m) @ acts, res))"
      "buf_inv b1" "contents b1 = concat (map render_message ms) @ rest"
    using onMessage_one [of buf m "concat (map render_message ms) @ rest" env T] by auto
  from Cons.IH [OF b1(2) _ b1(3)] Cons.prems(2) obtain b where
    b: "onMessage env T new_HttpContext b1 = Option.bind (onMessage env T new_HttpContext b)
        (\<lambda>(acts, res). Some (concat (map (\<lambda>m. onRequest env (request_of_message T m)) ms) @ acts, res))"
      "buf_inv b" "contents b = rest" by auto
  show ?case
    using b1(1) b by (intro exI [of _ b], cases "onMessage env T new_HttpContext b") auto
qed

section \<open>Properties\<close>

text \<open>C33. The message handler returns on every input and every context it can meet: from a context that
  is not in \<^verbatim>\<open>STATE_FINISH\<close> the loop ends, because every finished request consumes at least one byte,
  and unless a fault ends it, it leaves such a context again, with a prefix of the input consumed, so
  that the next call returns too.\<close>

theorem onMessage_total:
  assumes "buf_inv buf" and "ctxState ctx \<noteq> STATE_FINISH"
  shows "\<exists>acts res. onMessage env T ctx buf = Some (acts, res) \<and>
    (\<forall>ctx' buf'. res = Inr (ctx', buf') \<longrightarrow> ctxState ctx' \<noteq> STATE_FINISH \<and> buf_inv buf' \<and>
       (\<exists>k. contents buf' = drop k (contents buf)))"
proof -
  obtain acts res where r: "onMessage env T ctx buf = Some (acts, res)"
    using onMessage_returns [OF assms, of env T] by auto
  then show ?thesis using onMessage_leaves [OF r assms] by (auto simp: consumes_def)
qed

definition plain_env :: http_env where
  "plain_env = \<lparr>webRoot = ''./www'', httpCallback = Some onHttpRequest,
     stat = (\<lambda>f. if f = ''./www/index.html'' then Some (False, 9) else None), has_uring = True,
     registerFile = (\<lambda>_. True)\<rparr>"

theorem onMessage_total_witness:
  "\<exists>acts res. onMessage plain_env 0 new_HttpContext (received ''GET /'') = Some (acts, res) \<and>
    (\<forall>ctx' buf'. res = Inr (ctx', buf') \<longrightarrow> ctxState ctx' \<noteq> STATE_FINISH \<and> buf_inv buf' \<and>
       (\<exists>k. contents buf' = drop k ''GET /''))"
proof -
  have "ctxState new_HttpContext \<noteq> STATE_FINISH" by (simp add: new_HttpContext_def)
  from onMessage_total [OF received_inv this, of plain_env 0 "''GET /''"] show ?thesis
    by (simp only: contents_received)
qed

text \<open>Pipelining: well-formed requests that arrive together are parsed and handled one after the
  other, each with a fresh context, and the handler consumes them all.\<close>

lemma pipelined_requests_handled_in_order:
  assumes "buf_inv buf" and "\<forall>m \<in> set ms. message_ok m" and "contents buf = concat (map render_message ms)"
  shows "\<exists>b. onMessage env T new_HttpContext buf =
      Some (concat (map (\<lambda>m. onRequest env (request_of_message T m)) ms), Inr (new_HttpContext, b))
    \<and> contents b = []"
proof -
  from onMessage_pipelined [OF assms(1,2), of "[]" env T] assms(3) obtain b where
    b: "onMessage env T new_HttpContext buf = Option.bind (onMessage env T new_HttpContext b)
        (\<lambda>(acts, res). Some (concat (map (\<lambda>m. onRequest env (request_of_message T m)) ms) @ acts, res))"
      "buf_inv b" "contents b = []" by auto
  have "onMessage env T new_HttpContext b = Some ([], Inr (new_HttpContext, b))"
    using readableBytes_0_iff [OF b(2)] b(3) by (subst onMessage.simps) simp
  with b show ?thesis by auto
qed

definition demo_get :: "string \<Rightarrow> http_message" where
  "demo_get target = \<lparr>msg_method = ''GET'', msg_target = target, msg_version = ''HTTP/1.1'',
     msg_headers = [(''Host'', ''x'')], msg_body = []\<rparr>"

lemma demo_get_ok: "target_ok t \<Longrightarrow> message_ok (demo_get t)"
  by (simp add: message_ok_def demo_get_def request_ok_def method_of_name_def hdr_ok_def trimmed_def isspace_def)

text \<open>C38. Static files: whatever the request, the only file the server reads is the web root followed by
  a path without two consecutive dots, which exists, is no directory and could be opened, and it is
  read with the size the file system reported.\<close>

theorem static_file_confined:
  assumes "AsyncRead f n close type \<in> set (onRequest env req)"
  shows "\<exists>p. f = webRoot env @ p \<and> \<not> find_dotdot p \<and> stat env (c_str f) = Some (False, n) \<and>
    registerFile env f \<and> close = should_close req \<and> type = getMime (suffix_of p)"
  using assms
  by (auto simp: onRequest_def handleStaticFile_def handleServerError_def Let_def
      split: option.splits if_splits)

theorem static_file_confined_witness:
  "\<exists>p. AsyncRead ''./www/index.html'' 9 False ''text/html''
        \<in> set (onRequest plain_env (request_of_message 0 (demo_get ''/''))) \<and>
     ''./www/index.html'' = webRoot plain_env @ p \<and> \<not> find_dotdot p"
proof -
  have "AsyncRead ''./www/index.html'' 9 False ''text/html''
      \<in> set (onRequest plain_env (request_of_message 0 (demo_get ''/'')))"
    by code_simp
  with static_file_confined [OF this] show ?thesis by blast
qed

text \<open>C39. One reply per request: with the asynchronous reader available, the handler of a request sends
  one response, possibly followed by a shutdown, or starts one file read, whose completion sends one
  response or, if the read failed, only shuts the connection down.\<close>

theorem one_reply_per_request:
  assumes "has_uring env"
  shows "(\<exists>b. onRequest env req = [SendBuffer b] \<or> onRequest env req = [SendBuffer b, Shutdown]) \<or>
    (\<exists>f n close type. onRequest env req = [AsyncRead f n close type] \<and>
      (\<forall>res bytes. \<exists>s. file_read_callback close type res bytes =
         (if res < 0 then [Shutdown] else Send s # (if close then [Shutdown] else []))))"
proof -
  have "\<exists>s. file_read_callback close type res bytes =
      (if res < 0 then [Shutdown] else Send s # (if close then [Shutdown] else []))" for close type res bytes
  proof -
    let ?r = "setResponseBody (take (nat res) bytes) (addResponseHeader ''Server'' ''muduoX-io_uring''
      (setContentType type (setStatusMessage ''OK'' (setStatusCode k200Ok (new_HttpResponse close)))))"
    have "buf_inv (appendToBuffer ?r (new_Buffer kInitialSize))" by (rule appendToBuffer_inv [OF new_Buffer_inv])
    then show ?thesis by (simp add: file_read_callback_def Let_def retrieveAllAsString_ok)
  qed
  then show ?thesis
    using assms by (auto simp: onRequest_def handleStaticFile_def handleServerError_def Let_def
        split: option.splits)
qed

theorem one_reply_per_request_witness:
  "(\<exists>b. onRequest plain_env (request_of_message 0 (demo_get ''/'')) = [SendBuffer b] \<or>
      onRequest plain_env (request_of_message 0 (demo_get ''/'')) = [SendBuffer b, Shutdown]) \<or>
   (\<exists>f n close type. onRequest plain_env (request_of_message 0 (demo_get ''/'')) = [AsyncRead f n close type] \<and>
      (\<forall>res bytes. \<exists>s. file_read_callback close type res bytes =
         (if res < 0 then [Shutdown] else Send s # (if close then [Shutdown] else []))))"
  by (rule one_reply_per_request) (simp add: plain_env_def)

section \<open>Running the actions on the connection\<close>

text \<open>The handlers run in the connection's loop; a started read has no effect on the connection yet.\<close>

definition run_action :: "action \<Rightarrow> world \<Rightarrow> world result" where
  "run_action a w =
     (case a of
        Send s \<Rightarrow> send_string True s w
      | SendBuffer b \<Rightarrow> bind_result (send_buffer True True b w) (\<lambda>(b', w'). Inr w')
      | Shutdown \<Rightarrow> Inr (shutdown True w)
      | AsyncRead f n close type \<Rightarrow> Inr w)"

primrec run_actions :: "action list \<Rightarrow> world \<Rightarrow> world result" where
  "run_actions [] w = Inr w"
| "run_actions (a # as) w = bind_result (run_action a w) (run_actions as)"

text \<open>The message callback of an HTTP connection: its context, and the world.\<close>

definition http_message_callback ::
    "http_env \<Rightarrow> Timestamp \<Rightarrow> HttpContext \<Rightarrow> world \<Rightarrow> (HttpContext \<times> world) result option" where
  "http_message_callback env T ctx w =
     Option.bind (onMessage env T ctx (inputBuffer (conn w))) (\<lambda>(acts, res).
       Some (bind_result (run_actions acts w) (\<lambda>w'.
         bind_result res (\<lambda>(ctx', buf'). Inr (ctx', set_conn (\<lambda>t. t\<lparr>inputBuffer := buf'\<rparr>) w')))))"

lemma run_action_sendBuffer:
  assumes "conn_inv s w" and "tc_state (conn w) = kConnected" and "willing (kern w)" and "buf_inv b"
  shows "\<exists>w'. run_action (SendBuffer b) w = Inr w' \<and> conn_inv (s @ contents b) w' \<and>
    tc_state (conn w') = kConnected \<and> kern w' = kern w"
proof -
  obtain w' where w': "sendInLoop (contents b) w = Inr w'" "kern w' = kern w" "tc_state (conn w') = kConnected"
    using sendInLoop_total [OF assms(3), of "contents b"] assms(2) by auto
  obtain k where "k_write (kern w) (clock w) = Inr k" using assms(3) by (auto simp: willing_def)
  then have "\<not> peer_gone w" by (simp add: peer_gone_def)
  then have "conn_inv (s @ contents b) w'" using sendInLoop_inv [OF assms(1,2) w'(1)] by simp
  then show ?thesis
    using w' assms(2) slice_contents [OF assms(4)] by (simp add: run_action_def send_buffer_def)
qed

lemma run_actions_send_all:
  assumes "conn_inv s w" and "tc_state (conn w) = kConnected" and "willing (kern w)" and "\<forall>b \<in> set bs. buf_inv b"
  shows "\<exists>w'. run_actions (map SendBuffer bs) w = Inr w' \<and> conn_inv (s @ concat (map contents bs)) w' \<and>
    tc_state (conn w') = kConnected \<and> kern w' = kern w"
  using assms
proof (induction bs arbitrary: s w)
  case (Cons b bs)
  from run_action_sendBuffer [OF Cons.prems(1-3), of b] Cons.prems(4) obtain w1 where
    w1: "run_action (SendBuffer b) w = Inr w1" "conn_inv (s @ contents b) w1" "tc_state (conn w1) = kConnected"
      "kern w1 = kern w" by auto
  from Cons.IH [OF w1(2,3)] w1(4) Cons.prems(3,4) show ?case using w1(1,4) by auto
qed simp

end
