(* ===== verification/Http_Loop.thy ===== *)
theory Http_Loop
  imports Server_System Http_Server
begin

text \<open>
  The loop of an HTTP server: the message handler of \<^verbatim>\<open>http/HttpServer.cpp\<close> meets the contract that the
  loop of its connections needs, whatever bytes the clients send, whatever the application callback
  answers, and whatever events the kernel reports; the ways it can fail are those of the parser, and an abort.
  The properties of the loop follow for it: what the kernel watches, that rounds
  reach no freed connection, and that all output is written once the sockets take it; and the properties of
  the whole system of server, loops and connections.
\<close>

section \<open>Faults of the handler\<close>

text \<open>A byte outside the buffer, a null pointer, and the exceptions of \<^verbatim>\<open>std::stoul\<close>, which nothing catches.\<close>

definition parser_faults :: "fault set" where
  "parser_faults = {OutOfBounds, NullPointer, InvalidArgument, OutOfRange}"

lemma parser_fault_members [simp]:
  "OutOfBounds \<in> parser_faults" "NullPointer \<in> parser_faults" "InvalidArgument \<in> parser_faults" "OutOfRange \<in> parser_faults"
  "UseAfterFree \<notin> parser_faults"
  by (simp_all add: parser_faults_def)

lemma mk_string_faults: "mk_string mem p q = Inl e \<Longrightarrow> e \<in> parser_faults"
  by (cases "(mem, p, q)" rule: mk_string.cases) (auto split: if_splits)

lemma addHeader_faults: "addHeader mem p c q rq = Inl e \<Longrightarrow> e \<in> parser_faults"
  by (cases p; cases c; cases q) (auto simp: addHeader_def bind_result_Inl_iff split: if_splits)

lemma hdr_step_faults: "hdr_step mem n i p h rq = Inl e \<Longrightarrow> e \<in> parser_faults"
  by (auto simp: hdr_step_def log_range_def bind_result_Inl_iff Let_def split: ParseState.splits if_splits
      dest: mk_string_faults addHeader_faults)

lemma hdr_loop_faults: "hdr_loop mem n i p h rq = Inl e \<Longrightarrow> e \<in> parser_faults"
proof (induction mem n i p h rq rule: hdr_loop.induct)
  case (1 mem n i p h rq)
  show ?case
  proof (cases "i < n")
    case True
    show ?thesis
    proof (cases "hdr_step mem n i p h rq")
      case (Inl f)
      then show ?thesis using "1.prems" hdr_step_faults [OF Inl] True by (subst (asm) hdr_loop.simps) simp
    next
      case (Inr a)
      then show ?thesis using "1.prems" "1.IH" [OF True] True by (subst (asm) hdr_loop.simps) (auto split: hdr_act.splits)
    qed
  qed (use "1.prems" in \<open>subst (asm) hdr_loop.simps, simp\<close>)
qed

lemma parse_iter_faults:
  assumes "parse_iter T ctx buf = Inl e"
  shows "e \<in> parser_faults"
proof -
  have "parseURI ctx buf = Inl e \<Longrightarrow> e \<in> parser_faults"
    by (auto simp: parseURI_def Let_def split: if_splits prod.splits)
  moreover have "parseHeaders ctx buf = Inl e \<Longrightarrow> e \<in> parser_faults"
    by (auto simp: parseHeaders_def bind_result_Inl_iff Let_def split: if_splits dest: hdr_loop_faults)
  moreover have "stoul v = Inl e \<Longrightarrow> e \<in> parser_faults" for v
    using stoul_faults [of v e] by (auto simp: parser_faults_def)
  ultimately show ?thesis
    using assms by (auto simp: parse_iter_def bind_result_Inl_iff split: ProcessState.splits option.splits
        URIState.splits HeaderState.splits if_splits) (metis URIState.exhaust, metis HeaderState.exhaust)
qed

lemma parseRequest_parser_faults:
  assumes "parseRequest T ctx buf = Some (Inl e)"
  shows "e \<in> parser_faults"
proof -
  have "\<forall>e. r = Inl e \<longrightarrow> e \<in> parser_faults" if "parseRequest T ctx buf = Some r" for r
    using that by (induction rule: parseRequest_induct) (auto dest: parse_iter_faults)
  then show ?thesis using assms by blast
qed

lemma onMessage_faults:
  assumes "onMessage env T ctx buf = Some (acts, Inl e)"
  shows "e \<in> parser_faults"
proof -
  have "\<forall>acts e. r = (acts, Inl e) \<longrightarrow> e \<in> parser_faults" if "onMessage env T ctx buf = Some r" for r
    using that by (induction rule: onMessage_induct) (auto dest: parseRequest_parser_faults)
  then show ?thesis using assms by blast
qed

section \<open>The actions of the handler\<close>

text \<open>On a connection, a buffer is sent as the string of its readable bytes.\<close>

lemma run_action_calls:
  assumes "run_action a v = Inr u" and "user_calls w v"
  shows "user_calls w u"
proof (cases a)
  case (SendBuffer b)
  then have "send_string True (Prelude.slice (peek b) (peek b + readableBytes b) (buffer b)) v = Inr u"
    using assms(1) by (auto simp: run_action_def send_buffer_def send_string_def bind_result_Inr_iff split: if_splits)
  with assms(2) show ?thesis by (rule user_calls.send)
qed (use assms in \<open>auto simp: run_action_def intro: user_calls.intros\<close>)

lemma run_action_fault:
  assumes "run_action a w = Inl e"
  shows "e = FatalAbort"
  using assms sendInLoop_fault
  by (cases a) (auto simp: run_action_def send_string_def send_buffer_def bind_result_Inl_iff split: if_splits)

lemma run_actions_calls: "run_actions as v = Inr u \<Longrightarrow> user_calls w v \<Longrightarrow> user_calls w u"
  by (induction as arbitrary: v) (auto simp: bind_result_Inr_iff intro: run_action_calls)

lemma run_actions_fault: "run_actions as w = Inl e \<Longrightarrow> e = FatalAbort"
  by (induction as arbitrary: w) (auto simp: bind_result_Inl_iff dest: run_action_fault)

section \<open>The handler meets the contract\<close>

definition unfinished :: "HttpContext \<Rightarrow> bool" where
  "unfinished ctx \<longleftrightarrow> ctxState ctx \<noteq> STATE_FINISH"

lemma http_handler_returns:
  assumes "unfinished ctx" and "conn_ok once w"
  shows "\<exists>r. http_message_callback env T ctx w = Some r \<and> faults_in (insert FatalAbort parser_faults) r"
proof -
  have b: "buf_inv (inputBuffer (conn w))" using conn_invD(1) [OF conn_okD(1) [OF assms(2)]] .
  obtain acts res where m: "onMessage env T ctx (inputBuffer (conn w)) = Some (acts, res)"
    using onMessage_returns [OF b, of ctx env T] assms(1) by (auto simp: unfinished_def)
  have "faults_in (insert FatalAbort parser_faults) (bind_result (run_actions acts w) g)"
    if "g = (\<lambda>w'. bind_result res (\<lambda>(ctx', buf'). Inr (ctx', set_conn (\<lambda>t. t\<lparr>inputBuffer := buf'\<rparr>) w')))" for g
    using onMessage_faults [of env T ctx "inputBuffer (conn w)" acts] m run_actions_fault [of acts w]
    by (auto simp: that bind_result_Inl_iff)
  then show ?thesis using m by (simp add: http_message_callback_def)
qed

lemma http_handler_calls:
  assumes "unfinished ctx" and "conn_ok once w" and "http_message_callback env T ctx w = Some (Inr (ctx', w'))"
  shows "unfinished ctx' \<and> user_calls w w'"
proof -
  have b: "buf_inv (inputBuffer (conn w))" using conn_invD(1) [OF conn_okD(1) [OF assms(2)]] .
  obtain acts buf' w1 where m: "onMessage env T ctx (inputBuffer (conn w)) = Some (acts, Inr (ctx', buf'))"
    and r: "run_actions acts w = Inr w1" and w': "w' = set_conn (\<lambda>t. t\<lparr>inputBuffer := buf'\<rparr>) w1"
    using assms(3) by (auto simp: http_message_callback_def bind_result_Inr_iff split: bind_splits)
  have "ctxState ctx' \<noteq> STATE_FINISH" "buf_inv buf'"
    using onMessage_leaves [OF m b] assms(1) by (auto simp: unfinished_def consumes_def)
  then show ?thesis
    using user_calls.consume [OF run_actions_calls [OF r user_calls.none]] w' by (simp add: unfinished_def)
qed

interpretation http_loop: message_handler "http_message_callback env" new_HttpContext unfinished "insert FatalAbort parser_faults" for env
proof
  show "unfinished new_HttpContext" by (simp add: unfinished_def new_HttpContext_def)
  show "FatalAbort \<in> insert FatalAbort parser_faults" by simp
qed (use http_handler_returns http_handler_calls in blast)+

section \<open>Properties of an HTTP loop\<close>



text \<open>C15. A round of the loop: the kernel reports channels of its interest list, each once, with any events, in any
  state that earlier rounds with any events have led to, and the clients have sent anything.  Then the round comes to an
  end.  Either it is cut short by a fault, which is an abort (\<^verbatim>\<open>LOG_FATAL\<close>) or one of the faults of the HTTP
  parser (a byte outside the buffer, a null pointer, an exception of \<^verbatim>\<open>std::stoul\<close> that nothing catches), and
  never the use of a connection that was freed; or it is completed, no connection is lost, and every connection
  that was not reported is as it was, with the same events wanted.\<close>

theorem http_round_safe:
  assumes "inj fds" and "loop_reach P (http_message_callback env) new_HttpContext R (new_conn_loop fds kn) L"
    and "kernel_reports P outcome (cl_poller L)"
  shows "\<exists>r. loop_round (http_message_callback env) R T outcome L = Some r \<and>
    (\<forall>e. r = Inl e \<longrightarrow> e \<in> {FatalAbort, OutOfBounds, NullPointer, InvalidArgument, OutOfRange}) \<and>
    (\<forall>L' c. r = Inr L' \<longrightarrow> (cl_conns L' c = None \<longleftrightarrow> cl_conns L c = None) \<and>
       (c \<notin> set (fst (poll outcome (cl_poller L))) \<longrightarrow>
          cl_conns L' c = cl_conns L c \<and> ch_events (store (cl_poller L') c) = ch_events (store (cl_poller L) c)))"
  using http_loop.rounds_safe [OF assms(2,1,3), of T] unfolding parser_faults_def .

theorem http_round_safe_witness:
  "\<exists>L r. wants_write L 5 \<and>
     loop_round (http_message_callback plain_env) {0, 1} 7 (Inr [(EPOLLHUP OR EPOLLPRI OR EPOLLOUT, 5)]) L = Some r \<and>
     (\<forall>e. r = Inl e \<longrightarrow> e \<in> {FatalAbort, OutOfBounds, NullPointer, InvalidArgument, OutOfRange})"
proof -
  have "(5 :: nat) \<notin> {0, 1}" by simp
  from demo_loop [OF this, of "\<lambda>_. True" "http_message_callback plain_env" new_HttpContext] obtain L k where
    L: "loop_reach (\<lambda>_. True) (http_message_callback plain_env) new_HttpContext {0, 1} (new_conn_loop int demo_kernel) L" "cl_conns L 5 = Some k"
      "tc_state (cn_tcp k) = kConnected" "readableBytes (outputBuffer (cn_tcp k)) = 2" by blast
  then have i: "interest (ctls (cl_poller L)) (ch_fd (store (cl_poller L) 5)) = Some (kReadEvent OR kWriteEvent, 5)"
    using http_loop.watched_exactly [OF L(1) inj_of_nat L(2)] by (simp add: Let_def)
  let ?o = "Inr [(EPOLLHUP OR EPOLLPRI OR EPOLLOUT, 5)] :: int + (events \<times> nat) list"
  have "kernel_reports (\<lambda>_. True) ?o (cl_poller L)" using i by (simp add: kernel_reports_def)
  moreover have "wants_write L 5" using i by (simp add: wants_write_def mask_defs)
  ultimately show ?thesis using http_round_safe [OF inj_of_nat L(1), of ?o 7] by blast
qed

text \<open>C23. All output is written: when the kernel takes at least one byte per write and reports the connections that
  want to write and can, as many rounds as the longest output buffer has bytes leave every open connection with an empty
  buffer and everything it had buffered on the wire behind what was there, shut down if it was
  disconnecting, and no longer watched for writing, so that the loop does not spin; no round faults.\<close>

theorem http_output_drains:
  assumes "inj fds" and "loop_reach P (http_message_callback env) new_HttpContext R (new_conn_loop fds kn) L"
    and "willing (cl_kern L)" and "distinct cs" and "set cs \<inter> R = {}"
    and "\<forall>c \<in> set cs. \<forall>k. cl_conns L c = Some k \<longrightarrow> readableBytes (outputBuffer (cn_tcp k)) \<le> n"
  shows "\<exists>L'. drain_rounds (http_message_callback env) R T cs n L = Some (Inr L') \<and>
    (\<forall>c \<in> set cs. \<forall>k. cl_conns L c = Some k \<and> tc_state (cn_tcp k) \<in> {kConnected, kDisconnecting} \<longrightarrow>
       (\<exists>k'. cl_conns L' c = Some k' \<and> tc_state (cn_tcp k') = tc_state (cn_tcp k) \<and>
          readableBytes (outputBuffer (cn_tcp k')) = 0 \<and>
          wire (cn_trace k') = wire (cn_trace k) @ contents (outputBuffer (cn_tcp k)) \<and>
          (tc_state (cn_tcp k) = kDisconnecting \<longrightarrow> ShutdownWrite \<in> set (cn_trace k')) \<and>
          \<not> wants_write L' c))"
  by (rule http_loop.all_drained [OF assms(2,1,4,5,3,6)])

theorem http_output_drains_witness:
  "\<exists>L L' k k'. cl_conns L 5 = Some k \<and> wire (cn_trace k) = ''hel'' \<and> contents (outputBuffer (cn_tcp k)) = ''lo'' \<and>
     drain_rounds (http_message_callback plain_env) {0, 1} 7 [5] 2 L = Some (Inr L') \<and>
     cl_conns L' 5 = Some k' \<and> wire (cn_trace k') = ''hello'' \<and> \<not> wants_write L' 5"
proof -
  have "(5 :: nat) \<notin> {0, 1}" by simp
  from demo_loop [OF this, of "\<lambda>_. True" "http_message_callback plain_env" new_HttpContext] obtain L k where
    L: "loop_reach (\<lambda>_. True) (http_message_callback plain_env) new_HttpContext {0, 1} (new_conn_loop int demo_kernel) L" "cl_conns L 5 = Some k"
      "cl_kern L = demo_kernel" "tc_state (cn_tcp k) = kConnected" "wire (cn_trace k) = ''hel''"
      "contents (outputBuffer (cn_tcp k)) = ''lo''" "readableBytes (outputBuffer (cn_tcp k)) = 2" by blast
  have "willing (cl_kern L)" "distinct [5 :: nat]" "set [5 :: nat] \<inter> {0, 1} = {}"
    "\<forall>c \<in> set [5 :: nat]. \<forall>k. cl_conns L c = Some k \<longrightarrow> readableBytes (outputBuffer (cn_tcp k)) \<le> 2"
    using L demo_willing by simp_all
  from http_output_drains [OF inj_of_nat L(1) this, of 7] obtain L' where
    L': "drain_rounds (http_message_callback plain_env) {0, 1} 7 [5] 2 L = Some (Inr L')"
      "\<exists>k'. cl_conns L' 5 = Some k' \<and> wire (cn_trace k') = wire (cn_trace k) @ contents (outputBuffer (cn_tcp k)) \<and> \<not> wants_write L' 5"
    using L(2,4) by auto
  then show ?thesis using L(2,5,6) by auto
qed

section \<open>Properties of the HTTP server as a system\<close>

text \<open>C3. The system refines the server: in every interleaving of accepted connections, events, functors and
  calls of the application over all loops, whatever events the kernel reports for channels of its interest lists, the server goes
  through a run of the server alone, in which connections are shut down and closed, and closed ones perhaps closed
  again while the server still refers to them.  A connection has an object, in its loop and in the state the server knows,
  exactly as long as the map of the server or one of its queued functors refers to it; what has no object is
  disconnected and was destroyed, and what was destroyed and still has one is not watched by the kernel.  If no reported
  event is a hang-up with urgent data and without readable input, no connection is closed again, and it has an
  object exactly until it is destroyed.  And whenever no functor is pending, every connection object is an
  open connection that is in the map of the server and in the interest list of the kernel.\<close>

theorem http_system_refines_server:
  assumes "length (sin_addr addr) = 4" and "\<And>l. inj (fds l)"
    and "sys_reach P (http_message_callback env) new_HttpContext r
      (new_system (started_server startLoop cb loop addr nm n) fds kn) y"
  shows "server_runs (started_server startLoop cb loop addr nm n) (sy_server y) \<and>
    (\<forall>c < length (srv_conns (sy_server y)).
       let a = srv_conns (sy_server y) ! c; L = sy_loops y (c_loop a) in
       case cl_conns L (r + c) of
         None \<Rightarrow> \<not> referenced (sy_server y) c \<and> c_state a = kDisconnected \<and> 0 < c_destroyed a
       | Some k \<Rightarrow> referenced (sy_server y) c \<and> tc_state (cn_tcp k) = c_state a \<and>
           (0 < c_destroyed a \<longrightarrow> interest (ctls (cl_poller L)) (ch_fd (store (cl_poller L) (r + c))) = None)) \<and>
    ((\<forall>ev. P ev \<longrightarrow> sane_event ev) \<longrightarrow>
      server_reach (started_server startLoop cb loop addr nm n) (sy_server y) \<and>
      (\<forall>c < length (srv_conns (sy_server y)). referenced (sy_server y) c \<longleftrightarrow> c_destroyed (srv_conns (sy_server y) ! c) = 0)) \<and>
    ((\<forall>l. srv_queues (sy_server y) l = []) \<longrightarrow>
      (\<forall>l d k. cl_conns (sy_loops y l) d = Some k \<longrightarrow>
        srv_connections (sy_server y) (c_name (srv_conns (sy_server y) ! (d - r))) = Some (d - r) \<and>
        tc_state (cn_tcp k) \<in> {kConnected, kDisconnecting} \<and>
        interest (ctls (cl_poller (sy_loops y l))) (ch_fd (store (cl_poller (sy_loops y l)) d)) =
          Some (if readableBytes (outputBuffer (cn_tcp k)) = 0 then kReadEvent else kReadEvent OR kWriteEvent, d)))"
proof -
  note ok = http_loop.new_system_ok [OF assms(1,2)]
  note y = http_loop.sys_reach_sane(1) [OF assms(3) ok] and R = http_loop.system_refines [OF assms(3) ok]
  show ?thesis
  proof (intro conjI impI allI)
    fix c assume "c < length (srv_conns (sy_server y))"
    from R(3) [OF this] show "let a = srv_conns (sy_server y) ! c; L = sy_loops y (c_loop a) in
       case cl_conns L (r + c) of
         None \<Rightarrow> \<not> referenced (sy_server y) c \<and> c_state a = kDisconnected \<and> 0 < c_destroyed a
       | Some k \<Rightarrow> referenced (sy_server y) c \<and> tc_state (cn_tcp k) = c_state a \<and>
           (0 < c_destroyed a \<longrightarrow> interest (ctls (cl_poller L)) (ch_fd (store (cl_poller L) (r + c))) = None)"
      unfolding Let_def .
  next
    fix l d k
    assume "\<forall>l. srv_queues (sy_server y) l = []" "cl_conns (sy_loops y l) d = Some k"
    note S = http_loop.system_settled [OF y this]
    show "srv_connections (sy_server y) (c_name (srv_conns (sy_server y) ! (d - r))) = Some (d - r)"
      "tc_state (cn_tcp k) \<in> {kConnected, kDisconnecting}"
      "interest (ctls (cl_poller (sy_loops y l))) (ch_fd (store (cl_poller (sy_loops y l)) d)) =
          Some (if readableBytes (outputBuffer (cn_tcp k)) = 0 then kReadEvent else kReadEvent OR kWriteEvent, d)"
      by (rule conjunct1 [OF S] conjunct1 [OF conjunct2 [OF S]] conjunct2 [OF conjunct2 [OF S]])+
  qed (use R(1,2,4) in blast)+
qed

theorem http_system_refines_server_witness:
  "\<exists>y :: HttpContext server_system. srv_connections (sy_server y) (c_name (srv_conns (sy_server y) ! 0)) = Some 0 \<and>
     (\<exists>k. cl_conns (sy_loops y 2) 2 = Some k \<and> tc_state (cn_tcp k) = kConnected) \<and>
     (\<exists>ev. interest (ctls (cl_poller (sy_loops y 2))) (ch_fd (store (cl_poller (sy_loops y 2)) 2)) = Some (ev, 2))"
proof -
  let ?h = "http_message_callback plain_env" and ?x = new_HttpContext
  obtain y y' where y: "sys_accept ?x 2 5 sample_addr sample_addr sample_system = Some (Inr y)" "sy_active y = (\<lambda>l. [])"
    "sys_functor ?x 2 2 y = Some (Inr y')" "length (srv_conns (sy_server y')) = 1" "c_loop (srv_conns (sy_server y') ! 0) = 2"
    "c_state (srv_conns (sy_server y') ! 0) = kConnected" "c_destroyed (srv_conns (sy_server y') ! 0) = 0"
    "\<forall>l. srv_queues (sy_server y') l = []"
    using sample_system_runs [of ?x] by blast
  have "sys_reach (\<lambda>_. True) ?h ?x 2 sample_system y" by (rule sys_reach.accept [OF sys_reach.start y(1)])
  then have "sys_reach (\<lambda>_. True) ?h ?x 2 sample_system y'" by (rule sys_reach.run [OF _ _ y(3)]) (simp add: y(2))
  then have r: "sys_reach (\<lambda>_. True) ?h ?x 2 (new_system (started_server (\<lambda>i. i + 2) False 1 sample_addr ''web'' 2) (\<lambda>l. int) (\<lambda>l. demo_kernel)) y'"
    by (simp add: sample_system_def sample_server_def)
  have "length (sin_addr sample_addr) = 4" by (simp add: sample_addr_def)
  note C = http_system_refines_server [OF this inj_of_nat r]
  obtain k where k: "cl_conns (sy_loops y' 2) 2 = Some k" "tc_state (cn_tcp k) = kConnected"
    using conjunct1 [OF conjunct2 [OF C]] y(4-7)
    by (auto simp: Let_def split: option.splits simp del: add_2_eq_Suc add_2_eq_Suc')
  have "\<forall>l d k. cl_conns (sy_loops y' l) d = Some k \<longrightarrow>
      srv_connections (sy_server y') (c_name (srv_conns (sy_server y') ! (d - 2))) = Some (d - 2) \<and>
      interest (ctls (cl_poller (sy_loops y' l))) (ch_fd (store (cl_poller (sy_loops y' l)) d)) =
        Some (if readableBytes (outputBuffer (cn_tcp k)) = 0 then kReadEvent else kReadEvent OR kWriteEvent, d)"
    using conjunct2 [OF conjunct2 [OF C]] y(8) by blast
  from this [rule_format, OF k(1)] show ?thesis using k by (intro exI [of _ y']) auto
qed

text \<open>C14. How the system can fail: in every state it can reach, whatever events the kernel has reported for channels of its
  interest lists and whatever the clients have sent, the base loop accepting a connection, every
  loop handling the next event of its round, and every loop whose round is done running its next functor come to an end, and none
  of these steps uses a connection object that does not exist.  Accepting fails only by an abort (\<^verbatim>\<open>LOG_FATAL\<close>) or the
  overflow of a counter, a functor only by an abort, and an event only by an abort or one of the faults of the
  HTTP parser (a byte outside the buffer, a null pointer, an exception of \<^verbatim>\<open>std::stoul\<close> that nothing catches).
  The order of the loop, which runs no functor within a round, is needed for the functors.\<close>

theorem http_system_safe:
  assumes "length (sin_addr addr) = 4" and "\<And>l. inj (fds l)"
    and "sys_reach P (http_message_callback env) new_HttpContext r
      (new_system (started_server startLoop cb loop addr nm n) fds kn) y"
  shows "(\<exists>q. sys_accept new_HttpContext r sockfd peer localAddr y = Some q \<and>
      (\<forall>e. q = Inl e \<longrightarrow> e \<in> {FatalAbort, SignedOverflow})) \<and>
    (\<exists>q. sys_event (http_message_callback env) r T l y = Some q \<and>
      (\<forall>e. q = Inl e \<longrightarrow> e \<in> {FatalAbort, OutOfBounds, NullPointer, InvalidArgument, OutOfRange})) \<and>
    (sy_active y l = [] \<longrightarrow>
      (\<exists>q. sys_functor new_HttpContext r l y = Some q \<and> (\<forall>e. q = Inl e \<longrightarrow> e \<in> {FatalAbort})))"
  using http_loop.system_safe [OF http_loop.sys_reach_sane(1) [OF assms(3) http_loop.new_system_ok [OF assms(1,2)]]]
  unfolding parser_faults_def .

theorem http_system_safe_witness:
  "\<exists>(y :: HttpContext server_system) q. srv_queues (sy_server y) 2 = [ConnectEstablished 0] \<and>
     sys_functor new_HttpContext 2 2 y = Some q \<and> (\<forall>e. q = Inl e \<longrightarrow> e \<in> {FatalAbort})"
proof -
  let ?h = "http_message_callback plain_env" and ?x = new_HttpContext
  obtain y where y: "sys_accept ?x 2 5 sample_addr sample_addr sample_system = Some (Inr y)" "sy_active y = (\<lambda>l. [])"
    "srv_queues (sy_server y) 2 = [ConnectEstablished 0]"
    using sample_system_runs [of ?x] by blast
  have "sys_reach (\<lambda>_. True) ?h ?x 2 sample_system y" by (rule sys_reach.accept [OF sys_reach.start y(1)])
  then have r: "sys_reach (\<lambda>_. True) ?h ?x 2 (new_system (started_server (\<lambda>i. i + 2) False 1 sample_addr ''web'' 2) (\<lambda>l. int) (\<lambda>l. demo_kernel)) y"
    by (simp add: sample_system_def sample_server_def)
  have "length (sin_addr sample_addr) = 4" by (simp add: sample_addr_def)
  from http_system_safe [OF this inj_of_nat r, of _ _ _ _ 2] y(2,3) show ?thesis by (intro exI [of _ y]) simp
qed

end
