(* ===== verification/Http_Segments.thy ===== *)
theory Http_Segments
  imports Http_Context
begin

text \<open>
  A request that reaches the parser in several pieces, the way TCP delivers it.  \<open>feed\<close> is what
  successive calls of \<^verbatim>\<open>HttpServer::onMessage\<close> do up to the end of one request: append the
  received bytes to the input buffer and call \<^verbatim>\<open>parseRequest\<close> on the connection's context.  The
  lemmas follow the three phases of the parser over a prefix of the message and show exactly which
  segmentations give the result of the one-shot parse.
\<close>

section \<open>Feeding segments\<close>

primrec feed ::
    "HttpContext \<Rightarrow> Buffer \<Rightarrow> (Timestamp \<times> string) list \<Rightarrow> (bool \<times> HttpContext \<times> Buffer) result option" where
  "feed ctx buf [] = Some (Inr (True, ctx, buf))"
| "feed ctx buf (seg # segs) =
     (case parseRequest (fst seg) ctx (append_buf (snd seg) buf) of
        None \<Rightarrow> None
      | Some (Inl e) \<Rightarrow> Some (Inl e)
      | Some (Inr (ok, ctx', buf')) \<Rightarrow>
          if gotAll ctx' then Some (Inr (ok, ctx', buf'))
          else (case feed ctx' buf' segs of
                  None \<Rightarrow> None
                | Some (Inl e) \<Rightarrow> Some (Inl e)
                | Some (Inr (ok', c, b)) \<Rightarrow> Some (Inr (ok \<and> ok', c, b))))"

text \<open>The positions at which a message may be cut without harm, and the cuts of a segmentation.\<close>

definition line_end :: "string \<Rightarrow> string \<Rightarrow> string \<Rightarrow> nat" where
  "line_end m t ver = length (render_line m t ver)"

definition hdr_end :: "(string \<times> string) list \<Rightarrow> nat \<Rightarrow> nat" where
  "hdr_end hs i = length (render_headers (take i hs))"

definition safe_cut :: "string \<Rightarrow> string \<Rightarrow> string \<Rightarrow> (string \<times> string) list \<Rightarrow> nat \<Rightarrow> bool" where
  "safe_cut m t ver hs n \<longleftrightarrow>
     n + 2 \<le> line_end m t ver \<or>
     (\<exists>i \<in> set [0..<Suc (length hs)]. n = line_end m t ver + hdr_end hs i) \<or>
     line_end m t ver + hdr_end hs (length hs) + 2 \<le> n"

definition cuts :: "'a list list \<Rightarrow> nat list" where
  "cuts ss = map (\<lambda>i. length (concat (take i ss))) [1..<length ss]"

lemma cuts_Nil [simp]: "cuts [] = []" by (simp add: cuts_def)

lemma cuts_single [simp]: "cuts [s] = []" by (simp add: cuts_def)

lemma upt_Suc_map: "[Suc a..<Suc b] = map Suc [a..<b]" by (simp add: map_Suc_upt)

lemma cuts_Cons2: "cuts (s # s' # ss) = length s # map ((+) (length s)) (cuts (s' # ss))"
proof -
  have "[1..<length (s # s' # ss)] = 1 # map Suc [1..<length (s' # ss)]"
    by (simp add: upt_conv_Cons map_Suc_upt del: upt_Suc)
  then show ?thesis by (simp add: cuts_def comp_def)
qed

section \<open>A prefix of the header block\<close>

lemma render_headers_Cons: "render_headers ((k, v) # hs) = (k @ '': '' @ v @ CRLF) @ render_headers hs"
  by (simp add: render_headers_def)

lemma render_headers_Nil [simp]: "render_headers [] = []"
  by (simp add: render_headers_def)

text \<open>A prefix of the header lines ends at a line boundary or inside one line.\<close>

lemma header_prefix_cases:
  assumes "q \<le> length (render_headers hs)"
  obtains (boundary) i where "i \<le> length hs" and "q = hdr_end hs i"
    | (inside) i k v part where "i < length hs" and "hs ! i = (k, v)" and "part \<noteq> []"
      and "take q (render_headers hs) = render_headers (take i hs) @ part"
      and "part = take (length part) (k @ '': '' @ v @ [CR])"
proof -
  have "(\<exists>i \<le> length hs. q = hdr_end hs i) \<or>
    (\<exists>i k v part. i < length hs \<and> hs ! i = (k, v) \<and> part \<noteq> [] \<and>
       take q (render_headers hs) = render_headers (take i hs) @ part \<and>
       part = take (length part) (k @ '': '' @ v @ [CR]))"
    using assms
  proof (induction hs arbitrary: q)
    case Nil
    then show ?case by (simp add: hdr_end_def)
  next
    case (Cons kv hs)
    obtain k v where kv: "kv = (k, v)" by (cases kv)
    let ?l = "k @ '': '' @ v @ CRLF"
    show ?case
    proof (cases "q < length ?l")
      case True
      show ?thesis
      proof (cases "q = 0")
        case True
        then show ?thesis by (auto simp: hdr_end_def intro!: disjI1 exI [of _ 0])
      next
        case False
        have "take q (render_headers (kv # hs)) = take q (k @ '': '' @ v @ [CR])"
        proof -
          have "render_headers (kv # hs) = (k @ '': '' @ v @ [CR]) @ LF # render_headers hs"
            using kv by (simp add: render_headers_Cons)
          moreover have "q \<le> length (k @ '': '' @ v @ [CR])" using True by simp
          ultimately show ?thesis by (metis append_take_drop_id diff_is_0_eq take0 take_append append_Nil2)
        qed
        moreover have "length (take q (k @ '': '' @ v @ [CR])) = q" using True by simp
        ultimately show ?thesis using False kv
          by (intro disjI2 exI [of _ 0] exI [of _ k] exI [of _ v] exI [of _ "take q (k @ '': '' @ v @ [CR])"])
            (auto simp del: take_append)
      qed
    next
      case False
      have "render_headers (kv # hs) = ?l @ render_headers hs" using kv by (simp add: render_headers_Cons)
      then have tk: "take q (render_headers (kv # hs)) = ?l @ take (q - length ?l) (render_headers hs)"
        using False take_all [of ?l q] by (simp only: take_append not_less)
      have "q - length ?l \<le> length (render_headers hs)"
        using Cons.prems kv by (simp add: render_headers_Cons)
      from Cons.IH [OF this] show ?thesis
      proof (elim disjE exE conjE)
        fix i assume "i \<le> length hs" and "q - length ?l = hdr_end hs i"
        then have "q = hdr_end (kv # hs) (Suc i)"
          using False kv by (simp add: hdr_end_def render_headers_Cons)
        with \<open>i \<le> length hs\<close> show ?thesis by (intro disjI1 exI [of _ "Suc i"]) simp
      next
        fix i k' v' part
        assume "i < length hs" "hs ! i = (k', v')" "part \<noteq> []"
          "take (q - length ?l) (render_headers hs) = render_headers (take i hs) @ part"
          "part = take (length part) (k' @ '': '' @ v' @ [CR])"
        then show ?thesis using tk kv
          by (intro disjI2 exI [of _ "Suc i"] exI [of _ k'] exI [of _ v'] exI [of _ part])
            (simp add: render_headers_Cons)
      qed
    qed
  qed
  then show thesis using that by (metis (no_types, lifting))
qed

text \<open>The machine in the middle of a line stays there as long as it sees no line feed.\<close>

lemma hdr_step_mid_line:
  assumes "h \<in> mid_line" and "mem ! c \<noteq> LF" and "hdr_step mem e c p h rq = Inr a"
  shows "case a of Go p' h' _ \<Rightarrow> h' \<in> mid_line | Ret r h' _ \<Rightarrow> r = PARSE_HEADER_ERROR \<and> h' \<in> mid_line"
  using assms
  by (auto simp: mid_line_def hdr_step_def Let_def log_range_def bind_result_Inr_iff split: if_splits)

lemma hdr_loop_mid_line:
  "h \<in> mid_line \<Longrightarrow> LF \<notin> set (slice c e mem) \<Longrightarrow> e \<le> length mem \<Longrightarrow>
   hdr_loop mem e c p h rq = Inr (r, c', h', rq') \<Longrightarrow> r \<noteq> PARSE_HEADER_SUCCESS \<and> h' \<in> mid_line"
proof (induction mem e c p h rq rule: hdr_loop.induct)
  case (1 mem e c p h rq)
  show ?case
  proof (cases "c < e")
    case True
    then have sl: "slice c e mem = mem ! c # slice (Suc c) e mem" using "1.prems"(3) by (simp add: slice_Cons)
    then have ch: "mem ! c \<noteq> LF" "LF \<notin> set (slice (Suc c) e mem)" using "1.prems"(2) by auto
    from True "1.prems"(4) obtain a where a: "hdr_step mem e c p h rq = Inr a"
      by (cases "hdr_step mem e c p h rq") (auto simp: hdr_loop_fault)
    show ?thesis
      using hdr_step_mid_line [OF "1.prems"(1) ch(1) a] "1.IH" [OF True] "1.prems"(3,4) True a ch(2)
      by (cases a) (auto simp: hdr_loop_go hdr_loop_ret)
  next
    case False
    then show ?thesis using "1.prems" by (simp add: hdr_loop_end)
  qed
qed

lemma hdr_loop_inside_line:
  assumes sl: "slice c e mem = part" and e: "e \<le> length mem" and h: "h \<in> {H_START, H_LF}"
    and kv: "hdr_ok (k, v)" and part: "part \<noteq> []" "part = take (length part) (k @ '': '' @ v @ [CR])"
    and r: "hdr_loop mem e c p h rq = Inr (r, c', h', rq')"
  shows "r \<noteq> PARSE_HEADER_SUCCESS \<and> h' \<in> mid_line"
proof -
  obtain k0 ks where k: "k = k0 # ks" "k0 \<noteq> CR" "k0 \<noteq> LF" using kv by (cases k) (auto simp: hdr_ok_def)
  have no: "LF \<notin> set (k @ '': '' @ v @ [CR])" using kv by (auto simp: hdr_ok_def)
  obtain x xs where px: "part = x # xs" using part(1) by (cases part) auto
  have "x = k0" using arg_cong [OF part(2), of hd] px k(1) by simp
  with slice_ConsD [of c e mem x xs] sl e px
  have c: "c < e" "mem ! c = k0" "slice (Suc c) e mem = xs" by simp_all
  have "set part \<subseteq> set (k @ '': '' @ v @ [CR])" by (subst part(2)) (rule set_take_subset)
  then have "LF \<notin> set xs" using no px by auto
  have "hdr_step mem e c p h rq = Inr (Go (p\<lparr>key_start := Some c\<rparr>) H_KEY rq)"
    using e h c k by (auto simp: hdr_step_def log_range_def)
  then have "hdr_loop mem e (Suc c) (p\<lparr>key_start := Some c\<rparr>) H_KEY rq = Inr (r, c', h', rq')"
    using r c(1) by (simp add: hdr_loop_go)
  then show ?thesis
    using hdr_loop_mid_line [of H_KEY "Suc c" e mem] c(3) \<open>LF \<notin> set xs\<close> e by (auto simp: mid_line_def)
qed

section \<open>The parser between two segments\<close>

text \<open>The request line.\<close>

lemma parseURI_waits:
  assumes "buf_inv buf" and "CR \<notin> set (contents buf)"
  shows "parseURI ctx buf = Inr (PARSE_URI_AGAIN, ctx, buf)"
proof -
  let ?e = "peek buf + readableBytes buf"
  have "std_find (peek buf) ?e CR (buffer buf) = ?e"
    using std_find_none [of CR "peek buf" ?e "buffer buf"] slice_contents [OF assms(1)]
      readable_in_vector [OF assms(1)] assms(2) by simp
  then show ?thesis by (simp add: parseURI_def Let_def)
qed

text \<open>Behind the bytes of a buffer from which nothing was removed yet, the vector is still zero.\<close>

definition clean_tail :: "Buffer \<Rightarrow> bool" where
  "clean_tail b \<longleftrightarrow> readerIndex b = kCheapPrepend \<and>
     (\<forall>x \<in> set (drop (writerIndex b) (buffer b)). x = CHR 0x00)"

lemma clean_tail_new: "clean_tail (new_Buffer n)"
  by (auto simp: clean_tail_def new_Buffer_def)

lemma clean_tail_append:
  assumes "buf_inv b" and "clean_tail b"
  shows "clean_tail (append_buf s b)"
proof (cases "writableBytes b < length s")
  case True
  then have "ensureWritableBytes (length s) b = b\<lparr>buffer := vresize (writerIndex b + length s) (buffer b)\<rparr>"
    using assms by (simp add: ensureWritableBytes_def makeSpace_def clean_tail_def prependableBytes_def)
  then show ?thesis
    using assms by (simp add: append_buf_def Let_def clean_tail_def beginWrite_def)
next
  case False
  then have "ensureWritableBytes (length s) b = b" by (simp add: ensureWritableBytes_def)
  moreover have "writerIndex b + length s \<le> length (buffer b)" using False assms(1) by (auto simp: buffer_defs)
  moreover have "set (drop (writerIndex b + length s) (buffer b)) \<subseteq> set (drop (writerIndex b) (buffer b))"
    by (metis drop_drop add.commute set_drop_subset)
  ultimately show ?thesis
    using assms(2) by (auto simp: append_buf_def Let_def clean_tail_def beginWrite_def copy_in_eq)
qed

lemma clean_tail_not_LF:
  "clean_tail b \<Longrightarrow> writerIndex b < length (buffer b) \<Longrightarrow> buffer b ! writerIndex b \<noteq> LF"
  by (auto simp: clean_tail_def Cons_nth_drop_Suc [symmetric])

text \<open>The context between two header lines, after the first \<open>i\<close> of them.\<close>

definition hdr_ctx ::
    "Timestamp \<Rightarrow> string \<Rightarrow> string \<Rightarrow> string \<Rightarrow> (string \<times> string) list \<Rightarrow> nat \<Rightarrow> HttpContext" where
  "hdr_ctx T m t ver hs i =
     \<lparr>ctxState = STATE_PARSE_HEADERS, hState = (if i = 0 then H_START else H_LF),
      request = request_of T m t ver (take i hs) []\<rparr>"

text \<open>A context from which no request is completed without an error.\<close>

definition dead :: "HttpContext \<Rightarrow> Buffer \<Rightarrow> bool" where
  "dead ctx buf \<longleftrightarrow> ctxState ctx = STATE_PARSE_HEADERS \<and> buf_inv buf \<and>
     (hState ctx \<in> mid_line \<or>
      hState ctx = H_END_CR \<and> contents buf \<noteq> [] \<and> hd (contents buf) \<noteq> LF)"

definition bad_outcome :: "(bool \<times> HttpContext \<times> Buffer) result option \<Rightarrow> bool" where
  "bad_outcome r \<longleftrightarrow>
     (case r of Some (Inr (ok, c, b)) \<Rightarrow> \<not> ok \<or> dead c b | _ \<Rightarrow> True)"

lemma render_headers_take_drop:
  "render_headers hs = render_headers (take i hs) @ render_headers (drop i hs)"
  by (metis append_take_drop_id concat_append map_append render_headers_def)

lemma add_headers_again:
  assumes "i \<le> j"
  shows "add_headers (take j hs) (request_of T m t ver (take i hs) []) = request_of T m t ver (take j hs) []"
proof -
  have "take j hs = take i hs @ take (j - i) (drop i hs)" using assms by (metis le_add_diff_inverse take_add)
  then show ?thesis
    by (auto simp: add_headers_def request_of_def map_add_def fun_eq_iff split: option.splits)
qed

lemma hdr_end_mono: "i \<le> j \<Longrightarrow> hdr_end hs i \<le> hdr_end hs j"
proof -
  assume "i \<le> j"
  then have "render_headers (take j hs) = render_headers (take i hs) @ render_headers (take (j - i) (drop i hs))"
    using render_headers_take_drop [of "take j hs" i] by (simp add: min_absorb1 drop_take)
  then show ?thesis by (simp add: hdr_end_def)
qed

lemma hdr_end_0 [simp]: "hdr_end hs 0 = 0"
  by (simp add: hdr_end_def)

lemma hdr_end_pos: "0 < i \<Longrightarrow> hs \<noteq> [] \<Longrightarrow> 0 < hdr_end hs i"
  by (cases i; cases hs) (auto simp: hdr_end_def render_headers_def split: prod.splits)

lemma take_hdr_end: "take (hdr_end hs i) (render_headers hs @ ys) = render_headers (take i hs)"
  by (subst render_headers_take_drop [of hs i]) (simp add: hdr_end_def)

text \<open>The loop of \<open>parseHeaders\<close> on a buffer that begins with whole header lines.\<close>

lemma hdr_loop_front:
  assumes inv: "buf_inv b" and ok: "\<forall>kv \<in> set hs. hdr_ok kv" and h: "h \<in> {H_START, H_LF}"
    and c: "contents b = render_headers (take j hs) @ ys"
  shows "\<exists>p h'. h' \<in> {H_START, H_LF} \<and> (0 < j \<and> hs \<noteq> [] \<longrightarrow> h' = H_LF) \<and>
    hdr_loop (buffer b) (peek b + readableBytes b) (peek b) null_ptrs h rq
      = hdr_loop (buffer b) (peek b + readableBytes b) (peek b + hdr_end hs j) p h' (add_headers (take j hs) rq)
    \<and> slice (peek b + hdr_end hs j) (peek b + readableBytes b) (buffer b) = ys"
proof -
  let ?e = "peek b + readableBytes b"
  note e = readable_in_vector [OF inv]
  have sl: "slice (peek b) ?e (buffer b) = render_headers (take j hs) @ ys"
    using slice_contents [OF inv] c by simp
  have rest: "slice (peek b + hdr_end hs j) ?e (buffer b) = ys"
    using slice_decomp(2) [OF sl e] by (simp add: hdr_end_def)
  show ?thesis
  proof (cases "take j hs = []")
    case True
    then show ?thesis using rest h
      by (intro exI [of _ null_ptrs] exI [of _ h]) (auto simp: hdr_end_def add_headers_def)
  next
    case False
    have "\<forall>kv \<in> set (take j hs). hdr_ok kv" using ok by (meson in_set_takeD)
    from hdr_loop_lines [OF sl e this h, of null_ptrs rq] False rest show ?thesis
      by (auto simp: hdr_end_def)
  qed
qed

text \<open>A call in the header state that does not see the empty line removes nothing from the buffer.\<close>

lemma parseRequest_headers_again:
  assumes "ctxState ctx = STATE_PARSE_HEADERS" and "readableBytes b \<noteq> 0"
    and "hdr_loop (buffer b) (peek b + readableBytes b) (peek b) null_ptrs (hState ctx) (request ctx)
      = Inr (r, c', h', rq')" and "r \<noteq> PARSE_HEADER_SUCCESS"
  shows "parseRequest T ctx b
      = Some (Inr (r \<noteq> PARSE_HEADER_ERROR, ctx\<lparr>hState := h', request := rq'\<rparr>, b))"
  using assms by (cases r) (simp_all add: parseRequest.simps [of T ctx] parse_iter_def parseHeaders_def Let_def)

lemma parseRequest_headers_fault:
  assumes "ctxState ctx = STATE_PARSE_HEADERS" and "readableBytes b \<noteq> 0"
    and "hdr_loop (buffer b) (peek b + readableBytes b) (peek b) null_ptrs (hState ctx) (request ctx) = Inl e"
  shows "parseRequest T ctx b = Some (Inl e)"
  using assms by (simp add: parseRequest.simps [of T ctx] parse_iter_def parseHeaders_def Let_def)

lemma hdr_ctx_simps [simp]:
  "ctxState (hdr_ctx T m t ver hs i) = STATE_PARSE_HEADERS"
  "hState (hdr_ctx T m t ver hs i) = (if i = 0 then H_START else H_LF)"
  "request (hdr_ctx T m t ver hs i) = request_of T m t ver (take i hs) []"
  by (simp_all add: hdr_ctx_def)

lemma hdr_ctx_hState: "hState (hdr_ctx T m t ver hs i) \<in> {H_START, H_LF}"
  by simp

text \<open>The input ends at a header line boundary.\<close>

lemma headers_boundary:
  assumes inv: "buf_inv b" and ok: "\<forall>kv \<in> set hs. hdr_ok kv" and hs: "hs \<noteq> []" and ij: "i \<le> j"
    and c: "contents b = render_headers (take j hs)"
  shows "parseRequest T (hdr_ctx T1 m t ver hs i) b = Some (Inr (True, hdr_ctx T1 m t ver hs j, b))"
proof (cases "j = 0")
  case True
  then have "readableBytes b = 0" using c readableBytes_0_iff [OF inv] by simp
  then show ?thesis using True ij
    by (subst parseRequest.simps) (simp add: parse_iter_def parseHeaders_def)
next
  case False
  let ?ctx = "hdr_ctx T1 m t ver hs i"
  have ne: "readableBytes b \<noteq> 0"
    using c length_contents [OF inv] hdr_end_pos [of j hs] False hs by (simp add: hdr_end_def)
  have "contents b = render_headers (take j hs) @ []" using c by simp
  from hdr_loop_front [OF inv ok hdr_ctx_hState this, of T1 m t ver hs i "request ?ctx"] False hs obtain p where
    "hdr_loop (buffer b) (peek b + readableBytes b) (peek b) null_ptrs (hState ?ctx) (request ?ctx)
      = hdr_loop (buffer b) (peek b + readableBytes b) (peek b + hdr_end hs j) p H_LF
          (request_of T1 m t ver (take j hs) [])"
    by (auto simp: add_headers_again [OF ij])
  also have "\<dots> = Inr (PARSE_HEADER_AGAIN, peek b + hdr_end hs j, H_LF, request_of T1 m t ver (take j hs) [])"
    using c length_contents [OF inv] by (intro hdr_loop_end) (simp add: hdr_end_def)
  finally have "parseRequest T ?ctx b
      = Some (Inr (True, ?ctx\<lparr>hState := H_LF, request := request_of T1 m t ver (take j hs) []\<rparr>, b))"
    using ne by (subst parseRequest_headers_again [OF _ ne]) auto
  then show ?thesis using False by (simp add: hdr_ctx_def)
qed

text \<open>The input ends behind the empty line.\<close>

lemma headers_complete:
  assumes inv: "buf_inv b" and ok: "\<forall>kv \<in> set hs. hdr_ok kv" and hs: "hs \<noteq> []" and i: "i \<le> length hs"
    and c: "contents b = render_headers hs @ CRLF @ ys"
  shows "\<exists>b'. parseRequest T (hdr_ctx T1 m t ver hs i) b
      = parseRequest T (head_ctx T1 m t ver hs
          (if m = ''POST'' then STATE_RECV_BODY else STATE_ANALYSIS) []) b'
    \<and> buf_inv b' \<and> contents b' = ys"
proof -
  let ?ctx = "hdr_ctx T1 m t ver hs i"
  from parseHeaders_block [OF inv hdr_ctx_hState hs ok c, of T1 m t ver hs i] obtain b' where
    h: "parseHeaders ?ctx b = Inr (PARSE_HEADER_SUCCESS,
        ?ctx\<lparr>hState := H_END_LF, request := add_headers hs (request ?ctx)\<rparr>, b')"
      "buf_inv b'" "contents b' = ys" by auto
  have rq: "add_headers hs (request ?ctx) = request_of T1 m t ver hs []"
    using add_headers_again [OF i, of hs T1 m t ver] by simp
  have "parse_iter T ?ctx b = Inr (True, True, head_ctx T1 m t ver hs
      (if m = ''POST'' then STATE_RECV_BODY else STATE_ANALYSIS) [], b')"
    unfolding parse_iter_def using h(1) rq
    by (simp add: head_ctx_def hdr_ctx_def) (simp add: request_of_def method_of_name_Post)
  then have "parseRequest T ?ctx b = parseRequest T (head_ctx T1 m t ver hs
      (if m = ''POST'' then STATE_RECV_BODY else STATE_ANALYSIS) []) b'"
    by (simp add: parseRequest.simps [of T ?ctx])
  with h(2,3) show ?thesis by blast
qed

text \<open>The input ends anywhere else in the header block.\<close>

lemma headers_inside_line:
  assumes inv: "buf_inv b" and ok: "\<forall>kv \<in> set hs. hdr_ok kv" and hs: "hs \<noteq> []"
    and l: "l < length hs" "hs ! l = (k, v)" and part: "part \<noteq> []" "part = take (length part) (k @ '': '' @ v @ [CR])"
    and c: "contents b = render_headers (take l hs) @ part"
  shows "bad_outcome (parseRequest T (hdr_ctx T1 m t ver hs i) b)"
proof -
  let ?ctx = "hdr_ctx T1 m t ver hs i" and ?e = "peek b + readableBytes b"
  have ne: "readableBytes b \<noteq> 0" using c part(1) readableBytes_0_iff [OF inv] by simp
  have kv: "hdr_ok (k, v)" using ok l nth_mem by fastforce
  from hdr_loop_front [OF inv ok hdr_ctx_hState c, of T1 m t ver hs i "request ?ctx"] obtain p h' where
    f: "h' \<in> {H_START, H_LF}"
      "hdr_loop (buffer b) ?e (peek b) null_ptrs (hState ?ctx) (request ?ctx)
        = hdr_loop (buffer b) ?e (peek b + hdr_end hs l) p h' (add_headers (take l hs) (request ?ctx))"
      "slice (peek b + hdr_end hs l) ?e (buffer b) = part"
    by auto
  show ?thesis
  proof (cases "hdr_loop (buffer b) ?e (peek b) null_ptrs (hState ?ctx) (request ?ctx)")
    case (Inl e)
    then show ?thesis using parseRequest_headers_fault [OF _ ne Inl] by (simp add: bad_outcome_def)
  next
    case (Inr x)
    obtain r c' h2 rq' where x: "x = (r, c', h2, rq')" by (cases x)
    then have "r \<noteq> PARSE_HEADER_SUCCESS \<and> h2 \<in> mid_line"
      using hdr_loop_inside_line [OF f(3) readable_in_vector [OF inv] f(1) kv part] f(2) Inr by simp
    then show ?thesis
      using parseRequest_headers_again [OF _ ne Inr [unfolded x]] inv by (simp add: bad_outcome_def dead_def)
  qed
qed

lemma headers_before_last_lf:
  assumes inv: "buf_inv b" and ok: "\<forall>kv \<in> set hs. hdr_ok kv" and hs: "hs \<noteq> []" and i: "i \<le> length hs"
    and c: "contents b = render_headers hs @ [CR]"
  shows "bad_outcome (parseRequest T (hdr_ctx T1 m t ver hs i) b)"
proof -
  let ?ctx = "hdr_ctx T1 m t ver hs i" and ?e = "peek b + readableBytes b"
    and ?c = "peek b + hdr_end hs (length hs)" and ?rq = "request_of T1 m t ver hs []"
  have ne: "readableBytes b \<noteq> 0" using c readableBytes_0_iff [OF inv] by simp
  obtain k v hs' where kv: "hs = (k, v) # hs'" using hs by (cases hs) auto
  then obtain k0 ks where k0: "k = k0 # ks" "k0 \<noteq> LF" using ok by (cases k) (auto simp: hdr_ok_def)
  have hd: "hd (contents b) \<noteq> LF" using c kv k0 by (simp add: render_headers_Cons)
  have "contents b = render_headers (take (length hs) hs) @ [CR]" using c by simp
  from hdr_loop_front [OF inv ok hdr_ctx_hState this, of T1 m t ver hs i "request ?ctx"] hs obtain p where
    f: "hdr_loop (buffer b) ?e (peek b) null_ptrs (hState ?ctx) (request ?ctx) = hdr_loop (buffer b) ?e ?c p H_LF ?rq"
      "slice ?c ?e (buffer b) = [CR]"
    using add_headers_again [OF i, of hs T1 m t ver] by auto
  note cr = slice_ConsD [OF f(2) readable_in_vector [OF inv]]
  have "hdr_loop (buffer b) ?e ?c p H_LF ?rq = hdr_loop (buffer b) ?e (Suc ?c) p H_END_CR ?rq"
    using cr readable_in_vector [OF inv] by (intro hdr_loop_go) (auto simp: hdr_step_def log_range_def)
  also have "\<dots> = Inr (PARSE_HEADER_AGAIN, Suc ?c, H_END_CR, ?rq)"
    using c length_contents [OF inv] by (intro hdr_loop_end) (simp add: hdr_end_def)
  finally show ?thesis
    using parseRequest_headers_again [OF _ ne f(1) [THEN trans], of _ _ _ _ T] c inv hd
    by (simp add: bad_outcome_def dead_def)
qed

text \<open>The state between two segments, when the first \<open>n\<close> bytes of the message have been parsed.\<close>

definition at_cut ::
    "string \<Rightarrow> string \<Rightarrow> string \<Rightarrow> (string \<times> string) list \<Rightarrow> string \<Rightarrow> Timestamp \<Rightarrow> nat \<Rightarrow>
     HttpContext \<Rightarrow> Buffer \<Rightarrow> bool" where
  "at_cut m t ver hs bd T n ctx b \<longleftrightarrow> buf_inv b \<and>
     (let l = line_end m t ver; k = l + hdr_end hs (length hs) + 2
      in n + 2 \<le> l \<and> ctx = new_HttpContext \<and> clean_tail b \<and> contents b = take n (render_line m t ver)
       \<or> (\<exists>i \<le> length hs. n = l + hdr_end hs i \<and> ctx = hdr_ctx T m t ver hs i \<and>
            contents b = render_headers (take i hs))
       \<or> k \<le> n \<and> n < k + length bd \<and> ctx = head_ctx T m t ver hs STATE_RECV_BODY [] \<and>
            contents b = take (n - k) bd \<and> m = ''POST'')"

definition msg_end :: "string \<Rightarrow> string \<Rightarrow> string \<Rightarrow> (string \<times> string) list \<Rightarrow> string \<Rightarrow> nat" where
  "msg_end m t ver hs bd = line_end m t ver + hdr_end hs (length hs) + 2 + length bd"

lemma length_render_request: "length (render_request m t ver hs bd) = msg_end m t ver hs bd"
  by (simp add: render_request_def msg_end_def line_end_def hdr_end_def)

text \<open>What one call gives when the input then reaches up to position \<open>n\<close>.\<close>

definition step_result ::
    "string \<Rightarrow> string \<Rightarrow> string \<Rightarrow> (string \<times> string) list \<Rightarrow> string \<Rightarrow> Timestamp \<Rightarrow> nat \<Rightarrow>
     (bool \<times> HttpContext \<times> Buffer) result option \<Rightarrow> bool" where
  "step_result m t ver hs bd T n r \<longleftrightarrow>
     (if n = msg_end m t ver hs bd
      then \<exists>b. r = Some (Inr (True, head_ctx T m t ver hs STATE_FINISH bd, b)) \<and> contents b = []
      else if safe_cut m t ver hs n
      then \<exists>ctx b. r = Some (Inr (True, ctx, b)) \<and> \<not> gotAll ctx \<and> at_cut m t ver hs bd T n ctx b
      else bad_outcome r)"

lemma body_phase:
  assumes ok: "request_ok m t ver hs bd" and inv: "buf_inv b" and x: "x \<le> length bd"
    and c: "contents b = take x bd"
  shows "step_result m t ver hs bd T (line_end m t ver + hdr_end hs (length hs) + 2 + x)
    (parseRequest T' (head_ctx T m t ver hs (if m = ''POST'' then STATE_RECV_BODY else STATE_ANALYSIS) []) b)"
proof (cases "x = length bd")
  case True
  then have "contents b = bd @ []" using c by simp
  from parseRequest_after_head [OF ok inv this, of T' T] True show ?thesis
    by (auto simp: step_result_def msg_end_def)
next
  case False
  let ?ctx = "head_ctx T m t ver hs STATE_RECV_BODY []"
  have len: "readableBytes b < length bd" using False x c length_contents [OF inv] by simp
  then have "bd \<noteq> []" by auto
  then have cl: "m = ''POST''" "map_of (rev hs) ''Content-Length'' = Some (dec (length bd))" "length bd < 2 ^ 64"
    using ok by (auto simp: request_ok_def split: if_splits)
  then have "parse_iter T' ?ctx b = Inr (False, True, ?ctx, b)"
    using len by (simp add: parse_iter_def head_ctx_def request_of_def stoul_dec)
  then have "parseRequest T' ?ctx b = Some (Inr (True, ?ctx, b))" by (simp add: parseRequest.simps [of T' ?ctx])
  moreover have "at_cut m t ver hs bd T (line_end m t ver + hdr_end hs (length hs) + 2 + x) ?ctx b"
    unfolding at_cut_def Let_def using inv c cl(1) x False by simp
  moreover have "\<not> gotAll ?ctx" by (simp add: gotAll_def head_ctx_def)
  ultimately show ?thesis using False cl(1) by (auto simp: step_result_def msg_end_def safe_cut_def)
qed

lemma hdr_phase:
  assumes ok: "request_ok m t ver hs bd" and inv: "buf_inv b" and i: "i \<le> length hs"
    and q: "hdr_end hs i < q \<or> i = 0" "q \<le> hdr_end hs (length hs) + 2 + length bd"
    and c: "contents b = take q (render_headers hs @ CRLF @ bd)"
  shows "step_result m t ver hs bd T (line_end m t ver + q) (parseRequest T' (hdr_ctx T m t ver hs i) b)"
proof -
  have hs: "hs \<noteq> []" and hok: "\<forall>kv \<in> set hs. hdr_ok kv" using ok by (simp_all add: request_ok_def)
  let ?H = "hdr_end hs (length hs)"
  have H: "?H = length (render_headers hs)" by (simp add: hdr_end_def)
  consider j where "j \<le> length hs" "q = hdr_end hs j" | "q < ?H" "\<forall>j \<le> length hs. q \<noteq> hdr_end hs j"
    | "q = ?H + 1" | "?H + 2 \<le> q" by fastforce
  then show ?thesis
  proof cases
    case 1
    then have ij: "i \<le> j" using q(1) hdr_end_mono [of j i hs] by force
    have "contents b = render_headers (take j hs)" using c 1(2) by (simp only: take_hdr_end)
    note r = headers_boundary [OF inv hok hs ij this, of T' T m t ver]
    have "q \<le> ?H" using 1 hdr_end_mono by simp
    then have "line_end m t ver + q \<noteq> msg_end m t ver hs bd" by (simp add: msg_end_def)
    moreover have "safe_cut m t ver hs (line_end m t ver + q)"
      unfolding safe_cut_def using 1 by (intro disjI2 disjI1 bexI [of _ j]) (auto simp del: upt_Suc)
    moreover have "at_cut m t ver hs bd T (line_end m t ver + q) (hdr_ctx T m t ver hs j) b"
      unfolding at_cut_def Let_def using inv 1 \<open>contents b = render_headers (take j hs)\<close> by auto
    ultimately show ?thesis using r by (simp add: step_result_def gotAll_def)
  next
    case 2
    then have unsafe: "\<not> safe_cut m t ver hs (line_end m t ver + q)" by (auto simp: safe_cut_def)
    have ne: "line_end m t ver + q \<noteq> msg_end m t ver hs bd" using 2(1) by (simp add: msg_end_def)
    have cq: "contents b = take q (render_headers hs)" using c 2(1) H by simp
    have "q \<le> length (render_headers hs)" using 2(1) H by simp
    then have "bad_outcome (parseRequest T' (hdr_ctx T m t ver hs i) b)"
    proof (cases rule: header_prefix_cases)
      case (boundary j)
      then show ?thesis using 2(2) by simp
    next
      case (inside l k v part)
      show ?thesis using headers_inside_line [OF inv hok hs inside(1-3,5)] cq inside(4) by simp
    qed
    then show ?thesis using unsafe ne by (simp add: step_result_def)
  next
    case 3
    have cq: "contents b = render_headers hs @ [CR]" using c 3 H by simp
    have "q \<noteq> hdr_end hs j" if "j \<le> length hs" for j using hdr_end_mono [OF that, of hs] 3 by simp
    then have "\<not> safe_cut m t ver hs (line_end m t ver + q)" using 3 by (auto simp: safe_cut_def)
    moreover have "line_end m t ver + q \<noteq> msg_end m t ver hs bd" using 3 by (simp add: msg_end_def)
    ultimately show ?thesis
      using headers_before_last_lf [OF inv hok hs i cq] by (simp add: step_result_def)
  next
    case 4
    then obtain x where x: "q = ?H + 2 + x" using le_Suc_ex by blast
    have "contents b = render_headers hs @ CRLF @ take x bd" using c x H by simp
    from headers_complete [OF inv hok hs i this, of T' T m t ver] obtain b' where
      b': "parseRequest T' (hdr_ctx T m t ver hs i) b = parseRequest T' (head_ctx T m t ver hs
          (if m = ''POST'' then STATE_RECV_BODY else STATE_ANALYSIS) []) b'"
        "buf_inv b'" "contents b' = take x bd" by blast
    have "x \<le> length bd" using q(2) x by simp
    from body_phase [OF ok b'(2) this b'(3), of T T'] b'(1) x show ?thesis by (simp add: add.assoc)
  qed
qed

lemma uri_line_phase:
  assumes ok: "request_ok m t ver hs bd" and inv: "buf_inv b"
    and q: "q \<le> hdr_end hs (length hs) + 2 + length bd"
    and c: "contents b = render_line m t ver @ take q (render_headers hs @ CRLF @ bd)"
  shows "step_result m t ver hs bd T (line_end m t ver + q) (parseRequest T new_HttpContext b)"
proof -
  have parts: "method_of_name m \<noteq> kInvalid" "target_ok t" "ver \<in> {''HTTP/1.0'', ''HTTP/1.1''}"
    using ok by (simp_all add: request_ok_def)
  from parseURI_line [OF inv parts c, of new_HttpContext] obtain b1 where
    i1: "parse_iter T new_HttpContext b = Inr (True, True, hdr_ctx T m t ver hs 0, b1)" "buf_inv b1"
      "contents b1 = take q (render_headers hs @ CRLF @ bd)"
    by (auto simp: parse_iter_def new_HttpContext_def new_HttpRequest_def request_of_def hdr_ctx_def)
  from hdr_phase [OF ok i1(2) _ _ q i1(3), of 0 T T] i1(1) show ?thesis
    by (simp add: parseRequest.simps [of T new_HttpContext])
qed

lemma uri_phase_waits:
  assumes ok: "request_ok m t ver hs bd" and inv: "buf_inv b" and n: "n + 2 \<le> line_end m t ver"
    and c: "contents b = take n (render_request m t ver hs bd)"
  shows "parseRequest T new_HttpContext b = Some (Inr (True, new_HttpContext, b))"
proof -
  let ?l = "m @ CHR '' '' # t @ CHR '' '' # ver"
  have clean: "CR \<notin> set ?l" using method_names_clean [of m] ok by (auto simp: target_ok_def request_ok_def)
  have "render_request m t ver hs bd = ?l @ CR # LF # render_headers hs @ CRLF @ bd"
    by (simp add: render_request_def render_line_def)
  then have "contents b = take n ?l" using n unfolding c by (simp only: take_append) (simp add: line_end_def render_line_def)
  then have "CR \<notin> set (contents b)" using clean set_take_subset [of n ?l] by auto
  from parseURI_waits [OF inv this, of new_HttpContext] show ?thesis
    by (subst parseRequest.simps) (simp add: parse_iter_def new_HttpContext_def)
qed

lemma uri_phase:
  assumes ok: "request_ok m t ver hs bd" and inv: "buf_inv b" and tail: "clean_tail b"
    and n: "n \<le> msg_end m t ver hs bd" and c: "contents b = take n (render_request m t ver hs bd)"
  shows "step_result m t ver hs bd T n (parseRequest T new_HttpContext b)"
proof -
  let ?l = "m @ CHR '' '' # t @ CHR '' '' # ver"
  have parts: "method_of_name m \<noteq> kInvalid" "target_ok t" "ver \<in> {''HTTP/1.0'', ''HTTP/1.1''}"
    using ok by (simp_all add: request_ok_def)
  have L: "line_end m t ver = length ?l + 2" by (simp add: line_end_def render_line_def)
  have msg: "render_request m t ver hs bd = ?l @ CR # LF # render_headers hs @ CRLF @ bd"
    by (simp add: render_request_def render_line_def)
  consider "n \<le> length ?l" | "n = length ?l + 1" | "length ?l + 2 \<le> n" by linarith
  then show ?thesis
  proof cases
    case 1
    then have cn: "contents b = take n ?l" unfolding c msg by (simp only: take_append) simp
    have "n + 2 \<le> line_end m t ver" using 1 L by simp
    from uri_phase_waits [OF ok inv this c, of T]
    have "parseRequest T new_HttpContext b = Some (Inr (True, new_HttpContext, b))" .
    moreover have "n \<noteq> msg_end m t ver hs bd" and "safe_cut m t ver hs n"
      using 1 L by (simp_all add: msg_end_def safe_cut_def)
    moreover have "contents b = take n (render_line m t ver)"
    proof -
      have "render_line m t ver = ?l @ CRLF" by (simp add: render_line_def)
      then show ?thesis using cn 1 by (simp only: take_append) simp
    qed
    then have "at_cut m t ver hs bd T n new_HttpContext b"
      unfolding at_cut_def Let_def using inv tail 1 L by simp
    ultimately show ?thesis by (simp add: step_result_def gotAll_def new_HttpContext_def)
  next
    case 2
    then have "n = length (?l @ [CR])" by simp
    moreover have "render_request m t ver hs bd = (?l @ [CR]) @ LF # render_headers hs @ CRLF @ bd"
      by (simp add: msg)
    ultimately have cn: "contents b = ?l @ [CR]" unfolding c by (metis append_eq_conv_conj)
    then have "contents b = m @ CHR '' '' # t @ CHR '' '' # ver @ [CR]" by simp
    from parseURI_cut_before_lf [OF inv parts this clean_tail_not_LF [OF tail], of new_HttpContext]
    have "bad_outcome (parseRequest T new_HttpContext b)"
      by (subst parseRequest.simps) (auto simp: parse_iter_def new_HttpContext_def bad_outcome_def)
    moreover have "\<not> safe_cut m t ver hs n" using 2 L by (auto simp: safe_cut_def)
    moreover have "n \<noteq> msg_end m t ver hs bd" using 2 L by (simp add: msg_end_def)
    ultimately show ?thesis by (simp add: step_result_def)
  next
    case 3
    then obtain q where q: "n = line_end m t ver + q" using L le_Suc_ex by metis
    then have "contents b = render_line m t ver @ take q (render_headers hs @ CRLF @ bd)"
      unfolding c by (simp add: render_request_def line_end_def)
    moreover have "q \<le> hdr_end hs (length hs) + 2 + length bd" using n q by (simp add: msg_end_def)
    ultimately show ?thesis using uri_line_phase [OF ok inv, of q T] q by simp
  qed
qed

text \<open>One segment.\<close>

lemma feed_step:
  assumes ok: "request_ok m t ver hs bd" and at: "at_cut m t ver hs bd T1 n ctx b"
    and s: "s \<noteq> []" "render_request m t ver hs bd = take n (render_request m t ver hs bd) @ s @ rest"
  shows "\<exists>T2 \<in> {T1, T}. step_result m t ver hs bd T2 (n + length s) (parseRequest T ctx (append_buf s b))"
proof -
  let ?msg = "render_request m t ver hs bd" and ?b = "append_buf s b"
  let ?l = "line_end m t ver" and ?H = "hdr_end hs (length hs)"
  have inv: "buf_inv b" using at by (simp add: at_cut_def)
  then have b: "buf_inv ?b" "contents ?b = contents b @ s"
    by (simp_all add: append_buf_inv contents_append_buf)
  have nl: "n + length s \<le> length ?msg" using arg_cong [OF s(2), of length] s(1)
    by (cases "n \<le> length ?msg") auto
  then have n': "n + length s \<le> msg_end m t ver hs bd" by (simp only: length_render_request)
  have tk: "take (n + length s) ?msg = take n ?msg @ s"
    using nl by (subst (1) s(2)) simp
  have dr: "drop k (take (n + length s) ?msg) = drop k (take n ?msg) @ s" if "k \<le> n" for k
    using tk nl that by simp
  have lp: "length (render_line m t ver) = ?l" by (simp add: line_end_def)
  from at show ?thesis
    unfolding at_cut_def Let_def
  proof (elim conjE disjE exE)
    assume h: "n + 2 \<le> ?l" "ctx = new_HttpContext" "clean_tail b" "contents b = take n (render_line m t ver)"
    then have "contents ?b = take (n + length s) ?msg"
      using b(2) tk lp by (simp add: render_request_def)
    from uri_phase [OF ok b(1) clean_tail_append [OF inv h(3)] n' this, of T] h(2) show ?thesis by simp
  next
    fix i assume h: "i \<le> length hs" "n = ?l + hdr_end hs i" "ctx = hdr_ctx T1 m t ver hs i"
      "contents b = render_headers (take i hs)"
    have "drop ?l (take n ?msg) = contents b"
      using h(2,4) lp take_hdr_end [of hs i "CRLF @ bd"] by (simp add: render_request_def)
    then have "contents ?b = take (hdr_end hs i + length s) (render_headers hs @ CRLF @ bd)"
      using dr [of ?l] b(2) h(2) lp by (simp add: render_request_def drop_take add.assoc)
    moreover have "hdr_end hs i + length s \<le> ?H + 2 + length bd" using n' h(2) by (simp add: msg_end_def)
    moreover have "hdr_end hs i < hdr_end hs i + length s \<or> i = 0" using s(1) by simp
    ultimately show ?thesis
      using hdr_phase [OF ok b(1) h(1), of "hdr_end hs i + length s" T1 T] h(2,3) by (simp add: add.assoc)
  next
    assume h: "?l + ?H + 2 \<le> n" "n < ?l + ?H + 2 + length bd" "ctx = head_ctx T1 m t ver hs STATE_RECV_BODY []"
      "contents b = take (n - (?l + ?H + 2)) bd" "m = ''POST''"
    let ?k = "?l + ?H + 2" and ?x = "n - (?l + ?H + 2) + length s"
    have "?msg = (render_line m t ver @ render_headers hs @ CRLF) @ bd" by (simp add: render_request_def)
    moreover have "length (render_line m t ver @ render_headers hs @ CRLF) = ?k" using lp by (simp add: hdr_end_def)
    ultimately have "drop ?k ?msg = bd" by (metis append_eq_conv_conj)
    then have pre: "drop ?k (take j ?msg) = take (j - ?k) bd" for j by (simp add: drop_take)
    have "contents ?b = take ?x bd"
      using dr [of ?k] b(2) h(1,4) by (simp only: pre) simp
    moreover have eq: "?l + ?H + 2 + ?x = n + length s" using h(1) by simp
    moreover have "?x \<le> length bd" using n' h(1,2) by (simp add: msg_end_def)
    ultimately show ?thesis
      using body_phase [OF ok b(1), of ?x T1 T, unfolded eq] h(3,5) by simp
  qed
qed

text \<open>A dead context stays dead, or reports an error.\<close>

lemma dead_step:
  assumes "dead ctx b"
  shows "bad_outcome (parseRequest T ctx (append_buf s b))"
proof -
  let ?b = "append_buf s b"
  have st: "ctxState ctx = STATE_PARSE_HEADERS" and inv: "buf_inv b" "buf_inv ?b"
    using assms by (simp_all add: dead_def append_buf_inv)
  have ct: "contents ?b = contents b @ s" using inv by (simp add: contents_append_buf)
  obtain r where r: "parseRequest T ctx ?b = Some r" using parseRequest_returns [of ctx T ?b] st by auto
  show ?thesis
  proof (cases r)
    case (Inl e)
    then show ?thesis using r by (simp add: bad_outcome_def)
  next
    case (Inr x)
    obtain ok c b' where x: "x = (ok, c, b')" by (cases x)
    show ?thesis
    proof (cases "hState ctx \<in> mid_line")
      case True
      then show ?thesis
        using parseRequest_mid_line [OF st True, of T ?b ok c b'] parseRequest_consumes [of T ctx ?b ok c b'] r Inr x inv
        by (simp add: bad_outcome_def dead_def consumes_def)
    next
      case False
      then have h: "hState ctx = H_END_CR" "contents b \<noteq> []" "hd (contents b) \<noteq> LF"
        using assms by (simp_all add: dead_def)
      then obtain y ys where y: "contents ?b = y # ys" "y \<noteq> LF" using ct by (cases "contents b") auto
      let ?e = "peek ?b + readableBytes ?b"
      have sl: "slice (peek ?b) ?e (buffer ?b) = y # ys" using slice_contents [OF inv(2)] y(1) by simp
      have ne: "readableBytes ?b \<noteq> 0" using y readableBytes_0_iff [OF inv(2)] by simp
      have "hdr_loop (buffer ?b) ?e (peek ?b) null_ptrs (hState ctx) (request ctx)
          = Inr (PARSE_HEADER_ERROR, peek ?b, H_END_CR, request ctx)"
        using slice_ConsD [OF sl readable_in_vector [OF inv(2)]] y(2) h(1)
        by (intro hdr_loop_ret) (auto simp: hdr_step_def)
      from parseRequest_headers_again [OF st ne this] show ?thesis by (simp add: bad_outcome_def)
    qed
  qed
qed

section \<open>Any segmentation\<close>

definition clean_result :: "(bool \<times> HttpContext \<times> Buffer) result option \<Rightarrow> bool" where
  "clean_result r \<longleftrightarrow> (case r of Some (Inr (ok, c, b)) \<Rightarrow> ok \<and> gotAll c | _ \<Rightarrow> False)"

lemma feed_bad:
  assumes "bad_outcome (parseRequest (fst seg) ctx (append_buf (snd seg) b))"
    and "\<And>ctx b. dead ctx b \<Longrightarrow> \<not> clean_result (feed ctx b segs)"
  shows "\<not> clean_result (feed ctx b (seg # segs))"
proof (cases "parseRequest (fst seg) ctx (append_buf (snd seg) b)")
  case None
  then show ?thesis by (simp add: clean_result_def)
next
  case (Some r)
  show ?thesis
  proof (cases r)
    case (Inl e)
    then show ?thesis using Some by (simp add: clean_result_def)
  next
    case (Inr x)
    obtain ok c b' where x: "x = (ok, c, b')" by (cases x)
    then have "ok \<Longrightarrow> dead c b'" using assms(1) Some Inr by (simp add: bad_outcome_def)
    then have "ok \<Longrightarrow> \<not> gotAll c" and "ok \<Longrightarrow> \<not> clean_result (feed c b' segs)"
      using assms(2) by (simp_all add: dead_def gotAll_def)
    then show ?thesis using Some Inr x
      by (auto simp: clean_result_def split: option.splits sum.splits prod.splits)
  qed
qed

lemma feed_dead: "dead ctx b \<Longrightarrow> \<not> clean_result (feed ctx b segs)"
proof (induction segs arbitrary: ctx b)
  case Nil
  then show ?case by (simp add: clean_result_def gotAll_def dead_def)
next
  case (Cons seg segs)
  show ?case by (rule feed_bad [OF dead_step [OF Cons.prems]]) (rule Cons.IH)
qed

text \<open>The result of feeding the rest of the message from position \<open>n\<close>.\<close>

lemma feed_from:
  assumes ok: "request_ok m t ver hs bd"
  shows "at_cut m t ver hs bd T1 n ctx b \<Longrightarrow> segs \<noteq> [] \<Longrightarrow> \<forall>seg \<in> set segs. snd seg \<noteq> [] \<Longrightarrow>
    render_request m t ver hs bd = take n (render_request m t ver hs bd) @ concat (map snd segs) \<Longrightarrow>
    (if \<forall>c \<in> set (cuts (map snd segs)). safe_cut m t ver hs (n + c)
     then \<exists>T \<in> insert T1 (fst ` set segs). \<exists>b'.
       feed ctx b segs = Some (Inr (True, head_ctx T m t ver hs STATE_FINISH bd, b')) \<and> contents b' = []
     else \<not> clean_result (feed ctx b segs))"
proof (induction segs arbitrary: T1 n ctx b)
  case Nil
  then show ?case by simp
next
  case (Cons seg segs)
  obtain T s where seg: "seg = (T, s)" by (cases seg)
  let ?msg = "render_request m t ver hs bd" and ?r = "parseRequest T ctx (append_buf s b)"
  have sne: "s \<noteq> []" using Cons.prems(3) seg by simp
  have msg: "?msg = take n ?msg @ s @ concat (map snd segs)" using Cons.prems(4) seg by simp
  from feed_step [OF ok Cons.prems(1) sne msg] obtain T2 where
    T2: "T2 \<in> {T1, T}" and r: "step_result m t ver hs bd T2 (n + length s) ?r" by blast
  have nl: "n \<le> length ?msg" using arg_cong [OF msg, of length] sne by (cases "n \<le> length ?msg") auto
  then have tot: "msg_end m t ver hs bd = n + length s + length (concat (map snd segs))"
    using arg_cong [OF msg, of length] by (simp add: length_render_request min_absorb2)
  show ?case
  proof (cases segs)
    case Nil
    then obtain b' where "?r = Some (Inr (True, head_ctx T2 m t ver hs STATE_FINISH bd, b'))" "contents b' = []"
      using r tot by (auto simp: step_result_def)
    then show ?thesis using T2 seg Nil by (auto simp: gotAll_def head_ctx_def)
  next
    case (Cons seg2 segs2)
    then have ne: "n + length s \<noteq> msg_end m t ver hs bd"
      using tot Cons.prems(3) by (cases seg2) auto
    show ?thesis
    proof (cases "safe_cut m t ver hs (n + length s)")
      case False
      then have "bad_outcome ?r" using r ne by (simp add: step_result_def)
      then have "\<not> clean_result (feed ctx b (seg # segs))"
        using feed_bad [of seg ctx b segs] feed_dead seg by simp
      moreover have "length s \<in> set (cuts (map snd (seg # segs)))" using seg Cons by (simp add: cuts_Cons2)
      ultimately show ?thesis using False by auto
    next
      case True
      then obtain ctx2 b2 where r2: "?r = Some (Inr (True, ctx2, b2))" "\<not> gotAll ctx2"
          "at_cut m t ver hs bd T2 (n + length s) ctx2 b2"
        using r ne by (auto simp: step_result_def)
      have "?msg = take (n + length s) ?msg @ concat (map snd segs)"
        using msg nl by (metis append.assoc append_eq_conv_conj length_append length_take min_absorb2)
      moreover have "segs \<noteq> []" and "\<forall>seg \<in> set segs. snd seg \<noteq> []" using Cons Cons.prems(3) by simp_all
      ultimately have IH: "if \<forall>c \<in> set (cuts (map snd segs)). safe_cut m t ver hs (n + length s + c)
          then \<exists>T3 \<in> insert T2 (fst ` set segs). \<exists>b'.
            feed ctx2 b2 segs = Some (Inr (True, head_ctx T3 m t ver hs STATE_FINISH bd, b')) \<and> contents b' = []
          else \<not> clean_result (feed ctx2 b2 segs)"
        by (intro Cons.IH [OF r2(3)])
      have cuts: "(\<forall>c \<in> set (cuts (map snd (seg # segs))). safe_cut m t ver hs (n + c)) \<longleftrightarrow>
          (\<forall>c \<in> set (cuts (map snd segs)). safe_cut m t ver hs (n + length s + c))"
        using seg Cons True by (simp add: cuts_Cons2 add.assoc)
      show ?thesis
      proof (cases "\<forall>c \<in> set (cuts (map snd segs)). safe_cut m t ver hs (n + length s + c)")
        case True
        then obtain T3 b' where "T3 \<in> insert T2 (fst ` set segs)"
            "feed ctx2 b2 segs = Some (Inr (True, head_ctx T3 m t ver hs STATE_FINISH bd, b'))" "contents b' = []"
          using IH unfolding if_P [OF True] by blast
        then show ?thesis unfolding cuts using True T2 seg r2(1,2) by auto
      next
        case False
        then have "\<not> clean_result (feed ctx2 b2 segs)" using IH unfolding if_not_P [OF False] by simp
        then have "\<not> clean_result (feed ctx b (seg # segs))"
          using seg r2(1,2) by (auto simp: clean_result_def split: option.splits sum.splits prod.splits)
        then show ?thesis unfolding cuts if_not_P [OF False] .
      qed
    qed
  qed
qed

lemma at_cut_start: "at_cut m t ver hs bd T 0 new_HttpContext (new_Buffer n)"
  by (simp add: at_cut_def Let_def new_Buffer_inv contents_new_Buffer clean_tail_new line_end_def render_line_def)

lemma feed_message:
  assumes ok: "request_ok m t ver hs bd" and ne: "\<forall>seg \<in> set segs. snd seg \<noteq> []"
    and msg: "concat (map snd segs) = render_request m t ver hs bd"
  shows "if \<forall>c \<in> set (cuts (map snd segs)). safe_cut m t ver hs c
     then \<exists>T \<in> fst ` set segs. \<exists>b'. feed new_HttpContext (new_Buffer n) segs
       = Some (Inr (True, head_ctx T m t ver hs STATE_FINISH bd, b')) \<and> contents b' = []
     else \<not> clean_result (feed new_HttpContext (new_Buffer n) segs)"
proof -
  have s: "segs \<noteq> []" using msg by (auto simp: render_request_def render_line_def)
  have eq: "insert (fst (hd segs)) (fst ` set segs) = fst ` set segs" using s by auto
  have "render_request m t ver hs bd = take 0 (render_request m t ver hs bd) @ concat (map snd segs)"
    using msg by simp
  from feed_from [OF ok at_cut_start s ne this, of "fst (hd segs)" n]
  show ?thesis unfolding eq add_0 .
qed

section \<open>Properties\<close>

text \<open>C4. However TCP cuts a well-formed request into segments, if every cut is safe (inside the request line before
  its final CR LF, at the end of the request line or of a header line, or behind the empty line),
  then the calls of the parser, one for each segment, are equivalent to one call on the whole
  message: the same context up to the time stamp, which is that of one of the segments, no error,
  and an empty buffer.\<close>

theorem segments_equivalent:
  assumes "request_ok m t ver hs bd" and "\<forall>seg \<in> set segs. snd seg \<noteq> []"
    and "concat (map snd segs) = render_request m t ver hs bd"
    and "\<forall>c \<in> set (cuts (map snd segs)). safe_cut m t ver hs c"
  shows "\<exists>T \<in> fst ` set segs. \<exists>ctx b b1. feed new_HttpContext (new_Buffer n) segs = Some (Inr (True, ctx, b)) \<and>
    parseRequest T new_HttpContext (append_buf (render_request m t ver hs bd) (new_Buffer n)) = Some (Inr (True, ctx, b1)) \<and>
    gotAll ctx \<and> request ctx = request_of T m t ver hs bd \<and> contents b = [] \<and> contents b1 = []"
proof -
  from feed_message [OF assms(1-3), of n] obtain T b where T: "T \<in> fst ` set segs"
      "feed new_HttpContext (new_Buffer n) segs = Some (Inr (True, head_ctx T m t ver hs STATE_FINISH bd, b))"
      "contents b = []"
    unfolding if_P [OF assms(4)] by blast
  let ?b = "append_buf (render_request m t ver hs bd) (new_Buffer n)"
  have "buf_inv ?b" and "contents ?b = render_request m t ver hs bd @ []"
    by (simp_all add: append_buf_inv new_Buffer_inv contents_append_buf contents_new_Buffer)
  from parseRequest_whole [OF this(1) assms(1) this(2), of T] T show ?thesis
    by (auto simp: gotAll_def head_ctx_def)
qed

theorem segments_equivalent_witness:
  "\<exists>T \<in> {3, 5}. \<exists>ctx b b1.
    feed new_HttpContext (new_Buffer 4) [(3, ''GET /x HT''), (5, ''TP/1.1'' @ CRLF @ ''A: b'' @ CRLF @ CRLF)]
      = Some (Inr (True, ctx, b)) \<and>
    parseRequest T new_HttpContext (append_buf (render_request ''GET'' ''/x'' ''HTTP/1.1'' [(''A'', ''b'')] []) (new_Buffer 4))
      = Some (Inr (True, ctx, b1)) \<and>
    gotAll ctx \<and> request ctx = request_of T ''GET'' ''/x'' ''HTTP/1.1'' [(''A'', ''b'')] [] \<and> contents b = [] \<and> contents b1 = []"
  using segments_equivalent [of "''GET''" "''/x''" "''HTTP/1.1''" "[(''A'', ''b'')]" "[]"
      "[(3, ''GET /x HT''), (5, ''TP/1.1'' @ CRLF @ ''A: b'' @ CRLF @ CRLF)]" 4]
  by (simp add: request_ok_def method_of_name_def target_ok_def hdr_ok_def trimmed_def isspace_def
      render_request_def render_line_def render_headers_def cuts_Cons2 safe_cut_def line_end_def)



text \<open>
  The same request, cut at the same place, on a buffer that has held and released it once: the LF that has not yet arrived
  is found in the bytes of the first request, and the parser finishes.
\<close>

lemma stale_bytes_complete_cut:
  "case feed new_HttpContext (retrieveAll (append_buf (''GET /x HTTP/1.1'' @ CRLF @ ''A: b'' @ CRLF @ CRLF) (new_Buffer 40)))
      [(3, ''GET /x HTTP/1.1'' @ [CR]), (5, [LF] @ ''A: b'' @ CRLF @ CRLF)] of
     Some (Inr (done, ctx, b)) \<Rightarrow> done \<and> gotAll ctx | _ \<Rightarrow> False"
  by code_simp

end
