(* ===== verification/Http_Stream.thy ===== *)
theory Http_Stream
  imports Http_Segments Http_Server Conn_Loop
begin

text \<open>
  The message handler of \<^verbatim>\<open>http/HttpServer.cpp\<close> on a stream: any number of requests one behind the other, in
  segments that need not end where requests end.  \<open>in_message\<close> is the state of the parser in the middle of a
  request, \<open>locate\<close> finds the request a position of the stream lies in, and a session is a sequence of read
  and write events of the connection.  The lemmas show what the handler does with each segment.
\<close>

section \<open>In the middle of a request\<close>

text \<open>
  The first \<open>n\<close> bytes of a request have been parsed; the buffer, from where the parser resumes, holds the request up to
  position \<open>p\<close>, and \<open>extra\<close> behind it.
\<close>

definition in_message ::
    "string \<Rightarrow> string \<Rightarrow> string \<Rightarrow> (string \<times> string) list \<Rightarrow> string \<Rightarrow> Timestamp \<Rightarrow> nat \<Rightarrow>
     HttpContext \<Rightarrow> Buffer \<Rightarrow> nat \<Rightarrow> string \<Rightarrow> bool" where
  "in_message m t ver hs bd T n ctx b p extra \<longleftrightarrow> buf_inv b \<and>
     (let l = line_end m t ver; k = l + hdr_end hs (length hs) + 2; msg = render_request m t ver hs bd
      in n + 2 \<le> l \<and> ctx = new_HttpContext \<and> contents b = take p msg @ extra
       \<or> (\<exists>i \<le> length hs. n = l + hdr_end hs i \<and> ctx = hdr_ctx T m t ver hs i \<and>
            contents b = drop l (take p msg) @ extra)
       \<or> k \<le> n \<and> n < k + length bd \<and> ctx = head_ctx T m t ver hs STATE_RECV_BODY [] \<and>
            contents b = drop k (take p msg) @ extra \<and> m = ''POST'')"

lemma render_request_parts:
  "take (line_end m t ver + q) (render_request m t ver hs bd) =
     render_line m t ver @ take q (render_headers hs @ CRLF @ bd)"
  "drop (line_end m t ver) (render_request m t ver hs bd) = render_headers hs @ CRLF @ bd"
  "drop (line_end m t ver + hdr_end hs (length hs) + 2) (render_request m t ver hs bd) = bd"
proof -
  show 1: "drop (line_end m t ver) (render_request m t ver hs bd) = render_headers hs @ CRLF @ bd"
    by (simp add: render_request_def line_end_def)
  show "take (line_end m t ver + q) (render_request m t ver hs bd) =
     render_line m t ver @ take q (render_headers hs @ CRLF @ bd)"
    by (simp add: render_request_def line_end_def)
  have "drop (hdr_end hs (length hs) + 2) (render_headers hs @ CRLF @ bd) = bd" by (simp add: hdr_end_def)
  then show "drop (line_end m t ver + hdr_end hs (length hs) + 2) (render_request m t ver hs bd) = bd"
    using 1 by (metis add.assoc add.commute drop_drop)
qed

lemma at_cut_in_message:
  assumes "at_cut m t ver hs bd T n ctx b"
  shows "in_message m t ver hs bd T n ctx b n []"
proof -
  let ?l = "line_end m t ver" and ?msg = "render_request m t ver hs bd"
  have "take n (render_line m t ver) = take n ?msg" if "n + 2 \<le> ?l"
    using that by (simp add: render_request_def line_end_def)
  moreover have "render_headers (take i hs) = drop ?l (take (?l + hdr_end hs i) ?msg)" for i
    using take_hdr_end [of hs i "CRLF @ bd"] by (simp add: drop_take render_request_parts(2))
  moreover have "take (n - j) bd = drop j (take n ?msg)" if "j = ?l + hdr_end hs (length hs) + 2" for j
    unfolding that by (simp only: drop_take render_request_parts(3))
  ultimately show ?thesis using assms unfolding at_cut_def in_message_def Let_def by auto
qed

lemma in_message_append:
  assumes "in_message m t ver hs bd T n ctx b n []" and "n \<le> p" and "buf_inv b'"
    and "contents b' = contents b @ drop n (take p (render_request m t ver hs bd)) @ extra"
  shows "in_message m t ver hs bd T n ctx b' p extra"
proof -
  let ?msg = "render_request m t ver hs bd"
  have tk: "take n ?msg @ drop n (take p ?msg) = take p ?msg"
    using assms(2) by (metis append_take_drop_id min.absorb1 take_take)
  have dr: "drop l (take n ?msg) @ drop n (take p ?msg) = drop l (take p ?msg)" if "l \<le> n" for l
  proof (cases "l \<le> length (take n ?msg)")
    case True
    then show ?thesis using arg_cong [OF tk, of "drop l"] by simp
  next
    case False
    then have "length ?msg < n" using that by (auto simp: not_le)
    then show ?thesis using that assms(2) by simp
  qed
  have "contents b' = take p ?msg @ extra" if "contents b = take n ?msg"
    using that assms(4) tk by (metis append.assoc)
  moreover have "contents b' = drop l (take p ?msg) @ extra" if "contents b = drop l (take n ?msg)" "l \<le> n" for l
    using that(1) assms(4) dr [OF that(2)] by (metis append.assoc)
  ultimately show ?thesis
    using assms(1,3) unfolding in_message_def Let_def append_Nil2 by (metis le_add1)
qed

lemma in_message_nonempty:
  assumes "in_message m t ver hs bd T n ctx b p extra" and "n < p" and "p \<le> msg_end m t ver hs bd"
  shows "readableBytes b \<noteq> 0"
proof -
  have ne: "drop l (take p (render_request m t ver hs bd)) \<noteq> []" if "l \<le> n" for l
    using that assms(2,3) by (simp add: length_render_request)
  have "contents b \<noteq> []"
    using assms(1) ne ne [of 0] unfolding in_message_def Let_def by auto
  then show ?thesis using readableBytes_0_iff [of b] assms(1) by (simp add: in_message_def)
qed

text \<open>The whole request has arrived: it is completed, and what is behind it stays in the buffer.\<close>

lemma parse_complete:
  assumes ok: "request_ok m t ver hs bd"
    and st: "in_message m t ver hs bd T1 n ctx b (msg_end m t ver hs bd) extra"
  shows "\<exists>T2 \<in> {T1, T}. \<exists>b'. parseRequest T ctx b = Some (Inr (True, head_ctx T2 m t ver hs STATE_FINISH bd, b')) \<and>
    buf_inv b' \<and> contents b' = extra"
proof -
  have inv: "buf_inv b" and hs: "hs \<noteq> []" and hok: "\<forall>kv \<in> set hs. hdr_ok kv"
    using st ok by (simp_all add: in_message_def request_ok_def)
  have all: "take (msg_end m t ver hs bd) (render_request m t ver hs bd) = render_request m t ver hs bd"
    by (simp add: length_render_request)
  from st show ?thesis
    unfolding in_message_def Let_def all
  proof (elim conjE disjE exE)
    assume "ctx = new_HttpContext" "contents b = render_request m t ver hs bd @ extra"
    then show ?thesis using parseRequest_whole [OF inv ok, of extra T] by blast
  next
    fix i assume i: "i \<le> length hs" "ctx = hdr_ctx T1 m t ver hs i"
      "contents b = drop (line_end m t ver) (render_request m t ver hs bd) @ extra"
    then have "contents b = render_headers hs @ CRLF @ bd @ extra" by (simp add: render_request_parts(2))
    from headers_complete [OF inv hok hs i(1) this, of T T1 m t ver] obtain b1 where
      b1: "parseRequest T ctx b = parseRequest T (head_ctx T1 m t ver hs
          (if m = ''POST'' then STATE_RECV_BODY else STATE_ANALYSIS) []) b1" "buf_inv b1" "contents b1 = bd @ extra"
      using i(2) by blast
    from parseRequest_after_head [OF ok b1(2,3), of T T1] b1(1) show ?thesis by auto
  next
    assume h: "ctx = head_ctx T1 m t ver hs STATE_RECV_BODY []" "m = ''POST''"
      "contents b = drop (line_end m t ver + hdr_end hs (length hs) + 2) (render_request m t ver hs bd) @ extra"
    then have "contents b = bd @ extra" by (simp only: render_request_parts(3))
    from parseRequest_after_head [OF ok inv this, of T T1] h(1,2) show ?thesis by auto
  qed
qed

text \<open>The request has arrived up to a safe cut: the parser waits there.\<close>

lemma step_result_in_message:
  assumes "step_result m t ver hs bd T p r" and "p \<noteq> msg_end m t ver hs bd" and "safe_cut m t ver hs p"
  shows "\<exists>ctx b. r = Some (Inr (True, ctx, b)) \<and> \<not> gotAll ctx \<and> in_message m t ver hs bd T p ctx b p []"
  using assms at_cut_in_message by (auto simp: step_result_def)

lemma parse_partial:
  assumes ok: "request_ok m t ver hs bd" and st: "in_message m t ver hs bd T1 n ctx b p []"
    and p: "n < p" "p < msg_end m t ver hs bd" "safe_cut m t ver hs p"
  shows "\<exists>T2 \<in> {T1, T}. \<exists>ctx' b'. parseRequest T ctx b = Some (Inr (True, ctx', b')) \<and> \<not> gotAll ctx' \<and>
    in_message m t ver hs bd T2 p ctx' b' p []"
proof -
  have inv: "buf_inv b" using st by (simp add: in_message_def)
  let ?l = "line_end m t ver" and ?H = "hdr_end hs (length hs)"
  from st show ?thesis
    unfolding in_message_def [where n = n] Let_def append_Nil2
  proof (elim conjE disjE exE)
    assume h: "ctx = new_HttpContext" "contents b = take p (render_request m t ver hs bd)"
    show ?thesis
    proof (cases "p + 2 \<le> ?l")
      case True
      moreover have "in_message m t ver hs bd T p ctx b p []"
        using True h inv by (simp add: in_message_def)
      ultimately show ?thesis
        using uri_phase_waits [OF ok inv True h(2), of T] h(1) by (auto simp: gotAll_def new_HttpContext_def)
    next
      case False
      then have "?l \<le> p" using p(3) by (auto simp: safe_cut_def)
      then obtain q where q: "p = ?l + q" using le_Suc_ex by blast
      have "q \<le> ?H + 2 + length bd" using p(2) q by (simp add: msg_end_def)
      from uri_line_phase [OF ok inv this, of T] h q
      have "step_result m t ver hs bd T p (parseRequest T ctx b)" by (simp add: render_request_parts(1))
      from step_result_in_message [OF this] p(2,3) show ?thesis by auto
    qed
  next
    fix i assume i: "i \<le> length hs" "n = ?l + hdr_end hs i" "ctx = hdr_ctx T1 m t ver hs i"
      "contents b = drop ?l (take p (render_request m t ver hs bd))"
    from i(2) p(1) obtain q where q: "p = ?l + q" "hdr_end hs i < q" using le_Suc_ex [of ?l p] by auto
    have "contents b = take q (render_headers hs @ CRLF @ bd)"
      using i(4) q(1) by (simp add: drop_take render_request_parts(2))
    moreover have "q \<le> ?H + 2 + length bd" using p(2) q by (simp add: msg_end_def)
    ultimately have "step_result m t ver hs bd T1 p (parseRequest T ctx b)"
      using hdr_phase [OF ok inv i(1), of q T1 T] q i(3) by simp
    from step_result_in_message [OF this] p(2,3) show ?thesis by auto
  next
    assume h: "?l + ?H + 2 \<le> n" "ctx = head_ctx T1 m t ver hs STATE_RECV_BODY []" "m = ''POST''"
      "contents b = drop (?l + ?H + 2) (take p (render_request m t ver hs bd))"
    then obtain x where x: "p = ?l + ?H + 2 + x" using p(1) le_Suc_ex [of "?l + ?H + 2" p] by auto
    then have "contents b = take x bd" using h(4) by (simp only: drop_take render_request_parts(3)) simp
    moreover have "x \<le> length bd" using p(2) x by (simp add: msg_end_def)
    ultimately have "step_result m t ver hs bd T1 p (parseRequest T ctx b)"
      using body_phase [OF ok inv, of x T1 T] x h(2,3) by simp
    from step_result_in_message [OF this] p(2,3) show ?thesis by auto
  qed
qed

section \<open>A stream of requests\<close>

definition message_cut :: "http_message \<Rightarrow> nat \<Rightarrow> bool" where
  "message_cut m n = safe_cut (msg_method m) (msg_target m) (msg_version m) (msg_headers m) n"

abbreviation msg_size :: "http_message \<Rightarrow> nat" where
  "msg_size m \<equiv> length (render_message m)"

definition in_msg :: "http_message \<Rightarrow> Timestamp \<Rightarrow> nat \<Rightarrow> HttpContext \<Rightarrow> Buffer \<Rightarrow> nat \<Rightarrow> string \<Rightarrow> bool" where
  "in_msg m = in_message (msg_method m) (msg_target m) (msg_version m) (msg_headers m) (msg_body m)"

text \<open>The requests that end up to a position of the stream, the ones behind, and the offset in the first of these.\<close>

fun locate :: "http_message list \<Rightarrow> nat \<Rightarrow> http_message list \<times> http_message list \<times> nat" where
  "locate [] P = ([], [], P)"
| "locate (m # ms) P =
     (if P < msg_size m then ([], m # ms, P)
      else let (ended, rest, n) = locate ms (P - msg_size m) in (m # ended, rest, n))"

text \<open>A position is safe when it is the end of a request or a safe cut in one.\<close>

definition stream_cut :: "http_message list \<Rightarrow> nat \<Rightarrow> bool" where
  "stream_cut ms P = (case locate ms P of (_, [], _) \<Rightarrow> True | (_, m # _, n) \<Rightarrow> message_cut m n)"

definition stream_at :: "Timestamp \<Rightarrow> http_message list \<Rightarrow> nat \<Rightarrow> HttpContext \<Rightarrow> Buffer \<Rightarrow> bool" where
  "stream_at T ms n ctx b \<longleftrightarrow>
     (case ms of
        [] \<Rightarrow> n = 0 \<and> ctx = new_HttpContext \<and> buf_inv b \<and> contents b = []
      | m # _ \<Rightarrow> n < msg_size m \<and> in_msg m T n ctx b n [])"

lemma msg_size_end:
  "msg_size m = msg_end (msg_method m) (msg_target m) (msg_version m) (msg_headers m) (msg_body m)"
  by (simp add: render_message_def length_render_request)

lemma in_msg_fresh:
  assumes "buf_inv b" and "contents b = take p (render_message m) @ extra"
  shows "in_msg m T 0 new_HttpContext b p extra"
  using assms by (simp add: in_msg_def in_message_def render_message_def line_end_def render_line_def Let_def)

lemma stream_at_fresh: "buf_inv b \<Longrightarrow> contents b = [] \<Longrightarrow> stream_at T ms 0 new_HttpContext b"
  using render_message_nonempty by (cases ms) (auto simp: stream_at_def intro!: in_msg_fresh)

lemma locate_0: "locate ms 0 = ([], ms, 0)"
  using render_message_nonempty by (cases ms) auto

definition answers :: "http_env \<Rightarrow> Timestamp list \<Rightarrow> http_message list \<Rightarrow> action list" where
  "answers env Ts ms = concat (map (\<lambda>(T, m). onRequest env (request_of_message T m)) (zip Ts ms))"

lemma answers_Cons [simp]: "answers env (T # Ts) (m # ms) = onRequest env (request_of_message T m) @ answers env Ts ms"
  and answers_Nil [simp]: "answers env [] ms = []"
  by (simp_all add: answers_def)

lemma onMessage_empty: "buf_inv b \<Longrightarrow> contents b = [] \<Longrightarrow> onMessage env T ctx b = Some ([], Inr (ctx, b))"
  using readableBytes_0_iff [of b] by (subst onMessage.simps) simp

text \<open>One request that is completed by the input, and the rest of the loop.\<close>

lemma onMessage_completes:
  assumes ok: "message_ok m" and st: "in_msg m T1 n ctx b (msg_size m) extra" and n: "n < msg_size m"
  shows "\<exists>T2 \<in> {T1, T}. \<exists>b'. onMessage env T ctx b =
      Option.bind (onMessage env T new_HttpContext b')
        (\<lambda>(acts, res). Some (onRequest env (request_of_message T2 m) @ acts, res)) \<and>
    buf_inv b' \<and> contents b' = extra"
proof -
  from parse_complete [OF ok [unfolded message_ok_def], of T1 n ctx b extra T] st [unfolded in_msg_def msg_size_end]
  obtain T2 b' where p: "T2 \<in> {T1, T}" "parseRequest T ctx b = Some (Inr (True,
       head_ctx T2 (msg_method m) (msg_target m) (msg_version m) (msg_headers m) STATE_FINISH (msg_body m), b'))"
      "buf_inv b'" "contents b' = extra" by blast
  have "readableBytes b \<noteq> 0"
    using in_message_nonempty [OF st [unfolded in_msg_def msg_size_end] n [unfolded msg_size_end]] by simp
  then have "onMessage env T ctx b = Option.bind (onMessage env T new_HttpContext b')
      (\<lambda>(acts, res). Some (onRequest env (request_of_message T2 m) @ acts, res))"
    using p(2) by (subst onMessage.simps) (simp add: gotAll_def head_ctx_def request_of_message_def)
  then show ?thesis using p by blast
qed

lemma onMessage_waits:
  assumes ok: "message_ok m" and st: "in_msg m T1 n ctx b p []" and p: "n < p" "p < msg_size m" "message_cut m p"
  shows "\<exists>T2 \<in> {T1, T}. \<exists>ctx' b'. onMessage env T ctx b = Some ([], Inr (ctx', b')) \<and> in_msg m T2 p ctx' b' p []"
proof -
  from parse_partial [OF ok [unfolded message_ok_def] st [unfolded in_msg_def] p(1) p(2) [unfolded msg_size_end]
      p(3) [unfolded message_cut_def], of T]
  obtain T2 ctx' b' where r: "T2 \<in> {T1, T}" "parseRequest T ctx b = Some (Inr (True, ctx', b'))" "\<not> gotAll ctx'"
      "in_msg m T2 p ctx' b' p []" unfolding in_msg_def by blast
  have "readableBytes b \<noteq> 0"
    using in_message_nonempty [OF st [unfolded in_msg_def] p(1)] p(2) by (simp add: msg_size_end)
  then have "onMessage env T ctx b = Some ([], Inr (ctx', b'))"
    using r(2,3) by (subst onMessage.simps) simp
  then show ?thesis using r(1,4) by blast
qed

text \<open>What the handler does with the input up to position \<open>P\<close> of the stream.\<close>

definition handles_stream ::
    "http_env \<Rightarrow> Timestamp \<Rightarrow> Timestamp \<Rightarrow> http_message list \<Rightarrow> nat \<Rightarrow> HttpContext \<Rightarrow> Buffer \<Rightarrow> bool" where
  "handles_stream env T T1 ms P ctx b \<longleftrightarrow>
     (let (ended, rest, k) = locate ms P
      in \<exists>Ts ctx' b'. \<exists>T2 \<in> {T1, T}. onMessage env T ctx b = Some (answers env Ts ended, Inr (ctx', b')) \<and>
           length Ts = length ended \<and> set Ts \<subseteq> {T1, T} \<and> stream_at T2 rest k ctx' b')"

text \<open>The first message is still incomplete; or it is the last that is complete; or more follow it.\<close>

lemma stream_waits:
  assumes "message_ok m" and "in_msg m T1 n ctx b P []" and "n < P" "P < msg_size m" and "stream_cut (m # ms) P"
  shows "handles_stream env T T1 (m # ms) P ctx b"
proof -
  have "message_cut m P" using assms(4,5) by (simp add: stream_cut_def)
  from onMessage_waits [OF assms(1,2,3,4) this, of T env] show ?thesis
    using assms(4) by (auto simp: handles_stream_def stream_at_def)
qed

lemma stream_stops:
  assumes c: "onMessage env T ctx b = Option.bind (onMessage env T new_HttpContext b')
      (\<lambda>(acts, res). Some (onRequest env (request_of_message T2 m) @ acts, res))"
    and "T2 \<in> {T1, T}" and b': "buf_inv b'" "contents b' = []" and P: "P = msg_size m"
  shows "handles_stream env T T1 (m # ms) P ctx b"
proof -
  have l: "locate (m # ms) P = ([m], ms, 0)" using P locate_0 [of ms] by (simp add: Let_def)
  show ?thesis
    using assms(2) stream_at_fresh [OF b', of T2 ms] c b'
    unfolding handles_stream_def l Let_def prod.case
    by (intro exI [of _ "[T2]"] exI [of _ new_HttpContext] exI [of _ b']) (auto simp: onMessage_empty)
qed

lemma stream_goes_on:
  assumes c: "onMessage env T ctx b = Option.bind (onMessage env T new_HttpContext b')
      (\<lambda>(acts, res). Some (onRequest env (request_of_message T2 m) @ acts, res))"
    and "T2 \<in> {T1, T}" and h: "handles_stream env T T ms (P - msg_size m) new_HttpContext b'" and P: "\<not> P < msg_size m"
  shows "handles_stream env T T1 (m # ms) P ctx b"
proof -
  obtain ended rest k where l: "locate ms (P - msg_size m) = (ended, rest, k)" by (cases "locate ms (P - msg_size m)") auto
  from h l obtain Ts ctx' b'' where "onMessage env T new_HttpContext b' = Some (answers env Ts ended, Inr (ctx', b''))"
      "length Ts = length ended" "set Ts \<subseteq> {T}" "stream_at T rest k ctx' b''" by (auto simp: handles_stream_def)
  then show ?thesis using assms(2) P l c
    unfolding handles_stream_def
    by (auto intro!: exI [of _ "T2 # Ts"] exI [of _ ctx'] exI [of _ b''])
qed

text \<open>One call of the handler, when the buffer holds the stream up to position \<open>P\<close>.\<close>

lemma onMessage_stream:
  assumes "\<forall>m \<in> set (m # ms). message_ok m"
    and "in_msg m T1 n ctx b (min P (msg_size m)) (take (P - msg_size m) (concat (map render_message ms)))"
    and "n < P" and "n < msg_size m" and "P \<le> length (concat (map render_message (m # ms)))" and "stream_cut (m # ms) P"
  shows "handles_stream env T T1 (m # ms) P ctx b"
  using assms
proof (induction ms arbitrary: m T1 n ctx b P)
  case Nil
  show ?case
  proof (cases "P < msg_size m")
    case True
    then show ?thesis using Nil.prems by (intro stream_waits [of m T1 n]) simp_all
  next
    case False
    then have P: "P = msg_size m" using Nil.prems(5) by simp
    from onMessage_completes [of m T1 n ctx b "[]" T env] Nil.prems(1,2,4) P obtain T2 b' where
      T2: "T2 \<in> {T1, T}" "onMessage env T ctx b = Option.bind (onMessage env T new_HttpContext b')
         (\<lambda>(acts, res). Some (onRequest env (request_of_message T2 m) @ acts, res))" "buf_inv b'" "contents b' = []"
      by auto
    show ?thesis by (rule stream_stops [OF T2(2,1,3,4) P])
  qed
next
  case (Cons m2 ms)
  let ?P = "P - msg_size m" and ?all = "concat (map render_message (m2 # ms))"
  show ?case
  proof (cases "P < msg_size m")
    case True
    then show ?thesis using Cons.prems by (intro stream_waits [of m T1 n]) simp_all
  next
    case False
    have ok: "message_ok m" and st: "in_msg m T1 n ctx b (msg_size m) (take ?P ?all)"
      using Cons.prems(1,2) min_absorb2 [of "msg_size m" P] False by simp_all
    from onMessage_completes [OF ok st Cons.prems(4), of T env] obtain T2 b' where
      T2: "T2 \<in> {T1, T}" "onMessage env T ctx b = Option.bind (onMessage env T new_HttpContext b')
         (\<lambda>(acts, res). Some (onRequest env (request_of_message T2 m) @ acts, res))" "buf_inv b'" "contents b' = take ?P ?all"
      by blast
    show ?thesis
    proof (cases "?P = 0")
      case True
      then show ?thesis using T2 False by (intro stream_stops [OF T2(2,1,3)]) simp_all
    next
      case P0: False
      have "contents b' = take (min ?P (msg_size m2)) (render_message m2) @
          take (?P - msg_size m2) (concat (map render_message ms))"
        using T2(4) by (simp add: min_def)
      from in_msg_fresh [OF T2(3) this] have
        "in_msg m2 T 0 new_HttpContext b' (min ?P (msg_size m2)) (take (?P - msg_size m2) (concat (map render_message ms)))" .
      moreover have "stream_cut (m2 # ms) ?P"
        using Cons.prems(6) False by (auto simp: stream_cut_def split: prod.splits)
      moreover have "?P \<le> length ?all" using Cons.prems(5) False by simp
      ultimately have "handles_stream env T T (m2 # ms) ?P new_HttpContext b'"
        using Cons.IH [of m2 T 0 new_HttpContext b' ?P] Cons.prems(1) P0 render_message_nonempty by auto
      then show ?thesis using stream_goes_on [OF T2(2,1) _ False] by blast
    qed
  qed
qed

lemma locate_spec:
  "locate ms P = (ended, rest, k) \<Longrightarrow> ms = ended @ rest \<and> P = length (concat (map render_message ended)) + k"
  by (induction ms P arbitrary: ended rest k rule: locate.induct) (auto split: if_splits prod.splits)

lemma locate_add:
  "locate ms P = (ended, rest, k) \<Longrightarrow>
   locate ms (P + x) = (case locate rest (k + x) of (e, r, j) \<Rightarrow> (ended @ e, r, j))"
proof (induction ms P arbitrary: ended rest k rule: locate.induct)
  case (2 m ms P)
  show ?case
  proof (cases "P < msg_size m")
    case True
    then have "ended = []" "rest = m # ms" "k = P" using "2.prems" by simp_all
    then show ?thesis by (simp split: prod.split)
  next
    case False
    then obtain e where "locate ms (P - msg_size m) = (e, rest, k)" "ended = m # e"
      using "2.prems" by (auto split: prod.splits)
    with "2.IH" [OF False this(1)] False show ?thesis by (auto split: prod.splits)
  qed
qed simp

lemma stream_cut_add: "locate ms P = (ended, rest, k) \<Longrightarrow> stream_cut ms (P + x) \<longleftrightarrow> stream_cut rest (k + x)"
  by (simp add: stream_cut_def locate_add split: prod.splits list.splits)

section \<open>Sessions\<close>

text \<open>
  A read event of a connection on which the kernel has the bytes \<open>d\<close>, with the HTTP handler as message
  callback; a write event; and a sequence of events.
\<close>

definition http_read ::
    "http_env \<Rightarrow> Timestamp \<Rightarrow> string \<Rightarrow> HttpContext \<times> world \<Rightarrow> (HttpContext \<times> world) result option" where
  "http_read env T d = (\<lambda>(ctx, w).
     read_event (http_message_callback env) T (ctx, w\<lparr>kern := (kern w)\<lparr>k_read := (\<lambda>_. Inr d)\<rparr>\<rparr>))"

datatype http_event = Receive Timestamp string | Writable

definition http_event_step ::
    "http_env \<Rightarrow> http_event \<Rightarrow> HttpContext \<times> world \<Rightarrow> (HttpContext \<times> world) result option" where
  "http_event_step env e s =
     (case e of
        Receive T d \<Rightarrow> http_read env T d s
      | Writable \<Rightarrow> Some (bind_result (handleWrite (snd s)) (\<lambda>w. Inr (fst s, w))))"

primrec http_session ::
    "http_env \<Rightarrow> http_event list \<Rightarrow> HttpContext \<times> world \<Rightarrow> (HttpContext \<times> world) result option" where
  "http_session env [] s = Some (Inr s)"
| "http_session env (e # es) s =
     Option.bind (http_event_step env e s) (\<lambda>r.
       case r of Inl x \<Rightarrow> Some (Inl x) | Inr s1 \<Rightarrow> http_session env es s1)"

fun received_in :: "http_event \<Rightarrow> (Timestamp \<times> string) list" where
  "received_in (Receive T d) = [(T, d)]"
| "received_in Writable = []"

definition segments :: "http_event list \<Rightarrow> (Timestamp \<times> string) list" where
  "segments es = concat (map received_in es)"

text \<open>The response of the application callback, and the requests it answers with a response that keeps the connection open.\<close>

definition api_response :: "(HttpRequest \<Rightarrow> HttpResponse \<Rightarrow> HttpResponse) \<Rightarrow> Timestamp \<Rightarrow> http_message \<Rightarrow> HttpResponse" where
  "api_response cb T m =
     cb (request_of_message T m) (new_HttpResponse (should_close (request_of_message T m)))"

definition api_answers :: "(HttpRequest \<Rightarrow> HttpResponse \<Rightarrow> HttpResponse) \<Rightarrow> Timestamp \<Rightarrow> http_message \<Rightarrow> bool" where
  "api_answers cb T m \<longleftrightarrow> statusCode (api_response cb T m) \<noteq> kUnknownStatus \<and>
     \<not> closeConnection (api_response cb T m) \<and> response_fits (api_response cb T m)"

lemma onRequest_api:
  assumes "httpCallback env = Some cb" and "statusCode (api_response cb T m) \<noteq> kUnknownStatus"
    and "\<not> closeConnection (api_response cb T m)"
  shows "onRequest env (request_of_message T m) =
    [SendBuffer (appendToBuffer (api_response cb T m) (new_Buffer kInitialSize))]"
  using assms by (simp add: onRequest_def api_response_def Let_def)

definition api_bytes :: "(HttpRequest \<Rightarrow> HttpResponse \<Rightarrow> HttpResponse) \<Rightarrow> Timestamp list \<Rightarrow> http_message list \<Rightarrow> string" where
  "api_bytes cb Ts ms = concat (map (\<lambda>(T, m). render_response (api_response cb T m)) (zip Ts ms))"

lemma run_answers:
  assumes "conn_inv s w" and "tc_state (conn w) = kConnected" and "willing (kern w)"
    and cb: "httpCallback env = Some cb" and ok: "\<forall>(T, m) \<in> set (zip Ts ms). api_answers cb T m"
  shows "\<exists>w'. run_actions (answers env Ts ms) w = Inr w' \<and> conn_inv (s @ api_bytes cb Ts ms) w' \<and>
    tc_state (conn w') = kConnected \<and> kern w' = kern w"
proof -
  let ?b = "\<lambda>(T, m). appendToBuffer (api_response cb T m) (new_Buffer kInitialSize)"
  let ?bs = "map ?b (zip Ts ms)"
  have "\<forall>(T, m) \<in> set xs. api_answers cb T m \<Longrightarrow>
      concat (map (\<lambda>(T, m). onRequest env (request_of_message T m)) xs) = map SendBuffer (map ?b xs)" for xs
    by (induction xs) (auto simp: onRequest_api [OF cb] api_answers_def)
  from this [OF ok] have "answers env Ts ms = map SendBuffer ?bs" by (simp only: answers_def)
  moreover have "\<forall>b \<in> set ?bs. buf_inv b" using appendToBuffer_inv [OF new_Buffer_inv] by auto
  moreover have "contents (?b x) = (\<lambda>(T, m). render_response (api_response cb T m)) x" if "x \<in> set (zip Ts ms)" for x
    using ok that appendToBuffer_bytes [OF new_Buffer_inv] by (auto simp: api_answers_def contents_new_Buffer)
  then have "concat (map contents ?bs) = api_bytes cb Ts ms" by (simp add: api_bytes_def comp_def cong: map_cong)
  ultimately show ?thesis using run_actions_send_all [OF assms(1-3), of ?bs] by simp
qed

lemma wrote_all_conn: "wrote_all w = Inr w' \<Longrightarrow> conn w' = conn w"
  by (auto simp: wrote_all_def bind_result_Inr_iff channel_call_same split: if_splits)

lemma handleWrite_input:
  assumes "buf_inv (outputBuffer (conn w))" and "handleWrite w = Inr w'"
  shows "inputBuffer (conn w') = inputBuffer (conn w)"
proof (cases "isWriting (my_channel w)")
  case True
  then show ?thesis using assms(2) handleWrite_cases [OF assms(1) True] wrote_all_conn
    by (fastforce simp: Let_def wrote_def split: sum.splits if_splits)
qed (use assms(2) in \<open>auto simp: handleWrite_def\<close>)

lemma api_bytes_append:
  "length Ts = length ms \<Longrightarrow> api_bytes cb (Ts @ Ts') (ms @ ms') = api_bytes cb Ts ms @ api_bytes cb Ts' ms'"
  by (simp add: api_bytes_def)

text \<open>A segment appended to the input buffer, as the handler finds it.\<close>

lemma in_msg_segment:
  assumes st: "in_msg m T n ctx b n []" and n: "n < msg_size m" and d: "d \<noteq> []"
    and all: "drop n (concat (map render_message (m # ms))) = d @ tl2"
    and b: "buf_inv b'" "contents b' = contents b @ d"
  shows "in_msg m T n ctx b' (min (n + length d) (msg_size m)) (take (n + length d - msg_size m) (concat (map render_message ms)))"
proof -
  let ?P = "n + length d" and ?r = "concat (map render_message ms)"
  have "d = take (length d) (drop n (render_message m) @ ?r)" using arg_cong [OF all, of "take (length d)"] n by simp
  also have "\<dots> = take (length d) (drop n (render_message m)) @ take (length d - (msg_size m - n)) ?r" by simp
  also have "take (length d) (drop n (render_message m)) = drop n (take ?P (render_message m))" by (simp add: drop_take)
  also have "length d - (msg_size m - n) = ?P - msg_size m" using n by simp
  also have "take ?P (render_message m) = take (min ?P (msg_size m)) (render_message m)" by (simp add: min_def)
  finally have "contents b' = contents b @ drop n (take (min ?P (msg_size m)) (render_message m)) @ take (?P - msg_size m) ?r"
    using b(2) by metis
  moreover have "n \<le> min ?P (msg_size m)" using n by simp
  ultimately show ?thesis
    using in_message_append [OF st [unfolded in_msg_def], of "min ?P (msg_size m)" b'] b(1)
    unfolding in_msg_def render_message_def [symmetric] by blast
qed

text \<open>One read event in a session.\<close>

lemma http_read_stream:
  assumes inv: "conn_inv s w" "tc_state (conn w) = kConnected" "willing (kern w)"
    and cb: "httpCallback env = Some cb" and ok: "\<forall>m \<in> set ms. message_ok m" "\<forall>m \<in> set ms. \<forall>T \<in> A. api_answers cb T m"
    and T: "ms \<noteq> [] \<longrightarrow> T0 \<in> A" "T \<in> A"
    and st: "stream_at T0 ms n ctx (inputBuffer (conn w))"
    and d: "d \<noteq> []" "length d \<le> sizeof_extrabuf" "drop n (concat (map render_message ms)) = d @ tl2"
    and cut: "stream_cut ms (n + length d)"
  shows "\<exists>ended rest k Ts T1 ctx' w'. http_read env T d (ctx, w) = Some (Inr (ctx', w')) \<and>
    locate ms (n + length d) = (ended, rest, k) \<and> length Ts = length ended \<and> set Ts \<subseteq> A \<and> T1 \<in> A \<and>
    stream_at T1 rest k ctx' (inputBuffer (conn w')) \<and>
    conn_inv (s @ api_bytes cb Ts ended) w' \<and> tc_state (conn w') = kConnected \<and> willing (kern w')"
proof -
  obtain m ms' where ms: "ms = m # ms'" using d(1,3) by (cases ms) auto
  let ?wk = "w\<lparr>kern := (kern w)\<lparr>k_read := (\<lambda>_. Inr d)\<rparr>\<rparr>" and ?P = "n + length d"
  have "conn_inv s ?wk = conn_inv s w" by (simp add: conn_inv_def shut_ok_def my_channel_def pending_def)
  then have wk: "conn_inv s ?wk" "willing (kern ?wk)" using inv(1,3) by (simp_all add: willing_def)
  have ro: "read_outcome ?wk = Inr d" using d(2) by (simp add: read_outcome_def readv_capacity_def)
  from handleRead_split [OF wk(1)] obtain w1 where w0: "conn_inv s w1" "tc_state (conn w1) = tc_state (conn ?wk)" "kern w1 = kern ?wk"
      "contents (inputBuffer (conn w1)) = contents (inputBuffer (conn ?wk)) @ (case read_outcome ?wk of Inl e \<Rightarrow> [] | Inr d \<Rightarrow> d)"
      "handleRead server_callbacks T ?wk = (case read_outcome ?wk of Inl e \<Rightarrow> Inr (handleError (emit LogError w1))
         | Inr d \<Rightarrow> if d = [] then handleClose server_callbacks w1 else messageCallback server_callbacks T w1)" by metis
  then have w1: "conn_inv s w1" "tc_state (conn w1) = kConnected" "willing (kern w1)"
      "contents (inputBuffer (conn w1)) = contents (inputBuffer (conn w)) @ d" "handleRead server_callbacks T ?wk = Inr w1"
    using ro inv(2) wk(2) d(1) by (simp_all add: server_callbacks_def)
  have n: "n < msg_size m" and in0: "in_msg m T0 n ctx (inputBuffer (conn w)) n []" using st ms by (simp_all add: stream_at_def)
  have total: "?P \<le> length (concat (map render_message (m # ms')))"
    using arg_cong [OF d(3), of length] d(1) ms by (cases d) auto
  obtain ended rest k where loc: "locate ms ?P = (ended, rest, k)" by (cases "locate ms ?P") auto
  from in_msg_segment [OF in0 n d(1) d(3) [unfolded ms] conn_invD(1) [OF w1(1)] w1(4)]
  have in1: "in_msg m T0 n ctx (inputBuffer (conn w1)) (min ?P (msg_size m)) (take (?P - msg_size m) (concat (map render_message ms')))" .
  have "n < ?P" using d(1) by simp
  from onMessage_stream [OF ok(1) [unfolded ms] in1 this n total cut [unfolded ms], of env T] loc [unfolded ms]
  obtain Ts ctx' b' T2 where r: "T2 \<in> {T0, T}"
      "onMessage env T ctx (inputBuffer (conn w1)) = Some (answers env Ts ended, Inr (ctx', b'))"
      "length Ts = length ended" "set Ts \<subseteq> {T0, T}" "stream_at T2 rest k ctx' b'" by (auto simp: handles_stream_def)
  have A: "T2 \<in> A" "set Ts \<subseteq> A" using r(1,4) T ms by auto
  have "set ended \<subseteq> set ms" using locate_spec [OF loc] by auto
  then have "\<forall>(T, m) \<in> set (zip Ts ended). api_answers cb T m"
    using ok(2) A(2) by (fastforce dest: set_zip_leftD set_zip_rightD)
  from run_answers [OF w1(1-3) cb, OF this] obtain w2 where w2: "run_actions (answers env Ts ended) w1 = Inr w2"
      "conn_inv (s @ api_bytes cb Ts ended) w2" "tc_state (conn w2) = kConnected" "kern w2 = kern w1" by blast
  let ?w' = "set_conn (\<lambda>t. t\<lparr>inputBuffer := b'\<rparr>) w2"
  have "buf_inv b'" using r(5) by (cases rest) (simp_all add: stream_at_def in_msg_def in_message_def)
  then have "conn_inv (s @ api_bytes cb Ts ended) ?w'" using w2(2) by (rule conn_inv_input)
  moreover have "http_read env T d (ctx, w) = Some (Inr (ctx', ?w'))"
    using w1(5) d(1) ro r(2) w2(1) by (simp add: http_read_def read_event_def http_message_callback_def)
  ultimately show ?thesis using loc r(3,5) A w2(3,4) w1(3) by (intro exI) auto
qed

lemma segments_simps [simp]:
  "segments [] = []" "segments (Receive T d # es) = (T, d) # segments es" "segments (Writable # es) = segments es"
  by (simp_all add: segments_def)

lemma http_session_stream:
  assumes "conn_inv s w" and "tc_state (conn w) = kConnected" and "willing (kern w)"
    and cb: "httpCallback env = Some cb"
    and "\<forall>m \<in> set ms. message_ok m" and "\<forall>m \<in> set ms. \<forall>T \<in> A. api_answers cb T m"
    and "ms \<noteq> [] \<longrightarrow> T0 \<in> A" and "fst ` set (segments es) \<subseteq> A"
    and "stream_at T0 ms n ctx (inputBuffer (conn w))"
    and "\<forall>d \<in> snd ` set (segments es). d \<noteq> [] \<and> length d \<le> sizeof_extrabuf"
    and "drop n (concat (map render_message ms)) = concat (map snd (segments es))"
    and "\<forall>i \<in> {1..length (segments es)}. stream_cut ms (n + length (concat (take i (map snd (segments es)))))"
  shows "\<exists>Ts w'. http_session env es (ctx, w) = Some (Inr (new_HttpContext, w')) \<and> length Ts = length ms \<and> set Ts \<subseteq> A \<and>
    contents (inputBuffer (conn w')) = [] \<and> conn_inv (s @ api_bytes cb Ts ms) w' \<and> tc_state (conn w') = kConnected"
  using assms(1-3,5-)
proof (induction es arbitrary: s w ms T0 n ctx)
  case Nil
  then have "ms = []" by (cases ms) (auto simp: stream_at_def)
  with Nil show ?case by (auto simp: stream_at_def api_bytes_def)
next
  case (Cons e es)
  show ?case
  proof (cases e)
    case Writable
    from handleWrite_progress [OF Cons.prems(1,3)] obtain w1 where w1: "handleWrite w = Inr w1" "kern w1 = kern w"
        "conn_inv s w1" "tc_state (conn w1) = tc_state (conn w)" by blast
    have "inputBuffer (conn w1) = inputBuffer (conn w)"
      using handleWrite_input [OF conn_invD(2) [OF Cons.prems(1)] w1(1)] .
    from Cons.IH [OF w1(3), of ms T0 n ctx] Cons.prems w1 this show ?thesis
      by (simp add: Writable http_event_step_def)
  next
    case (Receive T d)
    let ?ds = "map snd (segments es)"
    have d: "d \<noteq> []" "length d \<le> sizeof_extrabuf" and all: "drop n (concat (map render_message ms)) = d @ concat ?ds"
      and T: "T \<in> A" using Cons.prems(7,9,10) by (simp_all add: Receive)
    have cuts: "stream_cut ms (n + length (concat (take i (d # ?ds))))" if "1 \<le> i" "i \<le> Suc (length ?ds)" for i
      using Cons.prems(11) that by (simp add: Receive)
    have "stream_cut ms (n + length d)" using cuts [of 1] by simp
    from http_read_stream [OF Cons.prems(1-3) cb Cons.prems(4-6) T Cons.prems(8) d all this]
    obtain ended rest k Ts T1 ctx' w1 where r: "http_read env T d (ctx, w) = Some (Inr (ctx', w1))"
        "locate ms (n + length d) = (ended, rest, k)" "length Ts = length ended" "set Ts \<subseteq> A" "T1 \<in> A"
        "stream_at T1 rest k ctx' (inputBuffer (conn w1))"
        "conn_inv (s @ api_bytes cb Ts ended) w1" "tc_state (conn w1) = kConnected" "willing (kern w1)" by blast
    note L = locate_spec [OF r(2)]
    have "drop k (concat (map render_message rest)) = drop (n + length d) (concat (map render_message ms))"
      using L by simp
    also have "\<dots> = concat ?ds" using arg_cong [OF all, of "drop (length d)"] by (simp add: add.commute)
    finally have rest: "drop k (concat (map render_message rest)) = concat ?ds" .
    have cut: "\<forall>i \<in> {1..length (segments es)}. stream_cut rest (k + length (concat (take i ?ds)))"
    proof
      fix i assume "i \<in> {1..length (segments es)}"
      then show "stream_cut rest (k + length (concat (take i ?ds)))"
        using cuts [of "Suc i"] stream_cut_add [OF r(2), of "length (concat (take i ?ds))"] by (simp add: add.assoc)
    qed
    have ok: "\<forall>m \<in> set rest. message_ok m" "\<forall>m \<in> set rest. \<forall>T \<in> A. api_answers cb T m"
      using L Cons.prems(4,5) by auto
    have "fst ` set (segments es) \<subseteq> A" "\<forall>d \<in> snd ` set (segments es). d \<noteq> [] \<and> length d \<le> sizeof_extrabuf"
      using Cons.prems(7,9) by (simp_all add: Receive)
    from Cons.IH [OF r(7-9) ok _ this(1) r(6) this(2) rest cut] r(5) obtain Ts2 w2 where
      w2: "http_session env es (ctx', w1) = Some (Inr (new_HttpContext, w2))" "length Ts2 = length rest" "set Ts2 \<subseteq> A"
        "contents (inputBuffer (conn w2)) = []" "conn_inv ((s @ api_bytes cb Ts ended) @ api_bytes cb Ts2 rest) w2"
        "tc_state (conn w2) = kConnected" by blast
    have "api_bytes cb (Ts @ Ts2) ms = api_bytes cb Ts ended @ api_bytes cb Ts2 rest"
      using L api_bytes_append [OF r(3)] by simp
    then show ?thesis using w2 r(1,3,4) L
      by (intro exI [of _ "Ts @ Ts2"] exI [of _ w2]) (simp add: Receive http_event_step_def)
  qed
qed

end
