(* ===== verification/Http_Wellformed.thy ===== *)
theory Http_Wellformed
  imports Http_Context
begin

text \<open>
  The well-formedness of what the parser hands to the application.  An invariant of the context,
  indexed by the main state of the parser, is kept by every iteration of \<^verbatim>\<open>parseRequest\<close> on any
  input; a finished context therefore holds a request whose method and version are set, whose path,
  query and headers contain no separator of the grammar, and whose body has the announced length.
\<close>

section \<open>Well-formed requests\<close>

definition wf_header :: "string \<Rightarrow> string \<Rightarrow> bool" where
  "wf_header k v \<longleftrightarrow>
     k \<noteq> [] \<and> CR \<notin> set k \<and> CHR '':'' \<notin> set (tl k) \<and> LF \<notin> set (tl k) \<and>
     trimmed v \<and> CR \<notin> set v \<and> LF \<notin> set v"

definition wf_headers :: "HttpRequest \<Rightarrow> bool" where
  "wf_headers rq \<longleftrightarrow> (\<forall>k v. headers rq k = Some v \<longrightarrow> wf_header k v)"

definition wf_target :: "HttpRequest \<Rightarrow> bool" where
  "wf_target rq \<longleftrightarrow>
     {CHR '' '', CHR ''?'', CR} \<inter> set (path rq) = {} \<and> {CHR '' '', CR} \<inter> set (query rq) = {}"

definition wf_body :: "HttpRequest \<Rightarrow> bool" where
  "wf_body rq \<longleftrightarrow>
     (case headers rq ''Content-Length'' of
        Some v \<Rightarrow> if reqMethod rq = kPost then stoul v = Inr (length (body rq)) else body rq = []
      | None \<Rightarrow> body rq = [])"

definition wf_context :: "HttpContext \<Rightarrow> bool" where
  "wf_context ctx \<longleftrightarrow>
     (let rq = request ctx; st = ctxState ctx
      in wf_target rq \<and> wf_headers rq \<and>
         (st \<noteq> STATE_PARSE_URI \<longrightarrow> reqMethod rq \<noteq> kInvalid \<and> version rq \<noteq> kUnknown) \<and>
         (st = STATE_RECV_BODY \<longrightarrow> reqMethod rq = kPost) \<and>
         (if st = STATE_ANALYSIS \<or> st = STATE_FINISH then wf_body rq else body rq = []))"

section \<open>The request line\<close>

lemma slice_avoids:
  assumes "\<And>i. p \<le> i \<Longrightarrow> i < q \<Longrightarrow> b ! i \<noteq> x" and "q \<le> length b"
  shows "x \<notin> set (slice p q b)"
  using assms by (auto simp: in_set_conv_nth nth_slice)

lemma set_target_wf:
  assumes q: "space2 \<le> length mem" and clean: "\<And>i. first \<le> i \<Longrightarrow> i < space2 \<Longrightarrow> mem ! i \<noteq> CHR '' '' \<and> mem ! i \<noteq> CR"
    and le: "first \<le> space2" and rq: "wf_target rq"
  shows "wf_target (set_target mem first space2 rq)"
    and "headers (set_target mem first space2 rq) = headers rq"
    and "body (set_target mem first space2 rq) = body rq"
    and "reqMethod (set_target mem first space2 rq) = reqMethod rq"
proof -
  let ?q = "std_find first space2 (CHR ''?'') mem"
  have qb: "first \<le> ?q" "?q \<le> space2" using le by (simp_all add: std_find_ge std_find_le)
  have path: "{CHR '' '', CHR ''?'', CR} \<inter> set (slice first ?q mem) = {}"
    using clean qb q std_find_before [of first _ space2 "CHR ''?''" mem]
    by (auto simp: in_set_conv_nth nth_slice)
  have query: "{CHR '' '', CR} \<inter> set (slice (?q + 1) space2 mem) = {}"
    using clean qb q by (auto simp: in_set_conv_nth nth_slice)
  show "wf_target (set_target mem first space2 rq)"
    using path query rq by (auto simp: set_target_def setPath_def setQuery_def wf_target_def Let_def)
qed (simp_all add: set_target_def setPath_def setQuery_def Let_def)

lemma parseURI_wf:
  assumes inv: "buf_inv buf" and wf: "wf_context ctx" and st: "ctxState ctx = STATE_PARSE_URI"
    and p: "parseURI ctx buf = Inr (r, c, buf')"
  shows "wf_context c" and "ctxState c = STATE_PARSE_URI"
    and "r = PARSE_URI_SUCCESS \<Longrightarrow> reqMethod (request c) \<noteq> kInvalid \<and> version (request c) \<noteq> kUnknown"
proof -
  let ?mem = "buffer buf" and ?b = "peek buf" and ?e = "peek buf + readableBytes buf"
  let ?cr = "std_find ?b ?e CR ?mem"
  let ?sp = "std_find ?b ?cr (CHR '' '') ?mem"
  let ?sp2 = "std_find (?sp + 1) ?cr (CHR '' '') ?mem"
  have cr: "?b \<le> ?cr" "?cr \<le> ?e" using std_find_ge std_find_le [of ?b ?e CR ?mem] by auto
  have sp: "?b \<le> ?sp" "?sp \<le> ?cr" using cr(1) by (simp_all add: std_find_ge std_find_le)
  have tgt: "wf_target (set_target ?mem (?sp + 1) ?sp2 rq)" if "wf_target rq" "?sp \<noteq> ?cr" for rq
  proof (rule set_target_wf(1) [OF _ _ _ that(1)])
    have s2: "?sp + 1 \<le> ?sp2" "?sp2 \<le> ?cr" using std_find_ge std_find_le [of "?sp + 1" ?cr] sp that(2) by auto
    then show "?sp2 \<le> length ?mem" and "?sp + 1 \<le> ?sp2"
      using cr readable_in_vector [OF inv] by auto
    fix i assume "?sp + 1 \<le> i" "i < ?sp2"
    then show "?mem ! i \<noteq> CHR '' '' \<and> ?mem ! i \<noteq> CR"
      using std_find_before [of "?sp + 1" i ?cr "CHR '' ''" ?mem] std_find_before [of ?b i ?e CR ?mem] s2 sp by auto
  qed
  have w: "wf_target (request ctx)" "wf_headers (request ctx)" "body (request ctx) = []"
    using wf st by (simp_all add: wf_context_def Let_def)
  have "wf_target (request c) \<and> wf_headers (request c) \<and> body (request c) = [] \<and>
    (r = PARSE_URI_SUCCESS \<longrightarrow> reqMethod (request c) \<noteq> kInvalid \<and> version (request c) \<noteq> kUnknown)"
  proof -
    have m: "wf_target (rq\<lparr>reqMethod := x\<rparr>) \<longleftrightarrow> wf_target rq" "wf_target (rq\<lparr>version := y\<rparr>) \<longleftrightarrow> wf_target rq"
      "wf_headers (rq\<lparr>reqMethod := x\<rparr>) \<longleftrightarrow> wf_headers rq" "wf_headers (rq\<lparr>version := y\<rparr>) \<longleftrightarrow> wf_headers rq"
      for rq x y by (simp_all add: wf_target_def wf_headers_def)
    let ?rq = "(request ctx)\<lparr>reqMethod := method_of_name (slice ?b ?sp ?mem)\<rparr>"
    have t: "wf_target (set_target ?mem (?sp + 1) ?sp2 ?rq)" if "?sp \<noteq> ?cr"
      using tgt [OF _ that] w(1) m by simp
    have h: "wf_headers (set_target ?mem (?sp + 1) ?sp2 ?rq)" "body (set_target ?mem (?sp + 1) ?sp2 ?rq) = []"
      "reqMethod (set_target ?mem (?sp + 1) ?sp2 ?rq) = method_of_name (slice ?b ?sp ?mem)"
      using w(2,3) by (simp_all add: set_target_def setPath_def setQuery_def Let_def wf_headers_def)
    show ?thesis
      using p t h w by (auto simp: parseURI_def Let_def setMethod_def m split: if_splits)
  qed
  with parseURI_ctxState [OF p] st show "wf_context c" and "ctxState c = STATE_PARSE_URI"
    and "r = PARSE_URI_SUCCESS \<Longrightarrow> reqMethod (request c) \<noteq> kInvalid \<and> version (request c) \<noteq> kUnknown"
    by (simp_all add: wf_context_def Let_def)
qed

section \<open>The headers\<close>

text \<open>Where the pointers are, and what lies between them, in each state inside a line.\<close>

definition key_ok :: "string \<Rightarrow> nat \<Rightarrow> nat \<Rightarrow> bool" where
  "key_ok mem ks c \<longleftrightarrow> ks < c \<and> mem ! ks \<noteq> CR \<and>
     (\<forall>i. ks < i \<and> i < c \<longrightarrow> mem ! i \<noteq> CR \<and> mem ! i \<noteq> LF \<and> mem ! i \<noteq> CHR '':'')"

definition val_ok :: "string \<Rightarrow> nat \<Rightarrow> nat \<Rightarrow> bool" where
  "val_ok mem a c \<longleftrightarrow> a \<le> c \<and> (\<forall>i. a \<le> i \<and> i < c \<longrightarrow> mem ! i \<noteq> CR \<and> mem ! i \<noteq> LF)"

definition line_ok :: "string \<Rightarrow> nat \<Rightarrow> hdr_ptrs \<Rightarrow> ParseState \<Rightarrow> bool" where
  "line_ok mem c p h =
     (case h of
        H_KEY \<Rightarrow> (\<exists>ks. key_start p = Some ks \<and> key_ok mem ks c)
      | H_COLON \<Rightarrow> (\<exists>ks ke. key_start p = Some ks \<and> key_end p = Some ke \<and> key_ok mem ks ke \<and> c = ke + 1)
      | H_SPACES_AFTER_COLON \<Rightarrow> (\<exists>ks ke. key_start p = Some ks \<and> key_end p = Some ke \<and> key_ok mem ks ke \<and>
          c = ke + 2 \<and> mem ! (ke + 1) = CHR '' '')
      | H_VALUE \<Rightarrow> (\<exists>ks ke. key_start p = Some ks \<and> key_end p = Some ke \<and> key_ok mem ks ke \<and>
          val_ok mem (ke + 3) c \<and> mem ! (ke + 1) = CHR '' '')
      | H_CR \<Rightarrow> (\<exists>ks ke ve. key_start p = Some ks \<and> key_end p = Some ke \<and> val_end p = Some ve \<and>
          key_ok mem ks ke \<and> val_ok mem (ke + 3) ve \<and> ve < c \<and> mem ! (ke + 1) = CHR '' '')
      | _ \<Rightarrow> True)"

definition same_rest :: "HttpRequest \<Rightarrow> HttpRequest \<Rightarrow> bool" where
  "same_rest rq rq' \<longleftrightarrow> rq' = rq\<lparr>headers := headers rq'\<rparr>"

lemma same_rest_refl [simp]: "same_rest rq rq" by (simp add: same_rest_def)

lemma same_rest_trans: "same_rest a b \<Longrightarrow> same_rest b c \<Longrightarrow> same_rest a c"
  by (cases a; cases b; cases c) (simp add: same_rest_def)

text \<open>The value behind a colon and a space has no line break once it is trimmed.\<close>

lemma stored_value_wf:
  assumes key: "key_ok mem ks ke" and val: "val_ok mem (ke + 3) ve" and e: "ve \<le> length mem"
    and sp: "mem ! (ke + 1) = CHR '' ''"
  shows "wf_header (slice ks ke mem) (trim_right (dropWhile isspace (slice (Suc ke) ve mem)))"
proof -
  have b: "ks < ke" "ke + 3 \<le> ve" using key val by (auto simp: key_ok_def val_ok_def)
  let ?k = "slice ks ke mem" and ?x = "mem ! (ke + 2)" and ?ys = "slice (ke + 3) ve mem"
  have k: "?k = mem ! ks # slice (Suc ks) ke mem" using b e by (simp add: slice_Cons)
  have ktl: "x \<notin> set (slice (Suc ks) ke mem)" if "x \<in> {CR, LF, CHR '':''}" for x
    using key that b e by (intro slice_avoids) (auto simp: key_ok_def)
  have "mem ! ks \<noteq> CR" using key by (simp add: key_ok_def)
  have "slice (Suc ke) ve mem = mem ! Suc ke # mem ! Suc (Suc ke) # slice (Suc (Suc (Suc ke))) ve mem"
    using b e by (simp add: slice_Cons)
  then have s: "slice (Suc ke) ve mem = CHR '' '' # ?x # ?ys"
    using sp by (simp add: eval_nat_numeral)
  have ys: "x \<notin> set ?ys" if "x \<in> {CR, LF}" for x
    using val that e by (intro slice_avoids) (auto simp: val_ok_def)
  let ?d = "dropWhile isspace (slice (Suc ke) ve mem)"
  have "x \<notin> set ?d" if "x \<in> {CR, LF}" for x
  proof (cases "isspace ?x")
    case True
    then have "?d = dropWhile isspace ?ys" by (simp add: s isspace_def)
    then show ?thesis using ys [OF that] set_dropWhileD by metis
  next
    case False
    then have "?d = ?x # ?ys" and "?x \<noteq> x" using that by (auto simp: s isspace_def)
    then show ?thesis using ys [OF that] by simp
  qed
  then have "x \<notin> set (trim_right ?d)" if "x \<in> {CR, LF}" for x
    using that trim_right_prefix [of ?d] by (metis UnI1 set_append)
  with k ktl \<open>mem ! ks \<noteq> CR\<close> trimmed_trim show ?thesis by (simp add: wf_header_def)
qed

text \<open>One character.\<close>

definition hdr_wf :: "string \<Rightarrow> nat \<Rightarrow> hdr_ptrs \<Rightarrow> ParseState \<Rightarrow> HttpRequest \<Rightarrow> bool" where
  "hdr_wf mem c p h rq \<longleftrightarrow> (line_ok mem c p h \<or> lost_ptrs p h) \<and> wf_headers rq"

lemma addHeader_wf:
  assumes "addHeader mem (Some ks) (Some ke) (Some ve) rq = Inr rq'" and "wf_headers rq"
    and "key_ok mem ks ke" and "val_ok mem (ke + 3) ve" and "ve \<le> length mem" and "mem ! (ke + 1) = CHR '' ''"
  shows "wf_headers rq'" and "same_rest rq rq'"
proof -
  have "ks \<le> ke" "ke < ve" using assms(3,4) by (auto simp: key_ok_def val_ok_def)
  note rq' = addHeader_trims [OF assms(1) this(2) assms(5) this(1)]
  then show "wf_headers rq'"
    using assms(2) stored_value_wf [OF assms(3-6)] by (auto simp: wf_headers_def)
  show "same_rest rq rq'" using rq' by (simp add: same_rest_def)
qed

lemma hdr_step_lost_frame:
  assumes "lost_ptrs p h" and "hdr_step mem e c p h rq = Inr a"
  shows "case a of Go _ _ rq' \<Rightarrow> rq' = rq | Ret _ _ rq' \<Rightarrow> rq' = rq"
  using assms
  by (cases h) (auto simp: lost_ptrs_def hdr_step_def log_range_def Let_def bind_result_Inr_iff addHeader_def
      split: if_splits)

lemma hdr_step_line_ok:
  assumes "line_ok mem c p h" and "wf_headers rq" and "c < e" and "e \<le> length mem"
    and "hdr_step mem e c p h rq = Inr a"
  shows "case a of Go p' h' rq' \<Rightarrow> line_ok mem (Suc c) p' h' \<and> wf_headers rq' \<and> same_rest rq rq'
    | Ret _ _ rq' \<Rightarrow> rq' = rq"
proof (cases h)
  case H_VALUE
  then obtain ks ke where p: "key_start p = Some ks" "key_end p = Some ke" "key_ok mem ks ke"
      "val_ok mem (ke + 3) c" "mem ! (ke + 1) = CHR '' ''"
    using assms(1) by (auto simp: line_ok_def)
  have next_val: "val_ok mem (ke + 3) (Suc c)" if "mem ! c \<noteq> CR" "mem ! c \<noteq> LF"
    using p(4) that by (auto simp: val_ok_def less_Suc_eq)
  show ?thesis
    using assms(2-5) H_VALUE p next_val addHeader_wf [OF _ assms(2) p(3,4) _ p(5)]
    by (auto simp: hdr_step_def Let_def log_range_def bind_result_Inr_iff line_ok_def split: if_splits)
next
  case H_CR
  then obtain ks ke ve where p: "key_start p = Some ks" "key_end p = Some ke" "val_end p = Some ve"
      "key_ok mem ks ke" "val_ok mem (ke + 3) ve" "ve < c" "mem ! (ke + 1) = CHR '' ''"
    using assms(1) by (auto simp: line_ok_def)
  show ?thesis
    using assms(2-5) H_CR p addHeader_wf [OF _ assms(2) p(4,5) _ p(7)]
    by (auto simp: hdr_step_def Let_def log_range_def bind_result_Inr_iff line_ok_def split: if_splits)
qed (use assms in \<open>auto simp: hdr_step_def Let_def log_range_def bind_result_Inr_iff line_ok_def key_ok_def
      val_ok_def less_Suc_eq eval_nat_numeral split: if_splits\<close>)

lemma hdr_loop_wf:
  "hdr_wf mem c p h rq \<Longrightarrow> e \<le> length mem \<Longrightarrow> hdr_loop mem e c p h rq = Inr (r, c', h', rq') \<Longrightarrow>
   wf_headers rq' \<and> same_rest rq rq'"
proof (induction mem e c p h rq rule: hdr_loop.induct)
  case (1 mem e c p h rq)
  show ?case
  proof (cases "c < e")
    case True
    with "1.prems"(3) obtain a where a: "hdr_step mem e c p h rq = Inr a"
      by (cases "hdr_step mem e c p h rq") (auto simp: hdr_loop_fault)
    have wf: "wf_headers rq" using "1.prems"(1) by (simp add: hdr_wf_def)
    have "case a of Go p1 h1 rq1 \<Rightarrow> hdr_wf mem (Suc c) p1 h1 rq1 \<and> same_rest rq rq1 | Ret _ _ rq1 \<Rightarrow> rq1 = rq"
    proof (cases "line_ok mem c p h")
      case ok: True
      show ?thesis
        using hdr_step_line_ok [OF ok wf True "1.prems"(2) a] by (cases a) (simp_all add: hdr_wf_def)
    next
      case False
      then have "lost_ptrs p h" using "1.prems"(1) by (simp add: hdr_wf_def)
      from hdr_step_lost [OF this a] hdr_step_lost_frame [OF this a] wf show ?thesis
        by (cases a) (simp_all add: hdr_wf_def)
    qed
    then show ?thesis
      using "1.IH" [OF True] "1.prems"(2,3) True a wf same_rest_trans
      by (cases a) (auto simp: hdr_loop_go hdr_loop_ret)
  next
    case False
    then show ?thesis using "1.prems" by (auto simp: hdr_loop_end hdr_wf_def)
  qed
qed

lemma parseHeaders_wf:
  assumes inv: "buf_inv buf" and wf: "wf_headers (request ctx)"
    and p: "parseHeaders ctx buf = Inr (r, c, buf')"
  shows "wf_headers (request c)" and "same_rest (request ctx) (request c)"
proof -
  have "hdr_wf (buffer buf) (peek buf) null_ptrs (hState ctx) (request ctx)"
    using wf null_ptrs_lost [of "hState ctx"]
    by (cases "hState ctx") (auto simp: hdr_wf_def line_ok_def mid_line_def)
  from hdr_loop_wf [OF this readable_in_vector [OF inv]] p wf
  show "wf_headers (request c)" and "same_rest (request ctx) (request c)"
    by (auto simp: parseHeaders_def Let_def bind_result_Inr_iff split: if_splits)
qed

section \<open>The driver loop\<close>

lemma same_rest_fields:
  "same_rest rq rq' \<Longrightarrow> reqMethod rq' = reqMethod rq \<and> version rq' = version rq \<and> body rq' = body rq \<and>
   wf_target rq' = wf_target rq"
  by (cases rq; cases rq') (simp add: same_rest_def wf_target_def)

lemma body_iter_wf:
  assumes inv: "buf_inv buf" and wf: "wf_context ctx" and st: "ctxState ctx = STATE_RECV_BODY"
    and it: "parse_iter T ctx buf = Inr (hm, ok, c, buf')"
  shows "wf_context c"
proof (cases "headers (request ctx) ''Content-Length''")
  case None
  then show ?thesis using wf st it
    by (auto simp: parse_iter_def wf_context_def wf_body_def Let_def)
next
  case (Some v)
  then obtain len where len: "stoul v = Inr len" using it st
    by (cases "stoul v") (auto simp: parse_iter_def)
  show ?thesis
  proof (cases "len \<le> readableBytes buf")
    case True
    then have "length (slice (peek buf) (peek buf + len) (buffer buf)) = len"
      using readable_in_vector [OF inv] by simp
    then show ?thesis using wf st it len Some True
      by (auto simp: parse_iter_def wf_context_def wf_body_def wf_target_def wf_headers_def Let_def)
  next
    case False
    then show ?thesis using wf st it len Some by (simp add: parse_iter_def)
  qed
qed

lemma parse_iter_wf:
  assumes inv: "buf_inv buf" and wf: "wf_context ctx"
    and it: "parse_iter T ctx buf = Inr (hm, ok, c, buf')"
  shows "wf_context c"
proof (cases "ctxState ctx")
  case STATE_PARSE_URI
  show ?thesis
  proof (rule parse_iter_uriE [OF STATE_PARSE_URI it])
    fix flag c1
    assume p: "parseURI ctx buf = Inr (flag, c1, buf')" "hm \<longleftrightarrow> flag = PARSE_URI_SUCCESS"
      and c: "c = (if hm then c1\<lparr>request := (request c1)\<lparr>receiveTime := T\<rparr>, ctxState := STATE_PARSE_HEADERS\<rparr> else c1)"
    from parseURI_wf [OF inv wf STATE_PARSE_URI p(1)] p(2) c show ?thesis
      by (auto simp: wf_context_def Let_def wf_target_def wf_headers_def)
  qed
next
  case STATE_PARSE_HEADERS
  show ?thesis
  proof (rule parse_iter_headersE [OF STATE_PARSE_HEADERS it])
    fix flag c1
    assume p: "parseHeaders ctx buf = Inr (flag, c1, buf')"
      and c: "c = (if hm then c1\<lparr>ctxState := (if reqMethod (request c1) = kPost then STATE_RECV_BODY
        else STATE_ANALYSIS)\<rparr> else c1)"
    have "wf_headers (request ctx)" using wf by (simp add: wf_context_def Let_def)
    from parseHeaders_wf [OF inv this p] same_rest_fields
    have r: "wf_headers (request c1)" "reqMethod (request c1) = reqMethod (request ctx)"
        "version (request c1) = version (request ctx)" "body (request c1) = body (request ctx)"
        "wf_target (request c1) = wf_target (request ctx)" by blast+
    show ?thesis
      using wf r c STATE_PARSE_HEADERS parseHeaders_ctxState [OF p]
      by (auto simp: wf_context_def Let_def wf_body_def split: option.splits)
  qed
next
  case STATE_RECV_BODY
  show ?thesis by (rule body_iter_wf [OF inv wf STATE_RECV_BODY it])
qed (use wf it in \<open>auto simp: parse_iter_def wf_context_def Let_def\<close>)

lemma parseRequest_wf:
  assumes "parseRequest T ctx buf = Some (Inr (ok, c, b))" and "buf_inv buf" and "wf_context ctx"
  shows "wf_context c"
proof -
  have "buf_inv buf \<longrightarrow> wf_context ctx \<longrightarrow> (\<forall>ok c b. r = Inr (ok, c, b) \<longrightarrow> wf_context c)"
    if "parseRequest T ctx buf = Some r" for r
    using that
  proof (induction rule: parseRequest_induct)
    case (step ctx buf ok ctx1 buf1 r)
    show ?case
    proof (intro impI)
      assume a: "buf_inv buf" "wf_context ctx"
      then have "wf_context ctx1" using step.hyps by (rule parse_iter_wf)
      moreover have "buf_inv buf1" using parse_iter_consumes [OF a(1) step.hyps] by (simp add: consumes_def)
      ultimately show "\<forall>ok c b. r = Inr (ok, c, b) \<longrightarrow> wf_context c" using step.IH by blast
    qed
  qed (auto dest: parse_iter_wf)
  with assms show ?thesis by blast
qed

text \<open>The contexts a connection can have: a fresh one, one after a call of the parser on any
  buffer, one after a reset.\<close>

inductive conn_context :: "HttpContext \<Rightarrow> bool" where
  fresh: "conn_context new_HttpContext"
| parsed: "conn_context ctx \<Longrightarrow> buf_inv buf \<Longrightarrow> parseRequest T ctx buf = Some (Inr (ok, ctx', buf')) \<Longrightarrow>
    conn_context ctx'"
| reset: "conn_context ctx \<Longrightarrow> conn_context (reset_context ctx)"

lemma wf_new_context: "wf_context new_HttpContext"
  by (simp add: wf_context_def new_HttpContext_def new_HttpRequest_def wf_target_def wf_headers_def Let_def)

lemma conn_context_wf: "conn_context ctx \<Longrightarrow> wf_context ctx"
proof (induction rule: conn_context.induct)
  case (reset ctx)
  then show ?case
    using wf_new_context by (simp add: wf_context_def Let_def reset_context_def swap_request_def new_HttpContext_def)
qed (use wf_new_context parseRequest_wf in blast)+

section \<open>Property\<close>

text \<open>C18. Every request the parser reports as complete, after whatever input in whatever pieces and also after
  parse errors, is well-formed: the method and the version are set; the path has no space, question
  mark or carriage return and the query no space or carriage return; header names are not empty and
  contain no carriage return; header values are trimmed and contain no line break; and the body is
  empty, or it is the body of a POST request and has exactly the length that \<^verbatim>\<open>std::stoul\<close> reads from
  its \<^verbatim>\<open>Content-Length\<close>.\<close>

theorem finished_request_wellformed:
  assumes "conn_context ctx" and "gotAll ctx"
  shows "reqMethod (request ctx) \<noteq> kInvalid \<and> version (request ctx) \<noteq> kUnknown \<and>
    wf_target (request ctx) \<and> wf_headers (request ctx) \<and> wf_body (request ctx)"
  using conn_context_wf [OF assms(1)] assms(2) by (simp add: wf_context_def gotAll_def Let_def)

theorem finished_request_wellformed_witness:
  "\<exists>ctx. gotAll ctx \<and> request ctx = request_of 7 ''POST'' ''/a?b=1'' ''HTTP/1.1'' [(''Content-Length'', ''2'')] ''hi'' \<and>
    reqMethod (request ctx) \<noteq> kInvalid \<and> version (request ctx) \<noteq> kUnknown \<and>
    wf_target (request ctx) \<and> wf_headers (request ctx) \<and> wf_body (request ctx)"
proof -
  have "dec (Suc (Suc 0)) = ''2''" by code_simp
  then have ok: "request_ok ''POST'' ''/a?b=1'' ''HTTP/1.1'' [(''Content-Length'', ''2'')] ''hi''"
    by (simp add: request_ok_def method_of_name_def target_ok_def hdr_ok_def trimmed_def isspace_def
        del: dec.simps)
  let ?s = "render_request ''POST'' ''/a?b=1'' ''HTTP/1.1'' [(''Content-Length'', ''2'')] ''hi''"
  have "contents (received ?s) = ?s @ []" by simp
  from parseRequest_whole [OF received_inv ok this, of 7] obtain b where
    p: "parseRequest 7 new_HttpContext (received ?s)
      = Some (Inr (True, head_ctx 7 ''POST'' ''/a?b=1'' ''HTTP/1.1'' [(''Content-Length'', ''2'')] STATE_FINISH ''hi'', b))"
    by blast
  let ?ctx = "head_ctx 7 ''POST'' ''/a?b=1'' ''HTTP/1.1'' [(''Content-Length'', ''2'')] STATE_FINISH ''hi''"
  have c: "conn_context ?ctx" using conn_context.parsed [OF conn_context.fresh received_inv p] .
  have g: "gotAll ?ctx" by (simp add: gotAll_def head_ctx_def)
  have "request ?ctx = request_of 7 ''POST'' ''/a?b=1'' ''HTTP/1.1'' [(''Content-Length'', ''2'')] ''hi''"
    by (simp add: head_ctx_def)
  with finished_request_wellformed [OF c g] g show ?thesis by blast
qed

end
