(* ===== verification/Io_Uring.thy ===== *)
theory Io_Uring
  imports Channel_Poller "HOL-Library.Multiset"
begin

text \<open>
  Asynchronous file access (\<^verbatim>\<open>include/IOuring.h\<close>, \<^verbatim>\<open>src/IOuring.cpp\<close>).  The ring of \<^verbatim>\<open>liburing\<close> is outside the sources:
  whether it has a free submission entry is a parameter, numbered by the calls, and \<open>um_ring\<close> lists the
  entries whose completion has not been marked as seen; the completions the ring reports are
  arguments.  A callback is a value of type \<open>'c\<close>; the requests it makes are a parameter.  The manager is used in
  its loop only; a request from another thread is a functor of the loop.  The result of
  \<^verbatim>\<open>io_uring_submit\<close> is only logged.
\<close>

section \<open>Requests\<close>

record iovec =
  iov_base :: nat
  iov_len :: nat

datatype Operation = READ | WRITE

record RWOperation =
  rw_op :: Operation
  rw_offset :: int
  rw_iovec :: "iovec list"

definition new_RWOperation :: "Operation \<Rightarrow> int \<Rightarrow> iovec \<Rightarrow> RWOperation" where
  "new_RWOperation op off defaultIOv = \<lparr>rw_op = op, rw_offset = off, rw_iovec = [defaultIOv]\<rparr>"

definition appendIOVec :: "iovec \<Rightarrow> RWOperation \<Rightarrow> RWOperation" where
  "appendIOVec iov rw = rw\<lparr>rw_iovec := rw_iovec rw @ [iov]\<rparr>"

record File =
  file_fd :: int

record 'c IOContext =
  ctx_file :: File
  ctx_rwOp :: RWOperation
  ctx_callback :: 'c

text \<open>A submission entry after \<^verbatim>\<open>io_uring_prep_readv\<close> or \<^verbatim>\<open>io_uring_prep_writev\<close> and \<^verbatim>\<open>io_uring_sqe_set_data\<close>.\<close>

record sqe =
  sqe_opcode :: Operation
  sqe_fd :: int
  sqe_iov :: "iovec list"
  sqe_offset :: int
  sqe_data :: nat

definition prep_sqe :: "'c IOContext \<Rightarrow> nat \<Rightarrow> sqe" where
  "prep_sqe ctx ioIdx =
     (let rwOp = ctx_rwOp ctx; fd = file_fd (ctx_file ctx)
      in case rw_op rwOp of
           READ \<Rightarrow> \<lparr>sqe_opcode = READ, sqe_fd = fd, sqe_iov = rw_iovec rwOp, sqe_offset = rw_offset rwOp, sqe_data = ioIdx\<rparr>
         | WRITE \<Rightarrow> \<lparr>sqe_opcode = WRITE, sqe_fd = fd, sqe_iov = rw_iovec rwOp, sqe_offset = rw_offset rwOp, sqe_data = ioIdx\<rparr>)"

section \<open>The manager\<close>

definition URING_ENTRYS :: nat where "URING_ENTRYS = 8"

record uring_env =
  u_get_sqe :: "nat \<Rightarrow> bool"

text \<open>\<open>um_called\<close> lists the callbacks run so far with their results.\<close>

record 'c UringManager =
  um_eventfd :: int
  um_channel :: nat
  um_activeIOs :: "int \<rightharpoonup> 'c IOContext"
  um_currentIdx :: nat
  um_pendingIOs :: "'c IOContext list"
  um_calls :: nat
  um_ring :: "sqe list"
  um_called :: "('c IOContext \<times> int) list"

definition createEventfd :: "int \<Rightarrow> int result" where
  "createEventfd fd = (if fd < 0 then Inl FatalAbort else Inr fd)"

text \<open>
  The constructor: the answers of \<^verbatim>\<open>eventfd\<close>, \<^verbatim>\<open>io_uring_queue_init\<close>, \<^verbatim>\<open>io_uring_register_eventfd\<close> and of the two
  \<^verbatim>\<open>epoll_ctl\<close> calls, the address of the channel, and the poller.
\<close>

definition new_UringManager ::
    "int \<Rightarrow> int \<Rightarrow> int \<Rightarrow> int \<Rightarrow> int \<Rightarrow> nat \<Rightarrow> EPollPoller \<Rightarrow> ('c UringManager \<times> EPollPoller) result" where
  "new_UringManager fd init_ret register_ret ret1 ret2 c p =
     bind_result (createEventfd fd) (\<lambda>efd.
       let p0 = set_channel c (\<lambda>_. new_Channel efd) p
       in if init_ret < 0 then Inl FatalAbort
          else if register_ret < 0 then Inl FatalAbort
          else bind_result (setReadCallback ret1 c p0) (\<lambda>p1.
               bind_result (enableReading ret2 c p1) (\<lambda>p2.
               Inr (\<lparr>um_eventfd = efd, um_channel = c, um_activeIOs = Map.empty, um_currentIdx = 0, um_pendingIOs = [],
                     um_calls = 0, um_ring = [], um_called = []\<rparr>, p2))))"

definition destroy_UringManager :: "int \<Rightarrow> int \<Rightarrow> 'c UringManager \<Rightarrow> EPollPoller \<Rightarrow> EPollPoller result" where
  "destroy_UringManager ret1 ret2 m p =
     bind_result (disableAll ret1 (um_channel m) p) (\<lambda>p1. removeChannel ret2 (um_channel m) p1)"

text \<open>The descriptor \<^verbatim>\<open>open\<close> returned; an error gives a null pointer.\<close>

definition registerFile :: "int \<Rightarrow> File option" where
  "registerFile fd = (if fd < 0 then None else Some \<lparr>file_fd = fd\<rparr>)"

text \<open>\<^verbatim>\<open>std::map<int, IOContext>::emplace\<close> with a \<^verbatim>\<open>size_t\<close> key: the key is converted to \<^verbatim>\<open>int\<close>, and a key in use keeps its value.\<close>

definition io_key :: "nat \<Rightarrow> int" where
  "io_key ioIdx = to_int32 (int ioIdx)"

definition emplace :: "'k \<Rightarrow> 'v \<Rightarrow> ('k \<rightharpoonup> 'v) \<Rightarrow> ('k \<rightharpoonup> 'v)" where
  "emplace k v m = (if m k = None then m(k \<mapsto> v) else m)"

definition appendIOContext :: "uring_env \<Rightarrow> 'c IOContext \<Rightarrow> 'c UringManager \<Rightarrow> 'c UringManager" where
  "appendIOContext env ctx m =
     (let m1 = m\<lparr>um_calls := Suc (um_calls m)\<rparr>
      in if \<not> u_get_sqe env (um_calls m) then m1\<lparr>um_pendingIOs := um_pendingIOs m1 @ [ctx]\<rparr>
         else let ioIdx = um_currentIdx m1
              in m1\<lparr>um_ring := um_ring m1 @ [prep_sqe ctx ioIdx],
                   um_currentIdx := (ioIdx + 1) mod 2 ^ 64,
                   um_activeIOs := emplace (io_key ioIdx) ctx (um_activeIOs m1)\<rparr>)"

definition asyncRW :: "uring_env \<Rightarrow> File \<Rightarrow> RWOperation \<Rightarrow> 'c \<Rightarrow> 'c UringManager \<Rightarrow> 'c UringManager" where
  "asyncRW env f op cb m = appendIOContext env \<lparr>ctx_file = f, ctx_rwOp = op, ctx_callback = cb\<rparr> m"

type_synonym 'c reaction = "'c \<Rightarrow> int \<Rightarrow> RWOperation \<Rightarrow> 'c IOContext list"

definition runCallback :: "uring_env \<Rightarrow> 'c reaction \<Rightarrow> 'c IOContext \<Rightarrow> int \<Rightarrow> 'c UringManager \<Rightarrow> 'c UringManager" where
  "runCallback env react ctx retval m =
     fold (appendIOContext env) (react (ctx_callback ctx) retval (ctx_rwOp ctx)) (m\<lparr>um_called := um_called m @ [(ctx, retval)]\<rparr>)"

text \<open>One completion: its user data and result.\<close>

definition handle_one :: "uring_env \<Rightarrow> 'c reaction \<Rightarrow> nat \<times> int \<Rightarrow> 'c UringManager \<Rightarrow> 'c UringManager result" where
  "handle_one env react = (\<lambda>(ioIdx, res) m.
     case um_activeIOs m (io_key ioIdx) of
       None \<Rightarrow> Inl OutOfRange
     | Some ioCtx \<Rightarrow>
         let m1 = runCallback env react ioCtx res m;
             m2 = m1\<lparr>um_activeIOs := (um_activeIOs m1)(io_key ioIdx := None)\<rparr>;
             m3 = m2\<lparr>um_ring := filter (\<lambda>s. sqe_data s \<noteq> ioIdx) (um_ring m2)\<rparr>
         in Inr (case um_pendingIOs m3 of
                   [] \<Rightarrow> m3
                 | nextCtx # rest \<Rightarrow> appendIOContext env nextCtx (m3\<lparr>um_pendingIOs := rest\<rparr>)))"

text \<open>The completions peeked until \<^verbatim>\<open>-EAGAIN\<close> or an error.\<close>

definition handleCQE :: "uring_env \<Rightarrow> 'c reaction \<Rightarrow> (nat \<times> int) list \<Rightarrow> 'c UringManager \<Rightarrow> 'c UringManager result" where
  "handleCQE env react cqes m = fold_result (handle_one env react) cqes m"

definition handEventRead :: "uring_env \<Rightarrow> 'c reaction \<Rightarrow> int \<Rightarrow> (nat \<times> int) list \<Rightarrow> 'c UringManager \<Rightarrow> 'c UringManager result" where
  "handEventRead env react n cqes m = (if n \<noteq> 8 then Inl FatalAbort else handleCQE env react cqes m)"

section \<open>Runs\<close>

text \<open>
  The states reached by requests, given here with all the requests made so far, and by completions of
  entries in the ring; there are at most \<open>2 ^ 32\<close> requests.
\<close>

inductive uring_reach :: "uring_env \<Rightarrow> 'c reaction \<Rightarrow> 'c UringManager \<Rightarrow> 'c IOContext list \<Rightarrow> bool" for env react where
  start: "um_activeIOs m = Map.empty \<Longrightarrow> um_currentIdx m = 0 \<Longrightarrow> um_pendingIOs m = [] \<Longrightarrow> um_ring m = [] \<Longrightarrow> um_called m = [] \<Longrightarrow>
    uring_reach env react m []"
| request: "uring_reach env react m rs \<Longrightarrow> length rs < 2 ^ 32 \<Longrightarrow> uring_reach env react (appendIOContext env ctx m) (rs @ [ctx])"
| complete: "uring_reach env react m rs \<Longrightarrow> s \<in> set (um_ring m) \<Longrightarrow> um_activeIOs m (io_key (sqe_data s)) = Some ctx \<Longrightarrow>
    handle_one env react (sqe_data s, res) m = Inr m' \<Longrightarrow>
    length (rs @ react (ctx_callback ctx) res (ctx_rwOp ctx)) \<le> 2 ^ 32 \<Longrightarrow>
    uring_reach env react m' (rs @ react (ctx_callback ctx) res (ctx_rwOp ctx))"


section \<open>The invariant\<close>

definition ring_ctx :: "'c UringManager \<Rightarrow> sqe \<Rightarrow> 'c IOContext" where
  "ring_ctx m s = the (um_activeIOs m (io_key (sqe_data s)))"

text \<open>Every request has been called back, is in the ring under a key of its own, or waits.\<close>

definition uring_inv :: "'c UringManager \<Rightarrow> 'c IOContext multiset \<Rightarrow> bool" where
  "uring_inv m R \<longleftrightarrow>
     distinct (map sqe_data (um_ring m)) \<and> (\<forall>s \<in> set (um_ring m). sqe_data s < um_currentIdx m) \<and>
     dom (um_activeIOs m) = io_key ` sqe_data ` set (um_ring m) \<and>
     (\<forall>s \<in> set (um_ring m). s = prep_sqe (ring_ctx m s) (sqe_data s)) \<and>
     um_currentIdx m = length (um_called m) + length (um_ring m) \<and>
     R = mset (map fst (um_called m)) + mset (map (ring_ctx m) (um_ring m)) + mset (um_pendingIOs m)"

lemma io_key_inj:
  assumes "a < 2 ^ 32" and "b < 2 ^ 32" and "io_key a = io_key b" shows "a = b"
proof -
  have "(int a + 2 ^ 31) mod 2 ^ 32 = (int b + 2 ^ 31) mod 2 ^ 32" using assms(3) by (simp add: io_key_def to_int32_def)
  then have "int a mod 2 ^ 32 = int b mod 2 ^ 32" by (metis add_diff_cancel_right' mod_diff_left_eq)
  then show ?thesis using assms(1,2) by simp
qed

lemma sqe_data_prep [simp]: "sqe_data (prep_sqe ctx i) = i"
  by (simp add: prep_sqe_def Let_def split: Operation.split)

lemma uring_inv_bound: "uring_inv m R \<Longrightarrow> um_currentIdx m \<le> size R"
  by (simp add: uring_inv_def)

text \<open>The next number is not the key of an active request.\<close>

lemma new_key_free:
  assumes "uring_inv m R" and "size R < 2 ^ 32"
  shows "um_activeIOs m (io_key (um_currentIdx m)) = None"
proof -
  have idx: "um_currentIdx m < 2 ^ 32" using uring_inv_bound [OF assms(1)] assms(2) by simp
  have i: "\<forall>s \<in> set (um_ring m). sqe_data s < um_currentIdx m"
    "dom (um_activeIOs m) = io_key ` sqe_data ` set (um_ring m)"
    using assms(1) by (auto simp: uring_inv_def)
  have "io_key (sqe_data s) \<noteq> io_key (um_currentIdx m)" if "s \<in> set (um_ring m)" for s
    using io_key_inj [of "sqe_data s" "um_currentIdx m"] i(1) that idx by force
  then have "io_key (um_currentIdx m) \<notin> dom (um_activeIOs m)" unfolding i(2) by (metis imageE)
  then show ?thesis by (simp add: domIff)
qed

lemma appendIOContext_inv:
  assumes "uring_inv m R" and "size R < 2 ^ 32"
  shows "uring_inv (appendIOContext env ctx m) (add_mset ctx R)"
proof (cases "u_get_sqe env (um_calls m)")
  case False
  then show ?thesis using assms(1)
    by (auto simp: appendIOContext_def uring_inv_def ring_ctx_def [abs_def])
next
  case True
  have i: "distinct (map sqe_data (um_ring m))" "\<forall>s \<in> set (um_ring m). sqe_data s < um_currentIdx m"
    "dom (um_activeIOs m) = io_key ` sqe_data ` set (um_ring m)"
    "\<forall>s \<in> set (um_ring m). s = prep_sqe (ring_ctx m s) (sqe_data s)"
    "um_currentIdx m = length (um_called m) + length (um_ring m)"
    "R = mset (map fst (um_called m)) + mset (map (ring_ctx m) (um_ring m)) + mset (um_pendingIOs m)"
    using assms(1) by (auto simp: uring_inv_def)
  have idx: "um_currentIdx m < 2 ^ 32" using uring_inv_bound [OF assms(1)] assms(2) by simp
  note none = new_key_free [OF assms]
  then have new: "io_key (sqe_data s) \<noteq> io_key (um_currentIdx m)" if "s \<in> set (um_ring m)" for s
    using i(3) that by (metis domIff imageI)
  let ?m = "m\<lparr>um_calls := Suc (um_calls m), um_ring := um_ring m @ [prep_sqe ctx (um_currentIdx m)],
      um_currentIdx := Suc (um_currentIdx m), um_activeIOs := (um_activeIOs m)(io_key (um_currentIdx m) \<mapsto> ctx)\<rparr>"
  have eq: "appendIOContext env ctx m = ?m"
    using True idx none by (simp add: appendIOContext_def emplace_def Let_def)
  have same: "ring_ctx ?m s = ring_ctx m s" if "s \<in> set (um_ring m)" for s using new [OF that] by (simp add: ring_ctx_def)
  have "map (ring_ctx ?m) (um_ring m) = map (ring_ctx m) (um_ring m)" using same by simp
  then have "mset (map (ring_ctx ?m) (um_ring m)) = mset (map (ring_ctx m) (um_ring m))" by (rule arg_cong)
  moreover have "ring_ctx ?m (prep_sqe ctx (um_currentIdx m)) = ctx" by (simp add: ring_ctx_def)
  moreover have "\<forall>s \<in> set (um_ring ?m). s = prep_sqe (ring_ctx ?m s) (sqe_data s)"
    using i(4) same by (auto simp: ring_ctx_def)
  moreover have "\<forall>s \<in> set (um_ring ?m). sqe_data s < um_currentIdx ?m" using i(2) by auto
  moreover have "distinct (map sqe_data (um_ring ?m))" using i(1,2) by auto
  moreover have "dom (um_activeIOs ?m) = io_key ` sqe_data ` set (um_ring ?m)" using i(3) by auto
  ultimately show ?thesis unfolding eq uring_inv_def using i(5,6) by simp
qed

lemma appendIOContext_frame [simp]: "um_called (appendIOContext env ctx m) = um_called m"
  by (simp add: appendIOContext_def Let_def)

lemma appendIOContext_called:
  "appendIOContext env ctx (m\<lparr>um_called := cs\<rparr>) = (appendIOContext env ctx m)\<lparr>um_called := cs\<rparr>"
  by (simp add: appendIOContext_def Let_def)

lemma fold_append_called:
  "fold (appendIOContext env) xs (m\<lparr>um_called := cs\<rparr>) = (fold (appendIOContext env) xs m)\<lparr>um_called := cs\<rparr>"
  by (induction xs arbitrary: m) (simp_all add: appendIOContext_called)

lemma fold_append_frame: "um_called (fold (appendIOContext env) xs m) = um_called m"
  by (induction xs arbitrary: m) simp_all

lemma fold_append_inv:
  assumes "uring_inv m R" and "size R + length xs \<le> 2 ^ 32"
  shows "uring_inv (fold (appendIOContext env) xs m) (R + mset xs)"
  using assms
proof (induction xs arbitrary: m R)
  case (Cons x xs)
  have "uring_inv (appendIOContext env x m) (add_mset x R)" using Cons.prems by (simp add: appendIOContext_inv)
  from Cons.IH [OF this] Cons.prems(2) show ?case by simp
qed simp

text \<open>A request in the ring stays there, under its context, while others are added.\<close>

lemma appendIOContext_ring:
  assumes "uring_inv m R" and "size R < 2 ^ 32" and "s \<in> set (um_ring m)"
  shows "s \<in> set (um_ring (appendIOContext env ctx m)) \<and> ring_ctx (appendIOContext env ctx m) s = ring_ctx m s"
proof -
  have d: "io_key (sqe_data s) \<in> dom (um_activeIOs m)" using assms(1,3) by (auto simp: uring_inv_def)
  then show ?thesis using assms(3)
    by (auto simp: appendIOContext_def Let_def ring_ctx_def emplace_def)
qed

lemma fold_append_ring:
  assumes "uring_inv m R" and "size R + length xs \<le> 2 ^ 32" and "s \<in> set (um_ring m)"
  shows "s \<in> set (um_ring (fold (appendIOContext env) xs m)) \<and> ring_ctx (fold (appendIOContext env) xs m) s = ring_ctx m s"
  using assms
proof (induction xs arbitrary: m R)
  case (Cons x xs)
  have "uring_inv (appendIOContext env x m) (add_mset x R)" using Cons.prems by (simp add: appendIOContext_inv)
  from Cons.IH [OF this] appendIOContext_ring [OF Cons.prems(1) _ Cons.prems(3)] Cons.prems(2) show ?case by simp
qed simp

text \<open>Marking a completion as seen removes its entry and its context.\<close>

lemma seen_inv:
  assumes "uring_inv m R" and "s \<in> set (um_ring m)" and "size R \<le> 2 ^ 32"
  shows "uring_inv (m\<lparr>um_called := um_called m @ [(ring_ctx m s, res)],
      um_activeIOs := (um_activeIOs m)(io_key (sqe_data s) := None),
      um_ring := filter (\<lambda>t. sqe_data t \<noteq> sqe_data s) (um_ring m)\<rparr>) R"
proof -
  let ?m = "m\<lparr>um_called := um_called m @ [(ring_ctx m s, res)],
      um_activeIOs := (um_activeIOs m)(io_key (sqe_data s) := None),
      um_ring := filter (\<lambda>t. sqe_data t \<noteq> sqe_data s) (um_ring m)\<rparr>"
  have i: "distinct (map sqe_data (um_ring m))" "\<forall>s \<in> set (um_ring m). sqe_data s < um_currentIdx m"
    "dom (um_activeIOs m) = io_key ` sqe_data ` set (um_ring m)"
    "\<forall>s \<in> set (um_ring m). s = prep_sqe (ring_ctx m s) (sqe_data s)"
    "um_currentIdx m = length (um_called m) + length (um_ring m)"
    "R = mset (map fst (um_called m)) + mset (map (ring_ctx m) (um_ring m)) + mset (um_pendingIOs m)"
    using assms(1) by (auto simp: uring_inv_def)
  obtain us vs where r: "um_ring m = us @ s # vs" using split_list [OF assms(2)] by blast
  have "sqe_data s \<notin> sqe_data ` set (us @ vs)" using i(1) unfolding r by auto
  then have ne: "sqe_data t \<noteq> sqe_data s" if "t \<in> set (us @ vs)" for t using that by (metis imageI)
  then have f: "filter (\<lambda>t. sqe_data t \<noteq> sqe_data s) (um_ring m) = us @ vs" by (auto simp: r filter_id_conv)
  have key: "io_key (sqe_data t) \<noteq> io_key (sqe_data s)" if "t \<in> set (us @ vs)" for t
    using io_key_inj [of "sqe_data t" "sqe_data s"] ne [OF that] i(2) uring_inv_bound [OF assms(1)] assms(3) that unfolding r by force
  have same: "ring_ctx ?m t = ring_ctx m t" if "t \<in> set (us @ vs)" for t using key [OF that] by (simp add: ring_ctx_def)
  have "map (ring_ctx ?m) (us @ vs) = map (ring_ctx m) (us @ vs)" using same by (intro map_cong) auto
  then have "mset (map (ring_ctx ?m) (us @ vs)) = mset (map (ring_ctx m) (us @ vs))" by (rule arg_cong)
  moreover have "dom (um_activeIOs ?m) = io_key ` sqe_data ` set (us @ vs)" using i(3) key unfolding r by auto
  moreover have "\<forall>t \<in> set (us @ vs). t = prep_sqe (ring_ctx ?m t) (sqe_data t)" using i(4) same unfolding r by auto
  moreover have "\<forall>t \<in> set (us @ vs). sqe_data t < um_currentIdx m" using i(2) unfolding r by auto
  moreover have "distinct (map sqe_data (us @ vs))" using i(1) unfolding r by auto
  moreover have "um_ring ?m = us @ vs" using f by simp
  ultimately show ?thesis unfolding uring_inv_def using i(5,6) by (simp add: r)
qed


text \<open>A completion of an entry in the ring runs the callback of the request in that entry.\<close>

lemma handle_one_ok:
  assumes "uring_inv m R" and "s \<in> set (um_ring m)"
    and "size R + length (react (ctx_callback (ring_ctx m s)) res (ctx_rwOp (ring_ctx m s))) \<le> 2 ^ 32"
  shows "\<exists>m'. handle_one env react (sqe_data s, res) m = Inr m' \<and>
    uring_inv m' (R + mset (react (ctx_callback (ring_ctx m s)) res (ctx_rwOp (ring_ctx m s)))) \<and>
    um_called m' = um_called m @ [(ring_ctx m s, res)]"
proof -
  let ?ctx = "ring_ctx m s"
  let ?xs = "react (ctx_callback ?ctx) res (ctx_rwOp ?ctx)"
  have "io_key (sqe_data s) \<in> dom (um_activeIOs m)" using assms(1,2) by (auto simp: uring_inv_def)
  then have a: "um_activeIOs m (io_key (sqe_data s)) = Some ?ctx" by (auto simp: ring_ctx_def)
  define m1 where "m1 = fold (appendIOContext env) ?xs m"
  have called: "um_called m1 = um_called m" by (simp add: m1_def fold_append_frame)
  have i1: "uring_inv m1 (R + mset ?xs)" unfolding m1_def by (rule fold_append_inv [OF assms(1,3)])
  have s1: "s \<in> set (um_ring m1)" "ring_ctx m1 s = ?ctx"
    using fold_append_ring [OF assms(1,3,2), of env] by (auto simp: m1_def)
  define m3 where "m3 = m1\<lparr>um_called := um_called m1 @ [(ring_ctx m1 s, res)],
      um_activeIOs := (um_activeIOs m1)(io_key (sqe_data s) := None),
      um_ring := filter (\<lambda>t. sqe_data t \<noteq> sqe_data s) (um_ring m1)\<rparr>"
  have i3: "uring_inv m3 (R + mset ?xs)" unfolding m3_def by (rule seen_inv [OF i1 s1(1)]) (use assms(3) in simp)
  have h: "handle_one env react (sqe_data s, res) m =
      Inr (case um_pendingIOs m3 of [] \<Rightarrow> m3 | nextCtx # rest \<Rightarrow> appendIOContext env nextCtx (m3\<lparr>um_pendingIOs := rest\<rparr>))"
    using a called s1(2) by (simp add: handle_one_def runCallback_def fold_append_called m1_def [symmetric] m3_def Let_def cong: list.case_cong)
  show ?thesis
  proof (cases "um_pendingIOs m3")
    case Nil
    then show ?thesis using h i3 called s1(2) by (simp add: m3_def)
  next
    case (Cons c cs)
    obtain R' where R': "R + mset ?xs = add_mset c R'" "uring_inv (m3\<lparr>um_pendingIOs := cs\<rparr>) R'"
      using i3 Cons by (auto simp: uring_inv_def ring_ctx_def [abs_def])
    have "size R' < 2 ^ 32" using arg_cong [OF R'(1), of size] assms(3) by simp
    from appendIOContext_inv [OF R'(2) this, of env c] h R'(1) Cons called s1(2) show ?thesis by (simp add: m3_def)
  qed
qed

lemma uring_reach_inv: "uring_reach env react m rs \<Longrightarrow> uring_inv m (mset rs) \<and> length rs \<le> 2 ^ 32"
proof (induction rule: uring_reach.induct)
  case (start m)
  then show ?case by (simp add: uring_inv_def)
next
  case (request m rs ctx)
  then show ?case using appendIOContext_inv [of m "mset rs" env ctx] by simp
next
  case (complete m rs s ctx res m')
  have "ring_ctx m s = ctx" using complete.hyps(3) by (simp add: ring_ctx_def)
  then show ?case using handle_one_ok [of m "mset rs" s react res env] complete by auto
qed


section \<open>Every request is answered once\<close>

text \<open>C19. Each file request is answered exactly once: in every reachable state the requests made are, as a multiset, those whose callback
  has run, those in the ring and those that wait for a free entry; and whatever result the ring reports for any of
  its entries, the lookup of its number succeeds, and the callback run with that result is the one of the request
  whose operation the entry describes.\<close>

theorem uring_exactly_once:
  assumes "uring_reach env react m rs"
  shows "mset rs = mset (map fst (um_called m)) + mset (map (ring_ctx m) (um_ring m)) + mset (um_pendingIOs m) \<and>
    (\<forall>s \<in> set (um_ring m). \<forall>res. length (rs @ react (ctx_callback (ring_ctx m s)) res (ctx_rwOp (ring_ctx m s))) \<le> 2 ^ 32 \<longrightarrow>
      s = prep_sqe (ring_ctx m s) (sqe_data s) \<and>
      (\<exists>m'. handle_one env react (sqe_data s, res) m = Inr m' \<and> um_called m' = um_called m @ [(ring_ctx m s, res)]))"
proof (intro conjI ballI allI impI)
  have i: "uring_inv m (mset rs)" using uring_reach_inv [OF assms] by simp
  then show "mset rs = mset (map fst (um_called m)) + mset (map (ring_ctx m) (um_ring m)) + mset (um_pendingIOs m)"
    unfolding uring_inv_def by (elim conjE)
  fix s res
  assume s: "s \<in> set (um_ring m)" "length (rs @ react (ctx_callback (ring_ctx m s)) res (ctx_rwOp (ring_ctx m s))) \<le> 2 ^ 32"
  show "s = prep_sqe (ring_ctx m s) (sqe_data s)" using i s(1) unfolding uring_inv_def by blast
  show "\<exists>m'. handle_one env react (sqe_data s, res) m = Inr m' \<and> um_called m' = um_called m @ [(ring_ctx m s, res)]"
    using handle_one_ok [OF i s(1), of react res env] s(2) by auto
qed

text \<open>Two reads, the second of which finds no free entry.\<close>

definition sample_read :: "int \<Rightarrow> nat IOContext" where
  "sample_read fd = \<lparr>ctx_file = \<lparr>file_fd = fd\<rparr>, ctx_rwOp = new_RWOperation READ 0 \<lparr>iov_base = 4096, iov_len = 100\<rparr>, ctx_callback = nat fd\<rparr>"

definition sample_manager :: "nat UringManager" where
  "sample_manager = \<lparr>um_eventfd = 3, um_channel = 0, um_activeIOs = Map.empty, um_currentIdx = 0, um_pendingIOs = [],
     um_calls = 0, um_ring = [], um_called = []\<rparr>"

theorem uring_exactly_once_witness:
  "\<exists>m'. handle_one \<lparr>u_get_sqe = (\<lambda>k. k \<noteq> 1)\<rparr> (\<lambda>_ _ _. []) (0, 100)
      (appendIOContext \<lparr>u_get_sqe = (\<lambda>k. k \<noteq> 1)\<rparr> (sample_read 8)
        (appendIOContext \<lparr>u_get_sqe = (\<lambda>k. k \<noteq> 1)\<rparr> (sample_read 7) sample_manager)) = Inr m' \<and>
    um_called m' = [(sample_read 7, 100)]"
proof -
  let ?env = "\<lparr>u_get_sqe = (\<lambda>k. k \<noteq> 1)\<rparr>" and ?react = "\<lambda>_ _ _. []"
  let ?m = "appendIOContext ?env (sample_read 8) (appendIOContext ?env (sample_read 7) sample_manager)"
  have "uring_reach ?env ?react sample_manager []" by (rule uring_reach.start) (simp_all add: sample_manager_def)
  then have "uring_reach ?env ?react (appendIOContext ?env (sample_read 7) sample_manager) ([] @ [sample_read 7])"
    by (rule uring_reach.request) simp
  then have r: "uring_reach ?env ?react ?m (([] @ [sample_read 7]) @ [sample_read 8])"
    by (rule uring_reach.request) simp
  have m: "um_ring ?m = [prep_sqe (sample_read 7) 0]" "um_activeIOs ?m (io_key 0) = Some (sample_read 7)" "um_called ?m = []"
    by (simp_all add: appendIOContext_def sample_manager_def emplace_def Let_def)
  then have "ring_ctx ?m (prep_sqe (sample_read 7) 0) = sample_read 7" by (simp add: ring_ctx_def)
  with uring_exactly_once [OF r] m show ?thesis by auto
qed

end
