(* ===== verification/File_Service.thy ===== *)
theory File_Service
  imports Http_Server Io_Uring
begin

text \<open>
  Static files from end to end: the message handler of \<^verbatim>\<open>http/HttpServer.cpp\<close>, the io\_uring manager of
  \<^verbatim>\<open>src/IOuring.cpp\<close> and the connections of one loop joined as the code joins them.  The handler submits
  a read whose callback is the lambda of \<^verbatim>\<open>handleStaticFile\<close>; what that lambda captures is the record
  \<open>file_cb\<close>.  When the ring reports the completion, the manager looks the request up and runs the
  lambda, which answers on its connection.  What the kernel read is an argument; requests for other
  files may be in flight, of this or of other connections.
\<close>

section \<open>State and operations\<close>

record file_cb =
  fc_conn :: nat
  fc_close :: bool
  fc_type :: string

record file_server =
  fs_uring :: "file_cb UringManager"
  fs_conns :: "nat \<Rightarrow> world"

text \<open>
  The submission in \<^verbatim>\<open>handleStaticFile\<close>: \<open>opn\<close> gives the descriptor of a path and \<open>base\<close> the
  address of the buffer.
\<close>

definition start_read ::
    "uring_env \<Rightarrow> (string \<Rightarrow> int) \<Rightarrow> nat \<Rightarrow> nat \<Rightarrow> action \<Rightarrow> file_cb UringManager \<Rightarrow> file_cb UringManager" where
  "start_read uenv opn base c a m =
     (case a of
        AsyncRead f fileSize shouldClose contentType \<Rightarrow>
          (case Io_Uring.registerFile (opn f) of
             None \<Rightarrow> m
           | Some fl \<Rightarrow>
               asyncRW uenv fl (new_RWOperation READ 0 \<lparr>iov_base = base, iov_len = fileSize\<rparr>)
                 \<lparr>fc_conn = c, fc_close = shouldClose, fc_type = contentType\<rparr> m)
      | _ \<Rightarrow> m)"

text \<open>A message on connection \<open>c\<close>: the actions on the connection, and the reads they start.\<close>

definition serve_message ::
    "http_env \<Rightarrow> uring_env \<Rightarrow> (string \<Rightarrow> int) \<Rightarrow> nat \<Rightarrow> Timestamp \<Rightarrow> nat \<Rightarrow> HttpContext \<Rightarrow> file_server \<Rightarrow>
     (HttpContext \<times> file_server) result option" where
  "serve_message env uenv opn base T c ctx S =
     Option.bind (onMessage env T ctx (inputBuffer (conn (fs_conns S c)))) (\<lambda>(acts, res).
       Some (bind_result (run_actions acts (fs_conns S c)) (\<lambda>w.
         bind_result res (\<lambda>(ctx', buf').
           Inr (ctx', S\<lparr>fs_uring := fold (start_read uenv opn base c) acts (fs_uring S),
                       fs_conns := (fs_conns S)(c := set_conn (\<lambda>t. t\<lparr>inputBuffer := buf'\<rparr>) w)\<rparr>)))))"

text \<open>One completion: the lambda runs on its connection and makes no request of its own.\<close>

definition complete_read ::
    "uring_env \<Rightarrow> nat \<Rightarrow> int \<Rightarrow> string \<Rightarrow> file_server \<Rightarrow> file_server result" where
  "complete_read uenv ioIdx res readBuffer S =
     (case um_activeIOs (fs_uring S) (io_key ioIdx) of
        None \<Rightarrow> Inl OutOfRange
      | Some ctx \<Rightarrow>
          let cb = ctx_callback ctx
          in bind_result (run_actions (file_read_callback (fc_close cb) (fc_type cb) res readBuffer)
                 (fs_conns S (fc_conn cb))) (\<lambda>w.
             bind_result (handle_one uenv (\<lambda>_ _ _. []) (ioIdx, res) (fs_uring S)) (\<lambda>m.
             Inr (S\<lparr>fs_uring := m, fs_conns := (fs_conns S)(fc_conn cb := w)\<rparr>))))"

section \<open>The answer of the callback\<close>

definition file_response :: "bool \<Rightarrow> string \<Rightarrow> string \<Rightarrow> HttpResponse" where
  "file_response shouldClose contentType bytes =
     setResponseBody bytes (addResponseHeader ''Server'' ''muduoX-io_uring'' (setContentType contentType
       (setStatusMessage ''OK'' (setStatusCode k200Ok (new_HttpResponse shouldClose)))))"

lemma file_response_fits: "length bytes < 10 ^ 13 \<Longrightarrow> response_fits (file_response close type bytes)"
  by (simp add: response_fits_def file_response_def response_setters new_HttpResponse_def k200Ok_def)

lemma file_read_callback_ok:
  assumes "0 \<le> res" and "length (take (nat res) bytes) < 10 ^ 13"
  shows "file_read_callback close type res bytes =
    Send (render_response (file_response close type (take (nat res) bytes))) # (if close then [Shutdown] else [])"
proof -
  let ?b = "appendToBuffer (file_response close type (take (nat res) bytes)) (new_Buffer kInitialSize)"
  have "buf_inv ?b \<and> contents ?b = render_response (file_response close type (take (nat res) bytes))"
    using appendToBuffer_bytes [OF new_Buffer_inv file_response_fits [OF assms(2)]]
    by (simp add: contents_new_Buffer)
  then show ?thesis using assms(1)
    by (simp add: file_read_callback_def Let_def file_response_def [symmetric] retrieveAllAsString_ok)
qed

lemma run_action_send:
  assumes "conn_inv s w" and "tc_state (conn w) = kConnected" and "willing (kern w)"
  shows "\<exists>w'. run_action (Send m) w = Inr w' \<and> conn_inv (s @ m) w' \<and> tc_state (conn w') = kConnected \<and> kern w' = kern w"
proof -
  obtain w' where w': "sendInLoop m w = Inr w'" "kern w' = kern w" "tc_state (conn w') = kConnected"
    using sendInLoop_total [OF assms(3), of m] assms(2) by auto
  obtain k where "k_write (kern w) (clock w) = Inr k" using assms(3) by (auto simp: willing_def)
  then have "\<not> peer_gone w" by (simp add: peer_gone_def)
  then have "conn_inv (s @ m) w'" using sendInLoop_inv [OF assms(1,2) w'(1)] by simp
  then show ?thesis using w' assms(2) by (simp add: run_action_def send_string_def)
qed

lemma run_file_callback:
  assumes "conn_inv s w" and "tc_state (conn w) = kConnected" and "willing (kern w)"
    and "0 \<le> res" and "length (take (nat res) bytes) < 10 ^ 13"
  shows "\<exists>w'. run_actions (file_read_callback close type res bytes) w = Inr w' \<and>
    conn_inv (s @ render_response (file_response close type (take (nat res) bytes))) w' \<and>
    tc_state (conn w') = (if close then kDisconnecting else kConnected)"
proof -
  let ?m = "render_response (file_response close type (take (nat res) bytes))"
  obtain w1 where w1: "run_action (Send ?m) w = Inr w1" "conn_inv (s @ ?m) w1" "tc_state (conn w1) = kConnected"
    using run_action_send [OF assms(1-3)] by blast
  have sh: "conn_inv (s @ ?m) (shutdown True w1)" by (rule shutdown_inv [OF w1(2)])
  have "tc_state (conn (shutdown True w1)) = kDisconnecting"
    using w1(3) by (simp add: shutdown_def shutdownInLoop_def set_conn_def emit_def Let_def)
  then show ?thesis
    unfolding file_read_callback_ok [OF assms(4,5)] using w1 sh
    by (cases close) (simp_all add: run_action_def)
qed

section \<open>From the request to the answer\<close>

definition file_context :: "nat \<Rightarrow> nat \<Rightarrow> int \<Rightarrow> nat \<Rightarrow> bool \<Rightarrow> string \<Rightarrow> file_cb IOContext" where
  "file_context base c fd fileSize shouldClose contentType =
     \<lparr>ctx_file = \<lparr>file_fd = fd\<rparr>, ctx_rwOp = new_RWOperation READ 0 \<lparr>iov_base = base, iov_len = fileSize\<rparr>,
      ctx_callback = \<lparr>fc_conn = c, fc_close = shouldClose, fc_type = contentType\<rparr>\<rparr>"

text \<open>A message that leads to a file read: the request is submitted under a key of its own.\<close>

lemma serve_file_message:
  fixes base :: nat
  assumes "uring_reach uenv (\<lambda>_ _ _. []) (fs_uring S) rs" and "length rs < 2 ^ 32"
    and "u_get_sqe uenv (um_calls (fs_uring S))"
    and inv: "conn_inv s (fs_conns S c)" and m: "message_ok m"
    and input: "contents (inputBuffer (conn (fs_conns S c))) = render_message m"
    and rd: "onRequest env (request_of_message T m) = [AsyncRead f n close type]" and fd: "0 \<le> opn f"
  defines "ctx \<equiv> file_context base c (opn f) n close type"
    and "idx \<equiv> um_currentIdx (fs_uring S)"
  shows "\<exists>b. serve_message env uenv opn base T c new_HttpContext S =
      Some (Inr (new_HttpContext, S\<lparr>fs_uring := appendIOContext uenv ctx (fs_uring S),
        fs_conns := (fs_conns S)(c := set_conn (\<lambda>t. t\<lparr>inputBuffer := b\<rparr>) (fs_conns S c))\<rparr>))
    \<and> buf_inv b \<and> contents b = []"
    and "um_ring (appendIOContext uenv ctx (fs_uring S)) = um_ring (fs_uring S) @ [prep_sqe ctx idx]"
    and "um_activeIOs (appendIOContext uenv ctx (fs_uring S)) (io_key idx) = Some ctx"
proof -
  from onMessage_one [OF conn_invD(1) [OF inv] m, of "[]" env T] input obtain b where
    b: "onMessage env T new_HttpContext (inputBuffer (conn (fs_conns S c))) =
        Option.bind (onMessage env T new_HttpContext b) (\<lambda>(acts, res). Some ([AsyncRead f n close type] @ acts, res))"
      "buf_inv b" "contents b = []"
    by (auto simp: rd)
  have "onMessage env T new_HttpContext b = Some ([], Inr (new_HttpContext, b))"
    using readableBytes_0_iff [OF b(2)] b(3) by (subst onMessage.simps) simp
  then show "\<exists>b. serve_message env uenv opn base T c new_HttpContext S =
      Some (Inr (new_HttpContext, S\<lparr>fs_uring := appendIOContext uenv ctx (fs_uring S),
        fs_conns := (fs_conns S)(c := set_conn (\<lambda>t. t\<lparr>inputBuffer := b\<rparr>) (fs_conns S c))\<rparr>))
    \<and> buf_inv b \<and> contents b = []"
    using b fd by (intro exI [of _ b])
      (simp add: serve_message_def run_action_def start_read_def Io_Uring.registerFile_def asyncRW_def ctx_def file_context_def)
  have i: "uring_inv (fs_uring S) (mset rs)" using uring_reach_inv [OF assms(1)] by simp
  with new_key_free [OF i] assms(2,3)
  show "um_ring (appendIOContext uenv ctx (fs_uring S)) = um_ring (fs_uring S) @ [prep_sqe ctx idx]"
    and "um_activeIOs (appendIOContext uenv ctx (fs_uring S)) (io_key idx) = Some ctx"
    by (simp_all add: appendIOContext_def Let_def idx_def emplace_def)
qed

text \<open>C6. A static file from end to end, when the ring has a free entry (\<^verbatim>\<open>io_uring_get_sqe\<close> succeeds; without one
  the request only waits in the list of pending requests for the next request to be made), fewer than \<open>2 ^ 32\<close>
  requests have been made, and the kernel takes at least one byte of every write and refuses no \<^verbatim>\<open>epoll_ctl\<close>:
  when a complete request for a file arrives on a connection, a read of the file from its
  start and of the size the file system reported is put into the ring, behind the requests that are in flight;
  when the ring reports its completion with the bytes read, the response with these bytes is added, once, to
  what is on the wire and in the output buffer of that connection, which is shut down if it
  was to be closed; the other connections are not touched, and the manager is again in a reachable
  state, with one more request answered.\<close>

theorem file_request_to_response:
  assumes "uring_reach uenv (\<lambda>_ _ _. []) (fs_uring S) rs" and "length rs < 2 ^ 32"
    and "u_get_sqe uenv (um_calls (fs_uring S))"
    and "conn_inv s (fs_conns S c)" and "tc_state (conn (fs_conns S c)) = kConnected" and "willing (kern (fs_conns S c))"
    and "message_ok m" and "contents (inputBuffer (conn (fs_conns S c))) = render_message m"
    and "onRequest env (request_of_message T m) = [AsyncRead f n close type]" and "0 \<le> opn f"
    and "0 \<le> res" and "length (take (nat res) bytes) < 10 ^ 13"
  shows "\<exists>S1 idx S2 ctx. serve_message env uenv opn base T c new_HttpContext S = Some (Inr (new_HttpContext, S1)) \<and>
    um_ring (fs_uring S1) = um_ring (fs_uring S) @
      [\<lparr>sqe_opcode = READ, sqe_fd = opn f, sqe_iov = [\<lparr>iov_base = base, iov_len = n\<rparr>], sqe_offset = 0, sqe_data = idx\<rparr>] \<and>
    complete_read uenv idx res bytes S1 = Inr S2 \<and>
    wire (trace (fs_conns S2 c)) @ contents (outputBuffer (conn (fs_conns S2 c))) =
      s @ render_response (file_response close type (take (nat res) bytes)) \<and>
    tc_state (conn (fs_conns S2 c)) = (if close then kDisconnecting else kConnected) \<and>
    (\<forall>d. d \<noteq> c \<longrightarrow> fs_conns S2 d = fs_conns S d) \<and>
    um_called (fs_uring S2) = um_called (fs_uring S) @ [(ctx, res)] \<and> fc_conn (ctx_callback ctx) = c \<and>
    uring_reach uenv (\<lambda>_ _ _. []) (fs_uring S2) (rs @ [ctx])"
proof -
  define ctx where "ctx = file_context base c (opn f) n close type"
  define idx where "idx = um_currentIdx (fs_uring S)"
  let ?m = "appendIOContext uenv ctx (fs_uring S)"
  note served = serve_file_message [where opn = opn and f = f and base = base, OF assms(1-4,7-10), folded ctx_def idx_def]
  obtain b where b: "serve_message env uenv opn base T c new_HttpContext S =
      Some (Inr (new_HttpContext, S\<lparr>fs_uring := ?m,
        fs_conns := (fs_conns S)(c := set_conn (\<lambda>t. t\<lparr>inputBuffer := b\<rparr>) (fs_conns S c))\<rparr>))"
    "buf_inv b" "contents b = []" using served(1) by blast
  let ?w = "set_conn (\<lambda>t. t\<lparr>inputBuffer := b\<rparr>) (fs_conns S c)"
  let ?S1 = "S\<lparr>fs_uring := ?m, fs_conns := (fs_conns S)(c := ?w)\<rparr>"
  have w: "conn_inv s ?w" "tc_state (conn ?w) = kConnected" "willing (kern ?w)"
    using conn_inv_input [OF b(2) assms(4)] assms(5,6) by (simp_all add: set_conn_def)
  obtain w' where w': "run_actions (file_read_callback close type res bytes) ?w = Inr w'"
      "conn_inv (s @ render_response (file_response close type (take (nat res) bytes))) w'"
      "tc_state (conn w') = (if close then kDisconnecting else kConnected)"
    using run_file_callback [OF w assms(11,12)] by blast
  have reach: "uring_reach uenv (\<lambda>_ _ _. []) ?m (rs @ [ctx])" by (rule uring_reach.request [OF assms(1,2)])
  have i: "uring_inv ?m (mset (rs @ [ctx]))" using uring_reach_inv [OF reach] by simp
  have s: "prep_sqe ctx idx \<in> set (um_ring ?m)" using served(2) by simp
  have rc: "ring_ctx ?m (prep_sqe ctx idx) = ctx" using served(3) by (simp add: ring_ctx_def)
  obtain m' where m': "handle_one uenv (\<lambda>_ _ _. []) (idx, res) ?m = Inr m'" "um_called m' = um_called (fs_uring S) @ [(ctx, res)]"
    using handle_one_ok [OF i s, of "\<lambda>_ _ _. []" res uenv] assms(2) rc by auto
  have "uring_reach uenv (\<lambda>_ _ _. []) m' ((rs @ [ctx]) @ [])"
    using uring_reach.complete [OF reach s, of ctx res m'] served(3) m'(1) assms(2) by simp
  moreover have "complete_read uenv idx res bytes ?S1 = Inr (?S1\<lparr>fs_uring := m', fs_conns := (fs_conns ?S1)(c := w')\<rparr>)"
    using served(3) w'(1) m'(1) by (simp add: complete_read_def ctx_def file_context_def)
  moreover have "prep_sqe ctx idx =
      \<lparr>sqe_opcode = READ, sqe_fd = opn f, sqe_iov = [\<lparr>iov_base = base, iov_len = n\<rparr>], sqe_offset = 0, sqe_data = idx\<rparr>"
    by (simp add: prep_sqe_def ctx_def file_context_def new_RWOperation_def)
  ultimately show ?thesis
    using b(1) served(2) conn_invD(3) [OF w'(2)] w'(3) m'(2)
    by (intro exI [of _ ?S1] exI [of _ idx] exI [of _ "?S1\<lparr>fs_uring := m', fs_conns := (fs_conns ?S1)(c := w')\<rparr>"]
        exI [of _ ctx]) (simp add: pending_def ctx_def file_context_def)
qed

text \<open>An idle manager, and a connection that has sent a greeting and received a request for the index page.\<close>

definition idle_manager :: "file_cb UringManager" where
  "idle_manager = \<lparr>um_eventfd = 3, um_channel = 0, um_activeIOs = Map.empty, um_currentIdx = 0, um_pendingIOs = [],
     um_calls = 0, um_ring = [], um_called = []\<rparr>"

theorem file_request_to_response_witness:
  "\<exists>S S1 idx S2. contents (inputBuffer (conn (fs_conns S 5))) = render_message (demo_get ''/'') \<and>
    serve_message plain_env \<lparr>u_get_sqe = (\<lambda>_. True)\<rparr> (\<lambda>_. 8) 4096 0 5 new_HttpContext S = Some (Inr (new_HttpContext, S1)) \<and>
    complete_read \<lparr>u_get_sqe = (\<lambda>_. True)\<rparr> idx 9 ''<html/>..'' S1 = Inr S2 \<and>
    wire (trace (fs_conns S2 5)) @ contents (outputBuffer (conn (fs_conns S2 5))) =
      ''hello'' @ render_response (file_response False ''text/html'' ''<html/>..'')"
proof -
  obtain w0 w1 where w1: "new_TcpConnection 5 (new_EPollPoller int) demo_kernel = Inr w0" "conn_run w0 ''hello'' w1"
      "kern w1 = demo_kernel" "tc_state (conn w1) = kConnected"
    using demo_connection by blast
  let ?uenv = "\<lparr>u_get_sqe = (\<lambda>_. True)\<rparr>" and ?m = "demo_get ''/''"
  let ?w = "set_conn (\<lambda>t. t\<lparr>inputBuffer := received (render_message ?m)\<rparr>) w1"
  let ?S = "\<lparr>fs_uring = idle_manager, fs_conns = (\<lambda>_. ?w)\<rparr>"
  have reach: "uring_reach ?uenv (\<lambda>_ _ _. []) (fs_uring ?S) []"
    by (rule uring_reach.start) (simp_all add: idle_manager_def)
  have inv: "conn_inv ''hello'' (fs_conns ?S 5)"
    using conn_run_inv [OF w1(2) new_TcpConnection_inv(1) [OF w1(1) demo_events]]
    by (simp add: conn_inv_input)
  have st: "tc_state (conn (fs_conns ?S 5)) = kConnected" "willing (kern (fs_conns ?S 5))"
    using w1(3,4) demo_willing by (simp_all add: set_conn_def)
  have rd: "onRequest plain_env (request_of_message 0 ?m) = [AsyncRead ''./www/index.html'' 9 False ''text/html'']"
    by code_simp
  have c: "contents (inputBuffer (conn (fs_conns ?S 5))) = render_message ?m" by (simp add: set_conn_def)
  have ok: "message_ok ?m" by (simp add: demo_get_ok target_ok_def)
  have t: "take (nat 9) ''<html/>..'' = ''<html/>..''" by simp
  have "\<exists>S1 idx S2 ctx. serve_message plain_env ?uenv (\<lambda>_. 8) 4096 0 5 new_HttpContext ?S = Some (Inr (new_HttpContext, S1)) \<and>
    um_ring (fs_uring S1) = um_ring (fs_uring ?S) @
      [\<lparr>sqe_opcode = READ, sqe_fd = 8, sqe_iov = [\<lparr>iov_base = 4096, iov_len = 9\<rparr>], sqe_offset = 0, sqe_data = idx\<rparr>] \<and>
    complete_read ?uenv idx 9 ''<html/>..'' S1 = Inr S2 \<and>
    wire (trace (fs_conns S2 5)) @ contents (outputBuffer (conn (fs_conns S2 5))) =
      ''hello'' @ render_response (file_response False ''text/html'' (take (nat 9) ''<html/>..'')) \<and>
    tc_state (conn (fs_conns S2 5)) = (if False then kDisconnecting else kConnected) \<and>
    (\<forall>d. d \<noteq> 5 \<longrightarrow> fs_conns S2 d = fs_conns ?S d) \<and>
    um_called (fs_uring S2) = um_called (fs_uring ?S) @ [(ctx, 9)] \<and> fc_conn (ctx_callback ctx) = 5 \<and>
    uring_reach ?uenv (\<lambda>_ _ _. []) (fs_uring S2) ([] @ [ctx])"
    by (rule file_request_to_response [where opn = "\<lambda>_. 8" and f = "''./www/index.html''", OF reach _ _ inv st ok c rd])
      simp_all
  with c show ?thesis unfolding t by blast
qed

end
