(* ===== verification/Log_Stream.thy ===== *)
theory Log_Stream
  imports Time_Stamp
begin

text \<open>
  The formatting half of the logger: \<^verbatim>\<open>include/FixedBuffer.h\<close>, \<^verbatim>\<open>include/LogSream.h\<close>, \<^verbatim>\<open>log/LogStream.cpp\<close>,
  \<^verbatim>\<open>include/Logger.h\<close> and \<^verbatim>\<open>src/Logger.cpp\<close>.  A fixed buffer is its array and the index of the current
  position; a pointer argument is the list of the bytes readable from it on.  The clock, the local
  time, the text of \<^verbatim>\<open>errno\<close> and of \<^verbatim>\<open>%.12g\<close>, and the output functions are parameters.
\<close>

section \<open>FixedBuffer\<close>

definition kSmallBuffer :: nat where "kSmallBuffer = 4000"
definition kLargeBuffer :: nat where "kLargeBuffer = 4000 * 1000"

record FixedBuffer =
  fb_data :: string
  fb_cur :: nat

text \<open>A new buffer: \<open>junk\<close> is what the array held.\<close>

definition new_FixedBuffer :: "string \<Rightarrow> FixedBuffer" where
  "new_FixedBuffer junk = \<lparr>fb_data = junk, fb_cur = 0\<rparr>"

definition fb_length :: "FixedBuffer \<Rightarrow> int" where
  "fb_length b = int (fb_cur b)"

definition fb_avail :: "FixedBuffer \<Rightarrow> int" where
  "fb_avail b = int (length (fb_data b)) - fb_length b"

definition fb_add :: "nat \<Rightarrow> FixedBuffer \<Rightarrow> FixedBuffer" where
  "fb_add len b = b\<lparr>fb_cur := fb_cur b + len\<rparr>"

text \<open>\<^verbatim>\<open>memcpy\<close> of \<open>len\<close> bytes to the current position.\<close>

definition fb_memcpy :: "string \<Rightarrow> nat \<Rightarrow> FixedBuffer \<Rightarrow> FixedBuffer result" where
  "fb_memcpy buf len b =
     (if len \<le> length buf \<and> fb_cur b + len \<le> length (fb_data b)
      then Inr (b\<lparr>fb_data := copy_in (take len buf) (fb_cur b) (fb_data b)\<rparr>) else Inl OutOfBounds)"

definition fb_append :: "string \<Rightarrow> nat \<Rightarrow> FixedBuffer \<Rightarrow> FixedBuffer result" where
  "fb_append buf len b =
     (if to_int32 (int len) < fb_avail b
      then bind_result (fb_memcpy buf len b) (\<lambda>b1. Inr (fb_add len b1))
      else Inr b)"

definition fb_reset :: "FixedBuffer \<Rightarrow> FixedBuffer" where
  "fb_reset b = b\<lparr>fb_cur := 0\<rparr>"

definition fb_bzero :: "FixedBuffer \<Rightarrow> FixedBuffer" where
  "fb_bzero b = b\<lparr>fb_data := replicate (length (fb_data b)) (CHR 0x00)\<rparr>"

definition fb_toString :: "FixedBuffer \<Rightarrow> string" where
  "fb_toString b = take (fb_cur b) (fb_data b)"

section \<open>LogStream\<close>

definition kMaxNumberSize :: int where "kMaxNumberSize = 32"

text \<open>
  The loop of \<^verbatim>\<open>formatInteger\<close>: the characters it stores, the last digit first.  \<^verbatim>\<open>%\<close> and \<^verbatim>\<open>/\<close> truncate
  towards zero, so that the digits of a negative number are negative.
\<close>

definition digit_code :: "int \<Rightarrow> char" where
  "digit_code digit = char_of (nat (48 + digit))"

function format_digits :: "int \<Rightarrow> string" where
  "format_digits num =
     (let digit = num smod 10; num' = num sdiv 10
      in digit_code digit # (if num' \<noteq> 0 then format_digits num' else []))"
  by pat_completeness auto
termination
proof (relation "measure (\<lambda>i. nat \<bar>i\<bar>)", simp)
  fix num x xa :: int
  assume x: "xa = num sdiv 10" "xa \<noteq> 0"
  have "\<bar>num sdiv 10\<bar> = \<bar>num\<bar> div 10" by (cases "num = 0") (simp_all add: signed_divide_int_def abs_mult sgn_if)
  then show "(xa, num) \<in> measure (\<lambda>i. nat \<bar>i\<bar>)" using x by (auto simp: sgn_if split: if_splits)
qed

declare format_digits.simps [simp del]

definition formatInteger :: "int \<Rightarrow> FixedBuffer \<Rightarrow> FixedBuffer result" where
  "formatInteger num b =
     (if kMaxNumberSize \<le> fb_avail b
      then let text = format_digits num @ (if num < 0 then ''-'' else '''');
               len = length text
           in bind_result (fb_memcpy (rev text @ [CHR 0x00]) (len + 1) b) (\<lambda>b1. Inr (fb_add len b1))
      else Inr b)"

text \<open>
  The operands of \<^verbatim>\<open><<\<close>: the integer types share one template, \<^verbatim>\<open>float\<close> goes through \<^verbatim>\<open>double\<close>, whose text is
  what \<^verbatim>\<open>sprintf("%.12g")\<close> stored.  For a C string the bytes up to the terminating zero are copied.
\<close>

datatype operand =
    Bool bool
  | Integer int
  | Double string
  | Char char
  | CString string
  | String string
  | General string int

definition cstring_bytes :: "string \<Rightarrow> string" where
  "cstring_bytes s = takeWhile (\<lambda>c. c \<noteq> CHR 0x00) s"

definition stream_out :: "operand \<Rightarrow> FixedBuffer \<Rightarrow> FixedBuffer result" where
  "stream_out v b =
     (case v of
        Bool express \<Rightarrow> fb_append (if express then ''true'' else ''false'') (if express then 4 else 5) b
      | Integer number \<Rightarrow> formatInteger number b
      | Double text \<Rightarrow> fb_append text (length text) b
      | Char c \<Rightarrow> fb_append [c] 1 b
      | CString s \<Rightarrow> fb_append (cstring_bytes s) (length (cstring_bytes s)) b
      | String s \<Rightarrow> fb_append s (length s) b
      | General s len \<Rightarrow> fb_append s (nat (to_size_t len)) b)"

section \<open>Logger\<close>

definition strrchr :: "string \<Rightarrow> char \<Rightarrow> nat option" where
  "strrchr s c = (case filter (\<lambda>i. s ! i = c) [0..<length s] of [] \<Rightarrow> None | is \<Rightarrow> Some (last is))"

text \<open>A file name is the list of its bytes before the terminating zero.\<close>

definition SourceFile :: "string \<Rightarrow> string \<times> int" where
  "SourceFile filename =
     (let data = (case strrchr filename (CHR ''/'') of Some slash \<Rightarrow> drop (slash + 1) filename | None \<Rightarrow> filename)
      in (data, to_int32 (int (length data))))"

datatype LogLevel = TRACE | DEBUG | INFO | WARN | ERROR | FATAL

fun LogLevelName :: "LogLevel \<Rightarrow> string" where
  "LogLevelName TRACE = '' [TRACE] ''"
| "LogLevelName DEBUG = '' [DEBUG] ''"
| "LogLevelName INFO = '' [INFO ] ''"
| "LogLevelName WARN = '' [WARN ] ''"
| "LogLevelName ERROR = '' [ERROR] ''"
| "LogLevelName FATAL = '' [FATAL] ''"

record Logger =
  log_stream :: FixedBuffer
  log_level :: LogLevel
  log_line :: int
  log_basename :: "string \<times> int"

text \<open>The clock reading, local time, and text of an error number.\<close>

record log_env =
  log_now :: int
  log_localtime :: "int \<Rightarrow> tm"
  log_strerror :: "int \<Rightarrow> string"

text \<open>A sequence of \<^verbatim>\<open><<\<close>.\<close>

definition stream_all :: "operand list \<Rightarrow> FixedBuffer \<Rightarrow> FixedBuffer result" where
  "stream_all vs b = fold_result stream_out vs b"

text \<open>\<^verbatim>\<open>strncpy(t_time, s, 31)\<close> fills up with zeros, and the last byte is set to zero.\<close>

definition fill_t_time :: "string \<Rightarrow> string" where
  "fill_t_time s = take 31 (s @ replicate 31 (CHR 0x00)) @ [CHR 0x00]"

definition formatTime :: "log_env \<Rightarrow> FixedBuffer \<Rightarrow> FixedBuffer result" where
  "formatTime env b =
     (let microseconds = log_now env smod kMicroSecondsPerSecond;
          t_time = fill_t_time (timestamp_toString (log_localtime env) (log_now env));
          buf = ''.'' @ print_zero_padded 6 microseconds @ '' ''
      in stream_all [General t_time 19, General (buf @ replicate (32 - length buf) (CHR 0x00)) 7] b)"

definition new_Logger_Impl :: "log_env \<Rightarrow> string \<Rightarrow> LogLevel \<Rightarrow> int \<Rightarrow> string \<Rightarrow> int \<Rightarrow> Logger result" where
  "new_Logger_Impl env junk level savedErrno filename line =
     bind_result (formatTime env (new_FixedBuffer junk)) (\<lambda>b1.
     bind_result (stream_all [CString (LogLevelName level)] b1) (\<lambda>b2.
     bind_result
       (if savedErrno \<noteq> 0
        then stream_all [CString (log_strerror env savedErrno), CString '' (errno='', Integer savedErrno, CString '') ''] b2
        else Inr b2) (\<lambda>b3.
     Inr \<lparr>log_stream = b3, log_level = level, log_line = line, log_basename = SourceFile filename\<rparr>)))"

definition new_Logger :: "log_env \<Rightarrow> string \<Rightarrow> string \<Rightarrow> int \<Rightarrow> LogLevel \<Rightarrow> Logger result" where
  "new_Logger env junk filename line level = new_Logger_Impl env junk level 0 filename line"

definition log_operands :: "operand list \<Rightarrow> Logger \<Rightarrow> Logger result" where
  "log_operands vs l = bind_result (stream_all vs (log_stream l)) (\<lambda>b. Inr (l\<lparr>log_stream := b\<rparr>))"

definition finish :: "Logger \<Rightarrow> Logger result" where
  "finish l =
     log_operands [CString '' - '', General (fst (log_basename l)) (snd (log_basename l)), CString '':'',
       Integer (log_line l), CString [CHR 0x0A]] l"

text \<open>
  The destructor.  \<open>g_output\<close> and \<open>g_flush\<close> act on the world \<open>'w\<close>; after a fatal message the process aborts.
\<close>

record 'w sinks =
  g_output :: "string \<Rightarrow> 'w \<Rightarrow> 'w"
  g_flush :: "'w \<Rightarrow> 'w"

definition setOutput :: "(string \<Rightarrow> 'w \<Rightarrow> 'w) \<Rightarrow> 'w sinks \<Rightarrow> 'w sinks" where
  "setOutput out g = g\<lparr>g_output := out\<rparr>"

definition setFlush :: "('w \<Rightarrow> 'w) \<Rightarrow> 'w sinks \<Rightarrow> 'w sinks" where
  "setFlush flush' g = g\<lparr>g_flush := flush'\<rparr>"

datatype 'w log_end = Continues 'w | Aborted 'w

definition destroy_Logger :: "'w sinks \<Rightarrow> Logger \<Rightarrow> 'w \<Rightarrow> 'w log_end result" where
  "destroy_Logger g l w =
     bind_result (finish l) (\<lambda>l1.
       let w1 = g_output g (fb_toString (log_stream l1)) w
       in Inr (if log_level l1 = FATAL then Aborted (g_flush g w1) else Continues w1))"

text \<open>A whole statement such as \<^verbatim>\<open>LOG_INFO << a << b;\<close>.\<close>

definition log_statement ::
    "log_env \<Rightarrow> 'w sinks \<Rightarrow> string \<Rightarrow> string \<Rightarrow> int \<Rightarrow> LogLevel \<Rightarrow> operand list \<Rightarrow> 'w \<Rightarrow> 'w log_end result" where
  "log_statement env g junk filename line level vs w =
     bind_result (new_Logger env junk filename line level) (\<lambda>l.
     bind_result (log_operands vs l) (\<lambda>l1. destroy_Logger g l1 w))"

section \<open>Fixed buffers\<close>

definition fb_ok :: "FixedBuffer \<Rightarrow> bool" where
  "fb_ok b \<longleftrightarrow> fb_cur b \<le> length (fb_data b)"

lemma fb_toString_write:
  assumes "fb_cur b + length s + length t \<le> length (fb_data b)"
  shows "fb_toString (fb_add (length s) (b\<lparr>fb_data := copy_in (s @ t) (fb_cur b) (fb_data b)\<rparr>)) = fb_toString b @ s"
  using assms by (simp add: fb_toString_def fb_add_def copy_in_eq)

lemma fb_memcpy_ok:
  assumes "fb_cur b + length s + length t \<le> length (fb_data b)"
  shows "\<exists>b'. bind_result (fb_memcpy (s @ t) (length s + length t) b) (\<lambda>b1. Inr (fb_add (length s) b1)) = Inr b' \<and>
    fb_ok b' \<and> length (fb_data b') = length (fb_data b) \<and> fb_toString b' = fb_toString b @ s"
  using assms fb_toString_write [OF assms] by (simp add: fb_memcpy_def fb_ok_def fb_add_def)

lemma to_int32_small: "0 \<le> i \<Longrightarrow> i \<le> INT_MAX \<Longrightarrow> to_int32 i = i"
  by (simp add: to_int32_def INT_MAX_def)

text \<open>An append stores all the bytes, or none when they do not leave a free byte.\<close>

lemma fb_append_ok:
  assumes "fb_ok b" and "len \<le> length buf" and "int len \<le> INT_MAX"
  shows "\<exists>b'. fb_append buf len b = Inr b' \<and> fb_ok b' \<and> length (fb_data b') = length (fb_data b) \<and>
    fb_toString b' = fb_toString b @ (if fb_cur b + len < length (fb_data b) then take len buf else [])"
proof (cases "fb_cur b + len < length (fb_data b)")
  case True
  then have a: "to_int32 (int len) < fb_avail b"
    using assms by (simp add: to_int32_small fb_avail_def fb_length_def)
  have "fb_memcpy buf len b = fb_memcpy (take len buf @ []) (length (take len buf) + length ([] :: string)) b"
    using assms(2) by (simp add: fb_memcpy_def)
  then have eq: "fb_append buf len b =
      bind_result (fb_memcpy (take len buf @ []) (length (take len buf) + length ([] :: string)) b) (\<lambda>b1. Inr (fb_add (length (take len buf)) b1))"
    using a assms(2) by (simp add: fb_append_def)
  have "fb_cur b + length (take len buf) + length ([] :: string) \<le> length (fb_data b)" using True assms(2) by simp
  from fb_memcpy_ok [OF this] show ?thesis using True unfolding eq by auto
next
  case False
  then have "\<not> to_int32 (int len) < fb_avail b"
    using assms by (simp add: to_int32_small fb_avail_def fb_length_def)
  then show ?thesis using assms(1) False by (simp add: fb_append_def)
qed

section \<open>Numbers\<close>

text \<open>The character a digit becomes when its sign is lost in the remainder.\<close>

definition garbled :: "char \<Rightarrow> char" where
  "garbled c = char_of (96 - of_char c :: nat)"

lemma format_digits_nonneg: "0 \<le> n \<Longrightarrow> format_digits n = rev (dec (nat n))"
proof (induction n rule: format_digits.induct)
  case (1 n)
  have d: "n smod 10 = int (nat n mod 10)" "n sdiv 10 = int (nat n div 10)"
    using "1.prems" by (simp_all add: signed_modulo_int_def signed_divide_int_def sgn_if zmod_int zdiv_int)
  have c: "digit_code (n smod 10) = digit_char (nat n mod 10)" by (simp add: d digit_code_def digit_char_def nat_add_distrib)
  show ?case
  proof (cases "nat n < 10")
    case True
    then show ?thesis using c by (simp add: format_digits.simps [of n] dec.simps [of "nat n"] d Let_def)
  next
    case False
    then have "n sdiv 10 \<noteq> 0" by (simp add: d)
    with 1 d have "format_digits (n sdiv 10) = rev (dec (nat n div 10))" by simp
    then show ?thesis using False c \<open>n sdiv 10 \<noteq> 0\<close>
      by (simp add: format_digits.simps [of n] dec.simps [of "nat n"] Let_def)
  qed
qed

lemma format_digits_negative: "0 < n \<Longrightarrow> format_digits (- n) = rev (map garbled (dec (nat n)))"
proof (induction "nat n" arbitrary: n rule: dec.induct)
  case 1
  have d: "(- n) smod 10 = - int (nat n mod 10)" "(- n) sdiv 10 = - int (nat n div 10)"
    using "1.prems" by (simp_all add: signed_modulo_int_def signed_divide_int_def sgn_if zmod_int zdiv_int)
  have "digit_code (- int k) = garbled (digit_char k)" if "k < 10" for k
    using that by (simp add: digit_code_def garbled_def)
  then have c: "digit_code ((- n) smod 10) = garbled (digit_char (nat n mod 10))" unfolding d by simp
  show ?case
  proof (cases "nat n < 10")
    case True
    then show ?thesis unfolding format_digits.simps [of "- n"] Let_def c dec.simps [of "nat n"] d(2) by simp
  next
    case False
    then have nz: "0 < int (nat n div 10)" by simp
    have "format_digits ((- n) sdiv 10) = rev (map garbled (dec (nat n div 10)))"
      unfolding d(2) using "1.hyps" [OF False, of "int (nat n div 10)"] nz by simp
    then show ?thesis using False nz
      unfolding format_digits.simps [of "- n"] Let_def c dec.simps [of "nat n"] d(2) by simp
  qed
qed

definition number_text :: "int \<Rightarrow> string" where
  "number_text n = (if n < 0 then CHR ''-'' # map garbled (dec (nat (- n))) else dec (nat n))"

lemma number_text_chars: "rev (format_digits n @ (if n < 0 then ''-'' else '''')) = number_text n"
  using format_digits_nonneg [of n] format_digits_negative [of "- n"] by (simp add: number_text_def)

lemma length_number_text:
  assumes "\<bar>n\<bar> < 2 ^ 64" shows "length (number_text n) \<le> 21"
proof -
  have "nat \<bar>n\<bar> < 10 ^ 20" using assms by simp
  then have "length (dec (nat \<bar>n\<bar>)) \<le> 20" by (rule length_dec_le) simp
  then show ?thesis by (auto simp: number_text_def split: if_splits)
qed

text \<open>A number is written whole, or not at all when fewer than 32 bytes are free.\<close>

lemma formatInteger_ok:
  assumes "fb_ok b" and n: "\<bar>n\<bar> < 2 ^ 64"
  shows "\<exists>b'. formatInteger n b = Inr b' \<and> fb_ok b' \<and> length (fb_data b') = length (fb_data b) \<and>
    fb_toString b' = fb_toString b @ (if fb_cur b + 32 \<le> length (fb_data b) then number_text n else [])"
proof (cases "fb_cur b + 32 \<le> length (fb_data b)")
  case True
  let ?t = "format_digits n @ (if n < 0 then ''-'' else '''')"
  have len: "length ?t = length (number_text n)" by (metis length_rev number_text_chars)
  have "kMaxNumberSize \<le> fb_avail b" using True by (simp add: kMaxNumberSize_def fb_avail_def fb_length_def)
  then have eq: "formatInteger n b = bind_result (fb_memcpy (number_text n @ [CHR 0x00])
      (length (number_text n) + length [CHR 0x00]) b) (\<lambda>b1. Inr (fb_add (length (number_text n)) b1))"
    unfolding formatInteger_def Let_def number_text_chars [of n] len by simp
  have "fb_cur b + length (number_text n) + length [CHR 0x00] \<le> length (fb_data b)"
    using True length_number_text [OF n] by simp
  from fb_memcpy_ok [OF this] show ?thesis using True unfolding eq by auto
next
  case False
  then show ?thesis using assms(1) by (simp add: formatInteger_def kMaxNumberSize_def fb_avail_def fb_length_def)
qed

section \<open>Operands\<close>

fun operand_text :: "operand \<Rightarrow> string" where
  "operand_text (Bool x) = (if x then ''true'' else ''false'')"
| "operand_text (Integer n) = number_text n"
| "operand_text (Double t) = t"
| "operand_text (Char c) = [c]"
| "operand_text (CString s) = cstring_bytes s"
| "operand_text (String s) = s"
| "operand_text (General s len) = take (nat len) s"

text \<open>Integers of at most 64 bits, and lengths that are an \<^verbatim>\<open>int\<close>.\<close>

fun operand_ok :: "operand \<Rightarrow> bool" where
  "operand_ok (Integer n) \<longleftrightarrow> \<bar>n\<bar> < 2 ^ 64"
| "operand_ok (General s len) \<longleftrightarrow> 0 \<le> len \<and> len \<le> int (length s) \<and> len \<le> INT_MAX"
| "operand_ok v \<longleftrightarrow> int (length (operand_text v)) \<le> INT_MAX"

text \<open>Room that is certainly enough: numbers ask for 32 free bytes.\<close>

definition operand_fits :: "operand \<Rightarrow> FixedBuffer \<Rightarrow> bool" where
  "operand_fits v b \<longleftrightarrow> fb_cur b + length (operand_text v) + 32 \<le> length (fb_data b)"

definition appended :: "string \<Rightarrow> FixedBuffer \<Rightarrow> FixedBuffer \<Rightarrow> bool" where
  "appended t b b' \<longleftrightarrow> fb_ok b' \<and> length (fb_data b') = length (fb_data b) \<and> fb_toString b' = fb_toString b @ t"

lemma length_fb_toString: "fb_ok b \<Longrightarrow> length (fb_toString b) = fb_cur b"
  by (simp add: fb_toString_def fb_ok_def)

lemma appended_cur: "fb_ok b \<Longrightarrow> appended t b b' \<Longrightarrow> fb_cur b' = fb_cur b + length t"
  using length_fb_toString [of b] length_fb_toString [of b'] by (simp add: appended_def)

lemma append_text_ok:
  assumes "fb_ok b" and "len \<le> length s" and "int len \<le> INT_MAX"
  shows "\<exists>b'. fb_append s len b = Inr b' \<and> (appended (take len s) b b' \<or> appended [] b b') \<and>
    (fb_cur b + len + 32 \<le> length (fb_data b) \<longrightarrow> appended (take len s) b b')"
  using fb_append_ok [OF assms] by (auto simp: appended_def split: if_splits)

lemma stream_out_ok:
  assumes "fb_ok b" and "operand_ok v"
  shows "\<exists>b'. stream_out v b = Inr b' \<and> (appended (operand_text v) b b' \<or> appended [] b b') \<and>
    (operand_fits v b \<longrightarrow> appended (operand_text v) b b')"
proof (cases v)
  case (Bool x)
  have "length (operand_text v) = (if x then 4 else 5)" using Bool by simp
  then have "stream_out v b = fb_append (operand_text v) (length (operand_text v)) b"
    using Bool by (simp add: stream_out_def)
  then show ?thesis
    using append_text_ok [OF assms(1), of "length (operand_text v)" "operand_text v"] assms(2) Bool
    by (auto simp: operand_fits_def)
next
  case (Integer n)
  then show ?thesis using formatInteger_ok [OF assms(1), of n] assms(2)
    by (auto simp: stream_out_def appended_def operand_fits_def split: if_splits)
next
  case (Double t)
  then show ?thesis
    using append_text_ok [OF assms(1), of "length t" t] assms(2) by (auto simp: stream_out_def operand_fits_def)
next
  case (Char c)
  then show ?thesis
    using append_text_ok [OF assms(1), of 1 "[c]"] assms(2) by (auto simp: stream_out_def operand_fits_def)
next
  case (CString s)
  then show ?thesis
    using append_text_ok [OF assms(1), of "length (cstring_bytes s)" "cstring_bytes s"] assms(2)
    by (auto simp: stream_out_def operand_fits_def)
next
  case (String s)
  then show ?thesis
    using append_text_ok [OF assms(1), of "length s" s] assms(2) by (auto simp: stream_out_def operand_fits_def)
next
  case (General s len)
  then have "nat (to_size_t len) = nat len" "nat len \<le> length s" "int (nat len) \<le> INT_MAX"
    using assms(2) by (simp_all add: to_size_t_def INT_MAX_def nat_le_iff)
  then show ?thesis
    using append_text_ok [OF assms(1), of "nat len" s] General by (auto simp: stream_out_def operand_fits_def min_def)
qed

lemma stream_all_ok:
  assumes "fb_ok b" and "\<forall>v \<in> set vs. operand_ok v"
  shows "\<exists>b' t. stream_all vs b = Inr b' \<and> appended t b b' \<and>
    (fb_cur b + length (concat (map operand_text vs)) + 32 \<le> length (fb_data b) \<longrightarrow> t = concat (map operand_text vs))"
  using assms
proof (induction vs arbitrary: b)
  case Nil
  then show ?case by (auto simp: stream_all_def appended_def)
next
  case (Cons v vs)
  obtain b1 where b1: "stream_out v b = Inr b1" "appended (operand_text v) b b1 \<or> appended [] b b1"
    "operand_fits v b \<longrightarrow> appended (operand_text v) b b1"
    using stream_out_ok [OF Cons.prems(1)] Cons.prems(2) by auto
  then obtain t1 where t1: "appended t1 b b1" "operand_fits v b \<longrightarrow> t1 = operand_text v" by auto
  have "fb_ok b1" using t1(1) by (simp add: appended_def)
  then obtain b' t where r: "stream_all vs b1 = Inr b'" "appended t b1 b'"
    "fb_cur b1 + length (concat (map operand_text vs)) + 32 \<le> length (fb_data b1) \<longrightarrow> t = concat (map operand_text vs)"
    using Cons.IH Cons.prems(2) by (metis list.set_intros(2))
  have "appended (t1 @ t) b b'" using t1(1) r(2) by (simp add: appended_def)
  moreover have "t1 @ t = concat (map operand_text (v # vs))"
    if "fb_cur b + length (concat (map operand_text (v # vs))) + 32 \<le> length (fb_data b)"
  proof -
    have t: "t1 = operand_text v" using that t1(2) by (simp add: operand_fits_def)
    then show ?thesis using that r(3) appended_cur [OF Cons.prems(1) t1(1)] t1(1) by (simp add: appended_def)
  qed
  ultimately show ?case using b1(1) r(1) by (auto simp: stream_all_def)
qed

text \<open>Numbers in the log: a non-negative number of at most 64 bits is written as its decimal digits, which
  read back to the number, when at least 32 bytes are free, and is dropped otherwise; the array is
  never overrun.\<close>

lemma log_number_roundtrip:
  assumes "fb_ok b" and "0 \<le> n" and "n < 2 ^ 64"
  shows "\<exists>b' t. stream_out (Integer n) b = Inr b' \<and> fb_ok b' \<and> length (fb_data b') = length (fb_data b) \<and>
    fb_toString b' = fb_toString b @ t \<and>
    (if 32 \<le> fb_avail b then (\<forall>c \<in> set t. is_digit c) \<and> int (dec_val t) = n else t = [])"
proof -
  obtain b' where b': "formatInteger n b = Inr b'" "fb_ok b'" "length (fb_data b') = length (fb_data b)"
    "fb_toString b' = fb_toString b @ (if fb_cur b + 32 \<le> length (fb_data b) then number_text n else [])"
    using formatInteger_ok [OF assms(1), of n] assms(2,3) by auto
  have "32 \<le> fb_avail b \<longleftrightarrow> fb_cur b + 32 \<le> length (fb_data b)" by (auto simp: fb_avail_def fb_length_def)
  then show ?thesis using b' assms(2) dec_digits
    by (intro exI [of _ b'] exI [of _ "if fb_cur b + 32 \<le> length (fb_data b) then number_text n else []"])
      (simp add: stream_out_def number_text_def)
qed

text \<open>Negative numbers are garbled: after the sign every decimal digit \<open>d\<close> of the absolute value is
  written as the character with code 48 - \<open>d\<close>, so that only the digit 0 is readable.\<close>

lemma log_negative_garbled:
  assumes "fb_ok b" and "n < 0" and "- n < 2 ^ 64" and "32 \<le> fb_avail b"
  shows "\<exists>b'. stream_out (Integer n) b = Inr b' \<and>
    fb_toString b' = fb_toString b @ CHR ''-'' # map (\<lambda>c. char_of (96 - of_char c :: nat)) (dec (nat (- n)))"
proof -
  have "fb_cur b + 32 \<le> length (fb_data b)" using assms(4) by (simp add: fb_avail_def fb_length_def)
  then show ?thesis using formatInteger_ok [OF assms(1), of n] assms(2,3)
    by (auto simp: stream_out_def number_text_def garbled_def)
qed

section \<open>A log statement\<close>

lemma strrchr_none: "c \<notin> set s \<Longrightarrow> strrchr s c = None"
proof -
  assume "c \<notin> set s"
  then have "filter (\<lambda>i. s ! i = c) [0..<length s] = []" by (auto simp: filter_empty_conv)
  then show ?thesis by (simp add: strrchr_def)
qed

lemma strrchr_last: "c \<notin> set s \<Longrightarrow> strrchr (d @ c # s) c = Some (length d)"
proof -
  assume c: "c \<notin> set s"
  let ?P = "\<lambda>i. (d @ c # s) ! i = c"
  have "[0..<length (d @ c # s)] = [0..<length d] @ length d # [Suc (length d)..<Suc (length d) + length s]"
    using upt_add_eq_append [of 0 "length d" "Suc (length s)"] upt_conv_Cons [of "length d" "length d + Suc (length s)"]
    by (simp del: upt_Suc)
  moreover have "filter ?P [Suc (length d)..<Suc (length d) + length s] = []"
  proof -
    have "(d @ c # s) ! i \<noteq> c" if "Suc (length d) \<le> i" "i < Suc (length d) + length s" for i
    proof -
      have "(d @ c # s) ! i = s ! (i - Suc (length d))" using that by (simp add: nth_append nth_Cons')
      then show ?thesis using that c nth_mem [of "i - Suc (length d)" s] by auto
    qed
    then show ?thesis by (auto simp: filter_empty_conv simp del: upt_Suc)
  qed
  ultimately have eq: "filter ?P [0..<length (d @ c # s)] = filter ?P [0..<length d] @ [length d]" by simp
  show ?thesis unfolding strrchr_def eq by (cases "filter ?P [0..<length d]") simp_all
qed

text \<open>The part of a file name after its last slash.\<close>

lemma SourceFile_basename:
  assumes "CHR ''/'' \<notin> set base" and "dir = [] \<or> last dir = CHR ''/''" and "int (length base) \<le> INT_MAX"
  shows "SourceFile (dir @ base) = (base, int (length base))"
proof (cases "dir = []")
  case True
  then show ?thesis using assms by (simp add: SourceFile_def strrchr_none to_int32_small)
next
  case False
  then have "dir @ base = butlast dir @ CHR ''/'' # base" using assms(2) append_butlast_last_id [of dir] by simp
  moreover have "SourceFile (butlast dir @ CHR ''/'' # base) = (base, int (length base))"
    using assms strrchr_last [OF assms(1), of "butlast dir"] by (simp add: SourceFile_def to_int32_small)
  ultimately show ?thesis by metis
qed

text \<open>The 35 bytes every line starts with: the time, the microseconds and the level.\<close>

definition log_prefix :: "log_env \<Rightarrow> LogLevel \<Rightarrow> string" where
  "log_prefix env level =
     timestamp_toString (log_localtime env) (log_now env) @ ''.'' @
     print_zero_padded 6 (log_now env smod kMicroSecondsPerSecond) @ LogLevelName level"

definition log_suffix :: "string \<Rightarrow> int \<Rightarrow> string" where
  "log_suffix base line = '' - '' @ base @ '':'' @ print_int line @ [CHR 0x0A]"

definition log_env_ok :: "log_env \<Rightarrow> bool" where
  "log_env_ok env \<longleftrightarrow> 0 \<le> log_now env \<and> tm_ok (log_localtime env (log_now env sdiv kMicroSecondsPerSecond))"


lemma length_LogLevelName: "length (LogLevelName level) = 9"
  by (cases level) simp_all

lemma LogLevelName_cstring: "cstring_bytes (LogLevelName level) = LogLevelName level"
  by (cases level) (simp_all add: cstring_bytes_def)

lemma microseconds_bounds: "0 \<le> t \<Longrightarrow> 0 \<le> t smod kMicroSecondsPerSecond \<and> t smod kMicroSecondsPerSecond < 10 ^ 6"
  by (simp add: kMicroSecondsPerSecond_def signed_modulo_int_def sgn_if)

lemma length_log_prefix: "log_env_ok env \<Longrightarrow> length (log_prefix env level) = 35"
  using microseconds_bounds [of "log_now env"]
  by (simp add: log_env_ok_def log_prefix_def length_timestamp_toString length_LogLevelName length_print_zero_padded)

text \<open>The constructor of a logger writes the prefix.\<close>

lemma formatTime_operands:
  assumes "log_env_ok env"
  shows "\<exists>v1 v2. formatTime env b = stream_all [v1, v2] b \<and> operand_ok v1 \<and> operand_ok v2 \<and>
    operand_text v1 @ operand_text v2 @ LogLevelName level = log_prefix env level"
proof -
  let ?s = "timestamp_toString (log_localtime env) (log_now env)"
  let ?u = "print_zero_padded 6 (log_now env smod kMicroSecondsPerSecond)"
  have s: "length ?s = 19" using assms by (simp add: log_env_ok_def length_timestamp_toString)
  have u: "length ?u = 6" using assms microseconds_bounds [of "log_now env"] by (simp add: log_env_ok_def length_print_zero_padded)
  show ?thesis
    by (intro exI [of _ "General (fill_t_time ?s) 19"]
          exI [of _ "General (''.'' @ ?u @ '' '' @ replicate (32 - length (''.'' @ ?u @ '' '')) (CHR 0x00)) 7"])
      (simp add: formatTime_def Let_def fill_t_time_def s u log_prefix_def INT_MAX_def)
qed

lemma stream_all_append: "stream_all (us @ vs) b = bind_result (stream_all us b) (stream_all vs)"
proof (induction us arbitrary: b)
  case (Cons u us)
  then show ?case by (cases "stream_out u b") (simp_all add: stream_all_def)
qed (simp add: stream_all_def)

text \<open>Everything a statement streams into the buffer, as one list of operands.\<close>

lemma log_statement_operands:
  assumes "log_env_ok env" and "\<forall>v \<in> set vs. operand_ok v" and "0 \<le> line" "line \<le> INT_MAX"
    and "CHR ''/'' \<notin> set base" and "dir = [] \<or> last dir = CHR ''/''" and "int (length base) \<le> INT_MAX"
  shows "\<exists>ps ss. (\<forall>v \<in> set (ps @ vs @ ss). operand_ok v) \<and>
    concat (map operand_text ps) = log_prefix env level \<and> concat (map operand_text ss) = log_suffix base line \<and>
    log_statement env g junk (dir @ base) line level vs w =
      bind_result (stream_all (ps @ vs @ ss) (new_FixedBuffer junk)) (\<lambda>b.
        let w1 = g_output g (fb_toString b) w
        in Inr (if level = FATAL then Aborted (g_flush g w1) else Continues w1))"
proof -
  obtain v1 v2 where v: "formatTime env (new_FixedBuffer junk) = stream_all [v1, v2] (new_FixedBuffer junk)"
    "operand_ok v1" "operand_ok v2" "operand_text v1 @ operand_text v2 @ LogLevelName level = log_prefix env level"
    using formatTime_operands [OF assms(1)] by metis
  let ?ps = "[v1, v2, CString (LogLevelName level)]"
  let ?ss = "[CString '' - '', General base (int (length base)), CString '':'', Integer line, CString [CHR 0x0A]]"
  have "operand_ok (CString (LogLevelName level))"
    by (simp add: INT_MAX_def length_LogLevelName LogLevelName_cstring)
  then have "\<forall>v \<in> set (?ps @ vs @ ?ss). operand_ok v"
    using assms v(2,3) by (simp add: INT_MAX_def cstring_bytes_def ball_Un)
  moreover have "concat (map operand_text ?ps) = log_prefix env level" using v(4) by (simp add: LogLevelName_cstring)
  moreover have "concat (map operand_text ?ss) = log_suffix base line"
    using assms(3) by (simp add: log_suffix_def cstring_bytes_def number_text_def print_int_def)
  moreover have "log_statement env g junk (dir @ base) line level vs w =
      bind_result (stream_all (?ps @ vs @ ?ss) (new_FixedBuffer junk)) (\<lambda>b.
        let w1 = g_output g (fb_toString b) w
        in Inr (if level = FATAL then Aborted (g_flush g w1) else Continues w1))"
  proof -
    have "stream_all (?ps @ vs @ ?ss) (new_FixedBuffer junk) =
        bind_result (bind_result (bind_result (stream_all [v1, v2] (new_FixedBuffer junk))
          (stream_all [CString (LogLevelName level)])) (stream_all vs)) (stream_all ?ss)"
      using stream_all_append [of "[v1, v2]" "[CString (LogLevelName level)]"]
        stream_all_append [of ?ps vs] stream_all_append [of "?ps @ vs" ?ss] by simp
    then show ?thesis
      unfolding log_statement_def new_Logger_def new_Logger_Impl_def v(1)
      by (simp add: log_operands_def destroy_Logger_def finish_def SourceFile_basename [OF assms(5-7)] bind_result_assoc Let_def
          cong: if_cong)
  qed
  ultimately show ?thesis by blast
qed


text \<open>What one statement hands to the output function.\<close>

lemma log_statement_line:
  assumes "log_env_ok env" and "length junk = kSmallBuffer"
    and "\<forall>v \<in> set vs. operand_ok v" and "0 \<le> line" and "line \<le> INT_MAX"
    and "CHR ''/'' \<notin> set base" and "dir = [] \<or> last dir = CHR ''/''" and "int (length base) \<le> INT_MAX"
  shows "\<exists>t. log_statement env g junk (dir @ base) line level vs w =
        Inr (if level = FATAL then Aborted (g_flush g (g_output g (log_prefix env level @ t) w))
             else Continues (g_output g (log_prefix env level @ t) w)) \<and>
      length (log_prefix env level @ t) \<le> kSmallBuffer \<and>
      (length (log_prefix env level @ concat (map operand_text vs) @ log_suffix base line) + 32 \<le> kSmallBuffer \<longrightarrow>
        t = concat (map operand_text vs) @ log_suffix base line)"
proof -
  obtain ps ss where o: "\<forall>v \<in> set (ps @ vs @ ss). operand_ok v"
    "concat (map operand_text ps) = log_prefix env level" "concat (map operand_text ss) = log_suffix base line"
    "log_statement env g junk (dir @ base) line level vs w =
      bind_result (stream_all (ps @ vs @ ss) (new_FixedBuffer junk)) (\<lambda>b.
        let w1 = g_output g (fb_toString b) w
        in Inr (if level = FATAL then Aborted (g_flush g w1) else Continues w1))"
    using log_statement_operands [OF assms(1,3-8), of level g junk w] by blast
  let ?b = "new_FixedBuffer junk"
  have b: "fb_ok ?b" "fb_cur ?b = 0" "fb_toString ?b = []" "length (fb_data ?b) = kSmallBuffer"
    using assms(2) by (simp_all add: new_FixedBuffer_def fb_ok_def fb_toString_def)
  have p35: "length (log_prefix env level) = 35" by (rule length_log_prefix [OF assms(1)])
  have "\<forall>v \<in> set ps. operand_ok v" using o(1) by simp
  from stream_all_ok [OF b(1) this] obtain b1 where b1: "stream_all ps ?b = Inr b1" "appended (log_prefix env level) ?b b1"
    unfolding o(2) b(2,4) p35 by (auto simp: kSmallBuffer_def)
  have c1: "fb_cur b1 = 35" using appended_cur [OF b(1) b1(2)] b(2) p35 by simp
  have ok1: "fb_ok b1" "length (fb_data b1) = kSmallBuffer" "fb_toString b1 = log_prefix env level"
    using b1(2) b(3,4) by (simp_all add: appended_def)
  have "\<forall>v \<in> set (vs @ ss). operand_ok v" using o(1) by auto
  from stream_all_ok [OF ok1(1) this] obtain b2 t where b2: "stream_all (vs @ ss) b1 = Inr b2" "appended t b1 b2"
    "fb_cur b1 + length (concat (map operand_text (vs @ ss))) + 32 \<le> length (fb_data b1) \<longrightarrow>
      t = concat (map operand_text (vs @ ss))" by blast
  have t: "fb_toString b2 = log_prefix env level @ t" "fb_ok b2" "length (fb_data b2) = kSmallBuffer"
    using b2(2) ok1(2,3) by (simp_all add: appended_def)
  have "stream_all (ps @ vs @ ss) ?b = Inr b2" using b1(1) b2(1) by (simp add: stream_all_append)
  moreover have "length (log_prefix env level @ t) \<le> kSmallBuffer"
    using t length_fb_toString [OF t(2)] by (simp add: fb_ok_def)
  ultimately show ?thesis using o(3,4) b2(3) t(1) c1 ok1(2) p35 by (intro exI [of _ t]) (simp add: Let_def)
qed

text \<open>A log statement: it never overruns the buffer of the line and always hands exactly one line of at most
  4000 bytes to the output function, which starts with the local time, the microseconds and the
  level; when the whole line leaves 32 bytes free, it is that prefix, the texts of the operands in order, the file
  name after its last slash, the line number and a newline.  After a fatal statement the output is flushed and
  the process aborts.\<close>

lemma log_line_written:
  assumes "log_env_ok env" and "length junk = kSmallBuffer"
    and "\<forall>v \<in> set vs. operand_ok v" and "0 \<le> line" and "line \<le> INT_MAX"
    and "CHR ''/'' \<notin> set base" and "dir = [] \<or> last dir = CHR ''/''" and "int (length base) \<le> INT_MAX"
  shows "\<exists>t. log_statement env g junk (dir @ base) line level vs w =
        Inr (if level = FATAL then Aborted (g_flush g (g_output g (log_prefix env level @ t) w))
             else Continues (g_output g (log_prefix env level @ t) w)) \<and>
      length (log_prefix env level @ t) \<le> kSmallBuffer \<and>
      (length (log_prefix env level @ concat (map operand_text vs) @ log_suffix base line) + 32 \<le> kSmallBuffer \<longrightarrow>
        t = concat (map operand_text vs) @ log_suffix base line)"
  by (rule log_statement_line [OF assms])

text \<open>A statement of the server at a fixed time.\<close>

definition sample_env :: log_env where
  "sample_env = \<lparr>log_now = 1700000000123456,
     log_localtime = (\<lambda>_. \<lparr>tm_year = 123, tm_mon = 10, tm_mday = 14, tm_hour = 22, tm_min = 13, tm_sec = 20\<rparr>),
     log_strerror = (\<lambda>_. [])\<rparr>"

end
