(* ===== verification/Log_File.thy ===== *)
theory Log_File
  imports Time_Stamp
begin

text \<open>
  Log files (\<^verbatim>\<open>include/FileUtil.h\<close>, \<^verbatim>\<open>log/FileUtile.cpp\<close>, \<^verbatim>\<open>include/LogFile.h\<close>, \<^verbatim>\<open>log/LogFile.cpp\<close>).  The
  answers of \<^verbatim>\<open>fopen\<close>, \<^verbatim>\<open>fwrite_unlocked\<close> and \<^verbatim>\<open>time\<close> are parameters, numbered by the calls made so far.  The
  state of the C library is the list of the streams opened so far, each with the name of its file
  and the bytes it has accepted, and for every stream the bytes that are certainly in the file.
  A run that never returns is \<^const>\<open>None\<close>.  \<^verbatim>\<open>count_\<close> and \<^verbatim>\<open>writtenbytes_\<close> are unbounded.
\<close>

section \<open>The C library\<close>

record io_env =
  io_fopen :: "nat \<Rightarrow> string \<Rightarrow> bool"
  io_fwrite :: "nat \<Rightarrow> nat \<Rightarrow> nat \<times> bool"
  io_time :: "nat \<Rightarrow> int"
  io_localtime :: "int \<Rightarrow> tm"

record stdio =
  io_calls :: nat
  io_streams :: "(string \<times> string) list"
  io_flushed :: "nat \<Rightarrow> string"

definition next_call :: "stdio \<Rightarrow> stdio" where
  "next_call io = io\<lparr>io_calls := Suc (io_calls io)\<rparr>"

text \<open>A stream is its position in the list.\<close>

definition fopen :: "io_env \<Rightarrow> string \<Rightarrow> stdio \<Rightarrow> nat option \<times> stdio" where
  "fopen env name io =
     (if io_fopen env (io_calls io) name
      then (Some (length (io_streams io)), next_call (io\<lparr>io_streams := io_streams io @ [(name, [])]\<rparr>))
      else (None, next_call io))"

text \<open>The number of bytes accepted, and whether \<^verbatim>\<open>ferror\<close> is set afterwards.\<close>

definition fwrite_unlocked :: "io_env \<Rightarrow> nat \<Rightarrow> string \<Rightarrow> stdio \<Rightarrow> (nat \<times> bool) \<times> stdio" where
  "fwrite_unlocked env f data io =
     (let r = io_fwrite env (io_calls io) (length data); (name, bytes) = io_streams io ! f
      in (r, next_call (io\<lparr>io_streams := (io_streams io)[f := (name, bytes @ take (fst r) data)]\<rparr>)))"

text \<open>\<^verbatim>\<open>fflush\<close> of a null pointer flushes every stream.\<close>

definition fflush :: "nat option \<Rightarrow> stdio \<Rightarrow> stdio" where
  "fflush f io =
     (case f of
        Some i \<Rightarrow> io\<lparr>io_flushed := (io_flushed io)(i := snd (io_streams io ! i))\<rparr>
      | None \<Rightarrow> io\<lparr>io_flushed := (\<lambda>i. if i < length (io_streams io) then snd (io_streams io ! i) else [])\<rparr>)"

definition fclose :: "nat \<Rightarrow> stdio \<Rightarrow> stdio" where
  "fclose f io = fflush (Some f) io"

definition time_NULL :: "io_env \<Rightarrow> stdio \<Rightarrow> int \<times> stdio" where
  "time_NULL env io = (io_time env (io_calls io), next_call io)"

section \<open>FileUtil\<close>

record FileUtil =
  fu_file :: "nat option"
  fu_writtenbytes :: int

definition new_FileUtil :: "io_env \<Rightarrow> string \<Rightarrow> stdio \<Rightarrow> FileUtil \<times> stdio" where
  "new_FileUtil env file_name io =
     (let (f, io1) = fopen env file_name io in (\<lparr>fu_file = f, fu_writtenbytes = 0\<rparr>, io1))"

definition destroy_FileUtil :: "FileUtil \<Rightarrow> stdio \<Rightarrow> stdio" where
  "destroy_FileUtil fu io = (case fu_file fu of Some f \<Rightarrow> fclose f io | None \<Rightarrow> io)"

text \<open>The loop of \<^verbatim>\<open>append\<close>.  After a write error it stops, and the bytes of that write are not counted.\<close>

partial_function (option) append_loop :: "io_env \<Rightarrow> nat \<Rightarrow> string \<Rightarrow> nat \<Rightarrow> stdio \<Rightarrow> (nat \<times> stdio) option" where
  "append_loop env f data writen io =
     (if writen < length data
      then let remain = length data - writen; ((n, err), io1) = fwrite_unlocked env f (drop writen data) io
           in if n \<noteq> remain \<and> err then Some (writen, io1) else append_loop env f data (writen + n) io1
      else Some (writen, io))"

declare append_loop.simps [code]

definition FileUtil_append :: "io_env \<Rightarrow> string \<Rightarrow> nat \<Rightarrow> FileUtil \<times> stdio \<Rightarrow> (FileUtil \<times> stdio) result option" where
  "FileUtil_append env data len = (\<lambda>(fu, io).
     if length data < len then Some (Inl OutOfBounds)
     else case fu_file fu of
            None \<Rightarrow> Some (if len = 0 then Inr (fu, io) else Inl NullPointer)
          | Some f \<Rightarrow> Option.bind (append_loop env f (take len data) 0 io) (\<lambda>(writen, io1).
              Some (Inr (fu\<lparr>fu_writtenbytes := fu_writtenbytes fu + int writen\<rparr>, io1))))"

definition FileUtil_flush :: "FileUtil \<Rightarrow> stdio \<Rightarrow> stdio" where
  "FileUtil_flush fu io = fflush (fu_file fu) io"

section \<open>LogFile\<close>

definition kRollPerSeconds :: int where "kRollPerSeconds = 60 * 60 * 24"

record LogFile =
  lf_basename :: string
  lf_rollsize :: int
  lf_flushInterval :: int
  lf_checkEveryN :: int
  lf_count :: int
  lf_startOfPeriod :: int
  lf_lastRoll :: int
  lf_lastFlush :: int
  lf_file :: "FileUtil option"

text \<open>\<^verbatim>\<open>strftime\<close> with \<^verbatim>\<open>.%Y%m%d-%H%M%S.log\<close>.\<close>

definition strftime_name :: "tm \<Rightarrow> string" where
  "strftime_name t =
     ''.'' @ print_int (tm_year t + 1900) @ print_zero_padded 2 (tm_mon t + 1) @ print_zero_padded 2 (tm_mday t) @ ''-'' @
     print_zero_padded 2 (tm_hour t) @ print_zero_padded 2 (tm_min t) @ print_zero_padded 2 (tm_sec t) @ ''.log''"

definition getLogFileName :: "io_env \<Rightarrow> string \<Rightarrow> stdio \<Rightarrow> (string \<times> int) \<times> stdio" where
  "getLogFileName env basename io =
     (let (now, io1) = time_NULL env io
      in ((basename @ strftime_name (io_localtime env now) @ ''.log'', now), io1))"

definition period_start :: "int \<Rightarrow> int" where
  "period_start now = now sdiv kRollPerSeconds * kRollPerSeconds"

text \<open>\<^verbatim>\<open>file_.reset(new FileUtil(filename))\<close> opens the new file before the old one is closed.\<close>

definition rollFile :: "io_env \<Rightarrow> LogFile \<times> stdio \<Rightarrow> bool \<times> LogFile \<times> stdio" where
  "rollFile env = (\<lambda>(lf, io).
     let ((filename, now), io1) = getLogFileName env (lf_basename lf) io;
         start = period_start now
     in if lf_lastRoll lf < now
        then let (fu, io2) = new_FileUtil env filename io1;
                 io3 = (case lf_file lf of Some old \<Rightarrow> destroy_FileUtil old io2 | None \<Rightarrow> io2)
             in (True, lf\<lparr>lf_lastRoll := now, lf_lastFlush := now, lf_startOfPeriod := start, lf_file := Some fu\<rparr>, io3)
        else (False, lf, io1))"

definition new_LogFile :: "io_env \<Rightarrow> string \<Rightarrow> int \<Rightarrow> int \<Rightarrow> int \<Rightarrow> stdio \<Rightarrow> LogFile \<times> stdio" where
  "new_LogFile env basename rollsize flushInterval checkEveryN io =
     snd (rollFile env
       (\<lparr>lf_basename = basename, lf_rollsize = rollsize, lf_flushInterval = flushInterval, lf_checkEveryN = checkEveryN,
         lf_count = 0, lf_startOfPeriod = 0, lf_lastRoll = 0, lf_lastFlush = 0, lf_file = None\<rparr>, io))"

definition LogFile_flush :: "LogFile \<times> stdio \<Rightarrow> (LogFile \<times> stdio) result" where
  "LogFile_flush = (\<lambda>(lf, io).
     case lf_file lf of None \<Rightarrow> Inl NullPointer | Some fu \<Rightarrow> Inr (lf, FileUtil_flush fu io))"

text \<open>The decisions \<^verbatim>\<open>appendInlock\<close> takes after the write, \<open>now\<close> being the time read after it.\<close>

definition roll_if_needed :: "io_env \<Rightarrow> int \<Rightarrow> FileUtil \<Rightarrow> LogFile \<times> stdio \<Rightarrow> LogFile \<times> stdio" where
  "roll_if_needed env now fu = (\<lambda>(lf, io).
     if lf_rollsize lf < fu_writtenbytes fu then snd (rollFile env (lf, io))
     else if lf_checkEveryN lf \<le> lf_count lf
     then let lf1 = lf\<lparr>lf_count := 0\<rparr>; thisPeriod = period_start now
          in if thisPeriod \<noteq> lf_startOfPeriod lf1 then snd (rollFile env (lf1, io)) else (lf1, io)
     else (lf, io))"

definition flush_if_needed :: "int \<Rightarrow> LogFile \<times> stdio \<Rightarrow> (LogFile \<times> stdio) result" where
  "flush_if_needed now = (\<lambda>(lf, io).
     if lf_flushInterval lf < now - lf_lastFlush lf
     then LogFile_flush (lf\<lparr>lf_lastFlush := now\<rparr>, io) else Inr (lf, io))"

definition appendInlock :: "io_env \<Rightarrow> string \<Rightarrow> int \<Rightarrow> LogFile \<times> stdio \<Rightarrow> (LogFile \<times> stdio) result option" where
  "appendInlock env data len = (\<lambda>(lf, io).
     case lf_file lf of
       None \<Rightarrow> Some (Inl NullPointer)
     | Some fu \<Rightarrow> Option.bind (FileUtil_append env data (nat (to_size_t len)) (fu, io)) (\<lambda>r.
         Some (bind_result r (\<lambda>(fu1, io1).
           let (now, io2) = time_NULL env io1;
               lf1 = lf\<lparr>lf_file := Some fu1, lf_count := lf_count lf + 1\<rparr>
           in flush_if_needed now (roll_if_needed env now fu1 (lf1, io2))))))"

definition LogFile_append :: "io_env \<Rightarrow> string \<Rightarrow> nat \<Rightarrow> LogFile \<times> stdio \<Rightarrow> (LogFile \<times> stdio) result option" where
  "LogFile_append env data len s = appendInlock env data (to_int32 (int len)) s"


section \<open>Appending to a file\<close>

text \<open>What the C standard promises of \<^verbatim>\<open>fwrite\<close>: it writes fewer bytes only when an error occurred.\<close>

definition fwrite_contract :: "io_env \<Rightarrow> bool" where
  "fwrite_contract env \<longleftrightarrow>
     (\<forall>k n. fst (io_fwrite env k n) \<le> n \<and> (fst (io_fwrite env k n) < n \<longrightarrow> snd (io_fwrite env k n)))"

definition stream_add :: "nat \<Rightarrow> string \<Rightarrow> (string \<times> string) list \<Rightarrow> (string \<times> string) list" where
  "stream_add f t xs = xs[f := (fst (xs ! f), snd (xs ! f) @ t)]"

lemma fwrite_unlocked_eq:
  "fwrite_unlocked env f data io =
     (io_fwrite env (io_calls io) (length data),
      next_call (io\<lparr>io_streams := stream_add f (take (fst (io_fwrite env (io_calls io) (length data))) data) (io_streams io)\<rparr>))"
  by (simp add: fwrite_unlocked_def stream_add_def Let_def split_beta)

text \<open>The loop is left after one write.\<close>

lemma append_loop_once:
  assumes "fwrite_contract env" and "data \<noteq> []"
  shows "append_loop env f data 0 io =
    (let n = fst (io_fwrite env (io_calls io) (length data))
     in Some (if n = length data then length data else 0,
          next_call (io\<lparr>io_streams := stream_add f (take n data) (io_streams io)\<rparr>)))"
proof -
  have c: "snd (io_fwrite env (io_calls io) (length data))" if "fst (io_fwrite env (io_calls io) (length data)) \<noteq> length data"
    using that assms(1) unfolding fwrite_contract_def by (metis le_neq_implies_less)
  show ?thesis
  proof (cases "fst (io_fwrite env (io_calls io) (length data)) = length data")
    case True
    then show ?thesis using assms(2)
      by (simp add: append_loop.simps [of env f data 0] append_loop.simps [of env f data "length data"] fwrite_unlocked_eq Let_def split_beta)
  next
    case False
    then show ?thesis using assms(2) c [OF False]
      by (simp add: append_loop.simps [of env f data 0] fwrite_unlocked_eq Let_def split_beta)
  qed
qed

lemma stream_add_empty [simp]: "stream_add f [] xs = xs"
  by (simp add: stream_add_def)

lemma length_stream_add [simp]: "length (stream_add f t xs) = length xs"
  by (simp add: stream_add_def)

text \<open>Appending to a file returns: when \<^verbatim>\<open>fwrite\<close> reports a short write only together with an error, the loop of
  \<^verbatim>\<open>FileUtil::append\<close> ends; the stream has received a prefix of the data, all of it and
  with the byte count advanced by its length when no error occurred, and the count unchanged otherwise.\<close>

lemma FileUtil_append_ok:
  assumes "fwrite_contract env" and "fu_file fu = Some f" and "len \<le> length data"
  shows "\<exists>fu' io' k. FileUtil_append env data len (fu, io) = Some (Inr (fu', io')) \<and> k \<le> len \<and> fu_file fu' = Some f \<and>
    k = (if len = 0 then 0 else fst (io_fwrite env (io_calls io) len)) \<and>
    io_streams io' = stream_add f (take k data) (io_streams io) \<and>
    (if k = len then fu_writtenbytes fu' = fu_writtenbytes fu + int len
     else snd (io_fwrite env (io_calls io) len) \<and> fu_writtenbytes fu' = fu_writtenbytes fu)"
proof (cases "len = 0")
  case True
  then show ?thesis using assms(2) by (simp add: FileUtil_append_def append_loop.simps)
next
  case False
  let ?n = "fst (io_fwrite env (io_calls io) len)"
  have n: "?n \<le> len" "?n < len \<longrightarrow> snd (io_fwrite env (io_calls io) len)"
    using assms(1) by (auto simp: fwrite_contract_def)
  have "take len data \<noteq> []" "length (take len data) = len" using False assms(3) by auto
  with append_loop_once [OF assms(1) this(1), of f io] n show ?thesis using assms(2,3)
    by (intro exI [of _ "fu\<lparr>fu_writtenbytes := fu_writtenbytes fu + int (if ?n = len then len else 0)\<rparr>"]
        exI [of _ "next_call (io\<lparr>io_streams := stream_add f (take ?n data) (io_streams io)\<rparr>)"] exI [of _ ?n])
      (simp add: FileUtil_append_def Let_def next_call_def min_def)
qed

section \<open>Rolling\<close>

text \<open>Files can be opened and take all that is written.\<close>

definition io_reliable :: "io_env \<Rightarrow> bool" where
  "io_reliable env \<longleftrightarrow> (\<forall>k name. io_fopen env k name) \<and> (\<forall>k n. fst (io_fwrite env k n) = n)"

lemma reliable_contract: "io_reliable env \<Longrightarrow> fwrite_contract env"
  by (simp add: io_reliable_def fwrite_contract_def)

text \<open>The log file is the stream opened last.\<close>

definition log_file_ok :: "LogFile \<times> stdio \<Rightarrow> bool" where
  "log_file_ok = (\<lambda>(lf, io). \<exists>fu f. lf_file lf = Some fu \<and> fu_file fu = Some f \<and> Suc f = length (io_streams io))"

text \<open>All the bytes logged, in the order of the files.\<close>

definition logged :: "LogFile \<times> stdio \<Rightarrow> string" where
  "logged = (\<lambda>(lf, io). concat (map snd (io_streams io)))"

lemma concat_stream_add:
  assumes "Suc f = length xs" shows "concat (map snd (stream_add f t xs)) = concat (map snd xs) @ t"
proof -
  have "xs \<noteq> []" using assms by auto
  then obtain ys y where xs: "xs = ys @ [y]" by (cases xs rule: rev_cases) auto
  then have "f = length ys" using assms by simp
  then show ?thesis by (simp add: xs stream_add_def list_update_append)
qed

lemma io_streams_simps [simp]:
  "io_streams (next_call io) = io_streams io" "io_calls (next_call io) = Suc (io_calls io)"
  "io_streams (fflush f io) = io_streams io" "io_calls (fflush f io) = io_calls io"
  "io_streams (destroy_FileUtil fu io) = io_streams io" "io_calls (destroy_FileUtil fu io) = io_calls io"
  "io_streams (FileUtil_flush fu io) = io_streams io" "io_calls (FileUtil_flush fu io) = io_calls io"
  by (simp_all add: next_call_def fflush_def destroy_FileUtil_def fclose_def FileUtil_flush_def split: option.split)

text \<open>Rolling starts an empty file, or is refused in the second of the last roll.\<close>

lemma rollFile_spec:
  assumes "io_reliable env" and "rollFile env (lf, io) = (r, lf', io')"
  shows "io_streams io' = io_streams io @ (if r then [(lf_basename lf @ strftime_name (io_localtime env (io_time env (io_calls io))) @ ''.log'', [])] else [])"
    and "r \<longleftrightarrow> lf_lastRoll lf < io_time env (io_calls io)"
    and "lf' = (if r then lf\<lparr>lf_lastRoll := io_time env (io_calls io), lf_lastFlush := io_time env (io_calls io),
        lf_startOfPeriod := period_start (io_time env (io_calls io)),
        lf_file := Some \<lparr>fu_file = Some (length (io_streams io)), fu_writtenbytes = 0\<rparr>\<rparr> else lf)"
    and "io_calls io' = (if r then io_calls io + 2 else io_calls io + 1)"
  using assms
  by (auto simp: rollFile_def getLogFileName_def time_NULL_def new_FileUtil_def fopen_def io_reliable_def Let_def
      split: if_splits option.splits)


text \<open>What an append leaves: the file is open, no byte is lost, and the policy on sizes and flushes holds.\<close>

lemma roll_if_needed_spec:
  assumes "io_reliable env" and "lf_file lf = Some fu" and "fu_file fu = Some f" and "Suc f = length (io_streams io)"
    and "0 \<le> lf_rollsize lf" and "roll_if_needed env now fu (lf, io) = (lf', io')"
  shows "log_file_ok (lf', io') \<and> logged (lf', io') = logged (lf, io) \<and> lf_rollsize lf' = lf_rollsize lf \<and>
    lf_flushInterval lf' = lf_flushInterval lf \<and>
    (\<exists>fu'. lf_file lf' = Some fu' \<and>
      (fu_writtenbytes fu' \<le> lf_rollsize lf \<or> io_time env (io_calls io' - 1) \<le> lf_lastRoll lf'))"
proof -
  have roll: "log_file_ok (lf', io') \<and> logged (lf', io') = logged (l, io) \<and> lf_rollsize lf' = lf_rollsize l \<and>
      lf_flushInterval lf' = lf_flushInterval l \<and>
      (\<exists>fu'. lf_file lf' = Some fu' \<and>
        (fu_writtenbytes fu' \<le> lf_rollsize l \<or> io_time env (io_calls io' - 1) \<le> lf_lastRoll lf'))"
    if "rollFile env (l, io) = (r, lf', io')" "lf_file l = Some fu" "lf_rollsize l = lf_rollsize lf" for l r
    using rollFile_spec [OF assms(1) that(1)] that(2,3) assms(3-5)
    by (cases r) (auto simp: log_file_ok_def logged_def)
  consider (size) "lf_rollsize lf < fu_writtenbytes fu"
    | (day) "\<not> lf_rollsize lf < fu_writtenbytes fu" "lf_checkEveryN lf \<le> lf_count lf" "period_start now \<noteq> lf_startOfPeriod lf"
    | (none) "\<not> lf_rollsize lf < fu_writtenbytes fu"
        "lf' = lf \<or> lf' = lf\<lparr>lf_count := 0\<rparr>" "io' = io"
    using assms(6) by (auto simp: roll_if_needed_def Let_def split: if_splits)
  then show ?thesis
  proof cases
    case size
    then show ?thesis using roll [of lf] assms(2,6)
      by (cases "rollFile env (lf, io)") (auto simp: roll_if_needed_def)
  next
    case day
    then show ?thesis using roll [of "lf\<lparr>lf_count := 0\<rparr>"] assms(2,6)
      by (cases "rollFile env (lf\<lparr>lf_count := 0\<rparr>, io)") (auto simp: roll_if_needed_def logged_def)
  next
    case none
    then show ?thesis using assms(2-4) by (auto simp: log_file_ok_def logged_def)
  qed
qed

lemma flush_if_needed_spec:
  assumes "log_file_ok (lf, io)" and "0 \<le> lf_flushInterval lf"
  shows "\<exists>lf' io'. flush_if_needed now (lf, io) = Inr (lf', io') \<and> log_file_ok (lf', io') \<and> logged (lf', io') = logged (lf, io) \<and>
    now - lf_lastFlush lf' \<le> lf_flushInterval lf \<and> lf_file lf' = lf_file lf \<and> lf_rollsize lf' = lf_rollsize lf \<and>
    lf_flushInterval lf' = lf_flushInterval lf \<and> lf_lastRoll lf' = lf_lastRoll lf \<and> io_calls io' = io_calls io"
  using assms by (auto simp: flush_if_needed_def LogFile_flush_def log_file_ok_def logged_def)

lemma LogFile_append_spec:
  assumes "io_reliable env" and "log_file_ok (lf, io)" and "0 \<le> lf_rollsize lf" and "0 \<le> lf_flushInterval lf"
    and "len \<le> length data" and "int len \<le> INT_MAX"
  shows "\<exists>lf' io' fu'. LogFile_append env data len (lf, io) = Some (Inr (lf', io')) \<and>
    log_file_ok (lf', io') \<and> logged (lf', io') = logged (lf, io) @ take len data \<and>
    lf_rollsize lf' = lf_rollsize lf \<and> lf_flushInterval lf' = lf_flushInterval lf \<and>
    lf_file lf' = Some fu' \<and>
    (fu_writtenbytes fu' \<le> lf_rollsize lf \<or> io_time env (io_calls io' - 1) \<le> lf_lastRoll lf')"
proof -
  obtain fu f where fu: "lf_file lf = Some fu" "fu_file fu = Some f" "Suc f = length (io_streams io)"
    using assms(2) by (auto simp: log_file_ok_def)
  obtain fu1 io1 k where a: "FileUtil_append env data len (fu, io) = Some (Inr (fu1, io1))" "k \<le> len" "fu_file fu1 = Some f"
    "io_streams io1 = stream_add f (take k data) (io_streams io)"
    "k = (if len = 0 then 0 else fst (io_fwrite env (io_calls io) len))"
    using FileUtil_append_ok [OF reliable_contract [OF assms(1)] fu(2) assms(5), of io] by blast
  have k: "k = len" using a(5) assms(1) by (simp add: io_reliable_def)
  let ?now = "io_time env (io_calls io1)"
  let ?lf1 = "lf\<lparr>lf_file := Some fu1, lf_count := lf_count lf + 1\<rparr>"
  obtain lf2 io2 where r: "roll_if_needed env ?now fu1 (?lf1, next_call io1) = (lf2, io2)" by fastforce
  have s: "log_file_ok (lf2, io2)" "logged (lf2, io2) = logged (?lf1, next_call io1)" "lf_rollsize lf2 = lf_rollsize lf"
    "lf_flushInterval lf2 = lf_flushInterval lf"
    "\<exists>fu'. lf_file lf2 = Some fu' \<and> (fu_writtenbytes fu' \<le> lf_rollsize lf \<or> io_time env (io_calls io2 - 1) \<le> lf_lastRoll lf2)"
    using roll_if_needed_spec [OF assms(1) _ a(3) _ _ r] a(4) fu(3) assms(3) by auto
  have "logged (?lf1, next_call io1) = logged (lf, io) @ take len data"
    using a(4) k concat_stream_add [OF fu(3)] by (simp add: logged_def)
  moreover have "LogFile_append env data len (lf, io) = Some (flush_if_needed ?now (lf2, io2))"
  proof -
    have "nat (to_size_t (to_int32 (int len))) = len" using assms(6) by (simp add: to_size_t_def to_int32_def INT_MAX_def)
    then show ?thesis using fu(1) a(1) r by (simp add: LogFile_append_def appendInlock_def time_NULL_def Let_def)
  qed
  moreover obtain lf3 io3 where "flush_if_needed ?now (lf2, io2) = Inr (lf3, io3)" "log_file_ok (lf3, io3)"
    "logged (lf3, io3) = logged (lf2, io2)" "lf_file lf3 = lf_file lf2" "lf_rollsize lf3 = lf_rollsize lf2"
    "lf_flushInterval lf3 = lf_flushInterval lf2" "lf_lastRoll lf3 = lf_lastRoll lf2" "io_calls io3 = io_calls io2"
    using flush_if_needed_spec [OF s(1)] s(4) assms(4) by metis
  ultimately show ?thesis using s by auto
qed


text \<open>Rolling loses nothing: while files can be opened and written, appending to the log returns without a fault,
  adds exactly the given bytes to what the log files hold in the order they were opened, and afterwards
  the open file is within the roll size or the clock has not moved since the last roll.\<close>

lemma log_file_append:
  assumes "io_reliable env" and "log_file_ok (lf, io)" and "0 \<le> lf_rollsize lf" and "0 \<le> lf_flushInterval lf"
    and "len \<le> length data" and "int len \<le> INT_MAX"
  shows "\<exists>lf' io' fu'. LogFile_append env data len (lf, io) = Some (Inr (lf', io')) \<and> log_file_ok (lf', io') \<and>
    concat (map snd (io_streams io')) = concat (map snd (io_streams io)) @ take len data \<and>
    lf_file lf' = Some fu' \<and>
    (fu_writtenbytes fu' \<le> lf_rollsize lf \<or> io_time env (io_calls io' - 1) \<le> lf_lastRoll lf')"
  using LogFile_append_spec [OF assms] by (auto simp: logged_def)

text \<open>An environment in which every call takes a second.\<close>

definition sample_io :: io_env where
  "sample_io = \<lparr>io_fopen = (\<lambda>_ _. True), io_fwrite = (\<lambda>_ n. (n, False)), io_time = (\<lambda>k. 1700000000 + int k),
     io_localtime = (\<lambda>_. \<lparr>tm_year = 123, tm_mon = 10, tm_mday = 14, tm_hour = 22, tm_min = 13, tm_sec = 20\<rparr>)\<rparr>"

definition empty_io :: stdio where
  "empty_io = \<lparr>io_calls = 0, io_streams = [], io_flushed = (\<lambda>_. [])\<rparr>"

lemma sample_io_reliable: "io_reliable sample_io"
  by (simp add: io_reliable_def sample_io_def)

lemma new_LogFile_ok:
  assumes "io_reliable env" and "0 < io_time env (io_calls io)"
    and "new_LogFile env basename rollsize flushInterval checkEveryN io = (lf, io')"
  shows "log_file_ok (lf, io')" and "logged (lf, io') = concat (map snd (io_streams io))"
    and "lf_rollsize lf = rollsize" and "lf_flushInterval lf = flushInterval"
proof -
  let ?lf = "\<lparr>lf_basename = basename, lf_rollsize = rollsize, lf_flushInterval = flushInterval, lf_checkEveryN = checkEveryN,
         lf_count = 0, lf_startOfPeriod = 0, lf_lastRoll = 0, lf_lastFlush = 0, lf_file = None\<rparr>"
  obtain r where r: "rollFile env (?lf, io) = (r, lf, io')"
    using assms(3) unfolding new_LogFile_def by (metis prod.collapse snd_conv)
  note spec = rollFile_spec [OF assms(1) r]
  have "r" using spec(2) assms(2) by simp
  with spec show "log_file_ok (lf, io')" "logged (lf, io') = concat (map snd (io_streams io))"
    "lf_rollsize lf = rollsize" "lf_flushInterval lf = flushInterval"
    by (simp_all add: log_file_ok_def logged_def)
qed

section \<open>The sink of the asynchronous logger\<close>

text \<open>What the logging thread needs of the place it writes to.\<close>

locale log_sink =
  fixes sink_ok :: "'s \<Rightarrow> bool"
    and sink_append :: "string \<Rightarrow> nat \<Rightarrow> 's \<Rightarrow> 's result option"
    and sink_flush :: "'s \<Rightarrow> 's result"
    and sink_logged :: "'s \<Rightarrow> string"
  assumes append: "sink_ok s \<Longrightarrow> len \<le> length data \<Longrightarrow> int len \<le> INT_MAX \<Longrightarrow>
      \<exists>s'. sink_append data len s = Some (Inr s') \<and> sink_ok s' \<and> sink_logged s' = sink_logged s @ take len data"
    and flush: "sink_ok s \<Longrightarrow> \<exists>s'. sink_flush s = Inr s' \<and> sink_ok s' \<and> sink_logged s' = sink_logged s"

text \<open>Log files are such a place.\<close>

definition sink_inv :: "io_env \<Rightarrow> LogFile \<times> stdio \<Rightarrow> bool" where
  "sink_inv env s \<longleftrightarrow> io_reliable env \<and> log_file_ok s \<and> 0 \<le> lf_rollsize (fst s) \<and> 0 \<le> lf_flushInterval (fst s)"

interpretation log_files: log_sink "sink_inv env" "LogFile_append env" LogFile_flush logged for env
proof
  fix s :: "LogFile \<times> stdio" and len and data :: string
  assume s: "sink_inv env s" "len \<le> length data" "int len \<le> INT_MAX"
  then show "\<exists>s'. LogFile_append env data len s = Some (Inr s') \<and> sink_inv env s' \<and> logged s' = logged s @ take len data"
    using LogFile_append_spec [of env "fst s" "snd s" len data] by (auto simp: sink_inv_def)
next
  fix s :: "LogFile \<times> stdio"
  assume "sink_inv env s"
  then show "\<exists>s'. LogFile_flush s = Inr s' \<and> sink_inv env s' \<and> logged s' = logged s"
    by (cases s) (auto simp: sink_inv_def log_file_ok_def LogFile_flush_def logged_def)
qed

end
