(* ===== verification/Async_Logging.thy ===== *)
theory Async_Logging
  imports Log_Stream Log_File
begin

text \<open>
  The asynchronous logger (\<^verbatim>\<open>include/AsyncLogging.h\<close>, \<^verbatim>\<open>log/AsyncLogging.cpp\<close>): threads append lines to the current
  buffer, and a thread of its own collects the buffers and writes them to the log files.  A unique pointer to a
  buffer is an optional buffer.  \<open>junk\<close> is what a newly allocated buffer holds, and its length the size of
  the buffers.  The calls under the mutex are single steps; the thread is a
  machine with a program counter, so that appends may come between any two of its steps.  A wait for the
  condition variable may end at any time, as its timeout allows.
\<close>

section \<open>The object\<close>

record AsyncLogging =
  al_alive :: bool
  al_running :: bool
  al_current :: "FixedBuffer option"
  al_next :: "FixedBuffer option"
  al_buffers :: "FixedBuffer option list"

definition new_LargeBuffer :: "string \<Rightarrow> FixedBuffer option" where
  "new_LargeBuffer junk = Some (fb_bzero (new_FixedBuffer junk))"

definition new_AsyncLogging :: "string \<Rightarrow> AsyncLogging" where
  "new_AsyncLogging junk =
     \<lparr>al_alive = True, al_running = False, al_current = new_LargeBuffer junk, al_next = new_LargeBuffer junk, al_buffers = []\<rparr>"

definition async_append :: "string \<Rightarrow> string \<Rightarrow> int \<Rightarrow> AsyncLogging \<Rightarrow> AsyncLogging result" where
  "async_append junk logline len a =
     (case al_current a of
        None \<Rightarrow> Inl NullPointer
      | Some cur \<Rightarrow>
          if len < fb_avail cur
          then bind_result (fb_append logline (nat (to_size_t len)) cur) (\<lambda>b. Inr (a\<lparr>al_current := Some b\<rparr>))
          else let fresh = (case al_next a of Some nxt \<Rightarrow> nxt | None \<Rightarrow> new_FixedBuffer junk)
               in bind_result (fb_append logline (nat (to_size_t len)) fresh) (\<lambda>b.
                    Inr (a\<lparr>al_buffers := al_buffers a @ [al_current a], al_current := Some b, al_next := None\<rparr>)))"

definition async_stop :: "AsyncLogging \<Rightarrow> AsyncLogging" where
  "async_stop a = a\<lparr>al_running := False\<rparr>"

text \<open>The destructor; that of \<^verbatim>\<open>thread_\<close> detaches the thread.\<close>

definition destroy_AsyncLogging :: "AsyncLogging \<Rightarrow> AsyncLogging" where
  "destroy_AsyncLogging a = (if al_running a then async_stop a else a)\<lparr>al_alive := False\<rparr>"

section \<open>The thread\<close>

text \<open>Where the thread is: the test of the loop, the lock, the wait, the writing of the buffers, their reuse, the end.\<close>

datatype back_pc = PTest | PLock | PWaiting | PWrite | PRecycle | PDone

record Backend =
  be_pc :: back_pc
  be_newBuffer1 :: "FixedBuffer option"
  be_newBuffer2 :: "FixedBuffer option"
  be_toWrite :: "FixedBuffer option list"
  be_output :: "LogFile \<times> stdio"

text \<open>\<^verbatim>\<open>start\<close>, with the declarations at the head of \<^verbatim>\<open>threadFunc\<close>, which touch nothing of the object but its constants.\<close>

definition async_start :: "io_env \<Rightarrow> string \<Rightarrow> string \<Rightarrow> int \<Rightarrow> int \<Rightarrow> stdio \<Rightarrow> AsyncLogging \<Rightarrow> AsyncLogging \<times> Backend" where
  "async_start env junk basename rollSize flushInterval io a =
     (a\<lparr>al_running := True\<rparr>,
      \<lparr>be_pc = PTest, be_newBuffer1 = new_LargeBuffer junk, be_newBuffer2 = new_LargeBuffer junk, be_toWrite = [],
       be_output = new_LogFile env basename rollSize flushInterval 1024 io\<rparr>)"

text \<open>The block under the lock, after the wait.\<close>

definition collect :: "AsyncLogging \<times> Backend \<Rightarrow> AsyncLogging \<times> Backend" where
  "collect = (\<lambda>(a, b).
     (a\<lparr>al_buffers := be_toWrite b,
        al_current := be_newBuffer1 b,
        al_next := (if al_next a = None then be_newBuffer2 b else al_next a)\<rparr>,
      b\<lparr>be_pc := PWrite,
        be_toWrite := al_buffers a @ [al_current a],
        be_newBuffer1 := None,
        be_newBuffer2 := (if al_next a = None then None else be_newBuffer2 b)\<rparr>))"

primrec write_buffers ::
    "(string \<Rightarrow> nat \<Rightarrow> 's \<Rightarrow> 's result option) \<Rightarrow> FixedBuffer option list \<Rightarrow> 's \<Rightarrow> 's result option" where
  "write_buffers app [] s = Some (Inr s)"
| "write_buffers app (p # ps) s =
     (case p of
        None \<Rightarrow> Some (Inl NullPointer)
      | Some buffer \<Rightarrow> Option.bind (app (fb_data buffer) (fb_cur buffer) s) (\<lambda>r.
          case r of Inl e \<Rightarrow> Some (Inl e) | Inr s1 \<Rightarrow> write_buffers app ps s1))"

text \<open>\<^verbatim>\<open>newBuffer = std::move(buffersToWrite.back())\<close>, \<^verbatim>\<open>pop_back\<close> and \<^verbatim>\<open>reset\<close>, when the pointer is null.\<close>

definition refill :: "FixedBuffer option \<Rightarrow> FixedBuffer option list \<Rightarrow> (FixedBuffer option \<times> FixedBuffer option list) result" where
  "refill nb bufs =
     (if nb \<noteq> None then Inr (nb, bufs)
      else if bufs = [] then Inl EmptyContainer
      else case last bufs of None \<Rightarrow> Inl NullPointer | Some b \<Rightarrow> Inr (Some (fb_reset b), butlast bufs))"

definition recycle :: "Backend \<Rightarrow> Backend result" where
  "recycle b =
     (let bufs = (if 2 < length (be_toWrite b) then take 2 (be_toWrite b) else be_toWrite b)
      in bind_result (refill (be_newBuffer1 b) bufs) (\<lambda>(nb1, bufs1).
         bind_result (refill (be_newBuffer2 b) bufs1) (\<lambda>(nb2, bufs2).
         bind_result (LogFile_flush (be_output b)) (\<lambda>out.
         Inr (b\<lparr>be_pc := PTest, be_newBuffer1 := nb1, be_newBuffer2 := nb2, be_toWrite := [], be_output := out\<rparr>)))))"

text \<open>A step of the thread.  Reading \<^verbatim>\<open>running_\<close> or the buffers of a destroyed object is a fault.\<close>

definition back_step :: "io_env \<Rightarrow> AsyncLogging \<times> Backend \<Rightarrow> (AsyncLogging \<times> Backend) result option" where
  "back_step env = (\<lambda>(a, b).
     case be_pc b of
       PTest \<Rightarrow>
         Some (if \<not> al_alive a then Inl UseAfterFree
               else if al_running a then Inr (a, b\<lparr>be_pc := PLock\<rparr>)
               else bind_result (LogFile_flush (be_output b)) (\<lambda>out. Inr (a, b\<lparr>be_pc := PDone, be_output := out\<rparr>)))
     | PLock \<Rightarrow>
         Some (if \<not> al_alive a then Inl UseAfterFree
               else if al_buffers a = [] then Inr (a, b\<lparr>be_pc := PWaiting\<rparr>)
               else Inr (collect (a, b)))
     | PWaiting \<Rightarrow> Some (if \<not> al_alive a then Inl UseAfterFree else Inr (collect (a, b)))
     | PWrite \<Rightarrow>
         Option.bind (write_buffers (LogFile_append env) (be_toWrite b) (be_output b)) (\<lambda>r.
           Some (bind_result r (\<lambda>out. Inr (a, b\<lparr>be_pc := PRecycle, be_output := out\<rparr>))))
     | PRecycle \<Rightarrow> Some (bind_result (recycle b) (\<lambda>b1. Inr (a, b1)))
     | PDone \<Rightarrow> Some (Inr (a, b)))"

section \<open>Interleavings\<close>

datatype log_event = Append string | Stop | Destroy | Back

definition log_step :: "io_env \<Rightarrow> string \<Rightarrow> log_event \<Rightarrow> AsyncLogging \<times> Backend \<Rightarrow> (AsyncLogging \<times> Backend) result option" where
  "log_step env junk e = (\<lambda>(a, b).
     case e of
       Append logline \<Rightarrow> Some (bind_result (async_append junk logline (int (length logline)) a) (\<lambda>a1. Inr (a1, b)))
     | Stop \<Rightarrow> Some (Inr (async_stop a, b))
     | Destroy \<Rightarrow> Some (Inr (destroy_AsyncLogging a, b))
     | Back \<Rightarrow> back_step env (a, b))"

primrec log_run :: "io_env \<Rightarrow> string \<Rightarrow> log_event list \<Rightarrow> AsyncLogging \<times> Backend \<Rightarrow> (AsyncLogging \<times> Backend) result option" where
  "log_run env junk [] s = Some (Inr s)"
| "log_run env junk (e # es) s =
     Option.bind (log_step env junk e s) (\<lambda>r. case r of Inl x \<Rightarrow> Some (Inl x) | Inr s1 \<Rightarrow> log_run env junk es s1)"


section \<open>The invariant\<close>

definition buf_ok :: "nat \<Rightarrow> FixedBuffer option \<Rightarrow> bool" where
  "buf_ok n p \<longleftrightarrow> (\<exists>b. p = Some b \<and> fb_ok b \<and> length (fb_data b) = n)"

definition fresh_ok :: "nat \<Rightarrow> FixedBuffer option \<Rightarrow> bool" where
  "fresh_ok n p \<longleftrightarrow> (\<exists>b. p = Some b \<and> fb_cur b = 0 \<and> length (fb_data b) = n)"

definition buf_text :: "FixedBuffer option \<Rightarrow> string" where
  "buf_text p = (case p of Some b \<Rightarrow> fb_toString b | None \<Rightarrow> [])"

text \<open>The lines that were appended and not yet written.\<close>

definition front_text :: "AsyncLogging \<Rightarrow> string" where
  "front_text a = concat (map buf_text (al_buffers a)) @ buf_text (al_current a)"

definition unwritten :: "AsyncLogging \<times> Backend \<Rightarrow> string" where
  "unwritten = (\<lambda>(a, b). (if be_pc b = PWrite then concat (map buf_text (be_toWrite b)) else []) @ front_text a)"

definition front_inv :: "nat \<Rightarrow> AsyncLogging \<Rightarrow> bool" where
  "front_inv n a \<longleftrightarrow>
     buf_ok n (al_current a) \<and> (\<forall>p \<in> set (al_buffers a). buf_ok n p) \<and>
     (if al_next a = None then al_buffers a \<noteq> [] else fresh_ok n (al_next a))"

definition busy :: "back_pc \<Rightarrow> bool" where
  "busy pc \<longleftrightarrow> pc = PWrite \<or> pc = PRecycle"

definition back_inv :: "io_env \<Rightarrow> nat \<Rightarrow> Backend \<Rightarrow> bool" where
  "back_inv env n b \<longleftrightarrow>
     sink_inv env (be_output b) \<and> (be_newBuffer2 b \<noteq> None \<longrightarrow> fresh_ok n (be_newBuffer2 b)) \<and>
     (if busy (be_pc b)
      then be_newBuffer1 b = None \<and> be_toWrite b \<noteq> [] \<and> (\<forall>p \<in> set (be_toWrite b). buf_ok n p) \<and>
        (be_newBuffer2 b = None \<longrightarrow> 2 \<le> length (be_toWrite b))
      else fresh_ok n (be_newBuffer1 b) \<and> be_newBuffer2 b \<noteq> None \<and> be_toWrite b = [])"

lemma fresh_buf_ok: "fresh_ok n p \<Longrightarrow> buf_ok n p"
  by (auto simp: fresh_ok_def buf_ok_def fb_ok_def)

lemma fresh_text: "fresh_ok n p \<Longrightarrow> buf_text p = []"
  by (auto simp: fresh_ok_def buf_text_def fb_toString_def)

lemma fresh_new:
  "fresh_ok (length junk) (new_LargeBuffer junk)" "fresh_ok (length junk) (Some (new_FixedBuffer junk))"
  by (simp_all add: fresh_ok_def new_LargeBuffer_def new_FixedBuffer_def fb_bzero_def)

text \<open>A line goes into a buffer that has room for it.\<close>

lemma append_to_buffer:
  assumes "buf_ok n (Some b)" and "int (length l) < fb_avail b" and "n \<le> nat INT_MAX"
  shows "\<exists>b'. fb_append l (nat (to_size_t (int (length l)))) b = Inr b' \<and> buf_ok n (Some b') \<and>
    buf_text (Some b') = buf_text (Some b) @ l"
proof -
  have b: "fb_ok b" "length (fb_data b) = n" using assms(1) by (auto simp: buf_ok_def)
  have l: "fb_cur b + length l < n" using assms(2) b by (simp add: fb_avail_def fb_length_def)
  then have i: "int (length l) \<le> INT_MAX" "nat (to_size_t (int (length l))) = length l"
    using assms(3) by (simp_all add: INT_MAX_def to_size_t_def)
  show ?thesis using fb_append_ok [OF b(1) le_refl i(1)] l b(2) unfolding i(2)
    by (auto simp: buf_ok_def buf_text_def)
qed

lemma async_append_ok:
  assumes "front_inv (length junk) a" and "length l < length junk" and "length junk \<le> nat INT_MAX"
  shows "\<exists>a'. async_append junk l (int (length l)) a = Inr a' \<and> front_inv (length junk) a' \<and>
    front_text a' = front_text a @ l \<and> al_alive a' = al_alive a \<and> al_running a' = al_running a"
proof -
  let ?n = "length junk"
  obtain cur where cur: "al_current a = Some cur" "buf_ok ?n (Some cur)" using assms(1) by (auto simp: front_inv_def buf_ok_def)
  show ?thesis
  proof (cases "int (length l) < fb_avail cur")
    case True
    from append_to_buffer [OF cur(2) True assms(3)] assms(1) cur(1) True show ?thesis
      by (auto simp: async_append_def front_inv_def front_text_def)
  next
    case False
    define fresh where "fresh = (case al_next a of Some nxt \<Rightarrow> nxt | None \<Rightarrow> new_FixedBuffer junk)"
    have f: "fresh_ok ?n (Some fresh)"
      using assms(1) fresh_new(2) [of junk] by (cases "al_next a") (auto simp: fresh_def front_inv_def)
    then have "int (length l) < fb_avail fresh" using assms(2) by (auto simp: fresh_ok_def fb_avail_def fb_length_def)
    from append_to_buffer [OF fresh_buf_ok [OF f] this assms(3)] obtain b' where
      b': "fb_append l (nat (to_size_t (int (length l)))) fresh = Inr b'" "buf_ok ?n (Some b')" "buf_text (Some b') = l"
      using fresh_text [OF f] by auto
    then have "async_append junk l (int (length l)) a =
        Inr (a\<lparr>al_buffers := al_buffers a @ [al_current a], al_current := Some b', al_next := None\<rparr>)"
      using cur(1) False by (simp add: async_append_def fresh_def)
    then show ?thesis using assms(1) b'(2,3) by (auto simp: front_inv_def front_text_def)
  qed
qed

text \<open>Collecting hands over everything in order and leaves fresh buffers; at least two buffers are handed over
  when both spare buffers are used up.\<close>

lemma collect_ok:
  assumes "front_inv n a" and "back_inv env n b" and "\<not> busy (be_pc b)"
  shows "front_inv n (fst (collect (a, b))) \<and> back_inv env n (snd (collect (a, b))) \<and>
    unwritten (collect (a, b)) = front_text a \<and> front_text (fst (collect (a, b))) = [] \<and>
    be_pc (snd (collect (a, b))) = PWrite \<and> be_output (snd (collect (a, b))) = be_output b \<and>
    al_alive (fst (collect (a, b))) = al_alive a \<and> al_running (fst (collect (a, b))) = al_running a"
proof -
  have b: "fresh_ok n (be_newBuffer1 b)" "fresh_ok n (be_newBuffer2 b)" "be_toWrite b = []" "be_newBuffer2 b \<noteq> None"
    "sink_inv env (be_output b)"
    using assms(2,3) by (auto simp: back_inv_def)
  show ?thesis
    using assms(1) b fresh_buf_ok [OF b(1)] fresh_text [OF b(1)]
    by (auto simp: collect_def front_inv_def back_inv_def busy_def unwritten_def front_text_def
        Suc_le_eq split: if_splits)
qed


section \<open>Writing\<close>

context log_sink
begin

text \<open>Buffers are written one after the other.\<close>

lemma write_buffers_ok:
  assumes "sink_ok s" and "\<forall>p \<in> set ps. buf_ok n p" and "n \<le> nat INT_MAX"
  shows "\<exists>s'. write_buffers sink_append ps s = Some (Inr s') \<and> sink_ok s' \<and>
    sink_logged s' = sink_logged s @ concat (map buf_text ps)"
  using assms(1,2)
proof (induction ps arbitrary: s)
  case (Cons p ps)
  obtain b where b: "p = Some b" "fb_cur b \<le> length (fb_data b)" "length (fb_data b) = n"
    using Cons.prems(2) by (auto simp: buf_ok_def fb_ok_def)
  then have "int (fb_cur b) \<le> INT_MAX" using assms(3) by (simp add: INT_MAX_def)
  from append [OF Cons.prems(1) b(2) this] obtain s1 where
    s1: "sink_append (fb_data b) (fb_cur b) s = Some (Inr s1)" "sink_ok s1"
      "sink_logged s1 = sink_logged s @ take (fb_cur b) (fb_data b)" by blast
  from Cons.IH [OF s1(2)] Cons.prems(2) s1 b(1) show ?case by (auto simp: buf_text_def fb_toString_def)
qed simp

end

lemma refill_ok:
  assumes "\<forall>p \<in> set bufs. buf_ok n p" and "nb \<noteq> None \<longrightarrow> fresh_ok n nb" and "nb = None \<longrightarrow> bufs \<noteq> []"
  shows "\<exists>nb' bufs'. refill nb bufs = Inr (nb', bufs') \<and> fresh_ok n nb' \<and> (\<forall>p \<in> set bufs'. buf_ok n p) \<and>
    length bufs' = (if nb = None then length bufs - 1 else length bufs)"
proof (cases nb)
  case None
  then have "last bufs \<in> set bufs" using assms(3) by simp
  with assms(1) obtain b where b: "last bufs = Some b" "length (fb_data b) = n" by (auto simp: buf_ok_def)
  then show ?thesis using None assms
    by (auto simp: refill_def fresh_ok_def fb_reset_def dest: in_set_butlastD)
next
  case (Some b)
  then show ?thesis using assms by (auto simp: refill_def)
qed

text \<open>The thread never runs out of buffers to reuse.\<close>

lemma recycle_ok:
  assumes "back_inv env n b" and "be_pc b = PRecycle"
  shows "\<exists>b'. recycle b = Inr b' \<and> back_inv env n b' \<and> be_pc b' = PTest \<and> logged (be_output b') = logged (be_output b)"
proof -
  have i: "be_newBuffer1 b = None" "be_toWrite b \<noteq> []" "\<forall>p \<in> set (be_toWrite b). buf_ok n p"
    "be_newBuffer2 b = None \<longrightarrow> 2 \<le> length (be_toWrite b)" "be_newBuffer2 b \<noteq> None \<longrightarrow> fresh_ok n (be_newBuffer2 b)"
    "sink_inv env (be_output b)"
    using assms by (auto simp: back_inv_def busy_def)
  let ?bufs = "if 2 < length (be_toWrite b) then take 2 (be_toWrite b) else be_toWrite b"
  have bufs: "\<forall>p \<in> set ?bufs. buf_ok n p" "?bufs \<noteq> []" "be_newBuffer2 b = None \<longrightarrow> length ?bufs = 2"
    using i(2-4) by (auto dest: in_set_takeD)
  obtain nb1 bufs1 where r1: "refill (be_newBuffer1 b) ?bufs = Inr (nb1, bufs1)" "fresh_ok n nb1" "\<forall>p \<in> set bufs1. buf_ok n p"
    "length bufs1 = length ?bufs - 1"
    using refill_ok [OF bufs(1), of "be_newBuffer1 b"] bufs(2) i(1) by auto
  have "be_newBuffer2 b = None \<longrightarrow> bufs1 \<noteq> []" using r1(4) bufs(3) by auto
  from refill_ok [OF r1(3) i(5) this] obtain nb2 bufs2 where
    r2: "refill (be_newBuffer2 b) bufs1 = Inr (nb2, bufs2)" "fresh_ok n nb2" by blast
  obtain out where o: "LogFile_flush (be_output b) = Inr out" "sink_inv env out" "logged out = logged (be_output b)"
    using log_files.flush [OF i(6)] by blast
  have "recycle b = Inr (b\<lparr>be_pc := PTest, be_newBuffer1 := nb1, be_newBuffer2 := nb2, be_toWrite := [], be_output := out\<rparr>)"
    using r1(1) r2(1) o(1) by (simp add: recycle_def Let_def)
  then show ?thesis using r1(2) r2(2) o by (auto simp: back_inv_def busy_def fresh_ok_def)
qed

definition async_inv :: "io_env \<Rightarrow> nat \<Rightarrow> AsyncLogging \<times> Backend \<Rightarrow> bool" where
  "async_inv env n = (\<lambda>(a, b). al_alive a \<and> front_inv n a \<and> back_inv env n b)"

text \<open>What was written and what is pending, in this order.\<close>

definition trail :: "AsyncLogging \<times> Backend \<Rightarrow> string" where
  "trail s = logged (be_output (snd s)) @ unwritten s"

lemma back_inv_output:
  "back_inv env n b \<Longrightarrow> sink_inv env out \<Longrightarrow> busy pc = busy (be_pc b) \<Longrightarrow> back_inv env n (b\<lparr>be_pc := pc, be_output := out\<rparr>)"
  by (simp add: back_inv_def)

lemma back_inv_pc: "back_inv env n b \<Longrightarrow> busy pc = busy (be_pc b) \<Longrightarrow> back_inv env n (b\<lparr>be_pc := pc\<rparr>)"
  by (simp add: back_inv_def)

text \<open>The order of the program counters.\<close>

fun next_pc :: "bool \<Rightarrow> bool \<Rightarrow> back_pc \<Rightarrow> back_pc" where
  "next_pc running full PTest = (if running then PLock else PDone)"
| "next_pc running full PLock = (if full then PWrite else PWaiting)"
| "next_pc running full PWaiting = PWrite"
| "next_pc running full PWrite = PRecycle"
| "next_pc running full PRecycle = PTest"
| "next_pc running full PDone = PDone"

lemma back_step_ok:
  assumes "async_inv env n (a, b)" and "n \<le> nat INT_MAX"
  shows "\<exists>a' b'. back_step env (a, b) = Some (Inr (a', b')) \<and> async_inv env n (a', b') \<and>
    trail (a', b') = trail (a, b) \<and> al_running a' = al_running a \<and>
    be_pc b' = next_pc (al_running a) (al_buffers a \<noteq> []) (be_pc b) \<and>
    (if be_pc b' = PWrite then front_text a' = [] else a' = a)"
proof -
  have i: "al_alive a" "front_inv n a" "back_inv env n b" using assms(1) by (auto simp: async_inv_def)
  have out: "sink_inv env (be_output b)" using i(3) by (simp add: back_inv_def)
  have flush: "\<exists>out. LogFile_flush (be_output b) = Inr out \<and> sink_inv env out \<and> logged out = logged (be_output b)"
    using log_files.flush [OF out] by blast
  note collected = collect_ok [OF i(2,3)]
  show ?thesis
  proof (cases "be_pc b")
    case PTest
    obtain out where o: "LogFile_flush (be_output b) = Inr out" "sink_inv env out" "logged out = logged (be_output b)"
      using flush by blast
    show ?thesis
    proof (cases "al_running a")
      case True
      then show ?thesis using PTest i back_inv_pc [OF i(3), of PLock]
        by (simp add: back_step_def async_inv_def trail_def unwritten_def busy_def)
    next
      case False
      then show ?thesis using PTest i o back_inv_output [OF i(3) o(2), of PDone]
        by (intro exI [of _ a] exI [of _ "b\<lparr>be_pc := PDone, be_output := out\<rparr>"])
          (simp add: back_step_def async_inv_def trail_def unwritten_def busy_def)
    qed
  next
    case PLock
    then show ?thesis using i collected back_inv_pc [OF i(3), of PWaiting]
      by (cases "collect (a, b)") (auto simp: back_step_def async_inv_def trail_def unwritten_def busy_def)
  next
    case PWaiting
    then show ?thesis using i collected
      by (cases "collect (a, b)") (auto simp: back_step_def async_inv_def trail_def unwritten_def busy_def)
  next
    case PWrite
    then have "\<forall>p \<in> set (be_toWrite b). buf_ok n p" using i(3) by (simp add: back_inv_def busy_def)
    from log_files.write_buffers_ok [OF out this assms(2)] obtain out' where
      w: "write_buffers (LogFile_append env) (be_toWrite b) (be_output b) = Some (Inr out')" "sink_inv env out'"
      "logged out' = logged (be_output b) @ concat (map buf_text (be_toWrite b))" by blast
    then show ?thesis using i PWrite back_inv_output [OF i(3) w(2), of PRecycle]
      by (auto simp: back_step_def async_inv_def trail_def unwritten_def busy_def)
  next
    case PRecycle
    with recycle_ok [OF i(3)] obtain b' where b': "recycle b = Inr b'" "back_inv env n b'" "be_pc b' = PTest"
      "logged (be_output b') = logged (be_output b)" by blast
    then show ?thesis using i PRecycle
      by (intro exI [of _ a] exI [of _ b']) (simp add: back_step_def async_inv_def trail_def unwritten_def)
  next
    case PDone
    then show ?thesis using i by (auto simp: back_step_def async_inv_def)
  qed
qed


section \<open>Runs\<close>

fun event_text :: "log_event \<Rightarrow> string" where
  "event_text (Append l) = l"
| "event_text e = []"

fun event_ok :: "nat \<Rightarrow> log_event \<Rightarrow> bool" where
  "event_ok n (Append l) \<longleftrightarrow> length l < n"
| "event_ok n Destroy \<longleftrightarrow> False"
| "event_ok n e \<longleftrightarrow> True"

lemma log_step_ok:
  assumes "async_inv env (length junk) s" and "length junk \<le> nat INT_MAX" and "event_ok (length junk) e"
  shows "\<exists>s'. log_step env junk e s = Some (Inr s') \<and> async_inv env (length junk) s' \<and> trail s' = trail s @ event_text e"
proof (cases s)
  case (Pair a b)
  have i: "al_alive a" "front_inv (length junk) a" "back_inv env (length junk) b" using assms(1) Pair by (auto simp: async_inv_def)
  show ?thesis
  proof (cases e)
    case (Append l)
    with async_append_ok [OF i(2) _ assms(2), of l] assms(3) obtain a' where
      "async_append junk l (int (length l)) a = Inr a'" "front_inv (length junk) a'" "front_text a' = front_text a @ l"
      "al_alive a' = al_alive a" by auto
    then show ?thesis using i Append Pair
      by (intro exI [of _ "(a', b)"]) (simp add: log_step_def async_inv_def trail_def unwritten_def)
  next
    case Back
    then show ?thesis using back_step_ok [OF assms(1) [unfolded Pair] assms(2)] Pair by (auto simp: log_step_def)
  qed (use assms(1,3) Pair in \<open>auto simp: log_step_def async_stop_def async_inv_def front_inv_def trail_def unwritten_def front_text_def\<close>)
qed

lemma log_run_ok:
  assumes "async_inv env (length junk) s" and "length junk \<le> nat INT_MAX" and "\<forall>e \<in> set es. event_ok (length junk) e"
  shows "\<exists>s'. log_run env junk es s = Some (Inr s') \<and> async_inv env (length junk) s' \<and>
    trail s' = trail s @ concat (map event_text es)"
  using assms(1,3)
proof (induction es arbitrary: s)
  case (Cons e es)
  obtain s1 where s1: "log_step env junk e s = Some (Inr s1)" "async_inv env (length junk) s1" "trail s1 = trail s @ event_text e"
    using log_step_ok [OF Cons.prems(1) assms(2), of e] Cons.prems(2) by fastforce
  from Cons.IH [OF s1(2)] Cons.prems(2) s1 show ?case by auto
qed simp

text \<open>A started logger.\<close>

definition started :: "io_env \<Rightarrow> string \<Rightarrow> string \<Rightarrow> int \<Rightarrow> int \<Rightarrow> stdio \<Rightarrow> AsyncLogging \<times> Backend" where
  "started env junk basename rollSize flushInterval io =
     async_start env junk basename rollSize flushInterval io (new_AsyncLogging junk)"

definition logger_env :: "io_env \<Rightarrow> string \<Rightarrow> int \<Rightarrow> int \<Rightarrow> stdio \<Rightarrow> bool" where
  "logger_env env junk rollSize flushInterval io \<longleftrightarrow>
     io_reliable env \<and> 0 < io_time env (io_calls io) \<and> io_streams io = [] \<and> 0 \<le> rollSize \<and> 0 \<le> flushInterval \<and>
     length junk = kLargeBuffer"

lemma started_ok:
  assumes "logger_env env junk rollSize flushInterval io"
  shows "async_inv env (length junk) (started env junk basename rollSize flushInterval io)"
    and "trail (started env junk basename rollSize flushInterval io) = []"
    and "length junk \<le> nat INT_MAX"
proof -
  obtain lf io' where l: "new_LogFile env basename rollSize flushInterval 1024 io = (lf, io')" by fastforce
  have e: "io_reliable env" "0 < io_time env (io_calls io)" using assms by (auto simp: logger_env_def)
  note n = new_LogFile_ok [OF e l]
  have "sink_inv env (lf, io')" using n assms by (simp add: sink_inv_def logger_env_def)
  then show "async_inv env (length junk) (started env junk basename rollSize flushInterval io)"
    using fresh_new [of junk] fresh_buf_ok
    by (auto simp: started_def async_start_def new_AsyncLogging_def async_inv_def front_inv_def back_inv_def busy_def l new_LargeBuffer_def)
  show "trail (started env junk basename rollSize flushInterval io) = []"
    using n(2) assms fresh_text [OF fresh_new(1), of junk]
    by (simp add: started_def async_start_def new_AsyncLogging_def trail_def unwritten_def front_text_def l logger_env_def)
  show "length junk \<le> nat INT_MAX" using assms by (simp add: logger_env_def kLargeBuffer_def INT_MAX_def)
qed

lemma log_run_append:
  "log_run env junk es s = Some (Inr s1) \<Longrightarrow> log_run env junk (es @ fs) s = log_run env junk fs s1"
proof (induction es arbitrary: s)
  case (Cons e es)
  then show ?case by (cases "log_step env junk e s") (auto split: sum.splits)
qed simp

text \<open>A thread that is left alone writes all that is pending.\<close>

definition drained :: "io_env \<Rightarrow> string \<Rightarrow> nat \<Rightarrow> AsyncLogging \<times> Backend \<Rightarrow> bool" where
  "drained env junk k s \<longleftrightarrow>
     (\<exists>j \<le> k. \<exists>s'. log_run env junk (replicate j Back) s = Some (Inr s') \<and> unwritten s' = [] \<and> trail s' = trail s)"

lemma drained_step:
  assumes "back_step env s = Some (Inr s1)" and "trail s1 = trail s" and "drained env junk k s1"
  shows "drained env junk (Suc k) s"
proof -
  obtain j s' where "j \<le> k" "log_run env junk (replicate j Back) s1 = Some (Inr s')" "unwritten s' = []" "trail s' = trail s1"
    using assms(3) by (auto simp: drained_def)
  then show ?thesis using assms(1,2) unfolding drained_def
    by (intro exI [of _ "Suc j"]) (auto simp: log_step_def split_beta)
qed

lemma drained_mono: "drained env junk k s \<Longrightarrow> k \<le> l \<Longrightarrow> drained env junk l s"
  unfolding drained_def by (meson le_trans)

lemma drained_by_step:
  assumes "async_inv env (length junk) (a, b)" and "length junk \<le> nat INT_MAX"
    and "\<And>a' b'. async_inv env (length junk) (a', b') \<Longrightarrow> al_running a' = al_running a \<Longrightarrow>
      be_pc b' = next_pc (al_running a) (al_buffers a \<noteq> []) (be_pc b) \<Longrightarrow>
      (be_pc b' = PWrite \<Longrightarrow> front_text a' = []) \<Longrightarrow> (be_pc b' \<noteq> PWrite \<Longrightarrow> a' = a) \<Longrightarrow> drained env junk k (a', b')"
  shows "drained env junk (Suc k) (a, b)"
proof -
  obtain a' b' where s: "back_step env (a, b) = Some (Inr (a', b'))" "async_inv env (length junk) (a', b')"
    "trail (a', b') = trail (a, b)" "al_running a' = al_running a"
    "be_pc b' = next_pc (al_running a) (al_buffers a \<noteq> []) (be_pc b)"
    "if be_pc b' = PWrite then front_text a' = [] else a' = a"
    using back_step_ok [OF assms(1,2)] by blast
  have "drained env junk k (a', b')" by (rule assms(3)) (use s in \<open>auto split: if_splits\<close>)
  then show ?thesis by (rule drained_step [OF s(1,3)])
qed

lemma drained_write:
  assumes "async_inv env (length junk) (a, b)" and "length junk \<le> nat INT_MAX" and "be_pc b = PWrite" and "front_text a = []"
  shows "drained env junk 1 (a, b)"
proof -
  have "drained env junk (Suc 0) (a, b)"
  proof (rule drained_by_step [OF assms(1,2)])
    fix a' and b' :: Backend
    assume "be_pc b' = next_pc (al_running a) (al_buffers a \<noteq> []) (be_pc b)" and e: "be_pc b' \<noteq> PWrite \<Longrightarrow> a' = a"
    then have "be_pc b' = PRecycle" using assms(3) by simp
    with e assms(4) show "drained env junk 0 (a', b')" by (simp add: drained_def unwritten_def)
  qed
  then show ?thesis by simp
qed

lemma drained_idle:
  assumes "async_inv env (length junk) (a, b)" and "length junk \<le> nat INT_MAX" and "al_running a"
  shows "be_pc b = PWaiting \<Longrightarrow> drained env junk 2 (a, b)" and "be_pc b = PLock \<Longrightarrow> drained env junk 3 (a, b)"
    and "be_pc b = PTest \<Longrightarrow> drained env junk 4 (a, b)"
proof -
  have w: "drained env junk 2 (a, b)" if "async_inv env (length junk) (a, b)" "al_running a" "be_pc b = PWaiting" for a b
    using drained_by_step [OF that(1) assms(2), of 1] drained_write [OF _ assms(2)] that by (simp add: numeral_2_eq_2)
  have l: "drained env junk 3 (a, b)" if "async_inv env (length junk) (a, b)" "al_running a" "be_pc b = PLock" for a b
  proof -
    have d: "drained env junk 2 (a', b')"
      if "async_inv env (length junk) (a', b')" "be_pc b' = PWrite" "front_text a' = []" for a' b'
      by (rule drained_mono [OF drained_write [OF that(1) assms(2) that(2,3)]]) simp
    have "drained env junk (Suc 2) (a, b)"
      by (rule drained_by_step [OF that(1) assms(2)])
        (use that w d in \<open>auto split: if_splits\<close>)
    then show ?thesis by simp
  qed
  show "be_pc b = PWaiting \<Longrightarrow> drained env junk 2 (a, b)" "be_pc b = PLock \<Longrightarrow> drained env junk 3 (a, b)"
    using w l assms by blast+
  show "drained env junk 4 (a, b)" if "be_pc b = PTest"
  proof -
    have "drained env junk (Suc 3) (a, b)"
      by (rule drained_by_step [OF assms(1,2)]) (use that assms(3) l in auto)
    then show ?thesis by simp
  qed
qed

lemma drained_running:
  assumes "async_inv env (length junk) (a, b)" and "length junk \<le> nat INT_MAX" and "al_running a" and "be_pc b \<noteq> PDone"
  shows "drained env junk 6 (a, b)"
proof -
  have r: "drained env junk 5 (a, b)" if "async_inv env (length junk) (a, b)" "al_running a" "be_pc b = PRecycle" for a b
  proof -
    have "drained env junk (Suc 4) (a, b)"
      by (rule drained_by_step [OF that(1) assms(2)]) (use that drained_idle(3) [OF _ assms(2)] in auto)
    then show ?thesis by simp
  qed
  have "drained env junk (Suc 5) (a, b)" if "be_pc b = PWrite"
    by (rule drained_by_step [OF assms(1,2)]) (use that assms(3) r in auto)
  with r [OF assms(1,3)] drained_idle [OF assms(1-3)] assms(4) show ?thesis
    by (cases "be_pc b") (auto elim: drained_mono)
qed

text \<open>C12. The asynchronous log is in order: however appends by any threads, the steps of the logging thread and
  a stop interleave, nothing faults or hangs, and what the log files hold followed by the buffers still to be
  written is exactly the concatenation of the appended lines; in particular no pointer to a buffer is
  null when it is used and the thread always finds buffers to reuse.\<close>

theorem async_log_in_order:
  assumes "logger_env env junk rollSize flushInterval io"
    and "\<forall>e \<in> set es. event_ok kLargeBuffer e"
  shows "\<exists>a b. log_run env junk es (started env junk basename rollSize flushInterval io) = Some (Inr (a, b)) \<and>
    concat (map snd (io_streams (snd (be_output b)))) @ unwritten (a, b) = concat (map event_text es)"
proof -
  have "length junk = kLargeBuffer" using assms(1) by (simp add: logger_env_def)
  with log_run_ok [OF started_ok(1) [OF assms(1)] started_ok(3) [OF assms(1)], of es basename] assms(2)
    started_ok(2) [OF assms(1), of basename]
  show ?thesis by (auto simp: trail_def logged_def split_beta)
qed


text \<open>Lines are at most 4000 bytes long; here they are a few bytes.\<close>

lemma sample_logger: "logger_env sample_io (replicate kLargeBuffer (CHR 0x00)) 1000 3 empty_io"
  by (simp add: logger_env_def sample_io_reliable) (simp add: sample_io_def empty_io_def)

theorem async_log_in_order_witness:
  "\<exists>a b. log_run sample_io (replicate kLargeBuffer (CHR 0x00)) [Append ''one'', Back, Append ''two'', Back, Back, Stop, Back]
      (started sample_io (replicate kLargeBuffer (CHR 0x00)) ''server'' 1000 3 empty_io) = Some (Inr (a, b)) \<and>
    concat (map snd (io_streams (snd (be_output b)))) @ unwritten (a, b) = ''onetwo''"
  using async_log_in_order [OF sample_logger, of "[Append ''one'', Back, Append ''two'', Back, Back, Stop, Back]" "''server''"]
  by (simp add: kLargeBuffer_def)

text \<open>While the logger is neither stopped nor destroyed, it runs.\<close>

lemma running_kept:
  assumes "log_run env junk es s = Some (Inr s')" and "Stop \<notin> set es" and "Destroy \<notin> set es"
    and "al_running (fst s)" and "be_pc (snd s) \<noteq> PDone"
    and "async_inv env (length junk) s" and "length junk \<le> nat INT_MAX" and "\<forall>e \<in> set es. event_ok (length junk) e"
  shows "al_running (fst s') \<and> be_pc (snd s') \<noteq> PDone"
  using assms(1-6,8)
proof (induction es arbitrary: s)
  case (Cons e es)
  obtain a b where s: "s = (a, b)" by fastforce
  obtain s1 where s1: "log_step env junk e s = Some (Inr s1)" "async_inv env (length junk) s1"
    using log_step_ok [OF Cons.prems(6) assms(7), of e] Cons.prems(7) by auto
  have "al_running (fst s1) \<and> be_pc (snd s1) \<noteq> PDone"
  proof (cases e)
    case (Append l)
    then show ?thesis using s1(1) s Cons.prems(4,5)
      by (auto simp: log_step_def bind_result_Inr_iff async_append_def Let_def split: option.splits if_splits)
  next
    case Back
    obtain a' b' where t: "back_step env (a, b) = Some (Inr (a', b'))" "al_running a' = al_running a"
      "be_pc b' = next_pc (al_running a) (al_buffers a \<noteq> []) (be_pc b)"
      using back_step_ok [OF Cons.prems(6) [unfolded s] assms(7)] by blast
    have "be_pc b' \<noteq> PDone" using t(3) Cons.prems(4,5) s by (cases "be_pc b") auto
    then show ?thesis using t s1(1) s Back Cons.prems(4) by (auto simp: log_step_def)
  qed (use Cons.prems in auto)
  with Cons s1 show ?case by auto
qed simp

text \<open>From any point of a run, the lines reach the files.\<close>

lemma log_written_within:
  assumes "logger_env env junk rollSize flushInterval io"
    and "\<forall>e \<in> set es. event_ok kLargeBuffer e" and "Stop \<notin> set es"
  shows "\<exists>k a b. k \<le> 6 \<and>
    log_run env junk (es @ replicate k Back) (started env junk basename rollSize flushInterval io) = Some (Inr (a, b)) \<and>
    concat (map snd (io_streams (snd (be_output b)))) = concat (map event_text es)"
proof -
  let ?s = "started env junk basename rollSize flushInterval io"
  note inv = started_ok(1,2) [OF assms(1), of basename] started_ok(3) [OF assms(1)]
  have es: "\<forall>e \<in> set es. event_ok (length junk) e" using assms(1,2) by (simp add: logger_env_def)
  obtain s1 where s1: "log_run env junk es ?s = Some (Inr s1)" "async_inv env (length junk) s1"
    "trail s1 = concat (map event_text es)"
    using log_run_ok [OF inv(1,3) es] inv(2) by auto
  have "Destroy \<notin> set es" using es by auto
  moreover have "al_running (fst ?s)" "be_pc (snd ?s) \<noteq> PDone" by (simp_all add: started_def async_start_def)
  ultimately have r: "al_running (fst s1)" "be_pc (snd s1) \<noteq> PDone"
    using running_kept [OF s1(1) assms(3)] inv(1,3) es by blast+
  obtain a b where ab: "s1 = (a, b)" by fastforce
  have "drained env junk 6 s1" using drained_running [OF s1(2) [unfolded ab] inv(3)] r ab by simp
  then obtain k s2 where k: "k \<le> 6" "log_run env junk (replicate k Back) s1 = Some (Inr s2)" "unwritten s2 = []" "trail s2 = trail s1"
    by (auto simp: drained_def)
  have "concat (map snd (io_streams (snd (be_output (snd s2))))) = concat (map event_text es)"
    using k(3,4) s1(3) by (auto simp: trail_def logged_def split_beta)
  then show ?thesis using k(1,2) log_run_append [OF s1(1), of "replicate k Back"] by (metis prod.collapse)
qed

text \<open>Nothing stays in memory: at any point of any run of a logger that is not stopped, six further steps of the
  logging thread at most bring every line appended so far into the log files.\<close>

lemma async_log_written:
  assumes "logger_env env junk rollSize flushInterval io"
    and "\<forall>e \<in> set es. event_ok kLargeBuffer e" and "Stop \<notin> set es"
  shows "\<exists>k a b. k \<le> 6 \<and>
    log_run env junk (es @ replicate k Back) (started env junk basename rollSize flushInterval io) = Some (Inr (a, b)) \<and>
    concat (map snd (io_streams (snd (be_output b)))) = concat (map event_text es)"
  by (rule log_written_within [OF assms])

section \<open>Stopping\<close>

lemma appends_keep_backend:
  assumes "log_run env junk (map Append ls) (a, b) = Some (Inr (a', b'))"
  shows "b' = b \<and> al_running a' = al_running a \<and> al_alive a' = al_alive a"
  using assms
proof (induction ls arbitrary: a)
  case (Cons l ls)
  then obtain a1 where a1: "async_append junk l (int (length l)) a = Inr a1" "log_run env junk (map Append ls) (a1, b) = Some (Inr (a', b'))"
    by (cases "async_append junk l (int (length l)) a") (auto simp: log_step_def)
  moreover have "al_running a1 = al_running a \<and> al_alive a1 = al_alive a"
    using a1(1) by (auto simp: async_append_def bind_result_Inr_iff Let_def split: option.splits if_splits)
  ultimately show ?case using Cons.IH by simp
qed simp

lemma backs_done: "be_pc b = PDone \<Longrightarrow> log_run env junk (replicate k Back) (a, b) = Some (Inr (a, b))"
  by (induction k) (simp_all add: log_step_def back_step_def)

text \<open>Stopping loses lines: when the logger is stopped while its thread is about to test whether to go on, here before it
  has collected anything, the thread ends without writing, and the lines appended before the stop are never
  written.\<close>

lemma stop_loses_lines:
  assumes "logger_env env junk rollSize flushInterval io" and "\<forall>l \<in> set ls. length l < kLargeBuffer"
  shows "\<exists>a b. log_run env junk (map Append ls @ Stop # replicate (Suc k) Back) (started env junk basename rollSize flushInterval io)
      = Some (Inr (a, b)) \<and> be_pc b = PDone \<and> concat (map snd (io_streams (snd (be_output b)))) = [] \<and> unwritten (a, b) = concat ls"
proof -
  let ?s = "started env junk basename rollSize flushInterval io"
  note inv = started_ok(1,2) [OF assms(1), of basename] started_ok(3) [OF assms(1)]
  have "\<forall>e \<in> set (map Append ls). event_ok (length junk) e" using assms by (auto simp: logger_env_def)
  from log_run_ok [OF inv(1,3) this] inv(2) obtain a b where
    r: "log_run env junk (map Append ls) ?s = Some (Inr (a, b))" "async_inv env (length junk) (a, b)" "trail (a, b) = concat ls"
    by (auto simp: o_def)
  have b: "b = snd ?s" using appends_keep_backend [of env junk ls "fst ?s" "snd ?s" a b] r(1) by simp
  have pc: "be_pc b = PTest" unfolding b by (simp add: started_def async_start_def)
  have inv': "async_inv env (length junk) (async_stop a, b)"
    using r(2) by (auto simp: async_inv_def async_stop_def front_inv_def)
  obtain a' b' where t: "back_step env (async_stop a, b) = Some (Inr (a', b'))" "trail (a', b') = trail (async_stop a, b)"
    "be_pc b' = PDone" "a' = async_stop a"
    using back_step_ok [OF inv' inv(3)] pc by (auto simp: async_stop_def)
  have p: "unwritten (a', b') = unwritten (a, b)" using t(3,4) pc by (simp add: unwritten_def front_text_def async_stop_def)
  have "trail (a', b') = trail (a, b)" using t(2) by (simp add: trail_def unwritten_def front_text_def async_stop_def)
  then have out: "logged (be_output b') = logged (be_output b)" using p by (simp add: trail_def)
  have "logged (be_output b) = []" using inv(2) b by (simp add: trail_def)
  with r(3) p have "unwritten (a', b') = concat ls" by (simp add: trail_def)
  moreover have "log_run env junk (map Append ls @ Stop # replicate (Suc k) Back) ?s = Some (Inr (a', b'))"
    using log_run_append [OF r(1)] t(1) backs_done [OF t(3)] by (simp add: log_step_def)
  moreover have "concat (map snd (io_streams (snd (be_output b')))) = []"
    using out \<open>logged (be_output b) = []\<close> unfolding logged_def split_beta by simp
  ultimately show ?thesis using t(3) by blast
qed

text \<open>Destroying the logger is a race: its destructor stops the thread and does not wait for it, so that at any point of
  any run at which the thread has not ended, the thread reads the destroyed object within its next three steps.\<close>

lemma destroy_use_after_free:
  assumes "logger_env env junk rollSize flushInterval io" and "\<forall>e \<in> set es. event_ok kLargeBuffer e"
    and "log_run env junk es (started env junk basename rollSize flushInterval io) = Some (Inr (a, b))" and "be_pc b \<noteq> PDone"
  shows "\<exists>k \<le> 3. log_run env junk (es @ Destroy # replicate k Back) (started env junk basename rollSize flushInterval io)
    = Some (Inl UseAfterFree)"
proof -
  note inv = started_ok(1,2) [OF assms(1), of basename] started_ok(3) [OF assms(1)]
  have "\<forall>e \<in> set es. event_ok (length junk) e" using assms(1,2) by (simp add: logger_env_def)
  from log_run_ok [OF inv(1,3) this] assms(3) have i: "async_inv env (length junk) (a, b)" by auto
  let ?a = "destroy_AsyncLogging a"
  have dead: "\<not> al_alive ?a" by (simp add: destroy_AsyncLogging_def)
  have run: "log_run env junk (es @ Destroy # fs) (started env junk basename rollSize flushInterval io) = log_run env junk fs (?a, b)" for fs
    using log_run_append [OF assms(3)] by (simp add: log_step_def)
  have uaf: "back_step env (?a, c) = Some (Inl UseAfterFree)" if "be_pc c \<in> {PTest, PLock, PWaiting}" for c
    using that dead by (auto simp: back_step_def)
  have rec: "\<exists>c'. back_step env (?a, c) = Some (Inr (?a, c')) \<and> be_pc c' = PTest"
    if "be_pc c = PRecycle" "back_inv env (length junk) c" for c
    using recycle_ok [OF that(2,1)] that(1) by (auto simp: back_step_def)
  consider "be_pc b \<in> {PTest, PLock, PWaiting}" | "be_pc b = PRecycle" | "be_pc b = PWrite"
    using assms(4) by (cases "be_pc b") auto
  then show ?thesis
  proof cases
    case 1
    then show ?thesis using uaf unfolding run by (intro exI [of _ 1]) (simp add: log_step_def)
  next
    case 2
    then obtain c where "back_step env (?a, b) = Some (Inr (?a, c))" "be_pc c = PTest" using rec i by (auto simp: async_inv_def)
    then show ?thesis using uaf [of c] unfolding run
      by (intro exI [of _ 2]) (simp add: log_step_def numeral_2_eq_2)
  next
    case 3
    obtain a' c where s: "back_step env (a, b) = Some (Inr (a', c))" "async_inv env (length junk) (a', c)" "be_pc c = PRecycle" "a' = a"
      using back_step_ok [OF i inv(3)] 3 by auto
    then have "back_step env (?a, b) = Some (Inr (?a, c))"
      using 3 by (auto simp: back_step_def bind_result_Inr_iff split: bind_splits)
    moreover obtain d where "back_step env (?a, c) = Some (Inr (?a, d))" "be_pc d = PTest"
      using rec [OF s(3)] s(2) by (auto simp: async_inv_def)
    ultimately show ?thesis using uaf [of d] unfolding run
      by (intro exI [of _ 3]) (simp add: log_step_def numeral_3_eq_3)
  qed
qed

end
