(* ===== verification/Main_Program.thy ===== *)
theory Main_Program
  imports Async_Logging Http_Loop
begin

text \<open>
  The program of \<^verbatim>\<open>http/main.cpp\<close>: log statements of any thread go through \<^verbatim>\<open>asyncOutput\<close>, which it
  installs as the output function of the logger, into the asynchronous logger; and the web root is
  created when it is missing.  A run interleaves log statements with the steps of the
  logging thread.  The lemmas join the text of a log line with the path of lines to the files.
\<close>

section \<open>The output hook\<close>

text \<open>The global pointer is null until \<^verbatim>\<open>main\<close> has set it.\<close>

definition asyncOutput :: "string \<Rightarrow> string \<Rightarrow> int \<Rightarrow> AsyncLogging option \<Rightarrow> AsyncLogging option result" where
  "asyncOutput junk msg len g_asyncLog =
     (case g_asyncLog of
        None \<Rightarrow> Inl NullPointer
      | Some a \<Rightarrow> bind_result (async_append junk msg len a) (\<lambda>a1. Inr (Some a1)))"

text \<open>
  The output functions of the program: \<^verbatim>\<open>main\<close> calls \<^verbatim>\<open>setOutput\<close> only, so the flush function is
  still the default one, which flushes the standard output and not the logger.
\<close>

definition main_sinks :: "string \<Rightarrow> AsyncLogging option result sinks" where
  "main_sinks junk =
     setOutput (\<lambda>msg r. bind_result r (asyncOutput junk msg (int (length msg))))
       \<lparr>g_output = (\<lambda>_ r. r), g_flush = (\<lambda>r. r)\<rparr>"

section \<open>Statements and the logging thread\<close>

record statement =
  st_env :: log_env
  st_junk :: string
  st_dir :: string
  st_base :: string
  st_line :: int
  st_level :: LogLevel
  st_operands :: "operand list"

datatype program_event = Statement statement | LogThread

text \<open>A fatal statement aborts the process: the value is then \<open>Aborted\<close> with the last state.\<close>

definition program_step ::
    "io_env \<Rightarrow> string \<Rightarrow> program_event \<Rightarrow> AsyncLogging \<times> Backend \<Rightarrow> (AsyncLogging \<times> Backend) log_end result option" where
  "program_step env junk e = (\<lambda>(a, b).
     case e of
       Statement st \<Rightarrow>
         Some (bind_result (log_statement (st_env st) (main_sinks junk) (st_junk st) (st_dir st @ st_base st) (st_line st)
                 (st_level st) (st_operands st) (Inr (Some a))) (\<lambda>r.
           case r of
             Continues w \<Rightarrow> bind_result w (\<lambda>g. Inr (Continues (the g, b)))
           | Aborted w \<Rightarrow> bind_result w (\<lambda>g. Inr (Aborted (the g, b)))))
     | LogThread \<Rightarrow>
         Option.bind (back_step env (a, b)) (\<lambda>r. Some (bind_result r (\<lambda>s. Inr (Continues s)))))"

primrec program_run ::
    "io_env \<Rightarrow> string \<Rightarrow> program_event list \<Rightarrow> AsyncLogging \<times> Backend \<Rightarrow> (AsyncLogging \<times> Backend) log_end result option" where
  "program_run env junk [] s = Some (Inr (Continues s))"
| "program_run env junk (e # es) s =
     Option.bind (program_step env junk e s) (\<lambda>r.
       case r of
         Inl x \<Rightarrow> Some (Inl x)
       | Inr (Aborted s1) \<Rightarrow> Some (Inr (Aborted s1))
       | Inr (Continues s1) \<Rightarrow> program_run env junk es s1)"

text \<open>The line of a statement, and the statements that fit into the buffer of a line.\<close>

definition statement_text :: "statement \<Rightarrow> string" where
  "statement_text st =
     log_prefix (st_env st) (st_level st) @ concat (map operand_text (st_operands st)) @ log_suffix (st_base st) (st_line st)"

definition statement_ok :: "statement \<Rightarrow> bool" where
  "statement_ok st \<longleftrightarrow>
     log_env_ok (st_env st) \<and> length (st_junk st) = kSmallBuffer \<and> (\<forall>v \<in> set (st_operands st). operand_ok v) \<and>
     0 \<le> st_line st \<and> st_line st \<le> INT_MAX \<and> CHR ''/'' \<notin> set (st_base st) \<and>
     (st_dir st = [] \<or> last (st_dir st) = CHR ''/'') \<and> int (length (st_base st)) \<le> INT_MAX \<and>
     length (statement_text st) + 32 \<le> kSmallBuffer"

fun program_ok :: "program_event \<Rightarrow> bool" where
  "program_ok (Statement st) \<longleftrightarrow> statement_ok st \<and> st_level st \<noteq> FATAL"
| "program_ok LogThread \<longleftrightarrow> True"

fun program_text :: "program_event \<Rightarrow> string" where
  "program_text (Statement st) = statement_text st"
| "program_text LogThread = []"

text \<open>The events of the logger that a program event causes.\<close>

fun log_event_of :: "program_event \<Rightarrow> log_event" where
  "log_event_of (Statement st) = log_event.Append (statement_text st)"
| "log_event_of LogThread = Back"

lemma statement_step:
  assumes "statement_ok st"
  shows "log_statement (st_env st) (main_sinks junk) (st_junk st) (st_dir st @ st_base st) (st_line st)
      (st_level st) (st_operands st) (Inr (Some a)) =
    Inr ((if st_level st = FATAL then Aborted else Continues)
      (bind_result (async_append junk (statement_text st) (int (length (statement_text st))) a) (\<lambda>a1. Inr (Some a1))))"
proof -
  have s: "log_env_ok (st_env st)" "length (st_junk st) = kSmallBuffer" "\<forall>v \<in> set (st_operands st). operand_ok v"
    "0 \<le> st_line st" "st_line st \<le> INT_MAX" "CHR ''/'' \<notin> set (st_base st)"
    "st_dir st = [] \<or> last (st_dir st) = CHR ''/''" "int (length (st_base st)) \<le> INT_MAX"
    "length (statement_text st) + 32 \<le> kSmallBuffer"
    using assms by (simp_all add: statement_ok_def)
  from log_statement_line [OF s(1-8), of "main_sinks junk" "st_level st" "Inr (Some a)"] s(9) obtain t where t:
    "log_statement (st_env st) (main_sinks junk) (st_junk st) (st_dir st @ st_base st) (st_line st)
        (st_level st) (st_operands st) (Inr (Some a)) =
      Inr (if st_level st = FATAL
           then Aborted (g_flush (main_sinks junk) (g_output (main_sinks junk) (log_prefix (st_env st) (st_level st) @ t) (Inr (Some a))))
           else Continues (g_output (main_sinks junk) (log_prefix (st_env st) (st_level st) @ t) (Inr (Some a))))"
    "log_prefix (st_env st) (st_level st) @ t = statement_text st"
    by (auto simp: statement_text_def)
  have "g_output (main_sinks junk) l (Inr (Some a)) = bind_result (async_append junk l (int (length l)) a) (\<lambda>a1. Inr (Some a1))"
    "g_flush (main_sinks junk) r = r" for l r
    by (simp_all add: main_sinks_def setOutput_def asyncOutput_def)
  then show ?thesis unfolding t by simp
qed

text \<open>A run of the program is a run of the logger.\<close>

lemma program_step_log:
  assumes "program_ok e"
  shows "program_step env junk e s = map_option (map_sum id Continues) (log_step env junk (log_event_of e) s)"
proof (cases e)
  case (Statement st)
  then have "statement_ok st" "st_level st \<noteq> FATAL" using assms by simp_all
  then show ?thesis
    using statement_step [of st junk "fst s"] Statement
    by (cases s; cases "async_append junk (statement_text st) (int (length (statement_text st))) (fst s)")
      (simp_all add: program_step_def log_step_def)
next
  case LogThread
  then show ?thesis
    by (cases s; cases "back_step env s") (auto simp: program_step_def log_step_def bind_result_def split: sum.splits)
qed

lemma program_run_log:
  assumes "\<forall>e \<in> set es. program_ok e"
  shows "program_run env junk es s = map_option (map_sum id Continues) (log_run env junk (map log_event_of es) s)"
  using assms
proof (induction es arbitrary: s)
  case (Cons e es)
  show ?case
  proof (cases "log_step env junk (log_event_of e) s")
    case None
    then show ?thesis using program_step_log [of e env junk s] Cons.prems by simp
  next
    case (Some r)
    then show ?thesis using program_step_log [of e env junk s] Cons by (cases r) simp_all
  qed
qed simp

lemma program_event_ok: "program_ok e \<Longrightarrow> event_ok kLargeBuffer (log_event_of e)"
  by (cases e) (auto simp: statement_ok_def kSmallBuffer_def kLargeBuffer_def)

lemma program_event_text: "event_text (log_event_of e) = program_text e"
  by (cases e) simp_all

section \<open>Properties\<close>

text \<open>C11. The logging pipeline from end to end: for every interleaving of log statements, below fatal and with lines that fit,
  with the logging thread, nothing faults, and within six further steps of the logging thread
  the log files hold exactly the lines of the statements (prefix, operands, file name, line number) in
  the order of the statements.\<close>

theorem statements_reach_files:
  assumes "logger_env env junk rollSize flushInterval io" and "\<forall>e \<in> set es. program_ok e"
  shows "\<exists>k a b. k \<le> 6 \<and>
    program_run env junk (es @ replicate k LogThread) (started env junk basename rollSize flushInterval io) =
      Some (Inr (Continues (a, b))) \<and>
    concat (map snd (io_streams (snd (be_output b)))) = concat (map program_text es)"
proof -
  have ok: "\<forall>e \<in> set (map log_event_of es). event_ok kLargeBuffer e" using assms(2) program_event_ok by auto
  have "log_event_of e \<noteq> Stop" for e by (cases e) simp_all
  then have "Stop \<notin> set (map log_event_of es)" by (metis ex_map_conv)
  from log_written_within [OF assms(1) ok this, of basename] obtain k a b where
    k: "k \<le> 6" "log_run env junk (map log_event_of es @ replicate k Back) (started env junk basename rollSize flushInterval io)
        = Some (Inr (a, b))"
      "concat (map snd (io_streams (snd (be_output b)))) = concat (map event_text (map log_event_of es))" by blast
  have "map log_event_of (es @ replicate k LogThread) = map log_event_of es @ replicate k Back" by simp
  moreover have "\<forall>e \<in> set (es @ replicate k LogThread). program_ok e" using assms(2) by auto
  ultimately have "program_run env junk (es @ replicate k LogThread) (started env junk basename rollSize flushInterval io)
      = Some (Inr (Continues (a, b)))"
    using k(2) program_run_log by (metis (no_types, lifting) map_sum.simps(2) option.simps(9))
  then show ?thesis using k(1,3) by (auto simp: program_event_text comp_def)
qed

definition sample_statement :: "LogLevel \<Rightarrow> statement" where
  "sample_statement level = \<lparr>st_env = sample_env, st_junk = replicate kSmallBuffer (CHR 0x00), st_dir = ''src/'',
     st_base = ''main.cpp'', st_line = 81, st_level = level, st_operands = [CString ''started'']\<rparr>"

lemma sample_statement_ok: "statement_ok (sample_statement level)"
proof -
  have env: "log_env_ok sample_env" by (simp add: log_env_ok_def sample_env_def tm_ok_def)
  have "dec 81 = ''81''" by (simp add: dec.simps digit_chars)
  then have "length (statement_text (sample_statement level)) + 32 \<le> kSmallBuffer"
    using length_log_prefix [OF env, of level]
    by (simp add: statement_text_def sample_statement_def log_suffix_def print_int_def cstring_bytes_def kSmallBuffer_def)
  then show ?thesis using env by (simp add: statement_ok_def sample_statement_def INT_MAX_def cstring_bytes_def)
qed

theorem statements_reach_files_witness:
  "\<exists>k a b. k \<le> 6 \<and> program_run sample_io (replicate kLargeBuffer (CHR 0x00))
      ([LogThread, Statement (sample_statement INFO), LogThread, Statement (sample_statement WARN)] @ replicate k LogThread)
      (started sample_io (replicate kLargeBuffer (CHR 0x00)) ''WebServer'' 1000 3 empty_io) = Some (Inr (Continues (a, b))) \<and>
    concat (map snd (io_streams (snd (be_output b)))) =
      statement_text (sample_statement INFO) @ statement_text (sample_statement WARN)"
  using statements_reach_files [OF sample_logger,
      of "[LogThread, Statement (sample_statement INFO), LogThread, Statement (sample_statement WARN)]" "''WebServer''"]
    sample_statement_ok
  by (simp add: sample_statement_def)

lemma program_run_append:
  "program_run env junk es s = Some (Inr (Continues s1)) \<Longrightarrow> program_run env junk (es @ fs) s = program_run env junk fs s1"
proof (induction es arbitrary: s)
  case (Cons e es)
  then show ?case
    by (cases "program_step env junk e s") (auto split: sum.splits log_end.splits)
qed simp

text \<open>The message of a fatal statement is lost: the statement appends its line to the buffers in memory, flushes the
  standard output, which the program does not log to, and aborts; so at whatever point of whatever run
  it comes, its line is at the end of what was never written to the log files, and nothing after it happens.\<close>

lemma fatal_line_lost:
  assumes "logger_env env junk rollSize flushInterval io" and "\<forall>e \<in> set es. program_ok e"
    and "statement_ok st" and "st_level st = FATAL"
  shows "\<exists>a b u. program_run env junk (es @ Statement st # fs) (started env junk basename rollSize flushInterval io) =
      Some (Inr (Aborted (a, b))) \<and>
    concat (map snd (io_streams (snd (be_output b)))) @ u = concat (map program_text es) \<and>
    unwritten (a, b) = u @ statement_text st"
proof -
  let ?s = "started env junk basename rollSize flushInterval io"
  note inv = started_ok(1,2) [OF assms(1), of basename] started_ok(3) [OF assms(1)]
  have len: "length junk = kLargeBuffer" using assms(1) by (simp add: logger_env_def)
  then have "\<forall>e \<in> set (map log_event_of es). event_ok (length junk) e" using assms(2) program_event_ok by auto
  from log_run_ok [OF inv(1,3) this] inv(2) obtain a b where
    r: "log_run env junk (map log_event_of es) ?s = Some (Inr (a, b))" "async_inv env (length junk) (a, b)"
      "trail (a, b) = concat (map program_text es)"
    by (auto simp: program_event_text comp_def)
  then have run: "program_run env junk es ?s = Some (Inr (Continues (a, b)))"
    using program_run_log [OF assms(2)] by simp
  have "length (statement_text st) < length junk"
    using assms(3) by (simp add: statement_ok_def kSmallBuffer_def kLargeBuffer_def len)
  then obtain a1 where a1: "async_append junk (statement_text st) (int (length (statement_text st))) a = Inr a1"
      "front_text a1 = front_text a @ statement_text st"
    using async_append_ok [of junk a "statement_text st"] r(2) inv(3) by (auto simp: async_inv_def)
  have "program_step env junk (Statement st) (a, b) = Some (Inr (Aborted (a1, b)))"
    using statement_step [OF assms(3), of junk a] assms(4) a1(1) by (simp add: program_step_def)
  then have "program_run env junk (es @ Statement st # fs) ?s = Some (Inr (Aborted (a1, b)))"
    using program_run_append [OF run] by simp
  moreover have "unwritten (a1, b) = unwritten (a, b) @ statement_text st" using a1(2) by (simp add: unwritten_def)
  moreover have "concat (map snd (io_streams (snd (be_output b)))) @ unwritten (a, b) = concat (map program_text es)"
    using r(3) by (simp add: trail_def logged_def split_beta)
  ultimately show ?thesis by blast
qed

section \<open>The web root\<close>

text \<open>What the preparation of the web root sees of the file system: whether a path exists, as a directory
  or as a file with its bytes.\<close>

datatype node = Dir | Regular string

definition demo_page :: string where
  "demo_page = ''<html><head><title>MuduoX</title></head><body><h1>Welcome to MuduoX io_uring Server!</h1></body></html>''"

text \<open>\<open>mkdir_ok\<close> and \<open>fopen_ok\<close> are the answers of \<^verbatim>\<open>mkdir\<close> and \<^verbatim>\<open>fopen\<close>.\<close>

definition prepare_web_root :: "bool \<Rightarrow> bool \<Rightarrow> (string \<rightharpoonup> node) \<Rightarrow> (string \<rightharpoonup> node)" where
  "prepare_web_root mkdir_ok fopen_ok fs =
     (let webRoot = ''./www''
      in if fs webRoot \<noteq> None then fs
         else if \<not> mkdir_ok then fs
         else let fs1 = fs(webRoot \<mapsto> Dir)
              in if \<not> fopen_ok then fs1 else fs1(''./www/index.html'' \<mapsto> Regular demo_page))"

text \<open>The environment of the server of \<^verbatim>\<open>main\<close> over a file system whose files can all be opened.\<close>

definition main_env :: "(string \<rightharpoonup> node) \<Rightarrow> http_env" where
  "main_env fs =
     \<lparr>webRoot = ''./www'', httpCallback = Some onHttpRequest,
      stat = (\<lambda>f. case fs f of None \<Rightarrow> None | Some Dir \<Rightarrow> Some (True, 0) | Some (Regular s) \<Rightarrow> Some (False, length s)),
      has_uring = True, registerFile = (\<lambda>f. fs f \<noteq> None)\<rparr>"

text \<open>After the preparation of a missing root, a request for the root directory reads the demonstration
  page with its length; an existing root is left as it is.\<close>

lemma prepared_root_serves_page:
  assumes "fs ''./www'' = None" and "path req = ''/''"
  shows "onRequest (main_env (prepare_web_root True True fs)) req =
    [AsyncRead ''./www/index.html'' (length demo_page) (should_close req) (getMime ''.html'')]"
proof -
  have "c_str ''./www/index.html'' = ''./www/index.html''" by (simp add: c_str_def)
  moreover have "suffix_of ''/index.html'' = ''.html''" by code_simp
  moreover have "\<not> find_dotdot ''/index.html''" by simp
  moreover have "statusCode (onHttpRequest req (new_HttpResponse (should_close req))) = kUnknownStatus"
    using assms(2) by (simp add: onHttpRequest_def new_HttpResponse_def kUnknownStatus_def)
  ultimately show ?thesis using assms
    by (simp add: onRequest_def handleStaticFile_def main_env_def prepare_web_root_def Let_def)
qed

lemma prepare_web_root_keeps: "fs ''./www'' \<noteq> None \<Longrightarrow> prepare_web_root m f fs = fs"
  by (simp add: prepare_web_root_def Let_def)

section \<open>The server\<close>

text \<open>
  \<^verbatim>\<open>HttpServer\<close> as an object over its \<^verbatim>\<open>TcpServer\<close>; of the two callbacks it installs there is only whether they are
  set.  A loop is a number, and \<open>startLoop\<close> gives the loops of the threads.
\<close>

record HttpServer =
  hs_server :: TcpServer
  hs_loop :: nat
  hs_webRoot :: string
  hs_httpCallback :: "(HttpRequest \<Rightarrow> HttpResponse \<Rightarrow> HttpResponse) option"
  hs_connectionCallback :: bool
  hs_messageCallback :: bool

definition new_HttpServer :: "nat \<Rightarrow> sockaddr_in \<Rightarrow> string \<Rightarrow> string \<Rightarrow> HttpServer" where
  "new_HttpServer loop listenAddr name root =
     \<lparr>hs_server = new_TcpServer loop listenAddr name, hs_loop = loop, hs_webRoot = root, hs_httpCallback = None,
      hs_connectionCallback = True, hs_messageCallback = True\<rparr>"

definition http_setThreadNum :: "int \<Rightarrow> HttpServer \<Rightarrow> HttpServer" where
  "http_setThreadNum numThreads h = h\<lparr>hs_server := setThreadNum numThreads (hs_server h)\<rparr>"

definition setHttpCallback :: "(HttpRequest \<Rightarrow> HttpResponse \<Rightarrow> HttpResponse) \<Rightarrow> HttpServer \<Rightarrow> HttpServer" where
  "setHttpCallback cb h = h\<lparr>hs_httpCallback := Some cb\<rparr>"

definition http_start :: "(nat \<Rightarrow> nat) \<Rightarrow> nat \<Rightarrow> HttpServer \<Rightarrow> HttpServer" where
  "http_start startLoop here h = h\<lparr>hs_server := server_start startLoop False here (hs_server h)\<rparr>"

text \<open>What \<^verbatim>\<open>main\<close> does between the creation of the loop, as \<open>loop\<close>, and its start.\<close>

definition main_server :: "(nat \<Rightarrow> nat) \<Rightarrow> nat \<Rightarrow> sockaddr_in \<Rightarrow> HttpServer" where
  "main_server startLoop loop listenAddr =
     http_start startLoop loop
       (http_setThreadNum 4
          (setHttpCallback onHttpRequest (new_HttpServer loop listenAddr ''MuduoX-Http'' ''./www'')))"

text \<open>The environment of the handlers of a server over a file system whose files can all be opened.\<close>

definition server_env :: "(string \<rightharpoonup> node) \<Rightarrow> HttpServer \<Rightarrow> http_env" where
  "server_env fs h =
     \<lparr>webRoot = hs_webRoot h, httpCallback = hs_httpCallback h,
      stat = (\<lambda>f. case fs f of None \<Rightarrow> None | Some Dir \<Rightarrow> Some (True, 0) | Some (Regular s) \<Rightarrow> Some (False, length s)),
      has_uring = True, registerFile = (\<lambda>f. fs f \<noteq> None)\<rparr>"

lemmas main_server_defs = main_server_def http_start_def http_setThreadNum_def setHttpCallback_def new_HttpServer_def
  new_TcpServer_def setThreadNum_def pool_setThreadNum_def new_EventLoopThreadPool_def server_start_def pool_start_def
  srv_runInLoop_def run_srv_functor_def srv_listen_def srv_base_def

lemma main_server_env: "server_env fs (main_server startLoop loop listenAddr) = main_env fs"
  by (simp add: server_env_def main_env_def main_server_defs Let_def)

text \<open>The server listens, and its connections go to the loops of four threads in turn.\<close>

lemma main_server_loops:
  "srv_listening (hs_server (main_server startLoop loop listenAddr))"
  "pool_loops (srv_pool (hs_server (main_server startLoop loop listenAddr))) = map startLoop [0..<4]"
  "\<exists>p. getNextLoop (srv_pool (hs_server (main_server startLoop loop listenAddr))) = Inr (startLoop 0, p)"
  by (simp_all add: main_server_defs getNextLoop_def checked_int_def INT_MAX_def INT_MIN_def to_size_t_def Let_def)

text \<open>It is a server as \<^verbatim>\<open>Tcp_Server\<close> starts them, so with its loops it makes a system that refines it and is safe.\<close>

lemma main_server_started:
  "hs_server (main_server startLoop loop listenAddr) = started_server startLoop False loop listenAddr ''MuduoX-Http'' 4"
  by (simp add: main_server_defs started_server_def Let_def)

lemma main_system_sound:
  assumes "length (sin_addr addr) = 4" and "\<And>l. inj (fds l)"
    and "sys_reach P (http_message_callback (server_env fs (main_server startLoop loop addr))) new_HttpContext r
      (new_system (hs_server (main_server startLoop loop addr)) fds kn) y"
  shows "server_runs (hs_server (main_server startLoop loop addr)) (sy_server y)"
    and "\<exists>q. sys_accept new_HttpContext r sockfd peer localAddr y = Some q \<and> faults_in {FatalAbort, SignedOverflow} q"
    and "\<exists>q. sys_event (http_message_callback (server_env fs (main_server startLoop loop addr))) r T l y = Some q \<and>
      faults_in (insert FatalAbort parser_faults) q"
    and "sy_active y l = [] \<Longrightarrow> \<exists>q. sys_functor new_HttpContext r l y = Some q \<and> faults_in {FatalAbort} q"
proof -
  have ok: "http_loop.sys_ok once r (new_system (hs_server (main_server startLoop loop addr)) fds kn)" for once
    unfolding main_server_started by (rule http_loop.new_system_ok [OF assms(1,2)])
  note y = http_loop.sys_reach_sane(1) [OF assms(3) ok]
  show "server_runs (hs_server (main_server startLoop loop addr)) (sy_server y)"
    by (rule http_loop.system_refines(1) [OF assms(3) ok])
  show "\<exists>q. sys_accept new_HttpContext r sockfd peer localAddr y = Some q \<and> faults_in {FatalAbort, SignedOverflow} q"
    "\<exists>q. sys_event (http_message_callback (server_env fs (main_server startLoop loop addr))) r T l y = Some q \<and>
      faults_in (insert FatalAbort parser_faults) q"
    "sy_active y l = [] \<Longrightarrow> \<exists>q. sys_functor new_HttpContext r l y = Some q \<and> faults_in {FatalAbort} q"
    using http_loop.system_safe [OF y] by blast+
qed

end
