(* ===== verification/Event_Loop.thy ===== *)
theory Event_Loop
  imports Prelude
begin

text \<open>
  The event loop and its queue of functors (\<^verbatim>\<open>include/EventLoop.h\<close>, \<^verbatim>\<open>src/EventLoop.cpp\<close>), with the
  other threads that queue functors or ask it to quit.  The loop thread is at one of the points of
  \<open>loop_pc\<close>; every lock-protected section and every access to an atomic is one step, so that other
  threads run between any two of them, and a thread that has queued a functor and has not yet
  written to the wake-up descriptor is counted in \<open>waking\<close>.  Functors are numbers; what their
  bodies do (queue, quit) are further steps of the loop thread.  The lemmas show that functors
  run exactly once and in order, and when the loop may sleep on queued work: only on functors that the owner
  of the loop queued before it called \<^verbatim>\<open>loop()\<close>.
\<close>

section \<open>State\<close>

type_synonym functor_id = nat

datatype loop_pc =
    NotStarted
  | Test
  | Polling
  | Dispatching
  | Swapping
  | Running "functor_id list"
  | Returned

record EventLoop =
  pc :: loop_pc
  looping :: bool
  quit_flag :: bool
  callingPendingFunctors :: bool
  pendingFunctors :: "functor_id list"
  eventfd :: nat
  waking :: nat
  executed :: "functor_id list"
  queued :: "functor_id list"
  early :: "functor_id list"

text \<open>Beside the members: the functors that have run, all that were queued, and those the owner queued before \<^verbatim>\<open>loop()\<close>.\<close>

definition new_EventLoop :: EventLoop where
  "new_EventLoop =
     \<lparr>pc = NotStarted, looping = False, quit_flag = False, callingPendingFunctors = False,
      pendingFunctors = [], eventfd = 0, waking = 0, executed = [], queued = [], early = []\<rparr>"

definition kPollTimeMs :: int where
  "kPollTimeMs = 10000"

section \<open>Operations\<close>

definition wakeup :: "EventLoop \<Rightarrow> EventLoop" where
  "wakeup s = s\<lparr>eventfd := eventfd s + 1\<rparr>"

text \<open>Reading the descriptor returns its counter and resets it.\<close>

definition handleWakeup :: "EventLoop \<Rightarrow> EventLoop" where
  "handleWakeup s = s\<lparr>eventfd := 0\<rparr>"

text \<open>The critical section of \<^verbatim>\<open>queueInLoop\<close>, and the call as made in the loop thread.\<close>

definition push_functor :: "functor_id \<Rightarrow> EventLoop \<Rightarrow> EventLoop" where
  "push_functor f s = s\<lparr>pendingFunctors := pendingFunctors s @ [f], queued := queued s @ [f]\<rparr>"

definition queueInLoop :: "bool \<Rightarrow> functor_id \<Rightarrow> EventLoop \<Rightarrow> EventLoop" where
  "queueInLoop inLoop f s =
     (let s1 = push_functor f s
      in if \<not> inLoop \<or> callingPendingFunctors s1 then wakeup s1 else s1)"

definition run_functor_now :: "functor_id \<Rightarrow> EventLoop \<Rightarrow> EventLoop" where
  "run_functor_now f s = s\<lparr>executed := executed s @ [f]\<rparr>"

definition runInLoop :: "bool \<Rightarrow> functor_id \<Rightarrow> EventLoop \<Rightarrow> EventLoop" where
  "runInLoop inLoop f s = (if inLoop then run_functor_now f s else queueInLoop inLoop f s)"

definition quit :: "bool \<Rightarrow> EventLoop \<Rightarrow> EventLoop" where
  "quit inLoop s =
     (let s1 = s\<lparr>quit_flag := True\<rparr> in if \<not> inLoop then wakeup s1 else s1)"

text \<open>\<^verbatim>\<open>doPendingFunctors\<close> in its three parts: the flag, the swap, the loop over the functors.\<close>

definition calling_on :: "EventLoop \<Rightarrow> EventLoop" where
  "calling_on s = s\<lparr>callingPendingFunctors := True, pc := Swapping\<rparr>"

definition swap_functors :: "EventLoop \<Rightarrow> EventLoop" where
  "swap_functors s = s\<lparr>pc := Running (pendingFunctors s), pendingFunctors := []\<rparr>"

definition calling_off :: "EventLoop \<Rightarrow> EventLoop" where
  "calling_off s = s\<lparr>callingPendingFunctors := False, pc := Test\<rparr>"

text \<open>The steps of the loop thread itself; \<open>woken\<close> tells whether the poll reported the descriptor.\<close>

fun loop_step :: "bool \<Rightarrow> EventLoop \<Rightarrow> EventLoop" where
  "loop_step woken s =
     (case pc s of
        NotStarted \<Rightarrow> s\<lparr>looping := True, quit_flag := False, pc := Test\<rparr>
      | Test \<Rightarrow> if quit_flag s then s\<lparr>looping := False, pc := Returned\<rparr> else s\<lparr>pc := Polling\<rparr>
      | Polling \<Rightarrow> (if woken then handleWakeup s else s)\<lparr>pc := Dispatching\<rparr>
      | Dispatching \<Rightarrow> calling_on s
      | Swapping \<Rightarrow> swap_functors s
      | Running [] \<Rightarrow> calling_off s
      | Running (f # fs) \<Rightarrow> run_functor_now f s\<lparr>pc := Running fs\<rparr>
      | Returned \<Rightarrow> s)"

section \<open>Interleavings\<close>

text \<open>
  The callbacks of channels and the bodies of functors run in these states; outside \<^verbatim>\<open>loop()\<close> the owner of the loop
  may queue functors and ask it to quit as well.
\<close>

definition in_callback :: "EventLoop \<Rightarrow> bool" where
  "in_callback s = (case pc s of Dispatching \<Rightarrow> True | Running _ \<Rightarrow> True | _ \<Rightarrow> False)"

inductive step :: "EventLoop \<Rightarrow> EventLoop \<Rightarrow> bool" where
  loop: "step s (loop_step woken s)"
| queue_here: "in_callback s \<Longrightarrow> step s (queueInLoop True f s)"
| quit_here: "in_callback s \<Longrightarrow> step s (quit True s)"
| queue_before: "pc s = NotStarted \<Longrightarrow> step s (queueInLoop True f s\<lparr>early := early s @ [f]\<rparr>)"
| queue_after: "pc s = Returned \<Longrightarrow> step s (queueInLoop True f s)"
| quit_outside: "pc s \<in> {NotStarted, Returned} \<Longrightarrow> step s (quit True s)"
| other_push: "step s (push_functor f s\<lparr>waking := waking s + 1\<rparr>)"
| other_quit: "step s (s\<lparr>quit_flag := True, waking := waking s + 1\<rparr>)"
| other_wakeup: "0 < waking s \<Longrightarrow> step s (wakeup s\<lparr>waking := waking s - 1\<rparr>)"

inductive_cases stepE: "step s s'"

definition running :: "EventLoop \<Rightarrow> functor_id list" where
  "running s = (case pc s of Running fs \<Rightarrow> fs | _ \<Rightarrow> [])"

text \<open>
  Each functor is executed, about to be executed, or pending, in the order of the queue; before the
  loop polls again, pending functors and a quit request have a wake-up written or on its way, unless
  nothing but what the owner queued before \<^verbatim>\<open>loop()\<close> has ever been queued.
\<close>

definition wake_pending :: "EventLoop \<Rightarrow> bool" where
  "wake_pending s \<longleftrightarrow> 0 < eventfd s \<or> 0 < waking s"

definition loop_inv :: "EventLoop \<Rightarrow> bool" where
  "loop_inv s \<longleftrightarrow> executed s @ running s @ pendingFunctors s = queued s \<and>
     (callingPendingFunctors s \<longleftrightarrow> (case pc s of Swapping \<Rightarrow> True | Running _ \<Rightarrow> True | _ \<Rightarrow> False)) \<and>
     (pc s \<notin> {Dispatching, Swapping, Returned} \<and> pendingFunctors s \<noteq> [] \<longrightarrow>
        wake_pending s \<or> pendingFunctors s = early s \<and> queued s = early s) \<and>
     (pc s = NotStarted \<longrightarrow> executed s = [] \<and> (queued s = [] \<longrightarrow> early s = [])) \<and>
     (pc s = Polling \<and> quit_flag s \<longrightarrow> wake_pending s)"

lemmas loop_op_defs = wakeup_def handleWakeup_def push_functor_def queueInLoop_def run_functor_now_def
  runInLoop_def quit_def calling_on_def swap_functors_def calling_off_def

lemma loop_step_inv: "loop_inv s \<Longrightarrow> loop_inv (loop_step woken s)"
  by (auto simp: loop_inv_def running_def wake_pending_def loop_op_defs split: loop_pc.splits list.splits)

lemma step_inv: "step s s' \<Longrightarrow> loop_inv s \<Longrightarrow> loop_inv s'"
proof (induction rule: step.induct)
  case (loop s woken)
  then show ?case by (rule loop_step_inv)
next
  case (queue_here s f)
  then show ?case
    by (auto simp: loop_inv_def running_def wake_pending_def loop_op_defs in_callback_def split: loop_pc.splits)
next
  case (quit_here s)
  then show ?case
    by (auto simp: loop_inv_def running_def wake_pending_def loop_op_defs in_callback_def split: loop_pc.splits)
next
  case (queue_before s f)
  then have "executed s = []" "running s = []" by (simp_all add: loop_inv_def running_def)
  with queue_before show ?case
    by (cases "pendingFunctors s = []") (auto simp: loop_inv_def running_def wake_pending_def loop_op_defs)
qed (auto simp: loop_inv_def running_def wake_pending_def loop_op_defs)

lemma steps_inv: "step\<^sup>*\<^sup>* s s' \<Longrightarrow> loop_inv s \<Longrightarrow> loop_inv s'"
  by (induction rule: rtranclp_induct) (auto intro: step_inv)

lemma new_EventLoop_inv: "loop_inv new_EventLoop"
  by (simp add: loop_inv_def new_EventLoop_def running_def)

section \<open>One iteration\<close>

declare loop_step.simps [simp del]

lemma loop_step_simps:
  "pc s = Polling \<Longrightarrow> loop_step True s = (handleWakeup s)\<lparr>pc := Dispatching\<rparr>"
  "pc s = Dispatching \<Longrightarrow> loop_step w s = calling_on s"
  "pc s = Swapping \<Longrightarrow> loop_step w s = swap_functors s"
  "pc s = Running [] \<Longrightarrow> loop_step w s = calling_off s"
  "pc s = Running (f # fs) \<Longrightarrow> loop_step w s = run_functor_now f s\<lparr>pc := Running fs\<rparr>"
  by (simp_all add: loop_step.simps)

text \<open>Running the swapped functors takes one step each.\<close>

lemma run_all_functors:
  "pc s = Running fs \<Longrightarrow>
   (loop_step w ^^ Suc (length fs)) s =
     s\<lparr>executed := executed s @ fs, callingPendingFunctors := False, pc := Test\<rparr>"
proof (induction fs arbitrary: s)
  case Nil
  then show ?case by (simp add: loop_step_simps calling_off_def)
next
  case (Cons f fs)
  let ?s = "run_functor_now f s\<lparr>pc := Running fs\<rparr>"
  have "(loop_step w ^^ Suc (length (f # fs))) s = (loop_step w ^^ Suc (length fs)) ?s"
    using Cons.prems by (simp add: funpow_swap1 loop_step_simps)
  then show ?case using Cons.IH [of ?s] by (simp add: run_functor_now_def)
qed

lemma one_iteration:
  assumes "pc s = Polling"
  shows "(loop_step True ^^ (length (pendingFunctors s) + 4)) s =
    s\<lparr>eventfd := 0, executed := executed s @ pendingFunctors s, pendingFunctors := [],
      callingPendingFunctors := False, pc := Test\<rparr>"
proof -
  let ?s3 = "s\<lparr>eventfd := 0, callingPendingFunctors := True, pendingFunctors := [], pc := Running (pendingFunctors s)\<rparr>"
  have "(loop_step True ^^ 3) s = ?s3"
    using assms by (simp add: numeral_3_eq_3 loop_step_simps handleWakeup_def calling_on_def swap_functors_def)
  moreover have "length (pendingFunctors s) + 4 = Suc (length (pendingFunctors s)) + 3" by simp
  ultimately have "(loop_step True ^^ (length (pendingFunctors s) + 4)) s =
      (loop_step True ^^ Suc (length (pendingFunctors s))) ?s3"
    by (simp only: funpow_add comp_apply)
  then show ?thesis using run_all_functors [of ?s3 "pendingFunctors s" True] by simp
qed

section \<open>Properties\<close>

text \<open>C24. Functors run exactly once and in order: under every interleaving of the loop with other threads,
  the functors executed so far, then those taken over by the running iteration, then those still
  pending are exactly the functors queued so far, in the order of their queueing.\<close>

theorem functors_exactly_once_in_order:
  assumes "step\<^sup>*\<^sup>* new_EventLoop s"
  shows "executed s @ running s @ pendingFunctors s = queued s"
  using steps_inv [OF assms new_EventLoop_inv] by (simp add: loop_inv_def)

theorem functors_exactly_once_in_order_witness:
  "executed (push_functor 4 new_EventLoop\<lparr>waking := 1\<rparr>) @ running (push_functor 4 new_EventLoop\<lparr>waking := 1\<rparr>) @
   pendingFunctors (push_functor 4 new_EventLoop\<lparr>waking := 1\<rparr>) = queued (push_functor 4 new_EventLoop\<lparr>waking := 1\<rparr>)"
proof (rule functors_exactly_once_in_order)
  show "step\<^sup>*\<^sup>* new_EventLoop (push_functor 4 new_EventLoop\<lparr>waking := 1\<rparr>)"
    using step.other_push [of new_EventLoop 4] by (intro r_into_rtranclp) (simp add: new_EventLoop_def)
qed



text \<open>The exception is real: a functor the owner queues before \<^verbatim>\<open>loop()\<close> waits for the end of the first poll.\<close>

lemma early_functor_not_woken:
  "\<exists>s. step\<^sup>*\<^sup>* new_EventLoop s \<and> pc s = Polling \<and> pendingFunctors s = [f] \<and> eventfd s = 0 \<and> waking s = 0"
proof -
  let ?s1 = "queueInLoop True f new_EventLoop\<lparr>early := early new_EventLoop @ [f]\<rparr>"
  have "step new_EventLoop ?s1" by (rule step.queue_before) (simp add: new_EventLoop_def)
  moreover have "step ?s1 (loop_step False ?s1)" "step (loop_step False ?s1) (loop_step False (loop_step False ?s1))"
    by (rule step.loop)+
  ultimately have "step\<^sup>*\<^sup>* new_EventLoop (loop_step False (loop_step False ?s1))"
    by (meson converse_rtranclp_into_rtranclp rtranclp.rtrancl_refl)
  then show ?thesis
    by (intro exI [of _ "loop_step False (loop_step False ?s1)"])
      (simp add: loop_step.simps new_EventLoop_def queueInLoop_def push_functor_def)
qed

text \<open>Progress: the iteration of the loop that starts with a poll runs every functor that is pending
  when it begins, in \<open>n + 4\<close> steps for \<open>n\<close> functors, and then tests the quit flag; if that is set, it
  returns, and otherwise it polls again.\<close>

lemma iteration_runs_pending:
  assumes "step\<^sup>*\<^sup>* new_EventLoop s" and "pc s = Polling"
  shows "let s' = (loop_step True ^^ (length (pendingFunctors s) + 4)) s in
    executed s' = queued s \<and> pendingFunctors s' = [] \<and> pc s' = Test \<and>
    pc (loop_step w s') = (if quit_flag s then Returned else Polling)"
proof -
  have "executed s @ pendingFunctors s = queued s"
    using steps_inv [OF assms(1) new_EventLoop_inv] assms(2) by (simp add: loop_inv_def running_def)
  then show ?thesis using one_iteration [OF assms(2)] by (simp add: loop_step.simps)
qed

text \<open>A quit that comes before \<open>loop\<close> is lost: entering the loop clears the flag, whoever set it, so the
  loop goes on to poll.\<close>

lemma quit_before_loop_lost:
  assumes "pc s = NotStarted"
  shows "quit_flag (loop_step w (quit inLoop s)) = False \<and> pc (loop_step w' (loop_step w (quit inLoop s))) = Polling"
  using assms by (simp add: quit_def wakeup_def loop_step.simps Let_def)

end
