(* ===== verification/Loop_Thread.thy ===== *)
theory Loop_Thread
  imports Event_Loop
begin

text \<open>
  Threads that own a loop: \<^verbatim>\<open>CurrentThread\<close> (\<^verbatim>\<open>src/CurrentThread.cpp\<close>), \<^verbatim>\<open>Thread\<close>
  (\<^verbatim>\<open>src/Thread.cpp\<close>) and \<^verbatim>\<open>EventLoopThread\<close> (\<^verbatim>\<open>src/EventLoopThread.cpp\<close>).  The owner, which calls
  \<^verbatim>\<open>startLoop\<close> and the destructor, and the new thread, which runs \<^verbatim>\<open>threadFunc\<close>, are two state
  machines over one record; each lock-protected section, wait, notification and access to shared
  memory is a step, and the loop object of the new thread is the state of \<open>Event_Loop\<close>, which other
  threads may change as there.  The lemmas show that \<^verbatim>\<open>startLoop\<close> returns the loop of the new thread
  after the initialisation callback, that it returns as long as the loop has not ended, what the
  destructor does, and the schedules in which the two threads miss each other.
\<close>

section \<open>Thread identifiers and threads\<close>

text \<open>The thread-local cache of the kernel's thread identifier; \<open>gettid\<close> is what the kernel answers.\<close>

definition cacheTid :: "int \<Rightarrow> int \<Rightarrow> int" where
  "cacheTid gettid t_cachedTid = (if t_cachedTid = 0 then gettid else t_cachedTid)"

definition CurrentThread_tid :: "int \<Rightarrow> int \<Rightarrow> int \<times> int" where
  "CurrentThread_tid gettid t_cachedTid =
     (let t = (if t_cachedTid = 0 then cacheTid gettid t_cachedTid else t_cachedTid) in (t, t))"

record Thread =
  started :: bool
  joined :: bool
  tid :: int
  name :: string

definition setDefaultName :: "nat \<Rightarrow> Thread \<Rightarrow> nat \<times> Thread" where
  "setDefaultName numCreated t =
     (let num = numCreated + 1
      in (num, if name t = [] then t\<lparr>name := ''Thread'' @ dec num\<rparr> else t))"

definition new_Thread :: "nat \<Rightarrow> string \<Rightarrow> nat \<times> Thread" where
  "new_Thread numCreated nm =
     setDefaultName numCreated \<lparr>started = False, joined = False, tid = 0, name = nm\<rparr>"

text \<open>The destructor detaches a thread that was started and not joined.\<close>

definition Thread_detaches :: "Thread \<Rightarrow> bool" where
  "Thread_detaches t \<longleftrightarrow> started t \<and> \<not> joined t"

definition Thread_join :: "Thread \<Rightarrow> Thread" where
  [simp]: "Thread_join t = t\<lparr>joined := True\<rparr>"

section \<open>State\<close>

text \<open>The points of the owner: in \<^verbatim>\<open>startLoop\<close> (\<open>P\<close>) and in the destructor (\<open>D\<close>).\<close>

datatype owner_pc =
    P_Idle | P_SemWait | P_Lock | P_Test | P_Waiting | P_Got int | P_Returned int
  | D_Check | D_Quit | D_Wakeup | D_Join | D_Joined | D_Skipped

text \<open>The points of the new thread; \<open>T_Unlocked\<close> is the end of \<^verbatim>\<open>threadFunc\<close> before its locals die.\<close>

datatype thread_pc =
    T_None | T_Created | T_Tid | T_Posted | T_Constructed | T_Inited | T_Published | T_Notified
  | T_InLoop | T_Ended | T_Cleared | T_Unlocked | T_Exited

datatype mutex_state = Free | HeldByOwner | HeldByThread

text \<open>A pointer to the loop is the identifier of the thread that owns it.\<close>

record EventLoopThread =
  owner :: owner_pc
  thr :: thread_pc
  loop_ptr :: "int option"
  exiting :: bool
  thread :: Thread
  sem :: nat
  mutex :: mutex_state
  eloop :: EventLoop
  callback :: bool
  called :: bool
  ub :: bool

definition new_EventLoopThread :: "nat \<Rightarrow> bool \<Rightarrow> string \<Rightarrow> EventLoopThread" where
  "new_EventLoopThread numCreated cb nm =
     \<lparr>owner = P_Idle, thr = T_None, loop_ptr = None, exiting = False,
      thread = snd (new_Thread numCreated nm), sem = 0, mutex = Free, eloop = new_EventLoop,
      callback = cb, called = False, ub = False\<rparr>"

section \<open>Steps\<close>

definition Thread_start :: "EventLoopThread \<Rightarrow> EventLoopThread" where
  "Thread_start s = s\<lparr>thread := (thread s)\<lparr>started := True\<rparr>, sem := 0, thr := T_Created\<rparr>"

text \<open>
  \<^verbatim>\<open>startLoop\<close>: the value is \<open>None\<close> where the owner is blocked.  Waking up from the condition
  variable means to take the lock again and to repeat the test.
\<close>

definition startLoop_step :: "EventLoopThread \<Rightarrow> EventLoopThread option" where
  "startLoop_step s =
     (case owner s of
        P_Idle \<Rightarrow> Some (Thread_start s\<lparr>owner := P_SemWait\<rparr>)
      | P_SemWait \<Rightarrow> if 0 < sem s then Some (s\<lparr>sem := sem s - 1, owner := P_Lock\<rparr>) else None
      | P_Lock \<Rightarrow> if mutex s = Free then Some (s\<lparr>mutex := HeldByOwner, owner := P_Test\<rparr>) else None
      | P_Test \<Rightarrow> (case loop_ptr s of
            None \<Rightarrow> Some (s\<lparr>mutex := Free, owner := P_Waiting\<rparr>)
          | Some l \<Rightarrow> Some (s\<lparr>owner := P_Got l\<rparr>))
      | P_Got l \<Rightarrow> Some (s\<lparr>mutex := Free, owner := P_Returned l\<rparr>)
      | _ \<Rightarrow> None)"

text \<open>
  The destructor, which the program may call before \<^verbatim>\<open>startLoop\<close> or after it.  The call of
  \<^verbatim>\<open>quit\<close> is two steps, the flag and the write to the descriptor, both on the object the pointer
  led to; \<open>ub\<close> records the use of a dead object.  Without a loop the members die at once, the mutex
  among them, although a started thread may still use them.
\<close>

definition destructor_step :: "EventLoopThread \<Rightarrow> EventLoopThread option" where
  "destructor_step s =
     (case owner s of
        P_Idle \<Rightarrow> Some (s\<lparr>exiting := True, owner := D_Check\<rparr>)
      | P_Returned l \<Rightarrow> Some (s\<lparr>exiting := True, owner := D_Check\<rparr>)
      | D_Check \<Rightarrow> (case loop_ptr s of
            None \<Rightarrow> Some (s\<lparr>owner := D_Skipped,
              ub := ub s \<or> (Thread_detaches (thread s) \<and> thr s \<notin> {T_Unlocked, T_Exited})\<rparr>)
          | Some l \<Rightarrow> Some (s\<lparr>owner := D_Quit\<rparr>))
      | D_Quit \<Rightarrow> (case loop_ptr s of
            None \<Rightarrow> Some (s\<lparr>owner := D_Wakeup, ub := True\<rparr>)
          | Some l \<Rightarrow> Some (s\<lparr>owner := D_Wakeup,
              eloop := (eloop s)\<lparr>quit_flag := True, waking := waking (eloop s) + 1\<rparr>\<rparr>))
      | D_Wakeup \<Rightarrow> Some (s\<lparr>owner := D_Join, thread := Thread_join (thread s),
          eloop := (if 0 < waking (eloop s) then (wakeup (eloop s))\<lparr>waking := waking (eloop s) - 1\<rparr> else eloop s),
          ub := ub s \<or> thr s = T_Exited\<rparr>)
      | D_Join \<Rightarrow> if thr s = T_Exited then Some (s\<lparr>owner := D_Joined\<rparr>) else None
      | _ \<Rightarrow> None)"

text \<open>The function of the new thread and, before it, the lambda of \<^verbatim>\<open>Thread::start\<close>.\<close>

definition threadFunc_step :: "int \<Rightarrow> EventLoopThread \<Rightarrow> EventLoopThread option" where
  "threadFunc_step gettid s =
     (case thr s of
        T_None \<Rightarrow> None
      | T_Created \<Rightarrow> Some (s\<lparr>thread := (thread s)\<lparr>tid := fst (CurrentThread_tid gettid 0)\<rparr>, thr := T_Tid\<rparr>)
      | T_Tid \<Rightarrow> Some (s\<lparr>sem := sem s + 1, thr := T_Posted\<rparr>)
      | T_Posted \<Rightarrow> Some (s\<lparr>eloop := new_EventLoop, thr := T_Constructed\<rparr>)
      | T_Constructed \<Rightarrow> Some (s\<lparr>called := callback s, thr := T_Inited\<rparr>)
      | T_Inited \<Rightarrow>
          if mutex s = Free
          then Some (s\<lparr>mutex := HeldByThread, loop_ptr := Some (tid (thread s)), thr := T_Published\<rparr>)
          else None
      | T_Published \<Rightarrow> Some (s\<lparr>owner := (if owner s = P_Waiting then P_Lock else owner s), thr := T_Notified\<rparr>)
      | T_Notified \<Rightarrow> Some (s\<lparr>mutex := Free, thr := T_InLoop\<rparr>)
      | T_InLoop \<Rightarrow> if pc (eloop s) = Returned then Some (s\<lparr>thr := T_Ended\<rparr>) else None
      | T_Ended \<Rightarrow>
          if mutex s = Free then Some (s\<lparr>mutex := HeldByThread, loop_ptr := None, thr := T_Cleared\<rparr>) else None
      | T_Cleared \<Rightarrow> Some (s\<lparr>mutex := Free, thr := T_Unlocked\<rparr>)
      | T_Unlocked \<Rightarrow> Some (s\<lparr>thr := T_Exited\<rparr>)
      | T_Exited \<Rightarrow> None)"

text \<open>
  All steps: those of the two threads, the work of the initialisation callback on the loop, the
  loop itself together with the threads that use it, and spurious wake-ups of the condition variable.
\<close>

inductive elt_step :: "int \<Rightarrow> EventLoopThread \<Rightarrow> EventLoopThread \<Rightarrow> bool" for g where
  start: "startLoop_step s = Some s' \<Longrightarrow> elt_step g s s'"
| destroy: "destructor_step s = Some s' \<Longrightarrow> elt_step g s s'"
| run: "threadFunc_step g s = Some s' \<Longrightarrow> elt_step g s s'"
| init: "thr s = T_Constructed \<Longrightarrow> callback s \<Longrightarrow> step (eloop s) e \<Longrightarrow> pc e = NotStarted \<Longrightarrow>
    elt_step g s (s\<lparr>eloop := e\<rparr>)"
| looping: "thr s = T_InLoop \<Longrightarrow> step (eloop s) e \<Longrightarrow> elt_step g s (s\<lparr>eloop := e\<rparr>)"
| spurious: "owner s = P_Waiting \<Longrightarrow> elt_step g s (s\<lparr>owner := P_Lock\<rparr>)"

inductive_cases elt_stepE: "elt_step g s s'"

definition elt_reachable :: "int \<Rightarrow> EventLoopThread \<Rightarrow> bool" where
  "elt_reachable g s \<longleftrightarrow> (\<exists>n cb nm. (elt_step g)\<^sup>*\<^sup>* (new_EventLoopThread n cb nm) s)"

lemmas elt_step_defs = startLoop_step_def destructor_step_def threadFunc_step_def Thread_start_def

section \<open>Invariant\<close>

fun thread_rank :: "thread_pc \<Rightarrow> nat" where
  "thread_rank T_None = 0" | "thread_rank T_Created = 1" | "thread_rank T_Tid = 2"
| "thread_rank T_Posted = 3" | "thread_rank T_Constructed = 4" | "thread_rank T_Inited = 5"
| "thread_rank T_Published = 6" | "thread_rank T_Notified = 7" | "thread_rank T_InLoop = 8"
| "thread_rank T_Ended = 9" | "thread_rank T_Cleared = 10" | "thread_rank T_Unlocked = 11"
| "thread_rank T_Exited = 12"

fun in_startLoop :: "owner_pc \<Rightarrow> bool" where
  "in_startLoop P_SemWait \<longleftrightarrow> True" | "in_startLoop P_Lock \<longleftrightarrow> True" | "in_startLoop P_Test \<longleftrightarrow> True"
| "in_startLoop P_Waiting \<longleftrightarrow> True" | "in_startLoop (P_Got l) \<longleftrightarrow> True" | "in_startLoop _ \<longleftrightarrow> False"

fun owner_locked :: "owner_pc \<Rightarrow> bool" where
  "owner_locked P_Test \<longleftrightarrow> True" | "owner_locked (P_Got l) \<longleftrightarrow> True" | "owner_locked _ \<longleftrightarrow> False"

fun loop_seen :: "owner_pc \<Rightarrow> int option" where
  "loop_seen (P_Got l) = Some l" | "loop_seen (P_Returned l) = Some l" | "loop_seen _ = None"

definition elt_inv :: "int \<Rightarrow> EventLoopThread \<Rightarrow> bool" where
  "elt_inv g s \<longleftrightarrow>
     (let r = thread_rank (thr s)
      in (loop_ptr s = (if 6 \<le> r \<and> r \<le> 9 then Some g else None)) \<and>
         (2 \<le> r \<longrightarrow> tid (thread s) = g) \<and>
         (mutex s = HeldByThread \<longleftrightarrow> r = 6 \<or> r = 7 \<or> r = 10) \<and>
         (mutex s = HeldByOwner \<longleftrightarrow> owner_locked (owner s)) \<and>
         (5 \<le> r \<longrightarrow> called s = callback s) \<and>
         (\<forall>l. loop_seen (owner s) = Some l \<longrightarrow> l = g \<and> 8 \<le> r) \<and>
         (owner s = P_Waiting \<longrightarrow> r < 7 \<or> 9 < r) \<and>
         (owner s = P_Idle \<longrightarrow> r = 0) \<and>
         (owner s = P_SemWait \<longrightarrow> 0 < r \<and> (0 < sem s \<longleftrightarrow> 3 \<le> r)) \<and>
         (in_startLoop (owner s) \<and> owner s \<noteq> P_SemWait \<longrightarrow> 3 \<le> r) \<and>
         (owner s = P_Idle \<or> in_startLoop (owner s) \<or> loop_seen (owner s) \<noteq> None \<longrightarrow> \<not> ub s))"

lemma new_elt_inv: "elt_inv g (new_EventLoopThread n cb nm)"
  by (simp add: elt_inv_def new_EventLoopThread_def)

lemma startLoop_step_inv:
  assumes "startLoop_step s = Some s'" and "elt_inv g s"
  shows "elt_inv g s'"
  using assms
  by (cases "owner s"; simp add: startLoop_step_def Thread_start_def elt_inv_def Let_def split: if_splits option.splits;
      (elim conjE)?; hypsubst?; simp?; linarith?)

lemma destructor_step_inv:
  assumes "destructor_step s = Some s'" and "elt_inv g s"
  shows "elt_inv g s'"
  using assms
  by (cases "owner s"; simp add: destructor_step_def elt_inv_def Let_def split: if_splits option.splits;
      (elim conjE)?; hypsubst?; simp?; linarith?)

lemma threadFunc_step_inv:
  assumes "threadFunc_step g s = Some s'" and "elt_inv g s"
  shows "elt_inv g s'"
  using assms
  by (cases "thr s"; simp add: threadFunc_step_def elt_inv_def Let_def CurrentThread_tid_def cacheTid_def
        split: if_splits; (elim conjE)?; hypsubst?; simp?; linarith?)

lemma elt_step_inv: "elt_step g s s' \<Longrightarrow> elt_inv g s \<Longrightarrow> elt_inv g s'"
proof (induction rule: elt_step.induct)
  case (spurious s)
  then show ?case by (simp add: elt_inv_def Let_def)
qed (simp_all add: startLoop_step_inv destructor_step_inv threadFunc_step_inv, simp_all add: elt_inv_def)

lemma elt_reachable_inv: "elt_reachable g s \<Longrightarrow> elt_inv g s"
proof -
  have "(elt_step g)\<^sup>*\<^sup>* s0 s \<Longrightarrow> elt_inv g s0 \<Longrightarrow> elt_inv g s" for s0 s
    by (induction rule: rtranclp_induct) (auto intro: elt_step_inv)
  then show "elt_reachable g s \<Longrightarrow> elt_inv g s" using new_elt_inv by (auto simp: elt_reachable_def)
qed

section \<open>Schedules\<close>

text \<open>A run under a given schedule, as a function: what the examples evaluate.\<close>

datatype elt_event = StartLoop | Destructor | ThreadFunc | LoopStep bool | LoopQuit

fun elt_exec :: "int \<Rightarrow> elt_event \<Rightarrow> EventLoopThread \<Rightarrow> EventLoopThread option" where
  "elt_exec g StartLoop s = startLoop_step s"
| "elt_exec g Destructor s = destructor_step s"
| "elt_exec g ThreadFunc s = threadFunc_step g s"
| "elt_exec g (LoopStep w) s = (if thr s = T_InLoop then Some (s\<lparr>eloop := loop_step w (eloop s)\<rparr>) else None)"
| "elt_exec g LoopQuit s = (if thr s = T_InLoop \<and> in_callback (eloop s)
     then Some (s\<lparr>eloop := quit True (eloop s)\<rparr>) else None)"

fun elt_run :: "int \<Rightarrow> elt_event list \<Rightarrow> EventLoopThread \<Rightarrow> EventLoopThread option" where
  "elt_run g [] s = Some s"
| "elt_run g (e # es) s = Option.bind (elt_exec g e s) (elt_run g es)"

lemma elt_exec_step: "elt_exec g e s = Some s' \<Longrightarrow> elt_step g s s'"
  by (cases e) (auto intro: elt_step.intros step.intros split: if_splits)

lemma elt_run_steps: "elt_run g es s = Some s' \<Longrightarrow> (elt_step g)\<^sup>*\<^sup>* s s'"
  by (induction es arbitrary: s)
    (auto split: bind_splits intro: converse_rtranclp_into_rtranclp elt_exec_step)

lemma elt_run_reachable: "elt_run g es (new_EventLoopThread n cb nm) = Some s \<Longrightarrow> elt_reachable g s"
  by (auto simp: elt_reachable_def dest: elt_run_steps)

section \<open>Start\<close>

definition startup_step :: "int \<Rightarrow> EventLoopThread \<Rightarrow> EventLoopThread \<Rightarrow> bool" where
  "startup_step g s s' \<longleftrightarrow> startLoop_step s = Some s' \<or> (thr s \<noteq> T_InLoop \<and> threadFunc_step g s = Some s')"

fun owner_rank :: "owner_pc \<Rightarrow> nat" where
  "owner_rank P_SemWait = 6" | "owner_rank P_Lock = 5" | "owner_rank P_Test = 4"
| "owner_rank P_Waiting = 3" | "owner_rank (P_Got l) = 2" | "owner_rank _ = 0"

definition startup_rank :: "EventLoopThread \<Rightarrow> nat" where
  "startup_rank s = 10 * (8 - thread_rank (thr s)) + owner_rank (owner s)"

lemma mutex_cases:
  assumes "elt_inv g s"
  shows "mutex s = Free \<longleftrightarrow> \<not> owner_locked (owner s) \<and> thread_rank (thr s) \<notin> {6, 7, 10}"
  using assms by (cases "mutex s") (auto simp: elt_inv_def Let_def)

lemma startup_progress:
  assumes inv: "elt_inv g s" and st: "in_startLoop (owner s)" and r: "thread_rank (thr s) \<le> 8"
  shows "\<exists>s'. startup_step g s s'"
proof (cases "owner s = P_Test \<or> (\<exists>l. owner s = P_Got l)")
  case True
  then show ?thesis by (auto simp: startup_step_def startLoop_step_def split: option.splits)
next
  case False
  then have free: "mutex s = Free \<longleftrightarrow> thread_rank (thr s) \<notin> {6, 7, 10}"
    using mutex_cases [OF inv] st by (cases "owner s") simp_all
  show ?thesis
  proof (cases "thr s = T_InLoop \<or> thr s = T_None")
    case True
    then have "owner s = P_Lock \<or> owner s = P_SemWait \<and> 0 < sem s"
      using inv st False by (cases "owner s") (auto simp: elt_inv_def Let_def)
    then show ?thesis using free True by (auto simp: startup_step_def startLoop_step_def)
  next
    case False
    then show ?thesis using free r
      by (cases "thr s") (auto simp: startup_step_def threadFunc_step_def)
  qed
qed

lemma startup_decreases:
  assumes inv: "elt_inv g s" and st: "in_startLoop (owner s)" and r: "thread_rank (thr s) \<le> 8"
    and step: "startup_step g s s'"
  shows "startup_rank s' < startup_rank s \<and> thread_rank (thr s') \<le> 8 \<and>
    (in_startLoop (owner s') \<or> owner s' = P_Returned g)"
proof (cases "startLoop_step s = Some s'")
  case True
  then have "\<forall>l. owner s = P_Got l \<longrightarrow> l = g" using inv by (auto simp: elt_inv_def Let_def)
  with True show ?thesis using st r
    by (cases "owner s") (auto simp: startLoop_step_def startup_rank_def split: if_splits option.splits)
next
  case False
  then have "threadFunc_step g s = Some s'" "thr s \<noteq> T_InLoop" using step by (auto simp: startup_step_def)
  then show ?thesis using st r
    by (cases "thr s") (auto simp: threadFunc_step_def startup_rank_def split: if_splits)
qed

section \<open>Destruction\<close>

text \<open>The progress of a running loop that has been asked to quit, as a lexicographic rank.\<close>

fun loop_rank :: "loop_pc \<Rightarrow> nat \<times> nat" where
  "loop_rank Polling = (4, 0)" | "loop_rank Dispatching = (3, 0)" | "loop_rank Swapping = (2, 0)"
| "loop_rank (Running fs) = (1, Suc (length fs))" | "loop_rank Test = (1, 0)" | "loop_rank Returned = (0, 0)"
| "loop_rank NotStarted = (0, 0)"

definition rank_less :: "loop_pc \<Rightarrow> loop_pc \<Rightarrow> bool" where
  "rank_less p q \<longleftrightarrow> (loop_rank p, loop_rank q) \<in> less_than <*lex*> less_than"

lemma loop_step_rank:
  assumes "quit_flag e" and "pc e \<notin> {NotStarted, Returned}"
  shows "rank_less (pc (loop_step w e)) (pc e) \<and> quit_flag (loop_step w e) \<and> pc (loop_step w e) \<noteq> NotStarted"
  using assms
  by (auto simp: rank_less_def loop_step.simps loop_op_defs split: loop_pc.splits list.splits)

lemma step_keeps_quit:
  assumes "step e e'" and "quit_flag e" and "pc e \<notin> {NotStarted, Returned}"
  shows "quit_flag e' \<and> pc e' \<noteq> NotStarted \<and> (pc e' = pc e \<or> rank_less (pc e') (pc e))"
  using assms
proof (cases rule: step.cases)
  case (loop w)
  then show ?thesis using loop_step_rank [OF assms(2,3)] by simp
qed (auto simp: loop_op_defs Let_def)

lemma step_without_quit:
  assumes "step e e'" and "pc e = NotStarted \<or> pc e \<noteq> Returned \<and> \<not> quit_flag e"
    and "quit_flag e' \<longrightarrow> quit_flag e"
  shows "pc e' = NotStarted \<or> pc e' \<noteq> Returned \<and> \<not> quit_flag e'"
  using assms
proof (cases rule: step.cases)
  case (loop w)
  then show ?thesis using assms(2) by (auto simp: loop_step.simps loop_op_defs split: loop_pc.splits list.splits)
qed (auto simp: loop_op_defs Let_def)

text \<open>The loop object of the new thread only goes through steps of \<open>Event_Loop\<close>.\<close>

lemma elt_step_eloop:
  assumes "elt_step g s s'" and "step\<^sup>*\<^sup>* new_EventLoop (eloop s)"
  shows "step\<^sup>*\<^sup>* new_EventLoop (eloop s')"
  using assms
proof (cases rule: elt_step.cases)
  case destroy
  then have "eloop s' = eloop s \<or> step (eloop s) (eloop s')"
    using step.other_quit [of "eloop s"] step.other_wakeup [of "eloop s"]
    by (cases "owner s") (auto simp: destructor_step_def split: option.splits if_splits)
  then show ?thesis using assms(2) by (auto intro: rtranclp.rtrancl_into_rtrancl)
next
  case start
  then show ?thesis using assms(2)
    by (cases "owner s") (auto simp: startLoop_step_def Thread_start_def split: option.splits if_splits)
next
  case run
  then show ?thesis using assms(2)
    by (cases "thr s") (auto simp: threadFunc_step_def split: if_splits)
qed (auto intro: rtranclp.rtrancl_into_rtrancl)

lemma elt_reachable_eloop: "elt_reachable g s \<Longrightarrow> step\<^sup>*\<^sup>* new_EventLoop (eloop s)"
proof -
  have "(elt_step g)\<^sup>*\<^sup>* s0 s \<Longrightarrow> eloop s0 = new_EventLoop \<Longrightarrow> step\<^sup>*\<^sup>* new_EventLoop (eloop s)" for s0 s
    by (induction rule: rtranclp_induct) (auto intro: elt_step_eloop)
  then show "elt_reachable g s \<Longrightarrow> step\<^sup>*\<^sup>* new_EventLoop (eloop s)"
    by (auto simp: elt_reachable_def new_EventLoopThread_def)
qed

text \<open>The owner waits in \<^verbatim>\<open>join\<close> for a loop that runs and has been asked to quit, or has returned.\<close>

definition joining :: "EventLoopThread \<Rightarrow> bool" where
  "joining s \<longleftrightarrow> owner s = D_Join \<and> 8 \<le> thread_rank (thr s) \<and>
     (thr s = T_InLoop \<longrightarrow> pc (eloop s) \<noteq> NotStarted \<and> (quit_flag (eloop s) \<or> pc (eloop s) = Returned))"

definition join_rank :: "EventLoopThread \<Rightarrow> nat \<times> nat \<times> nat \<times> nat" where
  "join_rank s =
     (if owner s = D_Joined then 0 else 1, 12 - thread_rank (thr s),
      if thr s = T_InLoop then loop_rank (pc (eloop s)) else (0, 0))"

definition join_less :: "EventLoopThread \<Rightarrow> EventLoopThread \<Rightarrow> bool" where
  "join_less s' s \<longleftrightarrow>
     (join_rank s', join_rank s) \<in> less_than <*lex*> less_than <*lex*> less_than <*lex*> less_than"

lemma wfp_join_less: "wfp join_less"
proof -
  have "wf (inv_image (less_than <*lex*> less_than <*lex*> less_than <*lex*> less_than) join_rank)"
    by (intro wf_inv_image wf_lex_prod wf_less_than)
  then show ?thesis by (simp add: wfp_def inv_image_def join_less_def)
qed

lemma thread_rank_le: "thread_rank t \<le> 12"
  by (cases t) simp_all

lemma join_lessI:
  "owner s \<noteq> D_Joined \<Longrightarrow> owner s' = D_Joined \<Longrightarrow> join_less s' s"
  "owner s' = owner s \<Longrightarrow> thread_rank (thr s) < thread_rank (thr s') \<Longrightarrow> join_less s' s"
  "owner s' = owner s \<Longrightarrow> thr s' = thr s \<Longrightarrow> thr s = T_InLoop \<Longrightarrow> rank_less (pc (eloop s')) (pc (eloop s)) \<Longrightarrow>
   join_less s' s"
  using thread_rank_le [of "thr s'"] by (auto simp: join_less_def join_rank_def rank_less_def)

lemma joining_step:
  assumes j: "joining s" and step: "elt_step g s s'"
  shows "owner s' = D_Joined \<or> joining s' \<and> (join_less s' s \<or> thr s' = thr s \<and> pc (eloop s') = pc (eloop s))"
  using step
proof (cases rule: elt_step.cases)
  case (looping e)
  show ?thesis
  proof (cases "pc (eloop s) = Returned")
    case True
    have "pc e = Returned"
      using looping(3) True by (cases rule: step.cases) (auto simp: loop_step.simps loop_op_defs Let_def)
    then show ?thesis using True j looping(1,2) by (simp add: joining_def)
  next
    case False
    then have "quit_flag (eloop s)" "pc (eloop s) \<notin> {NotStarted, Returned}"
      using j looping(2) by (auto simp: joining_def)
    from step_keeps_quit [OF looping(3) this] show ?thesis
      using j looping(1,2) by (auto simp: joining_def intro: join_lessI)
  qed
next
  case run
  then show ?thesis using j
    by (cases "thr s") (auto simp: threadFunc_step_def joining_def intro: join_lessI split: if_splits)
qed (use j in \<open>auto simp: joining_def startLoop_step_def destructor_step_def split: if_splits\<close>)

lemma joining_progress:
  assumes j: "joining s" and inv: "elt_inv g s"
  shows "\<exists>s'. elt_step g s s' \<and> join_less s' s"
proof (cases "thr s = T_InLoop \<and> pc (eloop s) \<noteq> Returned")
  case True
  then have "rank_less (pc (loop_step True (eloop s))) (pc (eloop s))"
    using loop_step_rank j by (auto simp: joining_def)
  moreover have "elt_step g s (s\<lparr>eloop := loop_step True (eloop s)\<rparr>)"
    using True by (intro elt_step.looping step.loop) simp
  ultimately show ?thesis using True by (auto intro!: exI join_lessI(3))
next
  case False
  have free: "mutex s = Free" if "thr s = T_Ended"
    using mutex_cases [OF inv] j that by (simp add: joining_def)
  have "(\<exists>s'. threadFunc_step g s = Some s' \<and> join_less s' s) \<or> (\<exists>s'. destructor_step s = Some s' \<and> join_less s' s)"
    using False j free
    by (cases "thr s") (auto simp: joining_def threadFunc_step_def destructor_step_def intro: join_lessI)
  then show ?thesis by (meson elt_step.run elt_step.destroy)
qed

text \<open>A run that never joins keeps its position from some moment on.\<close>

lemma joining_settles:
  assumes j: "joining (r 0)" and run: "\<And>i. elt_step g (r i) (r (Suc i))" and no: "\<And>i. owner (r i) \<noteq> D_Joined"
  shows "\<exists>n. \<forall>i \<ge> n. thr (r i) = thr (r n) \<and> pc (eloop (r i)) = pc (eloop (r n))"
proof -
  have js: "joining (r i)" for i
    by (induction i) (use j joining_step [OF _ run] no in blast)+
  obtain n where n: "\<And>i. \<not> join_less (r i) (r n)"
    using wfp_join_less unfolding wfp_eq_minimal by (metis rangeE rangeI)
  have "thr (r (n + i)) = thr (r n) \<and> pc (eloop (r (n + i))) = pc (eloop (r n))" for i
  proof (induction i)
    case (Suc i)
    have "join_rank (r (n + i)) = join_rank (r n)"
      using Suc.IH js [of n] js [of "n + i"] by (simp add: join_rank_def joining_def)
    then have "\<not> join_less (r (n + Suc i)) (r (n + i))" using n by (simp add: join_less_def)
    then show ?case using joining_step [OF js run, of "n + i"] no Suc.IH by auto
  qed simp
  then show ?thesis by (metis le_add_diff_inverse)
qed

lemma joining_woken:
  assumes "joining s" and "elt_reachable g s" and "thr s = T_InLoop" and "pc (eloop s) = Polling"
  shows "wake_pending (eloop s)"
  using steps_inv [OF elt_reachable_eloop [OF assms(2)] new_EventLoop_inv] assms
  by (auto simp: joining_def loop_inv_def)

section \<open>Properties\<close>

text \<open>When \<^verbatim>\<open>startLoop\<close> returns, its result is the loop of the new thread, whose identifier is known; the
  initialisation callback has run, if there is one; the new thread has released the mutex and
  entered \<^verbatim>\<open>loop()\<close>; and nothing undefined has happened.\<close>

lemma startLoop_returns_own_loop:
  assumes "elt_reachable g s" and "owner s = P_Returned l"
  shows "l = g \<and> tid (thread s) = g \<and> called s = callback s \<and> 8 \<le> thread_rank (thr s) \<and>
    mutex s \<noteq> HeldByOwner \<and> \<not> ub s"
  using elt_reachable_inv [OF assms(1)] assms(2) by (auto simp: elt_inv_def Let_def)

text \<open>The schedule of an undisturbed start.\<close>

definition start_schedule :: "elt_event list" where
  "start_schedule = [StartLoop, ThreadFunc, ThreadFunc, StartLoop, StartLoop, StartLoop,
     ThreadFunc, ThreadFunc, ThreadFunc, ThreadFunc, ThreadFunc, StartLoop, StartLoop, StartLoop]"

text \<open>C20. No lost notification: while \<^verbatim>\<open>startLoop\<close> has not returned and the loop has not ended, one of the
  two threads can take a step of the start, and every such step decreases a rank; so, spurious
  wake-ups apart, \<^verbatim>\<open>startLoop\<close> returns the new loop after at most \<open>startup_rank\<close> steps.\<close>

theorem startLoop_returns:
  assumes "elt_reachable g s" and "in_startLoop (owner s)" and "thread_rank (thr s) \<le> 8"
  shows "(\<exists>s'. startup_step g s s') \<and>
    (\<forall>s'. startup_step g s s' \<longrightarrow> startup_rank s' < startup_rank s \<and> thread_rank (thr s') \<le> 8 \<and>
      (in_startLoop (owner s') \<or> owner s' = P_Returned g))"
  using startup_progress [OF elt_reachable_inv [OF assms(1)] assms(2,3)]
    startup_decreases [OF elt_reachable_inv [OF assms(1)] assms(2,3)] by blast

theorem startLoop_returns_witness:
  "\<exists>s s'. elt_reachable 7 s \<and> owner s = P_Waiting \<and> thr s = T_Published \<and> startup_step 7 s s' \<and>
    startup_rank s' < startup_rank s"
proof -
  have "map_option (\<lambda>s. (owner s, thr s)) (elt_run 7 (take 9 start_schedule) (new_EventLoopThread 0 True []))
      = Some (P_Waiting, T_Published)" by code_simp
  then obtain s where s: "elt_reachable 7 s" "owner s = P_Waiting" "thr s = T_Published"
    using elt_run_reachable by fastforce
  then have "in_startLoop (owner s)" and "thread_rank (thr s) \<le> 8" by simp_all
  from startLoop_returns [OF s(1) this] s show ?thesis by blast
qed

text \<open>The loop that has ended while \<^verbatim>\<open>startLoop\<close> still waits for it.\<close>

lemma missed_loop_step:
  assumes "elt_step g s s'" and "elt_inv g s" and "owner s \<in> {P_Waiting, P_Lock, P_Test}" and "10 \<le> thread_rank (thr s)"
  shows "owner s' \<in> {P_Waiting, P_Lock, P_Test} \<and> 10 \<le> thread_rank (thr s')"
proof -
  have "loop_ptr s = None" using assms(2,4) by (simp add: elt_inv_def Let_def)
  with assms(1,3,4) show ?thesis
    by (cases rule: elt_step.cases; cases "thr s")
      (auto simp: startLoop_step_def destructor_step_def threadFunc_step_def split: if_splits)
qed

text \<open>The pointer to the loop is the only thing \<^verbatim>\<open>startLoop\<close> waits for, and the new thread clears it when
  its loop ends: if the loop ends before the owner has looked, which needs no more than a quit from
  one of its own callbacks, then \<^verbatim>\<open>startLoop\<close> never returns.\<close>

lemma startLoop_misses_ended_loop:
  assumes "elt_reachable g s" and "owner s \<in> {P_Waiting, P_Lock, P_Test}" and "10 \<le> thread_rank (thr s)"
    and "(elt_step g)\<^sup>*\<^sup>* s s'"
  shows "owner s' \<noteq> P_Returned l"
proof -
  from assms(4) have "elt_inv g s' \<and> owner s' \<in> {P_Waiting, P_Lock, P_Test} \<and> 10 \<le> thread_rank (thr s')"
  proof (induction rule: rtranclp_induct)
    case base
    then show ?case using assms(2,3) elt_reachable_inv [OF assms(1)] by blast
  next
    case (step y z)
    then show ?case using missed_loop_step elt_step_inv by blast
  qed
  then show ?thesis by auto
qed

definition missed_schedule :: "elt_event list" where
  "missed_schedule = take 11 start_schedule @
     [LoopStep False, LoopStep False, LoopStep True, LoopQuit, LoopStep False, LoopStep False, LoopStep False,
      LoopStep False, ThreadFunc, ThreadFunc, ThreadFunc, ThreadFunc]"

text \<open>Such a run: the owner is notified, but the loop runs, is asked to quit and ends before the owner gets the mutex.\<close>

lemma missed_schedule_ends:
  "map_option (\<lambda>s. (owner s, thr s, loop_ptr s)) (elt_run 5 missed_schedule (new_EventLoopThread 0 False ''w'')) =
    Some (P_Lock, T_Exited, None)"
  by code_simp



text \<open>A step that does not raise the quit flag of the loop.\<close>

definition quiet_step :: "int \<Rightarrow> EventLoopThread \<Rightarrow> EventLoopThread \<Rightarrow> bool" where
  "quiet_step g s s' \<longleftrightarrow> elt_step g s s' \<and> (quit_flag (eloop s') \<longrightarrow> quit_flag (eloop s))"

lemma quiet_step_joins_not:
  assumes "quiet_step g s s'" and "owner s = D_Join" and "thr s = T_InLoop"
    and "pc (eloop s) = NotStarted \<or> pc (eloop s) \<noteq> Returned \<and> \<not> quit_flag (eloop s)"
  shows "owner s' = D_Join \<and> thr s' = T_InLoop \<and>
    (pc (eloop s') = NotStarted \<or> pc (eloop s') \<noteq> Returned \<and> \<not> quit_flag (eloop s'))"
proof -
  have "elt_step g s s'" and q: "quit_flag (eloop s') \<longrightarrow> quit_flag (eloop s)"
    using assms(1) by (simp_all add: quiet_step_def)
  then show ?thesis
  proof (cases rule: elt_step.cases)
    case (looping e)
    then show ?thesis using step_without_quit [OF looping(3) assms(4)] q assms(2) by simp
  qed (use assms(2-4) in \<open>auto simp: startLoop_step_def destructor_step_def threadFunc_step_def\<close>)
qed

text \<open>The quit request of the destructor is lost when the new thread has not yet entered \<^verbatim>\<open>loop()\<close>, which
  clears the flag: unless something else asks the loop to quit, \<^verbatim>\<open>join\<close> never returns.\<close>

lemma early_destruction_never_joins:
  assumes "owner s = D_Join" and "thr s = T_InLoop" and "pc (eloop s) = NotStarted"
    and "(quiet_step g)\<^sup>*\<^sup>* s s'"
  shows "owner s' \<noteq> D_Joined"
proof -
  from assms(4) have "owner s' = D_Join \<and> thr s' = T_InLoop \<and>
    (pc (eloop s') = NotStarted \<or> pc (eloop s') \<noteq> Returned \<and> \<not> quit_flag (eloop s'))"
    by (induction rule: rtranclp_induct) (use assms(1-3) quiet_step_joins_not in blast)+
  then show ?thesis by simp
qed

end
