(* ===== verification/Timer_Queue.thy ===== *)
theory Timer_Queue
  imports Time_Stamp "HOL-Library.Product_Lexorder"
begin

text \<open>
  Timers (\<^verbatim>\<open>include/Timer.h\<close>, \<^verbatim>\<open>src/Timer.cpp\<close>, \<^verbatim>\<open>src/TimerQueue.cpp\<close>).
  Timer objects live in a heap indexed by their address, so that a dangling pointer is a fault;
  \<^verbatim>\<open>timers_\<close> is the ordered set of (expiration, address) pairs as a sorted list.  Time is \<open>int\<close>
  microseconds; the interval of a timer is the pair of what the code uses of the \<^verbatim>\<open>double\<close>: the
  truncated number of microseconds, and whether it is positive.  The allocator is a parameter that
  may fail, and what a timer's callback does to the queue is a parameter too.  The lemmas show that
  the two sets and the heap always agree, so that no operation follows a dangling pointer or leaks
  a timer, that exactly the expired timers run, in order, and that the descriptor is armed.
\<close>

section \<open>Time\<close>

text \<open>Seconds and nanoseconds of the time to wait; \<^verbatim>\<open>/\<close> and \<^verbatim>\<open>%\<close> act on a non-negative number here.\<close>

definition howMuchTimeFromNow :: "int \<Rightarrow> int \<Rightarrow> int \<times> int" where
  "howMuchTimeFromNow now when =
     (let microseconds = when - now;
          microseconds = (if microseconds < 100 then 100 else microseconds)
      in (microseconds div kMicroSecondsPerSecond, microseconds mod kMicroSecondsPerSecond * 1000))"

section \<open>State\<close>

record Timer =
  t_callback :: nat
  t_expiration :: int
  t_delta :: int
  t_repeat :: bool
  t_sequence :: int

definition UINTPTR_MAX :: nat where
  "UINTPTR_MAX = 2 ^ 64 - 1"

record TimerQueue =
  timers :: "(int \<times> nat) list"
  activeTimers :: "(nat \<times> int) set"
  callingExpiredTimers :: bool
  cancelingTimers :: "(nat \<times> int) set"
  heap :: "nat \<rightharpoonup> Timer"
  numCreated :: int
  armed :: "int option"
  arms :: nat
  tq_clock :: "nat \<Rightarrow> int"
  tq_settime :: "nat \<Rightarrow> int"
  ran :: "nat list"

text \<open>
  Beside the members: the time the descriptor will fire, the number of times it has been armed, what the clock
  and \<^verbatim>\<open>timerfd_settime\<close> answer each of these times, and the timers that have run.
\<close>

definition new_TimerQueue :: "(nat \<Rightarrow> int) \<Rightarrow> (nat \<Rightarrow> int) \<Rightarrow> TimerQueue" where
  "new_TimerQueue clock settime =
     \<lparr>timers = [], activeTimers = {}, callingExpiredTimers = False, cancelingTimers = {},
      heap = Map.empty, numCreated = 0, armed = None, arms = 0, tq_clock = clock, tq_settime = settime, ran = []\<rparr>"

definition deref :: "nat \<Rightarrow> TimerQueue \<Rightarrow> Timer result" where
  "deref a q = (case heap q a of None \<Rightarrow> Inl UseAfterFree | Some t \<Rightarrow> Inr t)"

definition delete_timer :: "nat \<Rightarrow> TimerQueue \<Rightarrow> TimerQueue" where
  "delete_timer a q = q\<lparr>heap := (heap q)(a := None)\<rparr>"

text \<open>Insertion into an ordered set.\<close>

definition set_put :: "'a::linorder \<Rightarrow> 'a list \<Rightarrow> 'a list" where
  "set_put x xs = (if x \<in> set xs then xs else insort x xs)"

text \<open>\<^verbatim>\<open>new Timer\<close>, with the address the allocator answers for the heap as it is.\<close>

definition new_Timer ::
    "((nat \<rightharpoonup> Timer) \<Rightarrow> nat option) \<Rightarrow> nat \<Rightarrow> int \<Rightarrow> int \<times> bool \<Rightarrow> TimerQueue \<Rightarrow> (nat \<times> TimerQueue) result" where
  "new_Timer alloc cb when interval q =
     (case alloc (heap q) of
        None \<Rightarrow> Inl BadAlloc
      | Some a \<Rightarrow>
          Inr (a, q\<lparr>heap := (heap q)(a \<mapsto> \<lparr>t_callback = cb, t_expiration = when, t_delta = fst interval,
                                          t_repeat = snd interval, t_sequence = numCreated q\<rparr>),
                    numCreated := numCreated q + 1\<rparr>))"

definition restart :: "int \<Rightarrow> Timer \<Rightarrow> Timer" where
  "restart now t =
     (if t_repeat t then t\<lparr>t_expiration := addTime now (t_delta t)\<rparr> else t\<lparr>t_expiration := 0\<rparr>)"

text \<open>
  The descriptor is armed relative to a new reading of the clock; when that fails, this is only logged.
\<close>

definition resetTimerfd :: "int \<Rightarrow> TimerQueue \<Rightarrow> TimerQueue" where
  "resetTimerfd expiration q =
     (let now = tq_clock q (arms q);
          (s, ns) = howMuchTimeFromNow now expiration;
          q1 = q\<lparr>arms := arms q + 1\<rparr>
      in if tq_settime q (arms q) < 0 then q1
         else q1\<lparr>armed := Some (now + s * kMicroSecondsPerSecond + ns div 1000)\<rparr>)"

section \<open>Operations\<close>

definition tq_insert :: "nat \<Rightarrow> TimerQueue \<Rightarrow> (bool \<times> TimerQueue) result" where
  "tq_insert a q =
     bind_result (deref a q) (\<lambda>t.
       let when = t_expiration t;
           earliestChanged = (case timers q of [] \<Rightarrow> True | e # _ \<Rightarrow> when < fst e)
       in Inr (earliestChanged,
               q\<lparr>timers := set_put (when, a) (timers q),
                 activeTimers := insert (a, t_sequence t) (activeTimers q)\<rparr>))"

definition addTimerInLoop :: "nat \<Rightarrow> TimerQueue \<Rightarrow> TimerQueue result" where
  "addTimerInLoop a q =
     bind_result (tq_insert a q) (\<lambda>(earliestChanged, q').
       if earliestChanged
       then bind_result (deref a q') (\<lambda>t. Inr (resetTimerfd (t_expiration t) q'))
       else Inr q')"

definition addTimer ::
    "((nat \<rightharpoonup> Timer) \<Rightarrow> nat option) \<Rightarrow> nat \<Rightarrow> int \<Rightarrow> int \<times> bool \<Rightarrow> TimerQueue \<Rightarrow>
     ((nat \<times> int) \<times> TimerQueue) result" where
  "addTimer alloc cb when interval q =
     bind_result (new_Timer alloc cb when interval q) (\<lambda>(a, q1).
       bind_result (addTimerInLoop a q1) (\<lambda>q2.
         bind_result (deref a q2) (\<lambda>t. Inr ((a, t_sequence t), q2))))"

definition cancelInLoop :: "nat \<times> int \<Rightarrow> TimerQueue \<Rightarrow> TimerQueue result" where
  "cancelInLoop timer q =
     (if timer \<in> activeTimers q then
        bind_result (deref (fst timer) q) (\<lambda>t.
          let q1 = q\<lparr>timers := removeAll (t_expiration t, fst timer) (timers q)\<rparr>;
              q2 = delete_timer (fst timer) q1
          in Inr (q2\<lparr>activeTimers := activeTimers q2 - {timer}\<rparr>))
      else if callingExpiredTimers q
      then Inr (q\<lparr>cancelingTimers := insert timer (cancelingTimers q)\<rparr>)
      else Inr q)"

text \<open>What the callback of a timer does to the queue: it adds and cancels timers.\<close>

datatype tq_op = OpAdd nat int "int \<times> bool" | OpCancel "nat \<times> int"

fun run_op :: "((nat \<rightharpoonup> Timer) \<Rightarrow> nat option) \<Rightarrow> tq_op \<Rightarrow> TimerQueue \<Rightarrow> TimerQueue result" where
  "run_op alloc (OpAdd cb when interval) q =
     bind_result (addTimer alloc cb when interval q) (\<lambda>(i, q'). Inr q')"
| "run_op alloc (OpCancel i) q = cancelInLoop i q"

definition getExpired :: "int \<Rightarrow> TimerQueue \<Rightarrow> ((int \<times> nat) list \<times> TimerQueue) result" where
  "getExpired now q =
     (let expired = takeWhile (\<lambda>e. e < (now, UINTPTR_MAX)) (timers q);
          q1 = q\<lparr>timers := dropWhile (\<lambda>e. e < (now, UINTPTR_MAX)) (timers q)\<rparr>
      in bind_result
           (fold_result (\<lambda>(w, a) q. bind_result (deref a q) (\<lambda>t.
              Inr (q\<lparr>activeTimers := activeTimers q - {(a, t_sequence t)}\<rparr>))) expired q1)
           (\<lambda>q2. Inr (expired, q2)))"

definition run_timer ::
    "((nat \<rightharpoonup> Timer) \<Rightarrow> nat option) \<Rightarrow> (nat \<Rightarrow> tq_op list) \<Rightarrow> int \<times> nat \<Rightarrow> TimerQueue \<Rightarrow> TimerQueue result" where
  "run_timer alloc cbs e q =
     bind_result (deref (snd e) q) (\<lambda>t.
       fold_result (run_op alloc) (cbs (t_callback t)) (q\<lparr>ran := ran q @ [snd e]\<rparr>))"

definition reset_one :: "int \<Rightarrow> int \<times> nat \<Rightarrow> TimerQueue \<Rightarrow> TimerQueue result" where
  "reset_one now e q =
     bind_result (deref (snd e) q) (\<lambda>t.
       if t_repeat t \<and> (snd e, t_sequence t) \<notin> cancelingTimers q
       then bind_result (tq_insert (snd e) (q\<lparr>heap := (heap q)(snd e \<mapsto> restart now t)\<rparr>)) (\<lambda>(c, q'). Inr q')
       else Inr (delete_timer (snd e) q))"

definition reset_timers :: "(int \<times> nat) list \<Rightarrow> int \<Rightarrow> TimerQueue \<Rightarrow> TimerQueue result" where
  "reset_timers expired now q =
     bind_result (fold_result (reset_one now) expired q) (\<lambda>q1.
       let nextExpire = (case timers q1 of [] \<Rightarrow> 0 | e # _ \<Rightarrow> fst e)
       in Inr (if timestamp_valid nextExpire then resetTimerfd nextExpire q1 else q1))"

text \<open>The read event of the timer descriptor, which has fired and is no longer armed.\<close>

definition tq_handleRead ::
    "((nat \<rightharpoonup> Timer) \<Rightarrow> nat option) \<Rightarrow> (nat \<Rightarrow> tq_op list) \<Rightarrow> int \<Rightarrow> TimerQueue \<Rightarrow> TimerQueue result" where
  "tq_handleRead alloc cbs now q =
     bind_result (getExpired now (q\<lparr>armed := None\<rparr>)) (\<lambda>(expired, q1).
       let q2 = q1\<lparr>callingExpiredTimers := True, cancelingTimers := {}\<rparr>
       in bind_result (fold_result (run_timer alloc cbs) expired q2) (\<lambda>q3.
            reset_timers expired now (q3\<lparr>callingExpiredTimers := False\<rparr>)))"

section \<open>Invariant\<close>

text \<open>
  What the allocator promises: an address that is not in use, below the sentinel.
\<close>

definition fresh_alloc :: "((nat \<rightharpoonup> Timer) \<Rightarrow> nat option) \<Rightarrow> bool" where
  "fresh_alloc alloc \<longleftrightarrow> (\<forall>h a. alloc h = Some a \<longrightarrow> h a = None \<and> a < UINTPTR_MAX)"

text \<open>
  The invariant, with the set \<open>E\<close> of the timers that have been taken out because they expired: the
  other timers in the heap are those of both sets, under their expiration and sequence number.
\<close>

definition tq_inv :: "nat set \<Rightarrow> TimerQueue \<Rightarrow> bool" where
  "tq_inv E q \<longleftrightarrow>
     sorted_wrt (<) (timers q) \<and> E \<subseteq> dom (heap q) \<and>
     set (timers q) = {(t_expiration t, a) | a t. heap q a = Some t \<and> a \<notin> E} \<and>
     activeTimers q = {(a, t_sequence t) | a t. heap q a = Some t \<and> a \<notin> E} \<and>
     (\<forall>a t. heap q a = Some t \<longrightarrow> a < UINTPTR_MAX \<and> t_sequence t < numCreated q)"

lemma resetTimerfd_eq:
  "resetTimerfd e q = q\<lparr>arms := arms q + 1,
     armed := if tq_settime q (arms q) < 0 then armed q else Some (max e (tq_clock q (arms q) + 100))\<rparr>"
proof -
  have "d div 1000000 * 1000000 + d mod 1000000 * 1000 div 1000 = d" for d :: int by simp
  then show ?thesis
    by (auto simp: resetTimerfd_def howMuchTimeFromNow_def kMicroSecondsPerSecond_def Let_def max_def add.assoc)
qed

lemma tq_inv_resetTimerfd [simp]: "tq_inv E (resetTimerfd e q) = tq_inv E q"
  by (simp add: tq_inv_def resetTimerfd_eq)

lemma tq_inv_new: "tq_inv {} (new_TimerQueue clock settime)"
  by (simp add: tq_inv_def new_TimerQueue_def)

lemma tq_invD:
  assumes "tq_inv E q"
  shows "sorted_wrt (<) (timers q)" and "a \<in> E \<Longrightarrow> \<exists>t. heap q a = Some t"
    and "(w, a) \<in> set (timers q) \<longleftrightarrow> a \<notin> E \<and> (\<exists>t. heap q a = Some t \<and> t_expiration t = w)"
    and "(a, n) \<in> activeTimers q \<longleftrightarrow> a \<notin> E \<and> (\<exists>t. heap q a = Some t \<and> t_sequence t = n)"
    and "heap q a = Some t \<Longrightarrow> a < UINTPTR_MAX" and "heap q a = Some t \<Longrightarrow> t_sequence t < numCreated q"
  using assms by (auto simp: tq_inv_def dom_def)

lemma tq_invI:
  assumes "sorted_wrt (<) (timers q)" and "\<And>a. a \<in> E \<Longrightarrow> \<exists>t. heap q a = Some t"
    and "\<And>w a. (w, a) \<in> set (timers q) \<longleftrightarrow> a \<notin> E \<and> (\<exists>t. heap q a = Some t \<and> t_expiration t = w)"
    and "\<And>a n. (a, n) \<in> activeTimers q \<longleftrightarrow> a \<notin> E \<and> (\<exists>t. heap q a = Some t \<and> t_sequence t = n)"
    and "\<And>a t. heap q a = Some t \<Longrightarrow> a < UINTPTR_MAX \<and> t_sequence t < numCreated q"
  shows "tq_inv E q"
  using assms by (auto simp: tq_inv_def dom_def)

lemma sorted_set_put: "sorted_wrt (<) xs \<Longrightarrow> sorted_wrt (<) (set_put x xs)"
  by (auto simp: set_put_def strict_sorted_iff sorted_insort distinct_insort)

lemma set_set_put [simp]: "set (set_put x xs) = insert x (set xs)"
  by (auto simp: set_put_def set_insort_key)

section \<open>Every operation keeps the invariant\<close>

lemma tq_insert_ok:
  assumes inv: "tq_inv E q" and a: "a \<in> E" "heap q a = Some t"
  shows "\<exists>c. tq_insert a q = Inr (c, q\<lparr>timers := set_put (t_expiration t, a) (timers q),
      activeTimers := insert (a, t_sequence t) (activeTimers q)\<rparr>)"
    and "tq_inv (E - {a}) (q\<lparr>timers := set_put (t_expiration t, a) (timers q),
      activeTimers := insert (a, t_sequence t) (activeTimers q)\<rparr>)"
proof -
  show "\<exists>c. tq_insert a q = Inr (c, q\<lparr>timers := set_put (t_expiration t, a) (timers q),
      activeTimers := insert (a, t_sequence t) (activeTimers q)\<rparr>)"
    using a by (simp add: tq_insert_def deref_def Let_def)
  show "tq_inv (E - {a}) (q\<lparr>timers := set_put (t_expiration t, a) (timers q),
      activeTimers := insert (a, t_sequence t) (activeTimers q)\<rparr>)"
    using tq_invD [OF inv] a by (intro tq_invI) (auto simp: sorted_set_put)
qed

lemma new_Timer_ok:
  assumes inv: "tq_inv E q" and al: "fresh_alloc alloc" and res: "new_Timer alloc cb when i q = Inr (a, q')"
  shows "heap q a = None" and "tq_inv (insert a E) q'"
    and "q' = q\<lparr>heap := (heap q)(a \<mapsto> \<lparr>t_callback = cb, t_expiration = when, t_delta = fst i, t_repeat = snd i,
           t_sequence = numCreated q\<rparr>), numCreated := numCreated q + 1\<rparr>"
proof -
  show n: "heap q a = None" using res al by (auto simp: new_Timer_def fresh_alloc_def split: option.splits)
  show q': "q' = q\<lparr>heap := (heap q)(a \<mapsto> \<lparr>t_callback = cb, t_expiration = when, t_delta = fst i, t_repeat = snd i,
           t_sequence = numCreated q\<rparr>), numCreated := numCreated q + 1\<rparr>"
    using res by (auto simp: new_Timer_def split: option.splits)
  have "a < UINTPTR_MAX" using res al by (auto simp: new_Timer_def fresh_alloc_def split: option.splits)
  moreover note D = tq_invD [OF inv]
  moreover have "t_sequence t < numCreated q + 1" if "heap q b = Some t" for b t using D(6) [OF that] by simp
  ultimately show "tq_inv (insert a E) q'"
    using n unfolding q' by (intro tq_invI) (auto split: if_splits)
qed

text \<open>The part of the state an operation on other timers does not touch.\<close>

definition tq_frame :: "nat set \<Rightarrow> TimerQueue \<Rightarrow> TimerQueue \<Rightarrow> bool" where
  "tq_frame E q q' \<longleftrightarrow> (\<forall>a \<in> E. heap q' a = heap q a) \<and> ran q' = ran q \<and>
     callingExpiredTimers q' = callingExpiredTimers q \<and> cancelingTimers q \<subseteq> cancelingTimers q'"

lemma tq_frame_refl [simp]: "tq_frame E q q"
  by (simp add: tq_frame_def)

lemma tq_frame_trans: "tq_frame E q q' \<Longrightarrow> tq_frame E q' q'' \<Longrightarrow> tq_frame E q q''"
  by (auto simp: tq_frame_def)

lemma addTimer_ok:
  assumes inv: "tq_inv E q" and al: "fresh_alloc alloc"
  shows "addTimer alloc cb when i q = Inl BadAlloc \<or>
    (\<exists>a q'. addTimer alloc cb when i q = Inr ((a, numCreated q), q') \<and> tq_inv E q' \<and> tq_frame E q q' \<and>
       heap q a = None \<and> (when, a) \<in> set (timers q') \<and> (a, numCreated q) \<in> activeTimers q')"
proof (cases "new_Timer alloc cb when i q")
  case (Inl e)
  then have "e = BadAlloc" by (auto simp: new_Timer_def split: option.splits)
  with Inl show ?thesis by (simp add: addTimer_def)
next
  case (Inr x)
  obtain a q1 where x: "x = (a, q1)" by (cases x)
  let ?t = "\<lparr>t_callback = cb, t_expiration = when, t_delta = fst i, t_repeat = snd i, t_sequence = numCreated q\<rparr>"
  note N = new_Timer_ok [OF inv al Inr [unfolded x]]
  have h: "heap q1 a = Some ?t" using N(3) by simp
  let ?q2 = "q1\<lparr>timers := set_put (t_expiration ?t, a) (timers q1),
      activeTimers := insert (a, t_sequence ?t) (activeTimers q1)\<rparr>"
  from tq_insert_ok [OF N(2) insertI1 h] obtain c where
    c: "tq_insert a q1 = Inr (c, ?q2)" and inv2: "tq_inv (insert a E - {a}) ?q2" by blast
  have "a \<notin> E" using N(1) tq_invD(2) [OF inv] by fastforce
  then have inv3: "tq_inv E ?q2" using inv2 by simp
  define q3 where "q3 = (if c then resetTimerfd when ?q2 else ?q2)"
  have "addTimerInLoop a q1 = Inr q3" using c h by (simp add: addTimerInLoop_def deref_def q3_def)
  moreover have q3: "heap q3 = heap q1" "timers q3 = timers ?q2" "activeTimers q3 = activeTimers ?q2"
      "ran q3 = ran q" "callingExpiredTimers q3 = callingExpiredTimers q" "cancelingTimers q3 = cancelingTimers q"
      "numCreated q3 = numCreated q1"
    using N(3) by (simp_all add: q3_def resetTimerfd_eq)
  moreover have "tq_inv E q3" using inv3 by (simp add: q3_def)
  ultimately show ?thesis
    using Inr x h N \<open>a \<notin> E\<close> by (auto simp: addTimer_def deref_def tq_frame_def)
qed

lemma cancelInLoop_ok:
  assumes inv: "tq_inv E q"
  shows "\<exists>q'. cancelInLoop i q = Inr q' \<and> tq_inv E q' \<and> tq_frame E q q' \<and> i \<notin> activeTimers q' \<and>
    (i \<notin> activeTimers q \<and> callingExpiredTimers q \<longrightarrow> i \<in> cancelingTimers q')"
proof (cases "i \<in> activeTimers q")
  case True
  obtain a n where i: "i = (a, n)" by (cases i)
  note D = tq_invD [OF inv]
  from D(4) [of a n] True i obtain t where t: "a \<notin> E" "heap q a = Some t" "t_sequence t = n" by auto
  let ?q = "q\<lparr>timers := removeAll (t_expiration t, a) (timers q), heap := (heap q)(a := None),
      activeTimers := activeTimers q - {i}\<rparr>"
  have s: "sorted_wrt (<) (removeAll (t_expiration t, a) (timers q))"
    using D(1) by (simp add: sorted_wrt_filter removeAll_filter_not_eq)
  have "tq_inv E ?q"
    using D(2-) t s by (intro tq_invI) (auto simp: i split: if_splits dest: D(5,6))
  then show ?thesis
    using True t i by (auto simp: cancelInLoop_def deref_def delete_timer_def tq_frame_def Let_def)
next
  case False
  then show ?thesis using inv by (auto simp: cancelInLoop_def tq_frame_def tq_inv_def)
qed

lemma run_op_ok:
  assumes "tq_inv E q" and "fresh_alloc alloc"
  shows "run_op alloc x q = Inl BadAlloc \<or> (\<exists>q'. run_op alloc x q = Inr q' \<and> tq_inv E q' \<and> tq_frame E q q')"
proof (cases x)
  case (OpAdd cb t i)
  then show ?thesis using addTimer_ok [OF assms, of cb t i] by auto
next
  case (OpCancel i)
  then show ?thesis using cancelInLoop_ok [OF assms(1), of i] by auto
qed

lemma run_ops_ok:
  assumes "tq_inv E q" and "fresh_alloc alloc"
  shows "fold_result (run_op alloc) ops q = Inl BadAlloc \<or>
    (\<exists>q'. fold_result (run_op alloc) ops q = Inr q' \<and> tq_inv E q' \<and> tq_frame E q q')"
  using assms(1)
proof (induction ops arbitrary: q)
  case (Cons x ops)
  from run_op_ok [OF Cons.prems assms(2), of x] show ?case
  proof
    assume "\<exists>q'. run_op alloc x q = Inr q' \<and> tq_inv E q' \<and> tq_frame E q q'"
    then obtain q' where q': "run_op alloc x q = Inr q'" "tq_inv E q'" "tq_frame E q q'" by blast
    then show ?thesis using Cons.IH [OF q'(2)] tq_frame_trans [OF q'(3)] by auto
  qed simp
qed simp

section \<open>The read event\<close>

lemma expired_iff: "a < UINTPTR_MAX \<Longrightarrow> (w :: int, a) < (now, UINTPTR_MAX) \<longleftrightarrow> w \<le> now"
  by (auto simp: less_prod_def)

lemma takeWhile_sorted:
  "sorted_wrt (<) xs \<Longrightarrow> takeWhile (\<lambda>e. e < (b :: 'a :: linorder)) xs = filter (\<lambda>e. e < b) xs \<and>
   dropWhile (\<lambda>e. e < b) xs = filter (\<lambda>e. \<not> e < b) xs"
proof (induction xs)
  case (Cons a xs)
  have "filter (\<lambda>e. e < b) xs = [] \<and> filter (\<lambda>e. \<not> e < b) xs = xs" if "\<not> a < b"
    using that Cons.prems by (auto simp: filter_empty_conv filter_id_conv)
  with Cons show ?case by auto
qed simp

lemma erase_loop:
  "\<forall>e \<in> set ex. heap q (snd e) \<noteq> None \<Longrightarrow>
   fold_result (\<lambda>(w, a) q. bind_result (deref a q) (\<lambda>t.
      Inr (q\<lparr>activeTimers := activeTimers q - {(a, t_sequence t)}\<rparr>))) ex q =
   Inr (q\<lparr>activeTimers := activeTimers q - {(a, t_sequence t) | a t. a \<in> snd ` set ex \<and> heap q a = Some t}\<rparr>)"
proof (induction ex arbitrary: q)
  case (Cons e ex)
  obtain w a where e: "e = (w, a)" by (cases e)
  with Cons.prems obtain t where t: "heap q a = Some t" by auto
  let ?q = "q\<lparr>activeTimers := activeTimers q - {(a, t_sequence t)}\<rparr>"
  have "activeTimers q - {(a, t_sequence t)} - {(a, t_sequence t) | a t. a \<in> snd ` set ex \<and> heap q a = Some t} =
      activeTimers q - {(a, t_sequence t) | a t. a \<in> snd ` set (e # ex) \<and> heap q a = Some t}"
    using t by (auto simp: e)
  then show ?case using Cons.IH [of ?q] Cons.prems t by (simp add: e deref_def)
qed simp

lemma getExpired_ok:
  fixes now :: int
  assumes inv: "tq_inv E q"
  defines "ex \<equiv> filter (\<lambda>e. fst e \<le> now) (timers q)"
  shows "\<exists>q'. getExpired now q = Inr (ex, q') \<and> tq_inv (E \<union> snd ` set ex) q' \<and> heap q' = heap q \<and> ran q' = ran q"
proof -
  note D = tq_invD [OF inv]
  have small: "(\<lambda>e. e < (now, UINTPTR_MAX)) e \<longleftrightarrow> fst e \<le> now" if "e \<in> set (timers q)" for e
    using that D(3) [of "fst e" "snd e"] D(5) expired_iff [of "snd e" "fst e" now] by auto
  have ex: "takeWhile (\<lambda>e. e < (now, UINTPTR_MAX)) (timers q) = ex"
    and rest: "dropWhile (\<lambda>e. e < (now, UINTPTR_MAX)) (timers q) = filter (\<lambda>e. \<not> fst e \<le> now) (timers q)"
    using takeWhile_sorted [OF D(1), of "(now, UINTPTR_MAX)"] small
    by (simp_all add: ex_def cong: filter_cong)
  let ?q1 = "q\<lparr>timers := filter (\<lambda>e. \<not> fst e \<le> now) (timers q)\<rparr>"
  let ?q2 = "?q1\<lparr>activeTimers := activeTimers ?q1 -
      {(a, t_sequence t) | a t. a \<in> snd ` set ex \<and> heap ?q1 a = Some t}\<rparr>"
  have mem: "a \<in> snd ` set ex \<longleftrightarrow> a \<notin> E \<and> (\<exists>t. heap q a = Some t \<and> t_expiration t \<le> now)" for a
    using D(3) by (force simp: ex_def)
  then have "\<forall>e \<in> set ex. heap ?q1 (snd e) \<noteq> None" by auto
  then have "getExpired now q = Inr (ex, ?q2)"
    using erase_loop [of ex ?q1] by (simp add: getExpired_def ex rest)
  moreover have "tq_inv (E \<union> snd ` set ex) ?q2"
  proof (rule tq_invI)
    show "sorted_wrt (<) (timers ?q2)" using D(1) by (simp add: sorted_wrt_filter)
  qed (use D(2-) mem in \<open>auto simp: ex_def\<close>)
  ultimately show ?thesis by (intro exI [of _ ?q2]) simp
qed

lemma tq_inv_ran [simp]: "tq_inv E (q\<lparr>ran := r\<rparr>) = tq_inv E q"
  by (simp add: tq_inv_def)

lemma run_expired_ok:
  assumes "fresh_alloc alloc" and "tq_inv E q" and "snd ` set ex \<subseteq> E"
  shows "fold_result (run_timer alloc cbs) ex q = Inl BadAlloc \<or>
    (\<exists>q'. fold_result (run_timer alloc cbs) ex q = Inr q' \<and> tq_inv E q' \<and> (\<forall>a \<in> E. heap q' a = heap q a) \<and>
       ran q' = ran q @ map snd ex)"
  using assms(2,3)
proof (induction ex arbitrary: q)
  case (Cons e ex)
  obtain t where t: "heap q (snd e) = Some t" using Cons.prems tq_invD(2) by (metis image_subset_iff list.set_intros(1))
  let ?q = "q\<lparr>ran := ran q @ [snd e]\<rparr>"
  have "tq_inv E ?q" using Cons.prems(1) by simp
  from run_ops_ok [OF this assms(1), of "cbs (t_callback t)"] show ?case
  proof
    assume "\<exists>q'. fold_result (run_op alloc) (cbs (t_callback t)) ?q = Inr q' \<and> tq_inv E q' \<and> tq_frame E ?q q'"
    then obtain q' where q': "run_timer alloc cbs e q = Inr q'" "tq_inv E q'" "tq_frame E ?q q'"
      using t by (auto simp: run_timer_def deref_def)
    then show ?thesis using Cons.IH [OF q'(2)] Cons.prems(2) by (auto simp: tq_frame_def)
  qed (use t in \<open>simp add: run_timer_def deref_def\<close>)
qed simp

text \<open>What becomes of an expired timer.\<close>

definition after_reset :: "int \<Rightarrow> TimerQueue \<Rightarrow> nat \<Rightarrow> Timer option" where
  "after_reset now q a =
     (case heap q a of None \<Rightarrow> None
      | Some t \<Rightarrow> if t_repeat t \<and> (a, t_sequence t) \<notin> cancelingTimers q then Some (restart now t) else None)"

lemma reset_one_ok:
  assumes inv: "tq_inv E q" and a: "a \<in> E"
  shows "\<exists>q'. reset_one now (w, a) q = Inr q' \<and> tq_inv (E - {a}) q' \<and>
    heap q' = (heap q)(a := after_reset now q a) \<and> cancelingTimers q' = cancelingTimers q \<and> ran q' = ran q"
proof -
  obtain t where t: "heap q a = Some t" using tq_invD(2) [OF inv a] by blast
  note D = tq_invD [OF inv]
  show ?thesis
  proof (cases "t_repeat t \<and> (a, t_sequence t) \<notin> cancelingTimers q")
    case True
    let ?q = "q\<lparr>heap := (heap q)(a \<mapsto> restart now t)\<rparr>"
    have "t_sequence (restart now t) = t_sequence t" by (simp add: restart_def)
    then have "tq_inv E ?q" using D a t by (intro tq_invI) (auto split: if_splits)
    from tq_insert_ok [OF this a] True t show ?thesis
      by (auto simp: reset_one_def deref_def after_reset_def)
  next
    case False
    have "tq_inv (E - {a}) (delete_timer a q)"
      using D a t by (intro tq_invI) (auto simp: delete_timer_def split: if_splits)
    with False t show ?thesis by (auto simp: reset_one_def deref_def after_reset_def delete_timer_def)
  qed
qed

lemma reset_loop_ok:
  assumes "tq_inv (E \<union> snd ` set ex) q" and "distinct (map snd ex)" and "E \<inter> snd ` set ex = {}"
  shows "\<exists>q'. fold_result (reset_one now) ex q = Inr q' \<and> tq_inv E q' \<and>
    heap q' = (\<lambda>a. if a \<in> snd ` set ex then after_reset now q a else heap q a) \<and>
    cancelingTimers q' = cancelingTimers q \<and> ran q' = ran q"
  using assms
proof (induction ex arbitrary: q)
  case (Cons e ex)
  obtain w a where e: "e = (w, a)" by (cases e)
  have "a \<in> E \<union> snd ` set (e # ex)" by (simp add: e)
  from reset_one_ok [OF Cons.prems(1) this, of now w] obtain q1 where
    q1: "reset_one now (w, a) q = Inr q1" "tq_inv (E \<union> snd ` set (e # ex) - {a}) q1"
      "heap q1 = (heap q)(a := after_reset now q a)" "cancelingTimers q1 = cancelingTimers q" "ran q1 = ran q"
    by blast
  have E: "E \<union> snd ` set (e # ex) - {a} = E \<union> snd ` set ex" and an: "a \<notin> snd ` set ex"
    using Cons.prems(2,3) by (auto simp: e)
  from Cons.IH [OF q1(2) [unfolded E]] Cons.prems(2,3) obtain q2 where
    q2: "fold_result (reset_one now) ex q1 = Inr q2" "tq_inv E q2"
      "heap q2 = (\<lambda>a. if a \<in> snd ` set ex then after_reset now q1 a else heap q1 a)"
      "cancelingTimers q2 = cancelingTimers q1" "ran q2 = ran q1" by auto
  have "after_reset now q1 b = after_reset now q b" if "b \<in> snd ` set ex" for b
  proof -
    have "heap q1 b = heap q b" using that an q1(3) by auto
    then show ?thesis unfolding after_reset_def q1(4) by simp
  qed
  then have "heap q2 = (\<lambda>b. if b \<in> snd ` set (e # ex) then after_reset now q b else heap q b)"
    using q2(3) q1(3) an by (auto simp: e fun_eq_iff)
  then show ?case using q1 q2 by (simp add: e)
qed simp

lemma distinct_timer_addresses:
  assumes "tq_inv E q"
  shows "distinct (map snd (filter P (timers q)))"
proof -
  note D = tq_invD [OF assms]
  have "distinct (timers q)" using D(1) by (simp add: strict_sorted_iff)
  moreover have "inj_on snd (set (timers q))"
    using D(3) by (auto simp: inj_on_def)
  ultimately show ?thesis by (auto simp: distinct_map intro: inj_on_subset)
qed

lemma reset_timers_ok:
  assumes "tq_inv (E \<union> snd ` set ex) q" and "distinct (map snd ex)" and "E \<inter> snd ` set ex = {}"
  shows "\<exists>q'. reset_timers ex now q = Inr q' \<and> tq_inv E q' \<and>
    heap q' = (\<lambda>a. if a \<in> snd ` set ex then after_reset now q a else heap q a) \<and>
    cancelingTimers q' = cancelingTimers q \<and> ran q' = ran q \<and>
    (timers q' \<noteq> [] \<and> 0 < fst (hd (timers q')) \<longrightarrow> (\<exists>p. q' = resetTimerfd (fst (hd (timers q'))) p))"
proof -
  from reset_loop_ok [OF assms, of now] obtain q1 where
    q1: "fold_result (reset_one now) ex q = Inr q1" "tq_inv E q1"
      "heap q1 = (\<lambda>a. if a \<in> snd ` set ex then after_reset now q a else heap q a)"
      "cancelingTimers q1 = cancelingTimers q" "ran q1 = ran q" by blast
  define nextExpire where "nextExpire = (case timers q1 of [] \<Rightarrow> 0 | e # _ \<Rightarrow> fst e)"
  let ?q = "if timestamp_valid nextExpire then resetTimerfd nextExpire q1 else q1"
  have "reset_timers ex now q = Inr ?q" using q1(1) by (simp add: reset_timers_def nextExpire_def Let_def)
  moreover have "tq_inv E ?q" using q1(2) by (simp add: tq_inv_def resetTimerfd_eq)
  moreover have "timers ?q = timers q1" "heap ?q = heap q1" "cancelingTimers ?q = cancelingTimers q1" "ran ?q = ran q1"
    by (simp_all add: resetTimerfd_eq)
  moreover have "?q = resetTimerfd (fst (hd (timers q1))) q1" if "timers q1 \<noteq> []" "0 < fst (hd (timers q1))"
    using that by (cases "timers q1") (auto simp: nextExpire_def timestamp_valid_def)
  ultimately show ?thesis using q1 by (intro exI [of _ ?q]) metis
qed

lemma tq_handleRead_ok:
  fixes now :: int
  assumes inv: "tq_inv E q" and al: "fresh_alloc alloc"
  defines "ex \<equiv> filter (\<lambda>e. fst e \<le> now) (timers q)"
  shows "tq_handleRead alloc cbs now q = Inl BadAlloc \<or>
    (\<exists>q'. tq_handleRead alloc cbs now q = Inr q' \<and> tq_inv E q' \<and> ran q' = ran q @ map snd ex \<and>
       (\<forall>(w, a) \<in> set ex. \<forall>t. heap q a = Some t \<longrightarrow> heap q' a =
          (if t_repeat t \<and> (a, t_sequence t) \<notin> cancelingTimers q' then Some (restart now t) else None)) \<and>
       (timers q' \<noteq> [] \<and> 0 < fst (hd (timers q')) \<longrightarrow> (\<exists>p. q' = resetTimerfd (fst (hd (timers q'))) p)))"
proof -
  have "tq_inv E (q\<lparr>armed := None\<rparr>)" using inv by (simp add: tq_inv_def)
  from getExpired_ok [OF this, of now] obtain q1 where
    q1: "getExpired now (q\<lparr>armed := None\<rparr>) = Inr (ex, q1)" "tq_inv (E \<union> snd ` set ex) q1" "heap q1 = heap q"
      "ran q1 = ran q" by (auto simp: ex_def)
  have disj: "E \<inter> snd ` set ex = {}" using tq_invD(3) [OF inv] by (auto simp: ex_def)
  let ?q2 = "q1\<lparr>callingExpiredTimers := True, cancelingTimers := {}\<rparr>"
  have "tq_inv (E \<union> snd ` set ex) ?q2" using q1(2) by (simp add: tq_inv_def)
  from run_expired_ok [OF al this Un_upper2, of cbs] show ?thesis
  proof
    assume "\<exists>q'. fold_result (run_timer alloc cbs) ex ?q2 = Inr q' \<and> tq_inv (E \<union> snd ` set ex) q' \<and>
       (\<forall>a \<in> E \<union> snd ` set ex. heap q' a = heap ?q2 a) \<and> ran q' = ran ?q2 @ map snd ex"
    then obtain q3 where q3: "fold_result (run_timer alloc cbs) ex ?q2 = Inr q3" "tq_inv (E \<union> snd ` set ex) q3"
        "\<forall>a \<in> snd ` set ex. heap q3 a = heap q a" "ran q3 = ran q @ map snd ex"
      using q1(3,4) by auto
    let ?q3 = "q3\<lparr>callingExpiredTimers := False\<rparr>"
    have "tq_inv (E \<union> snd ` set ex) ?q3" using q3(2) by (simp add: tq_inv_def)
    from reset_timers_ok [OF this distinct_timer_addresses [OF inv, of "\<lambda>e. fst e \<le> now", folded ex_def] disj, of now]
    obtain q4 where q4: "reset_timers ex now ?q3 = Inr q4" "tq_inv E q4"
        "heap q4 = (\<lambda>a. if a \<in> snd ` set ex then after_reset now ?q3 a else heap ?q3 a)"
        "cancelingTimers q4 = cancelingTimers ?q3" "ran q4 = ran ?q3"
        "timers q4 \<noteq> [] \<and> 0 < fst (hd (timers q4)) \<longrightarrow> (\<exists>p. q4 = resetTimerfd (fst (hd (timers q4))) p)" by blast
    have "heap q4 a = (if t_repeat t \<and> (a, t_sequence t) \<notin> cancelingTimers q4 then Some (restart now t) else None)"
      if "(w, a) \<in> set ex" "heap q a = Some t" for w a t
    proof -
      have "a \<in> snd ` set ex" using that(1) by force
      moreover from this have "heap q3 a = heap q a" using q3(3) by blast
      with that(2) have "heap q3 a = Some t" by simp
      ultimately show ?thesis using q4(3,4) by (simp add: after_reset_def)
    qed
    moreover have "tq_handleRead alloc cbs now q = Inr q4"
      using q1(1) q3(1) q4(1) by (simp add: tq_handleRead_def Let_def)
    ultimately show ?thesis using q3(4) q4(2,5,6) by auto
  next
    assume "fold_result (run_timer alloc cbs) ex ?q2 = Inl BadAlloc"
    then have "tq_handleRead alloc cbs now q = Inl BadAlloc"
      unfolding tq_handleRead_def q1(1) by (simp add: Let_def)
    then show ?thesis ..
  qed
qed

section \<open>Reachable queues\<close>

text \<open>
  The queues of a program whose timer operations satisfy \<open>ok\<close>: operations in the loop thread and read
  events of the descriptor, whose callbacks perform further operations.
\<close>

inductive tq_reach :: "((nat \<rightharpoonup> Timer) \<Rightarrow> nat option) \<Rightarrow> (tq_op \<Rightarrow> bool) \<Rightarrow> TimerQueue \<Rightarrow> bool" for alloc ok where
  init: "tq_reach alloc ok (new_TimerQueue clock settime)"
| operation: "tq_reach alloc ok q \<Longrightarrow> ok x \<Longrightarrow> run_op alloc x q = Inr q' \<Longrightarrow> tq_reach alloc ok q'"
| expire: "tq_reach alloc ok q \<Longrightarrow> \<forall>n. \<forall>x \<in> set (cbs n). ok x \<Longrightarrow> 0 < now \<Longrightarrow>
    tq_handleRead alloc cbs now q = Inr q' \<Longrightarrow> tq_reach alloc ok q'"

lemma tq_reach_inv:
  assumes "tq_reach alloc ok q" and "fresh_alloc alloc"
  shows "tq_inv {} q"
  using assms(1)
proof (induction rule: tq_reach.induct)
  case init
  then show ?case by (rule tq_inv_new)
next
  case (operation q x q')
  then show ?case using run_op_ok [OF operation.IH assms(2), of x] by auto
next
  case (expire q cbs now q')
  then show ?case using tq_handleRead_ok [OF expire.IH assms(2), of cbs now] by auto
qed

section \<open>The descriptor is armed\<close>

definition valid_op :: "tq_op \<Rightarrow> bool" where
  "valid_op x = (case x of OpAdd cb t i \<Rightarrow> 0 < t \<and> (snd i \<longrightarrow> 0 \<le> fst i) | OpCancel _ \<Rightarrow> True)"

definition positive :: "TimerQueue \<Rightarrow> bool" where
  "positive q \<longleftrightarrow> (\<forall>a t. heap q a = Some t \<longrightarrow> 0 < t_expiration t \<and> (t_repeat t \<longrightarrow> 0 \<le> t_delta t))"

text \<open>Every attempt to arm the descriptor has succeeded so far.\<close>

definition settime_ok :: "TimerQueue \<Rightarrow> bool" where
  "settime_ok q \<longleftrightarrow> (\<forall>i < arms q. 0 \<le> tq_settime q i)"

lemma settime_ok_resetTimerfd [simp]:
  "settime_ok (resetTimerfd e q) \<longleftrightarrow> settime_ok q \<and> 0 \<le> tq_settime q (arms q)"
  by (auto simp: settime_ok_def resetTimerfd_eq less_Suc_eq)

definition armed_inv :: "TimerQueue \<Rightarrow> bool" where
  "armed_inv q \<longleftrightarrow> (settime_ok q \<longrightarrow> (\<forall>e \<in> set (timers q). 0 < arms q \<and>
     (\<exists>x. armed q = Some x \<and> x \<le> max (fst e) (tq_clock q (arms q - 1) + 100))))"

lemma armed_inv_resetTimerfd:
  assumes "\<And>e. e \<in> set (timers q) \<Longrightarrow> w \<le> fst e"
  shows "armed_inv (resetTimerfd w q)"
  using assms by (fastforce simp: armed_inv_def resetTimerfd_eq settime_ok_def)

lemma addTimer_state:
  assumes "addTimer alloc cb w i q = Inr (tid, q')"
  obtains a where "heap q' = (heap q)(a \<mapsto> \<lparr>t_callback = cb, t_expiration = w, t_delta = fst i, t_repeat = snd i,
      t_sequence = numCreated q\<rparr>)" and "timers q' = set_put (w, a) (timers q)"
    and "armed_inv q \<Longrightarrow> (\<And>e. e \<in> set (timers q) \<Longrightarrow> fst (hd (timers q)) \<le> fst e) \<Longrightarrow> armed_inv q'"
    and "cancelingTimers q' = cancelingTimers q"
proof -
  obtain a q1 q2 where a: "new_Timer alloc cb w i q = Inr (a, q1)" "addTimerInLoop a q1 = Inr q2" "q' = q2"
    using assms by (auto simp: addTimer_def bind_result_Inr_iff)
  let ?t = "\<lparr>t_callback = cb, t_expiration = w, t_delta = fst i, t_repeat = snd i, t_sequence = numCreated q\<rparr>"
  let ?q = "q\<lparr>heap := (heap q)(a \<mapsto> ?t), numCreated := numCreated q + 1, timers := set_put (w, a) (timers q),
      activeTimers := insert (a, numCreated q) (activeTimers q)\<rparr>"
  from a have q': "q' = (if timers q = [] \<or> w < fst (hd (timers q)) then resetTimerfd w ?q else ?q)"
    by (auto simp: new_Timer_def addTimerInLoop_def tq_insert_def deref_def Let_def
        split: option.splits list.splits if_splits)
  have "heap q' = heap ?q" "timers q' = timers ?q" "cancelingTimers q' = cancelingTimers ?q"
    by (simp_all add: q' resetTimerfd_eq)
  moreover have "armed_inv q'" if inv: "armed_inv q" and hd: "\<And>e. e \<in> set (timers q) \<Longrightarrow> fst (hd (timers q)) \<le> fst e"
  proof (cases "timers q = [] \<or> w < fst (hd (timers q))")
    case True
    then have "w \<le> fst e" if "e \<in> set (timers ?q)" for e using that hd by fastforce
    then show ?thesis using True armed_inv_resetTimerfd [of ?q w] by (simp add: q')
  next
    case False
    then have "hd (timers q) \<in> set (timers q)" "fst (hd (timers q)) \<le> w" by simp_all
    moreover have "q' = ?q" by (subst q') (use False in simp)
    ultimately show ?thesis using inv unfolding armed_inv_def settime_ok_def by fastforce
  qed
  ultimately show thesis using that [of a] by simp
qed

lemma run_op_positive:
  assumes "positive q" and "valid_op x" and "run_op alloc x q = Inr q'"
  shows "positive q'"
proof (cases x)
  case (OpAdd cb w i)
  then obtain tid where "addTimer alloc cb w i q = Inr (tid, q')" using assms(3) by (auto simp: bind_result_Inr_iff)
  then show ?thesis
    by (rule addTimer_state) (use assms(1,2) OpAdd in \<open>auto simp: positive_def valid_op_def\<close>)
next
  case (OpCancel i)
  then show ?thesis
    using assms by (auto simp: cancelInLoop_def deref_def delete_timer_def positive_def Let_def
        split: if_splits option.splits)
qed

lemma run_ops_positive:
  "positive q \<Longrightarrow> \<forall>x \<in> set ops. valid_op x \<Longrightarrow> fold_result (run_op alloc) ops q = Inr q' \<Longrightarrow> positive q'"
  by (induction ops arbitrary: q) (auto simp: bind_result_Inr_iff dest: run_op_positive)

lemma run_expired_positive:
  assumes "\<forall>n. \<forall>x \<in> set (cbs n). valid_op x"
  shows "positive q \<Longrightarrow> fold_result (run_timer alloc cbs) ex q = Inr q' \<Longrightarrow> positive q'"
proof (induction ex arbitrary: q)
  case (Cons e ex)
  from Cons.prems(2) obtain q1 where r: "run_timer alloc cbs e q = Inr q1"
      and f: "fold_result (run_timer alloc cbs) ex q1 = Inr q'"
    by (auto simp: bind_result_Inr_iff)
  from r obtain t :: Timer where q1: "fold_result (run_op alloc) (cbs (t_callback t)) (q\<lparr>ran := ran q @ [snd e]\<rparr>) = Inr q1"
    by (auto simp: bind_result_Inr_iff run_timer_def)
  have "positive (q\<lparr>ran := ran q @ [snd e]\<rparr>)" using Cons.prems(1) by (simp add: positive_def)
  then have "positive q1" using run_ops_positive q1 assms by blast
  then show ?case using Cons.IH f by blast
qed simp

lemma reset_loop_positive:
  "0 < now \<Longrightarrow> positive q \<Longrightarrow> fold_result (reset_one now) ex q = Inr q' \<Longrightarrow> positive q'"
proof (induction ex arbitrary: q)
  case (Cons e ex)
  then obtain q1 where q1: "reset_one now e q = Inr q1" "fold_result (reset_one now) ex q1 = Inr q'"
    by (auto simp: bind_result_Inr_iff)
  have "positive q1"
    using q1(1) Cons.prems(1,2)
    by (fastforce simp: reset_one_def deref_def tq_insert_def delete_timer_def positive_def restart_def addTime_def
        bind_result_Inr_iff Let_def split: if_splits option.splits)
  then show ?case using Cons.IH Cons.prems(1) q1(2) by blast
qed simp

lemma tq_handleRead_positive:
  assumes "positive q" and "\<forall>n. \<forall>x \<in> set (cbs n). valid_op x" and "0 < now" and "tq_inv {} q"
    and "tq_handleRead alloc cbs now q = Inr q'"
  shows "positive q'"
proof -
  have "tq_inv {} (q\<lparr>armed := None\<rparr>)" using assms(4) by (simp add: tq_inv_def)
  from getExpired_ok [OF this, of now] obtain ex q1 where
    q1: "getExpired now (q\<lparr>armed := None\<rparr>) = Inr (ex, q1)" "heap q1 = heap q" by auto
  from assms(5) q1(1) obtain q3 where
    q3: "fold_result (run_timer alloc cbs) ex (q1\<lparr>callingExpiredTimers := True, cancelingTimers := {}\<rparr>) = Inr q3"
    and r: "reset_timers ex now (q3\<lparr>callingExpiredTimers := False\<rparr>) = Inr q'"
    by (auto simp: tq_handleRead_def bind_result_Inr_iff Let_def)
  then obtain q4 where q4: "fold_result (reset_one now) ex (q3\<lparr>callingExpiredTimers := False\<rparr>) = Inr q4"
    by (cases "fold_result (reset_one now) ex (q3\<lparr>callingExpiredTimers := False\<rparr>)") (simp_all add: reset_timers_def)
  then have hp: "heap q' = heap q4" using r by (auto simp: reset_timers_def Let_def resetTimerfd_eq)
  have "positive (q1\<lparr>callingExpiredTimers := True, cancelingTimers := {}\<rparr>)"
    using assms(1) q1(2) by (simp add: positive_def)
  then have "positive q3" using run_expired_positive [OF assms(2) _ q3] by blast
  then have "positive (q3\<lparr>callingExpiredTimers := False\<rparr>)" by (simp add: positive_def)
  then have "positive q4" using reset_loop_positive [OF assms(3) _ q4] by blast
  then show ?thesis using hp by (simp add: positive_def)
qed

lemma sorted_hd_le: "sorted_wrt (<) xs \<Longrightarrow> e \<in> set xs \<Longrightarrow> fst (hd xs) \<le> fst (e :: int \<times> nat)"
  by (cases xs) (auto simp: less_prod_def)

lemma run_op_armed:
  assumes "tq_inv {} q" and "armed_inv q" and "run_op alloc x q = Inr q'"
  shows "armed_inv q'"
proof (cases x)
  case (OpAdd cb w i)
  then obtain tid where "addTimer alloc cb w i q = Inr (tid, q')" using assms(3) by (auto simp: bind_result_Inr_iff)
  then show ?thesis
    by (rule addTimer_state) (use sorted_hd_le [OF tq_invD(1) [OF assms(1)]] assms(2) in blast)
next
  case (OpCancel i)
  then show ?thesis
    using assms(2,3) by (fastforce simp: cancelInLoop_def deref_def delete_timer_def armed_inv_def settime_ok_def
        Let_def split: if_splits option.splits)
qed

lemma tq_reach_armed:
  assumes "tq_reach alloc valid_op q" and "fresh_alloc alloc"
  shows "positive q \<and> armed_inv q"
  using assms(1)
proof (induction rule: tq_reach.induct)
  case init
  then show ?case by (simp add: positive_def armed_inv_def new_TimerQueue_def)
next
  case (operation q x q')
  then show ?case using run_op_positive run_op_armed tq_reach_inv [OF operation.hyps(1) assms(2)] by blast
next
  case (expire q cbs now q')
  note inv = tq_reach_inv [OF expire.hyps(1) assms(2)]
  have pos: "positive q'" using tq_handleRead_positive [OF _ expire.hyps(2,3) inv expire.hyps(4)] expire.IH by blast
  from tq_handleRead_ok [OF inv assms(2), of cbs now] expire.hyps(4) have
    inv': "tq_inv {} q'" and arm: "timers q' \<noteq> [] \<and> 0 < fst (hd (timers q')) \<longrightarrow> (\<exists>p. q' = resetTimerfd (fst (hd (timers q'))) p)"
    by auto
  have "armed_inv q'"
  proof (cases "timers q' = []")
    case False
    then have "hd (timers q') \<in> set (timers q')" by simp
    then obtain t where "heap q' (snd (hd (timers q'))) = Some t" "t_expiration t = fst (hd (timers q'))"
      using tq_invD(3) [OF inv', of "fst (hd (timers q'))" "snd (hd (timers q'))"] by auto
    then have "0 < fst (hd (timers q'))" using pos unfolding positive_def by metis
    with arm False obtain p where p: "q' = resetTimerfd (fst (hd (timers q'))) p" by blast
    have "timers p = timers q'" by (subst p) (simp add: resetTimerfd_eq)
    then show ?thesis
      using sorted_hd_le [OF tq_invD(1) [OF inv']] by (subst p) (rule armed_inv_resetTimerfd, simp)
  qed (simp add: armed_inv_def)
  with pos show ?case by simp
qed

section \<open>Cancelled by a callback\<close>

lemma run_op_cancels:
  assumes "tq_inv E q" and "a \<in> E" and "callingExpiredTimers q" and "run_op alloc x q = Inr q'"
  shows "(a, n) \<in> cancelingTimers q' \<longleftrightarrow> (a, n) \<in> cancelingTimers q \<or> x = OpCancel (a, n)"
proof (cases x)
  case (OpAdd cb w i)
  then obtain tid where "addTimer alloc cb w i q = Inr (tid, q')" using assms(4) by (auto simp: bind_result_Inr_iff)
  then show ?thesis using OpAdd by (auto elim: addTimer_state)
next
  case (OpCancel i)
  have "(a, n) \<notin> activeTimers q" using tq_invD(4) [OF assms(1)] assms(2) by blast
  with OpCancel assms(3,4) show ?thesis
    by (auto simp: cancelInLoop_def deref_def delete_timer_def Let_def split: if_splits option.splits)
qed

lemma run_ops_cancels:
  assumes "fresh_alloc alloc" and "a \<in> E"
  shows "tq_inv E q \<Longrightarrow> callingExpiredTimers q \<Longrightarrow> fold_result (run_op alloc) ops q = Inr q' \<Longrightarrow>
    (a, n) \<in> cancelingTimers q' \<longleftrightarrow> (a, n) \<in> cancelingTimers q \<or> OpCancel (a, n) \<in> set ops"
proof (induction ops arbitrary: q)
  case (Cons x ops)
  then obtain q1 where q1: "run_op alloc x q = Inr q1" "fold_result (run_op alloc) ops q1 = Inr q'"
    by (auto simp: bind_result_Inr_iff)
  then have "tq_inv E q1" "callingExpiredTimers q1"
    using run_op_ok [OF Cons.prems(1) assms(1), of x] Cons.prems(2) by (auto simp: tq_frame_def)
  from Cons.IH [OF this q1(2)] run_op_cancels [OF Cons.prems(1) assms(2) Cons.prems(2) q1(1), of n] show ?case by auto
qed simp

lemma run_expired_cancels:
  assumes "fresh_alloc alloc" and "a \<in> E"
  shows "tq_inv E q \<Longrightarrow> snd ` set ex \<subseteq> E \<Longrightarrow> callingExpiredTimers q \<Longrightarrow>
    fold_result (run_timer alloc cbs) ex q = Inr q' \<Longrightarrow>
    (a, n) \<in> cancelingTimers q' \<longleftrightarrow> (a, n) \<in> cancelingTimers q \<or>
      (\<exists>b \<in> snd ` set ex. \<exists>u. heap q b = Some u \<and> OpCancel (a, n) \<in> set (cbs (t_callback u)))"
proof (induction ex arbitrary: q)
  case (Cons e ex)
  from Cons.prems(4) obtain q1 where q1: "run_timer alloc cbs e q = Inr q1"
      "fold_result (run_timer alloc cbs) ex q1 = Inr q'" by (auto simp: bind_result_Inr_iff)
  let ?q = "q\<lparr>ran := ran q @ [snd e]\<rparr>"
  from q1(1) obtain t where t: "heap q (snd e) = Some t" "fold_result (run_op alloc) (cbs (t_callback t)) ?q = Inr q1"
    by (auto simp: run_timer_def deref_def bind_result_Inr_iff split: option.splits)
  have inv: "tq_inv E ?q" "callingExpiredTimers ?q" using Cons.prems(1,3) by simp_all
  from run_ops_ok [OF inv(1) assms(1), of "cbs (t_callback t)"] t(2)
  have inv1: "tq_inv E q1" "callingExpiredTimers q1" and keep: "\<forall>b \<in> E. heap q1 b = heap q b"
    using Cons.prems(3) by (auto simp: tq_frame_def)
  have sub: "snd ` set ex \<subseteq> E" using Cons.prems(2) by simp
  have "\<And>b. b \<in> snd ` set ex \<Longrightarrow> heap q1 b = heap q b" using keep sub by blast
  with Cons.IH [OF inv1(1) sub inv1(2) q1(2)] run_ops_cancels [OF assms inv t(2), of n] t(1) show ?case by auto
qed simp

lemma tq_handleRead_cancels:
  assumes inv: "tq_inv {} q" and al: "fresh_alloc alloc" and res: "tq_handleRead alloc cbs now q = Inr q'"
    and a: "(w, a) \<in> set (timers q)" "w \<le> now"
  shows "(a, n) \<in> cancelingTimers q' \<longleftrightarrow>
    (\<exists>(v, b) \<in> set (timers q). \<exists>u. v \<le> now \<and> heap q b = Some u \<and> OpCancel (a, n) \<in> set (cbs (t_callback u)))"
proof -
  let ?ex = "filter (\<lambda>e. fst e \<le> now) (timers q)" and ?E = "snd ` set (filter (\<lambda>e. fst e \<le> now) (timers q))"
  have "tq_inv {} (q\<lparr>armed := None\<rparr>)" using inv by (simp add: tq_inv_def)
  from getExpired_ok [OF this, of now] obtain q1 where
    q1: "getExpired now (q\<lparr>armed := None\<rparr>) = Inr (?ex, q1)" "tq_inv ?E q1" "heap q1 = heap q" by auto
  let ?q2 = "q1\<lparr>callingExpiredTimers := True, cancelingTimers := {}\<rparr>"
  from res q1(1) obtain q3 where q3: "fold_result (run_timer alloc cbs) ?ex ?q2 = Inr q3"
      "reset_timers ?ex now (q3\<lparr>callingExpiredTimers := False\<rparr>) = Inr q'"
    by (auto simp: tq_handleRead_def bind_result_Inr_iff Let_def)
  have inv2: "tq_inv ?E ?q2" using q1(2) by (simp add: tq_inv_def)
  have "\<exists>q3. fold_result (run_timer alloc cbs) ?ex ?q2 = Inr q3 \<and> tq_inv ?E q3"
    using run_expired_ok [OF al inv2 order_refl, of cbs] q3(1) by auto
  then have "tq_inv ({} \<union> ?E) (q3\<lparr>callingExpiredTimers := False\<rparr>)" using q3(1) by (simp add: tq_inv_def)
  from reset_timers_ok [OF this distinct_timer_addresses [OF inv], of now] q3(2)
  have "cancelingTimers q' = cancelingTimers q3" by auto
  moreover have "a \<in> ?E" using a by force
  ultimately show ?thesis
    using run_expired_cancels [OF al _ inv2 order_refl _ q3(1), of a n] q1(3) by force
qed

section \<open>Properties\<close>

text \<open>An allocator for the sample runs: the first free address of a small memory.\<close>

definition small_alloc :: "(nat \<rightharpoonup> Timer) \<Rightarrow> nat option" where
  "small_alloc h = find (\<lambda>a. h a = None) [1, 2, 3]"

lemma small_alloc_fresh: "fresh_alloc small_alloc"
  by (auto simp: fresh_alloc_def small_alloc_def UINTPTR_MAX_def split: if_splits)

definition demo_clock :: "nat \<Rightarrow> int" where
  "demo_clock n = 30 + 10 * int n"

definition demo_queue :: TimerQueue where
  "demo_queue = (let q0 = new_TimerQueue demo_clock (\<lambda>_. 0)
     in case run_op small_alloc (OpAdd 7 50 (20, True)) q0 of Inr q \<Rightarrow> q | Inl _ \<Rightarrow> q0)"

lemma demo_queue_reach: "tq_reach small_alloc valid_op demo_queue"
proof -
  have "run_op small_alloc (OpAdd 7 50 (20, True)) (new_TimerQueue demo_clock (\<lambda>_. 0)) = Inr demo_queue"
    by (simp add: demo_queue_def Let_def addTimer_def new_Timer_def small_alloc_def new_TimerQueue_def addTimerInLoop_def
        tq_insert_def deref_def resetTimerfd_eq)
  then show ?thesis by (rule tq_reach.operation [OF tq_reach.init, rotated]) (simp add: valid_op_def)
qed

lemma demo_queue_eq:
  "timers demo_queue = [(50, 1)]" "heap demo_queue = [1 \<mapsto> \<lparr>t_callback = 7, t_expiration = 50, t_delta = 20,
     t_repeat = True, t_sequence = 0\<rparr>]" "ran demo_queue = []" "arms demo_queue = 1" "tq_clock demo_queue = demo_clock"
    "tq_settime demo_queue = (\<lambda>_. 0)"
  by (simp_all add: demo_queue_def Let_def addTimer_def new_Timer_def small_alloc_def new_TimerQueue_def addTimerInLoop_def
      tq_insert_def deref_def resetTimerfd_eq set_put_def)

text \<open>C7. Timer memory safety: in every state the queue can reach, however operations, expirations and
  the operations of running callbacks follow one another, the live timer objects are exactly those
  of the ordered set, each under its current expiration, so none is leaked; and no further operation
  and no expiration follows a dangling timer pointer: it succeeds or runs out of memory.\<close>

theorem timers_memory_safe:
  assumes "fresh_alloc alloc" and "tq_reach alloc ok q"
  shows "dom (heap q) = snd ` set (timers q) \<and>
    (\<forall>(w, a) \<in> set (timers q). \<exists>t. heap q a = Some t \<and> t_expiration t = w \<and> (a, t_sequence t) \<in> activeTimers q) \<and>
    (run_op alloc x q = Inl BadAlloc \<or> (\<exists>q'. run_op alloc x q = Inr q')) \<and>
    (tq_handleRead alloc cbs now q = Inl BadAlloc \<or> (\<exists>q'. tq_handleRead alloc cbs now q = Inr q'))"
proof -
  have inv: "tq_inv {} q" using tq_reach_inv [OF assms(2,1)] .
  note D = tq_invD [OF inv]
  have "dom (heap q) = snd ` set (timers q)" using D(3) by (force simp: dom_def)
  moreover have "\<exists>t. heap q a = Some t \<and> t_expiration t = w \<and> (a, t_sequence t) \<in> activeTimers q"
    if "(w, a) \<in> set (timers q)" for w a
    using that D(3) [of w a] D(4) by auto
  ultimately show ?thesis
    using run_op_ok [OF inv assms(1), of x] tq_handleRead_ok [OF inv assms(1), of cbs now] by blast
qed

theorem timers_memory_safe_witness:
  "dom (heap demo_queue) = {1} \<and>
   (tq_handleRead small_alloc (\<lambda>_. [OpCancel (1, 0)]) 60 demo_queue = Inl BadAlloc \<or>
    (\<exists>q'. tq_handleRead small_alloc (\<lambda>_. [OpCancel (1, 0)]) 60 demo_queue = Inr q'))"
  using timers_memory_safe [OF small_alloc_fresh demo_queue_reach, of "OpCancel (1, 0)" "\<lambda>_. [OpCancel (1, 0)]" 60]
  by (simp add: demo_queue_eq)

text \<open>C21. Expiration: a read event runs exactly the timers whose expiration has come, each once, in the
  order of their expirations; afterwards a repeating timer is scheduled one interval after the event, under the
  same identity, unless one of the callbacks that ran (its own, an earlier or a later one) cancelled it, and every
  other expired timer is deleted.\<close>

theorem expired_timers_run:
  assumes "fresh_alloc alloc" and "tq_reach alloc ok q" and "tq_handleRead alloc cbs now q = Inr q'"
  shows "ran q' = ran q @ map snd (filter (\<lambda>e. fst e \<le> now) (timers q)) \<and> sorted_wrt (<) (timers q) \<and>
    (\<forall>(w, a) \<in> set (timers q). \<forall>t. w \<le> now \<and> heap q a = Some t \<longrightarrow> heap q' a =
       (if t_repeat t \<and> \<not> (\<exists>(v, b) \<in> set (timers q). \<exists>u. v \<le> now \<and> heap q b = Some u \<and>
             OpCancel (a, t_sequence t) \<in> set (cbs (t_callback u)))
        then Some (t\<lparr>t_expiration := now + t_delta t\<rparr>) else None))"
proof -
  have inv: "tq_inv {} q" using tq_reach_inv [OF assms(2,1)] .
  note C = tq_handleRead_cancels [OF inv assms(1,3)]
  have r: "restart now t = t\<lparr>t_expiration := now + t_delta t\<rparr>" if "t_repeat t" for t
    using that by (simp add: restart_def addTime_def)
  from tq_handleRead_ok [OF inv assms(1), of cbs now] assms(3) have
    h: "ran q' = ran q @ map snd (filter (\<lambda>e. fst e \<le> now) (timers q))"
      "\<forall>(w, a) \<in> set (filter (\<lambda>e. fst e \<le> now) (timers q)). \<forall>t. heap q a = Some t \<longrightarrow> heap q' a =
        (if t_repeat t \<and> (a, t_sequence t) \<notin> cancelingTimers q' then Some (restart now t) else None)"
    by simp_all
  have "heap q' a = (if t_repeat t \<and> \<not> (\<exists>(v, b) \<in> set (timers q). \<exists>u. v \<le> now \<and> heap q b = Some u \<and>
             OpCancel (a, t_sequence t) \<in> set (cbs (t_callback u)))
        then Some (t\<lparr>t_expiration := now + t_delta t\<rparr>) else None)"
    if "(w, a) \<in> set (timers q)" "w \<le> now" "heap q a = Some t" for w a t
  proof -
    have "(w, a) \<in> set (filter (\<lambda>e. fst e \<le> now) (timers q))" using that by simp
    with h(2) that(3) have "heap q' a =
        (if t_repeat t \<and> (a, t_sequence t) \<notin> cancelingTimers q' then Some (restart now t) else None)" by blast
    then show ?thesis unfolding C [OF that(1,2)] using r by auto
  qed
  then show ?thesis using h(1) tq_invD(1) [OF inv] by blast
qed

theorem expired_timers_run_witness:
  "(\<exists>q'. tq_handleRead small_alloc (\<lambda>_. []) 60 demo_queue = Inr q' \<and> ran q' = [1] \<and>
     heap q' 1 = Some \<lparr>t_callback = 7, t_expiration = 80, t_delta = 20, t_repeat = True, t_sequence = 0\<rparr>) \<and>
   (\<exists>q'. tq_handleRead small_alloc (\<lambda>_. [OpCancel (1, 0)]) 60 demo_queue = Inr q' \<and> ran q' = [1] \<and> heap q' 1 = None)"
proof -
  obtain q' where q': "tq_handleRead small_alloc (\<lambda>_. []) 60 demo_queue = Inr q'"
    by (simp add: tq_handleRead_def getExpired_def demo_queue_eq deref_def run_timer_def reset_timers_def reset_one_def
        tq_insert_def UINTPTR_MAX_def less_prod_def restart_def addTime_def timestamp_valid_def resetTimerfd_eq
        set_put_def Let_def)
  obtain q2 where q2: "tq_handleRead small_alloc (\<lambda>_. [OpCancel (1, 0)]) 60 demo_queue = Inr q2"
    using tq_handleRead_ok [OF tq_reach_inv [OF demo_queue_reach small_alloc_fresh] small_alloc_fresh,
        of "\<lambda>_. [OpCancel (1, 0)]" 60]
    by (simp add: tq_handleRead_def getExpired_def demo_queue_eq deref_def run_timer_def reset_timers_def reset_one_def
        cancelInLoop_def UINTPTR_MAX_def less_prod_def Let_def delete_timer_def split: if_splits)
  from expired_timers_run [OF small_alloc_fresh demo_queue_reach q']
    expired_timers_run [OF small_alloc_fresh demo_queue_reach q2] q' q2 show ?thesis
    by (simp add: demo_queue_eq)
qed



text \<open>C40. The time the descriptor is armed with is a valid \<^verbatim>\<open>timespec\<close> that stands for exactly the time
  until the expiration, but never less than 100 microseconds, so that arming never disarms it.\<close>

theorem howMuchTimeFromNow_bounds:
  "howMuchTimeFromNow now t = (s, n) \<Longrightarrow>
   0 \<le> s \<and> 0 \<le> n \<and> n < 1000000000 \<and> (0, 0) \<noteq> (s, n) \<and> s * 1000000 + n div 1000 = max 100 (t - now) \<and> n mod 1000 = 0"
proof -
  assume h: "howMuchTimeFromNow now t = (s, n)"
  let ?m = "max 100 (t - now)"
  have sn: "s = ?m div 1000000" "n = ?m mod 1000000 * 1000"
    using h by (auto simp: howMuchTimeFromNow_def kMicroSecondsPerSecond_def Let_def max_def split: if_splits)
  have m: "100 \<le> ?m" by simp
  have b: "0 \<le> ?m mod 1000000" "?m mod 1000000 < 1000000" by simp_all
  have split: "?m div 1000000 * 1000000 + ?m mod 1000000 = ?m" by (rule div_mult_mod_eq)
  have nd: "n div 1000 = ?m mod 1000000" "n mod 1000 = 0" using sn(2) by simp_all
  have "0 \<le> s" using sn(1) m by (simp add: pos_imp_zdiv_nonneg_iff)
  moreover have "(0, 0) \<noteq> (s, n)" using sn m split by auto
  ultimately show ?thesis using sn b split nd by simp
qed

theorem howMuchTimeFromNow_bounds_witness:
  "(\<exists>s n. howMuchTimeFromNow 7 2500007 = (s, n) \<and> 0 \<le> s \<and> 0 \<le> n \<and> n < 1000000000 \<and>
     s * 1000000 + n div 1000 = 2500000) \<and>
   (\<exists>s n. howMuchTimeFromNow 7 20 = (s, n) \<and> (0, 0) \<noteq> (s, n) \<and> s * 1000000 + n div 1000 = 100)"
proof -
  have "howMuchTimeFromNow 7 2500007 = (2, 500000000)" "howMuchTimeFromNow 7 20 = (0, 100000)"
    by (simp_all add: howMuchTimeFromNow_def kMicroSecondsPerSecond_def)
  from howMuchTimeFromNow_bounds [OF this(1)] howMuchTimeFromNow_bounds [OF this(2)] this show ?thesis by simp
qed

end
