(* ===== verification/Reactor.thy ===== *)
theory Reactor
  imports Timer_Queue Io_Uring
begin

text \<open>
  The event loop as an object (\<^verbatim>\<open>src/EventLoop.cpp\<close>, \<^verbatim>\<open>src/DefaultPoller.cpp\<close>, \<^verbatim>\<open>src/TimerQueue.cpp\<close>): what its constructor builds out of
  the poller, the timer queue, the wake-up channel and the io\_uring manager, its timer interface for the
  loop thread and for other threads, and its destructor with those of the members.  The answers of the
  system calls are arguments; \<^verbatim>\<open>epoll_ctl\<close> answers by the number of the call.  Of the queued functors only those of the
  timer queue matter here.  The lemmas show that the destructor never faults, takes the three channels of the
  loop out of the poller and frees every timer, except those another thread added whose
  functor has not run.
\<close>

section \<open>Construction\<close>

record loop_env =
  e_getenv :: bool
  e_epoll_create :: int
  e_timerfd_create :: int
  e_eventfd :: int
  e_uring_eventfd :: int
  e_uring_init :: int
  e_uring_register :: int
  e_ctl :: "nat \<Rightarrow> int"
  e_clock :: "nat \<Rightarrow> int"
  e_settime :: "nat \<Rightarrow> int"

text \<open>A null pointer when the environment variable for the poller without \<^verbatim>\<open>epoll\<close> is set.\<close>

definition newDefaultPoller :: "bool \<Rightarrow> int \<Rightarrow> (nat \<Rightarrow> int) \<Rightarrow> EPollPoller option result" where
  "newDefaultPoller getenv epollfd fds =
     (if getenv then Inr None
      else if epollfd < 0 then Inl FatalAbort
      else Inr (Some (new_EPollPoller fds)))"

definition createTimerfd :: "int \<Rightarrow> int result" where
  "createTimerfd timerfd = (if timerfd < 0 then Inl FatalAbort else Inr timerfd)"

definition loop_createEventfd :: "int \<Rightarrow> int result" where
  "loop_createEventfd eventfd = (if eventfd < 0 then Inl FatalAbort else Inr eventfd)"

text \<open>The calls of the loop to its poller, which may be null.\<close>

definition loop_updateChannel :: "int \<Rightarrow> nat \<Rightarrow> EPollPoller option \<Rightarrow> EPollPoller option result" where
  "loop_updateChannel ret c poller =
     (case poller of
        None \<Rightarrow> Inl NullPointer
      | Some p \<Rightarrow> bind_result (updateChannel ret c p) (\<lambda>p'. Inr (Some p')))"

definition loop_removeChannel :: "int \<Rightarrow> nat \<Rightarrow> EPollPoller option \<Rightarrow> EPollPoller option result" where
  "loop_removeChannel ret c poller =
     (case poller of
        None \<Rightarrow> Inl NullPointer
      | Some p \<Rightarrow> bind_result (removeChannel ret c p) (\<lambda>p'. Inr (Some p')))"

definition loop_hasChannel :: "nat \<Rightarrow> EPollPoller option \<Rightarrow> bool result" where
  "loop_hasChannel c poller =
     (case poller of None \<Rightarrow> Inl NullPointer | Some p \<Rightarrow> Inr (hasChannel c p))"

text \<open>
  The constructor of the timer queue: its channel is object \<open>c\<close>; the setter of a callback updates the channel too.
  The queue will read the clock \<open>e_clock\<close> and call \<^verbatim>\<open>timerfd_settime\<close>, which answers \<open>e_settime\<close>.
\<close>

definition construct_TimerQueue ::
    "loop_env \<Rightarrow> nat \<Rightarrow> EPollPoller option \<Rightarrow> (TimerQueue \<times> EPollPoller) result" where
  "construct_TimerQueue env c poller =
     bind_result (createTimerfd (e_timerfd_create env)) (\<lambda>fd.
       case poller of
         None \<Rightarrow> Inl NullPointer
       | Some p \<Rightarrow>
           bind_result (setReadCallback (e_ctl env 0) c (set_channel c (\<lambda>_. new_Channel fd) p)) (\<lambda>p1.
           bind_result (enableReading (e_ctl env 1) c p1) (\<lambda>p2.
           Inr (new_TimerQueue (e_clock env) (e_settime env), p2))))"

datatype tq_functor = AddTimerInLoop nat | CancelInLoop "nat \<times> int"

record 'c Reactor =
  r_poller :: EPollPoller
  r_timers :: TimerQueue
  r_timerChannel :: nat
  r_wakeupChannel :: nat
  r_uring :: "'c UringManager"
  r_functors :: "tq_functor list"
  r_current :: bool

text \<open>
  The constructor of the loop in a thread with or without another loop: the members in the order of
  their declaration, then the body.
\<close>

definition new_Reactor ::
    "loop_env \<Rightarrow> (nat \<Rightarrow> int) \<Rightarrow> nat \<Rightarrow> nat \<Rightarrow> nat \<Rightarrow> bool \<Rightarrow> 'c Reactor result" where
  "new_Reactor env fds tc wc uc t_loopInThisThread =
     bind_result (newDefaultPoller (e_getenv env) (e_epoll_create env) fds) (\<lambda>poller.
     bind_result (construct_TimerQueue env tc poller) (\<lambda>(q, p1).
     bind_result (loop_createEventfd (e_eventfd env)) (\<lambda>wakeupFd.
     let p2 = set_channel wc (\<lambda>_. new_Channel wakeupFd) p1 in
     bind_result (new_UringManager (e_uring_eventfd env) (e_uring_init env) (e_uring_register env)
         (e_ctl env 2) (e_ctl env 3) uc p2) (\<lambda>(uring, p3).
     if t_loopInThisThread then Inl FatalAbort
     else
       bind_result (setReadCallback (e_ctl env 4) wc p3) (\<lambda>p4.
       bind_result (enableReading (e_ctl env 5) wc p4) (\<lambda>p5.
       Inr \<lparr>r_poller = p5, r_timers = q, r_timerChannel = tc, r_wakeupChannel = wc, r_uring = uring,
            r_functors = [], r_current = True\<rparr>))))))"

section \<open>Timers\<close>

text \<open>
  \<^verbatim>\<open>TimerQueue::addTimer\<close> up to the end of \<^verbatim>\<open>runInLoop\<close>: in the loop thread the timer is inserted, from
  another thread the insertion is queued.  Then the caller reads the sequence number of the timer.
\<close>

definition start_addTimer ::
    "((nat \<rightharpoonup> Timer) \<Rightarrow> nat option) \<Rightarrow> bool \<Rightarrow> nat \<Rightarrow> int \<Rightarrow> int \<times> bool \<Rightarrow> 'c Reactor \<Rightarrow> (nat \<times> 'c Reactor) result" where
  "start_addTimer alloc inLoopThread cb when interval r =
     bind_result (new_Timer alloc cb when interval (r_timers r)) (\<lambda>(a, q).
       if inLoopThread
       then bind_result (addTimerInLoop a q) (\<lambda>q'. Inr (a, r\<lparr>r_timers := q'\<rparr>))
       else Inr (a, r\<lparr>r_timers := q, r_functors := r_functors r @ [AddTimerInLoop a]\<rparr>))"

definition finish_addTimer :: "nat \<Rightarrow> 'c Reactor \<Rightarrow> (nat \<times> int) result" where
  "finish_addTimer a r = bind_result (deref a (r_timers r)) (\<lambda>t. Inr (a, t_sequence t))"

definition runAt ::
    "((nat \<rightharpoonup> Timer) \<Rightarrow> nat option) \<Rightarrow> bool \<Rightarrow> int \<Rightarrow> nat \<Rightarrow> 'c Reactor \<Rightarrow> (nat \<times> 'c Reactor) result" where
  "runAt alloc inLoopThread time cb r = start_addTimer alloc inLoopThread cb time (0, False) r"

definition runAfter ::
    "((nat \<rightharpoonup> Timer) \<Rightarrow> nat option) \<Rightarrow> bool \<Rightarrow> int \<Rightarrow> int \<Rightarrow> nat \<Rightarrow> 'c Reactor \<Rightarrow> (nat \<times> 'c Reactor) result" where
  "runAfter alloc inLoopThread now delay cb r = runAt alloc inLoopThread (addTime now delay) cb r"

definition runEvery ::
    "((nat \<rightharpoonup> Timer) \<Rightarrow> nat option) \<Rightarrow> bool \<Rightarrow> int \<Rightarrow> int \<times> bool \<Rightarrow> nat \<Rightarrow> 'c Reactor \<Rightarrow> (nat \<times> 'c Reactor) result" where
  "runEvery alloc inLoopThread now interval cb r =
     start_addTimer alloc inLoopThread cb (addTime now (fst interval)) interval r"

definition loop_cancel :: "bool \<Rightarrow> nat \<times> int \<Rightarrow> 'c Reactor \<Rightarrow> 'c Reactor result" where
  "loop_cancel inLoopThread timerId r =
     (if inLoopThread
      then bind_result (cancelInLoop timerId (r_timers r)) (\<lambda>q. Inr (r\<lparr>r_timers := q\<rparr>))
      else Inr (r\<lparr>r_functors := r_functors r @ [CancelInLoop timerId]\<rparr>))"

fun run_tq_functor :: "tq_functor \<Rightarrow> TimerQueue \<Rightarrow> TimerQueue result" where
  "run_tq_functor (AddTimerInLoop a) q = addTimerInLoop a q"
| "run_tq_functor (CancelInLoop i) q = cancelInLoop i q"

text \<open>The functors of the timer queue in \<^verbatim>\<open>doPendingFunctors\<close>, and the read event of the timer descriptor.\<close>

definition run_pending :: "'c Reactor \<Rightarrow> 'c Reactor result" where
  "run_pending r =
     bind_result (fold_result run_tq_functor (r_functors r) (r_timers r)) (\<lambda>q.
       Inr (r\<lparr>r_timers := q, r_functors := []\<rparr>))"

definition timer_event ::
    "((nat \<rightharpoonup> Timer) \<Rightarrow> nat option) \<Rightarrow> (nat \<Rightarrow> tq_op list) \<Rightarrow> int \<Rightarrow> 'c Reactor \<Rightarrow> 'c Reactor result" where
  "timer_event alloc cbs now r =
     bind_result (tq_handleRead alloc cbs now (r_timers r)) (\<lambda>q. Inr (r\<lparr>r_timers := q\<rparr>))"

section \<open>Destruction\<close>

definition destroy_TimerQueue ::
    "int \<Rightarrow> int \<Rightarrow> nat \<Rightarrow> TimerQueue \<Rightarrow> EPollPoller \<Rightarrow> (TimerQueue \<times> EPollPoller) result" where
  "destroy_TimerQueue ret1 ret2 c q p =
     bind_result (disableAll ret1 c p) (\<lambda>p1.
     bind_result (removeChannel ret2 c p1) (\<lambda>p2.
     bind_result (fold_result (\<lambda>e q. bind_result (deref (snd e) q) (\<lambda>_. Inr (delete_timer (snd e) q))) (timers q) q) (\<lambda>q'.
     Inr (q', p2))))"

text \<open>
  The destructor of the loop: the body, then the members in the opposite order of their declaration.
  The value is what the poller and the heap of timers are at the end; the queued functors die without running.
\<close>

definition destroy_Reactor :: "(nat \<Rightarrow> int) \<Rightarrow> 'c Reactor \<Rightarrow> 'c Reactor result" where
  "destroy_Reactor ret r =
     bind_result (disableAll (ret 0) (r_wakeupChannel r) (r_poller r)) (\<lambda>p1.
     bind_result (removeChannel (ret 1) (r_wakeupChannel r) p1) (\<lambda>p2.
     bind_result (destroy_UringManager (ret 2) (ret 3) (r_uring r) p2) (\<lambda>p3.
     bind_result (destroy_TimerQueue (ret 4) (ret 5) (r_timerChannel r) (r_timers r) p3) (\<lambda>(q, p4).
     Inr (r\<lparr>r_poller := p4, r_timers := q, r_functors := [], r_current := False\<rparr>)))))"

section \<open>The channels of the loop\<close>

lemma set_channel_same: "store p c = ch \<Longrightarrow> set_channel c (\<lambda>_. ch) p = p"
  by (simp add: set_channel_def fun_upd_idem)

lemma change_one_channel:
  assumes "poller_inv p" and "updateChannel r c (set_channel c f p) = Inr p'"
    and "\<And>ch. ch_fd (f ch) = ch_fd ch \<and> ch_index (f ch) = ch_index ch"
  shows "poller_inv p'" and "ch_fd (store p' c) = ch_fd (store p c)" and "d \<noteq> c \<Longrightarrow> store p' d = store p d"
  using updateChannel_after_keeps [OF assms(2,1,3)] updateChannel_one_call [OF assms(2)] assms(3)
  by (auto simp: one_call_def)

text \<open>What the constructors do to a new channel.\<close>

lemma install_channel:
  assumes "poller_inv p" and "store p c = new_Channel fd"
    and "setReadCallback r1 c (set_channel c (\<lambda>_. new_Channel fd) p) = Inr p1" and "enableReading r2 c p1 = Inr p2"
  shows "poller_inv p2" and "ch_index (store p2 c) = kAdded" and "d \<noteq> c \<Longrightarrow> store p2 d = store p d"
    and "ch_fd (store p2 c) = fd"
proof -
  have u1: "updateChannel r1 c (set_channel c (\<lambda>ch. ch\<lparr>readCallback := True\<rparr>) p) = Inr p1"
    using assms(3) by (simp add: setReadCallback_def set_channel_same [OF assms(2)])
  have u2: "updateChannel r2 c (set_channel c (\<lambda>ch. ch\<lparr>ch_events := ch_events ch OR kReadEvent\<rparr>) p1) = Inr p2"
    using assms(4) by (simp add: enableReading_def change_events_def)
  note c1 = change_one_channel [OF assms(1) u1, simplified]
  note c2 = change_one_channel [OF c1(1) u2, simplified]
  show "poller_inv p2" and "ch_fd (store p2 c) = fd" using c2(1,2) c1(2) assms(2) by (simp_all add: new_Channel_def)
  show "store p2 d = store p d" if "d \<noteq> c" using c1(3) [OF that] c2(3) [OF that] by simp
  have "ch_index (store p1 c) = kAdded"
    using u1 assms(2)
    by (auto simp: updateChannel_def update_ctl_def set_channel_def new_Channel_def Let_def index_defs split: if_splits)
  moreover have "ch_events (store p1 c) OR kReadEvent \<noteq> 0"
    using updateChannel_events [OF u1, of c] assms(2) by (simp add: set_channel_def new_Channel_def mask_defs)
  ultimately show "ch_index (store p2 c) = kAdded"
    using u2
    by (auto simp: updateChannel_def update_ctl_def set_channel_def isNoneEvent_def kNoneEvent_def Let_def index_defs
        split: if_splits)
qed

text \<open>What the destructors do to it: neither call can fail.\<close>

lemma close_channel:
  assumes "poller_inv p" and "ch_index (store p c) = kAdded"
  obtains p1 p2 where "disableAll r1 c p = Inr p1" and "removeChannel r2 c p1 = Inr p2" and "poller_inv p2"
    and "ch_index (store p2 c) = kNew" and "\<And>d. ch_fd (store p2 d) = ch_fd (store p d)"
    and "\<And>d. d \<noteq> c \<Longrightarrow> store p2 d = store p d"
proof -
  let ?f = "\<lambda>ch. ch\<lparr>ch_events := kNoneEvent\<rparr>"
  have "\<exists>p1. updateChannel r1 c (set_channel c ?f p) = Inr p1 \<and> ch_index (store p1 c) = kDeleted"
    using assms(2)
    by (simp add: updateChannel_def update_ctl_def set_channel_def isNoneEvent_def Let_def index_defs)
  then obtain p1 where u: "updateChannel r1 c (set_channel c ?f p) = Inr p1" and i: "ch_index (store p1 c) = kDeleted"
    by blast
  note c1 = change_one_channel [OF assms(1) u, simplified]
  define p2 where "p2 = set_channel c (\<lambda>ch. ch\<lparr>ch_index := kNew\<rparr>) (p1\<lparr>channels := (channels p1)(ch_fd (store p1 c) := None)\<rparr>)"
  have r: "removeChannel r2 c p1 = Inr p2"
    using i by (simp add: removeChannel_def p2_def Let_def index_defs)
  show thesis
  proof
    show "disableAll r1 c p = Inr p1" using u by (simp add: disableAll_def change_events_def)
    show "removeChannel r2 c p1 = Inr p2" by (rule r)
    show "poller_inv p2" using removeChannel_keeps [OF c1(1) r] .
    show "ch_index (store p2 c) = kNew" by (simp add: p2_def set_channel_def)
    show "ch_fd (store p2 d) = ch_fd (store p d)" for d
      using c1(2,3) by (cases "d = c") (simp_all add: p2_def set_channel_def)
    show "store p2 d = store p d" if "d \<noteq> c" for d using c1(3) [OF that] that by (simp add: p2_def set_channel_def)
  qed
qed

section \<open>The life of a loop\<close>

definition own_channels :: "'c Reactor \<Rightarrow> nat set" where
  "own_channels r = {r_timerChannel r, r_wakeupChannel r, um_channel (r_uring r)}"

text \<open>
  What happens between construction and destruction: timers from any thread, queued
  functors, the timer descriptor, operations on channels other than the loop's own, waiting for
  events, and requests to the io\_uring manager.
\<close>

inductive reactor_step :: "((nat \<rightharpoonup> Timer) \<Rightarrow> nat option) \<Rightarrow> 'c Reactor \<Rightarrow> 'c Reactor \<Rightarrow> bool" for alloc where
  run_at: "runAt alloc inLoop time cb r = Inr (a, r') \<Longrightarrow> reactor_step alloc r r'"
| run_after: "runAfter alloc inLoop now delay cb r = Inr (a, r') \<Longrightarrow> reactor_step alloc r r'"
| run_every: "runEvery alloc inLoop now interval cb r = Inr (a, r') \<Longrightarrow> reactor_step alloc r r'"
| cancel: "loop_cancel inLoop i r = Inr r' \<Longrightarrow> reactor_step alloc r r'"
| pending: "run_pending r = Inr r' \<Longrightarrow> reactor_step alloc r r'"
| timer: "timer_event alloc cbs now r = Inr r' \<Longrightarrow> reactor_step alloc r r'"
| channel: "channel_step (r_poller r) p \<Longrightarrow> \<forall>c \<in> own_channels r. ch_index (store p c) = ch_index (store (r_poller r) c) \<Longrightarrow>
    reactor_step alloc r (r\<lparr>r_poller := p\<rparr>)"
| uring: "um_channel m = um_channel (r_uring r) \<Longrightarrow> reactor_step alloc r (r\<lparr>r_uring := m\<rparr>)"

fun added :: "tq_functor \<Rightarrow> nat list" where
  "added (AddTimerInLoop a) = [a]"
| "added (CancelInLoop i) = []"

definition waiting_timers :: "'c Reactor \<Rightarrow> nat list" where
  "waiting_timers r = concat (map added (r_functors r))"

definition reactor_inv :: "'c Reactor \<Rightarrow> bool" where
  "reactor_inv r \<longleftrightarrow>
     poller_inv (r_poller r) \<and> (\<forall>c \<in> own_channels r. ch_index (store (r_poller r) c) = kAdded) \<and>
     distinct [r_timerChannel r, r_wakeupChannel r, um_channel (r_uring r)] \<and>
     tq_inv (set (waiting_timers r)) (r_timers r) \<and> distinct (waiting_timers r)"

lemma addTimerInLoop_ok:
  assumes "tq_inv E q" and "a \<in> E"
  obtains q' where "addTimerInLoop a q = Inr q'" and "tq_inv (E - {a}) q'" and "heap q' = heap q"
proof -
  obtain t where t: "heap q a = Some t" using tq_invD(2) [OF assms] by blast
  let ?q = "q\<lparr>timers := set_put (t_expiration t, a) (timers q), activeTimers := insert (a, t_sequence t) (activeTimers q)\<rparr>"
  from tq_insert_ok [OF assms t] obtain c where c: "tq_insert a q = Inr (c, ?q)" "tq_inv (E - {a}) ?q" by blast
  let ?q' = "if c then resetTimerfd (t_expiration t) ?q else ?q"
  have "addTimerInLoop a q = Inr ?q'" using c(1) t by (simp add: addTimerInLoop_def deref_def)
  moreover have "tq_inv (E - {a}) ?q'" using c(2) by (simp add: tq_inv_def resetTimerfd_eq)
  moreover have "heap ?q' = heap q" by (simp add: resetTimerfd_eq)
  ultimately show thesis by (rule that)
qed

lemma start_addTimer_inv:
  assumes "reactor_inv r" and "fresh_alloc alloc" and "start_addTimer alloc inLoop cb w i r = Inr (a, r')"
  shows "reactor_inv r'"
proof -
  have inv: "tq_inv (set (waiting_timers r)) (r_timers r)" using assms(1) by (simp add: reactor_inv_def)
  obtain b q where q: "new_Timer alloc cb w i (r_timers r) = Inr (b, q)"
    using assms(3) by (auto simp: start_addTimer_def bind_result_Inr_iff)
  note N = new_Timer_ok [OF inv assms(2) q]
  have b: "b \<notin> set (waiting_timers r)" using N(1) tq_invD(2) [OF inv, of b] by auto
  show ?thesis
  proof (cases inLoop)
    case True
    from addTimerInLoop_ok [OF N(2) insertI1] obtain q' where
      q': "addTimerInLoop b q = Inr q'" "tq_inv (insert b (set (waiting_timers r)) - {b}) q'" .
    then have "r' = r\<lparr>r_timers := q'\<rparr>" using assms(3) q True by (simp add: start_addTimer_def)
    then show ?thesis using assms(1) q'(2) b by (simp add: reactor_inv_def own_channels_def waiting_timers_def)
  next
    case False
    then have "r' = r\<lparr>r_timers := q, r_functors := r_functors r @ [AddTimerInLoop b]\<rparr>"
      using assms(3) q by (auto simp: start_addTimer_def)
    then show ?thesis using assms(1) N(2) b by (simp add: reactor_inv_def own_channels_def waiting_timers_def)
  qed
qed

lemma run_tq_functors_ok:
  assumes "tq_inv (E \<union> set (concat (map added fs))) q" and "distinct (concat (map added fs))"
    and "E \<inter> set (concat (map added fs)) = {}"
  shows "\<exists>q'. fold_result run_tq_functor fs q = Inr q' \<and> tq_inv E q' \<and> (\<forall>a \<in> E. heap q' a = heap q a)"
  using assms
proof (induction fs arbitrary: q)
  case (Cons f fs)
  let ?A = "set (concat (map added fs))" and ?E = "E \<union> set (concat (map added (f # fs)))"
  have "\<exists>q1. run_tq_functor f q = Inr q1 \<and> tq_inv (E \<union> ?A) q1 \<and> (\<forall>a \<in> E. heap q1 a = heap q a)"
  proof (cases f)
    case (AddTimerInLoop a)
    then have a: "a \<in> ?E" "?E - {a} = E \<union> ?A" using Cons.prems(2,3) by auto
    from addTimerInLoop_ok [OF Cons.prems(1) a(1)] obtain q' where
      "addTimerInLoop a q = Inr q'" "tq_inv (?E - {a}) q'" "heap q' = heap q" .
    then show ?thesis unfolding a(2) by (simp add: AddTimerInLoop)
  next
    case (CancelInLoop i)
    then show ?thesis using cancelInLoop_ok [OF Cons.prems(1), of i] by (auto simp: tq_frame_def)
  qed
  then obtain q1 where "run_tq_functor f q = Inr q1" "tq_inv (E \<union> ?A) q1" "\<forall>a \<in> E. heap q1 a = heap q a" by blast
  then show ?case using Cons.IH [of q1] Cons.prems(2,3) by auto
qed simp

lemma reactor_step_inv:
  assumes "reactor_step alloc r r'" and "fresh_alloc alloc" and "reactor_inv r"
  shows "reactor_inv r'"
  using assms
proof (induction rule: reactor_step.induct)
  case (cancel inLoop i r r')
  then have "tq_inv (set (waiting_timers r)) (r_timers r)" by (simp add: reactor_inv_def)
  from cancelInLoop_ok [OF this, of i] cancel show ?case
    by (auto simp: loop_cancel_def reactor_inv_def own_channels_def waiting_timers_def split: if_splits)
next
  case (pending r r')
  then have "tq_inv ({} \<union> set (concat (map added (r_functors r)))) (r_timers r)" "distinct (concat (map added (r_functors r)))"
    by (simp_all add: reactor_inv_def waiting_timers_def)
  from run_tq_functors_ok [OF this] pending show ?case
    by (auto simp: run_pending_def reactor_inv_def own_channels_def waiting_timers_def)
next
  case (timer cbs now r r')
  then have "tq_inv (set (waiting_timers r)) (r_timers r)" by (simp add: reactor_inv_def)
  from tq_handleRead_ok [OF this assms(2), of cbs now] timer show ?case
    by (auto simp: timer_event_def reactor_inv_def own_channels_def waiting_timers_def)
next
  case (channel r p)
  then show ?case
    using channel_step_keeps [OF channel.hyps(1)] by (auto simp: reactor_inv_def own_channels_def waiting_timers_def)
qed (auto simp: runAfter_def runAt_def runEvery_def intro: start_addTimer_inv,
  simp add: reactor_inv_def own_channels_def waiting_timers_def)

lemma reactor_steps_inv:
  assumes "(reactor_step alloc)\<^sup>*\<^sup>* r r'" and "fresh_alloc alloc" and "reactor_inv r"
  shows "reactor_inv r'"
  using assms by (induction rule: rtranclp_induct) (auto intro: reactor_step_inv)

text \<open>The descriptors of the kernel are those of the channels that are made for them.\<close>

definition loop_env_ok :: "loop_env \<Rightarrow> (nat \<Rightarrow> int) \<Rightarrow> nat \<Rightarrow> nat \<Rightarrow> nat \<Rightarrow> bool" where
  "loop_env_ok env fds tc wc uc \<longleftrightarrow>
     e_timerfd_create env = fds tc \<and> e_eventfd env = fds wc \<and> e_uring_eventfd env = fds uc \<and> distinct [tc, wc, uc]"

lemma new_Reactor_inv:
  assumes res: "new_Reactor env fds tc wc uc t = Inr r" and ok: "loop_env_ok env fds tc wc uc" and "inj fds"
  shows "reactor_inv r" and "own_channels r = {tc, wc, uc}" and "\<And>c. ch_fd (store (r_poller r) c) = fds c" and "r_current r"
    and "\<not> t"
proof -
  let ?p0 = "new_EPollPoller fds" and ?m = "r_uring r"
  have st0: "store ?p0 c = new_Channel (fds c)" for c by (simp add: new_EPollPoller_def)
  have fd: "e_timerfd_create env = fds tc" "e_eventfd env = fds wc" "e_uring_eventfd env = fds uc" "distinct [tc, wc, uc]"
    using ok by (simp_all add: loop_env_ok_def)
  from res obtain p1 p2 p3 p3' p4 p5 where
    t: "setReadCallback (e_ctl env 0) tc (set_channel tc (\<lambda>_. new_Channel (fds tc)) ?p0) = Inr p1"
      "enableReading (e_ctl env 1) tc p1 = Inr p2"
    and u: "setReadCallback (e_ctl env 2) uc (set_channel uc (\<lambda>_. new_Channel (fds uc))
          (set_channel wc (\<lambda>_. new_Channel (fds wc)) p2)) = Inr p3'"
      "enableReading (e_ctl env 3) uc p3' = Inr p3" "um_channel ?m = uc"
    and w: "setReadCallback (e_ctl env 4) wc p3 = Inr p4" "enableReading (e_ctl env 5) wc p4 = Inr p5"
    and r: "r = \<lparr>r_poller = p5, r_timers = new_TimerQueue (e_clock env) (e_settime env), r_timerChannel = tc, r_wakeupChannel = wc, r_uring = ?m,
        r_functors = [], r_current = True\<rparr>" "\<not> t"
    using fd(1-3)
    by (auto simp: new_Reactor_def newDefaultPoller_def construct_TimerQueue_def createTimerfd_def loop_createEventfd_def
        new_UringManager_def createEventfd_def bind_result_Inr_iff Let_def split: if_splits option.splits)
  note I1 = install_channel [OF poller_inv_new [OF assms(3)] st0 t]
  have ne: "uc \<noteq> tc" "wc \<noteq> tc" "wc \<noteq> uc" "tc \<noteq> wc" "uc \<noteq> wc" "tc \<noteq> uc" using fd(4) by auto
  have w2: "store p2 wc = new_Channel (fds wc)" and u2: "store p2 uc = new_Channel (fds uc)"
    using I1(3) ne st0 by simp_all
  note I2 = install_channel [OF I1(1) u2 u(1) [unfolded set_channel_same [OF w2]] u(2)]
  have w3: "store p3 wc = new_Channel (fds wc)" using I2(3) [OF ne(3)] w2 by simp
  note I3 = install_channel [OF I2(1) w3 _ w(2), unfolded set_channel_same [OF w3], OF w(1)]
  have "ch_index (store p5 tc) = kAdded" using I3(3) I2(3) I1(2) ne by simp
  moreover have "ch_index (store p5 uc) = kAdded" using I3(3) I2(2) ne by simp
  ultimately show "reactor_inv r"
    using I3(1,2) fd(4) u(3) tq_inv_new by (subst r(1)) (simp add: reactor_inv_def own_channels_def waiting_timers_def)
  show "own_channels r = {tc, wc, uc}" using u(3) by (subst r(1)) (simp add: own_channels_def)
  show "r_current r" by (subst r(1)) simp
  show "\<not> t" by (rule r(2))
  have "ch_fd (store p5 c) = fds c" for c
    using I1(3,4) I2(3,4) I3(3,4) st0 [of c]
    by (cases "c = wc"; cases "c = uc"; cases "c = tc") (auto simp: new_Channel_def ne)
  then show "ch_fd (store (r_poller r) c) = fds c" for c by (subst r(1)) simp
qed

definition loop_reachable :: "((nat \<rightharpoonup> Timer) \<Rightarrow> nat option) \<Rightarrow> 'c Reactor \<Rightarrow> bool" where
  "loop_reachable alloc r \<longleftrightarrow>
     (\<exists>env fds tc wc uc t r0. inj fds \<and> loop_env_ok env fds tc wc uc \<and> new_Reactor env fds tc wc uc t = Inr r0 \<and>
        (reactor_step alloc)\<^sup>*\<^sup>* r0 r)"

lemma loop_reachableI:
  "inj fds \<Longrightarrow> loop_env_ok env fds tc wc uc \<Longrightarrow> new_Reactor env fds tc wc uc t = Inr r0 \<Longrightarrow>
   (reactor_step alloc)\<^sup>*\<^sup>* r0 r \<Longrightarrow> loop_reachable alloc r"
  unfolding loop_reachable_def by blast

lemma loop_reachable_inv: "loop_reachable alloc r \<Longrightarrow> fresh_alloc alloc \<Longrightarrow> reactor_inv r"
  by (auto simp: loop_reachable_def intro: reactor_steps_inv new_Reactor_inv(1))

lemma delete_loop:
  "distinct (map snd es) \<Longrightarrow> \<forall>e \<in> set es. heap q (snd e) \<noteq> None \<Longrightarrow>
   fold_result (\<lambda>e q. bind_result (deref (snd e) q) (\<lambda>_. Inr (delete_timer (snd e) q))) es q =
   Inr (q\<lparr>heap := (\<lambda>a. if a \<in> snd ` set es then None else heap q a)\<rparr>)"
proof (induction es arbitrary: q)
  case (Cons e es)
  have "snd e \<notin> snd ` set es" using Cons.prems(1) by simp
  moreover from this have "\<forall>x \<in> set es. heap (delete_timer (snd e) q) (snd x) \<noteq> None"
    using Cons.prems(2) by (auto simp: delete_timer_def image_iff)
  moreover obtain t where "heap q (snd e) = Some t" using Cons.prems(2) by auto
  moreover have "(\<lambda>a. if a \<in> snd ` set es then None else heap (delete_timer (snd e) q) a) =
      (\<lambda>a. if a \<in> snd ` set (e # es) then None else heap q a)"
    by (auto simp: delete_timer_def)
  ultimately show ?case using Cons.IH [of "delete_timer (snd e) q"] Cons.prems
    by (simp add: deref_def) (simp add: delete_timer_def)
qed simp

lemma destroy_TimerQueue_ok:
  assumes "poller_inv p" and "ch_index (store p c) = kAdded" and "tq_inv E q"
  obtains q' p' where "destroy_TimerQueue r1 r2 c q p = Inr (q', p')" and "dom (heap q') = E" and "poller_inv p'"
    and "ch_index (store p' c) = kNew" and "\<And>d. d \<noteq> c \<Longrightarrow> store p' d = store p d"
proof -
  from close_channel [OF assms(1,2), of r1 r2] obtain p1 p2 where p: "disableAll r1 c p = Inr p1" "removeChannel r2 c p1 = Inr p2"
    "poller_inv p2" "ch_index (store p2 c) = kNew" "\<And>d. d \<noteq> c \<Longrightarrow> store p2 d = store p d" by metis
  note D = tq_invD [OF assms(3)]
  let ?q = "q\<lparr>heap := (\<lambda>a. if a \<in> snd ` set (timers q) then None else heap q a)\<rparr>"
  have mem: "a \<in> snd ` set (timers q) \<longleftrightarrow> a \<notin> E \<and> heap q a \<noteq> None" for a
    using D(3) by (force simp: image_iff)
  have "distinct (map snd (timers q))" using distinct_timer_addresses [OF assms(3), of "\<lambda>_. True"] by simp
  moreover have "\<forall>e \<in> set (timers q). heap q (snd e) \<noteq> None" using mem by blast
  ultimately have "destroy_TimerQueue r1 r2 c q p = Inr (?q, p2)"
    using p(1,2) by (simp add: destroy_TimerQueue_def delete_loop)
  moreover have "dom (heap ?q) = E" using mem D(2) by (auto simp: dom_def)
  ultimately show thesis using p that by blast
qed

lemma destroy_Reactor_ok:
  assumes "reactor_inv r"
  obtains r' where "destroy_Reactor ret r = Inr r'" and "poller_inv (r_poller r')"
    and "\<And>c. ch_index (store (r_poller r') c) = (if c \<in> own_channels r then kNew else ch_index (store (r_poller r) c))"
    and "dom (heap (r_timers r')) = set (waiting_timers r)" and "\<not> r_current r'"
proof -
  have i: "poller_inv (r_poller r)" "\<forall>c \<in> own_channels r. ch_index (store (r_poller r) c) = kAdded"
    "distinct [r_timerChannel r, r_wakeupChannel r, um_channel (r_uring r)]"
    "tq_inv (set (waiting_timers r)) (r_timers r)"
    using assms by (simp_all add: reactor_inv_def)
  let ?w = "r_wakeupChannel r" and ?u = "um_channel (r_uring r)" and ?t = "r_timerChannel r"
  have ne: "?w \<noteq> ?u" "?t \<noteq> ?u" "?t \<noteq> ?w" using i(3) by auto
  have a: "ch_index (store (r_poller r) ?w) = kAdded" "ch_index (store (r_poller r) ?u) = kAdded"
    "ch_index (store (r_poller r) ?t) = kAdded" using i(2) by (simp_all add: own_channels_def)
  from close_channel [OF i(1) a(1), of "ret 0" "ret 1"] obtain p1 p2 where w: "disableAll (ret 0) ?w (r_poller r) = Inr p1"
    "removeChannel (ret 1) ?w p1 = Inr p2" "poller_inv p2" "ch_index (store p2 ?w) = kNew"
    "\<And>d. d \<noteq> ?w \<Longrightarrow> store p2 d = store (r_poller r) d" by metis
  have "ch_index (store p2 ?u) = kAdded" using w(5) a(2) ne by simp
  from close_channel [OF w(3) this, of "ret 2" "ret 3"] obtain p2' p3 where u: "disableAll (ret 2) ?u p2 = Inr p2'"
    "removeChannel (ret 3) ?u p2' = Inr p3" "poller_inv p3" "ch_index (store p3 ?u) = kNew"
    "\<And>d. d \<noteq> ?u \<Longrightarrow> store p3 d = store p2 d" by metis
  have "ch_index (store p3 ?t) = kAdded" using u(5) w(5) a(3) ne by simp
  from destroy_TimerQueue_ok [OF u(3) this i(4), of "ret 4" "ret 5"] obtain q' p4 where
    t: "destroy_TimerQueue (ret 4) (ret 5) ?t (r_timers r) p3 = Inr (q', p4)" "dom (heap q') = set (waiting_timers r)"
      "poller_inv p4" "ch_index (store p4 ?t) = kNew" "\<And>d. d \<noteq> ?t \<Longrightarrow> store p4 d = store p3 d" by metis
  let ?r = "r\<lparr>r_poller := p4, r_timers := q', r_functors := [], r_current := False\<rparr>"
  have "destroy_Reactor ret r = Inr ?r"
    using w(1,2) u(1,2) t(1) by (simp add: destroy_Reactor_def destroy_UringManager_def)
  moreover have "ch_index (store p4 c) = (if c \<in> own_channels r then kNew else ch_index (store (r_poller r) c))" for c
    using w(4,5) u(4,5) t(4,5) ne by (auto simp: own_channels_def)
  ultimately show thesis using t(2,3) that [of ?r] by simp
qed

section \<open>Properties\<close>

text \<open>C22. A loop can always be destroyed: whatever timers were added and cancelled from whatever threads, whatever the
  timer descriptor, the functors and the channels of others did since the construction and whatever
  \<^verbatim>\<open>epoll_ctl\<close> answers, the destructor ends without a fault; afterwards none of the channels of the
  loop is known to the poller or to the kernel while those of others are as before, every
  timer has been freed, each once, but those whose insertion another thread had queued and the
  loop had not yet run, and the thread can have a loop again.\<close>

theorem loop_destroyed_cleanly:
  assumes "loop_reachable alloc r" and "fresh_alloc alloc"
  shows "\<exists>r'. destroy_Reactor ret r = Inr r' \<and>
    (\<forall>c. if c \<in> own_channels r
         then \<not> hasChannel c (r_poller r') \<and>
           interest (ctls (r_poller r')) (ch_fd (store (r_poller r') c)) = None
         else ch_index (store (r_poller r') c) = ch_index (store (r_poller r) c)) \<and>
    disciplined (ctls (r_poller r')) \<and>
    dom (heap (r_timers r')) = set (waiting_timers r) \<and> \<not> r_current r'"
proof -
  from destroy_Reactor_ok [OF loop_reachable_inv [OF assms], of ret] obtain r' where r': "destroy_Reactor ret r = Inr r'" "poller_inv (r_poller r')"
    "\<And>c. ch_index (store (r_poller r') c) = (if c \<in> own_channels r then kNew else ch_index (store (r_poller r) c))"
    "dom (heap (r_timers r')) = set (waiting_timers r)" "\<not> r_current r'" by metis
  have "chan_ok c (r_poller r')" for c using r'(2) by (simp add: poller_inv_def)
  then have "\<not> hasChannel c (r_poller r') \<and> interest (ctls (r_poller r')) (ch_fd (store (r_poller r') c)) = None"
    if "c \<in> own_channels r" for c
    using r'(3) [of c] that by (simp add: chan_ok_def Let_def index_defs)
  moreover have "disciplined (ctls (r_poller r'))" using r'(2) by (simp add: poller_inv_def)
  ultimately show ?thesis using r'(1,3-5) by (intro exI [of _ r']) simp
qed

text \<open>A loop with its three channels, for the examples.\<close>

definition sample_env :: loop_env where
  "sample_env = \<lparr>e_getenv = False, e_epoll_create = 3, e_timerfd_create = 0, e_eventfd = 1, e_uring_eventfd = 2,
     e_uring_init = 0, e_uring_register = 0, e_ctl = (\<lambda>_. 0), e_clock = (\<lambda>n. 10), e_settime = (\<lambda>_. 0)\<rparr>"

abbreviation sample_queue :: TimerQueue where
  "sample_queue \<equiv> new_TimerQueue (\<lambda>n. 10) (\<lambda>_. 0)"

definition sample_alloc :: "(nat \<rightharpoonup> Timer) \<Rightarrow> nat option" where
  "sample_alloc h = (if h 1 = None then Some 1 else if h 2 = None then Some 2 else None)"

lemma sample_alloc_fresh: "fresh_alloc sample_alloc"
  by (simp add: fresh_alloc_def sample_alloc_def UINTPTR_MAX_def)

lemma sample_env_ok: "loop_env_ok sample_env int 0 1 2"
  by (simp add: loop_env_ok_def sample_env_def)

lemma sample_reactor:
  obtains r :: "unit Reactor" where "new_Reactor sample_env int 0 1 2 False = Inr r" and "r_timers r = sample_queue"
    and "r_functors r = []"
proof -
  have "\<exists>r :: unit Reactor. new_Reactor sample_env int 0 1 2 False = Inr r \<and> r_timers r = sample_queue \<and> r_functors r = []"
    by (simp add: new_Reactor_def sample_env_def newDefaultPoller_def construct_TimerQueue_def createTimerfd_def
        loop_createEventfd_def new_UringManager_def createEventfd_def new_EPollPoller_def set_channel_def setReadCallback_def
        updateChannel_def update_ctl_def new_Channel_def enableReading_def change_events_def isNoneEvent_def kNoneEvent_def
        kReadEvent_def EPOLLIN_def EPOLLPRI_def index_defs Let_def)
  with that show thesis by blast
qed

theorem loop_destroyed_cleanly_witness:
  "\<exists>(r0 :: unit Reactor) r1 r2 r'. new_Reactor sample_env int 0 1 2 False = Inr r0 \<and>
    runAt sample_alloc True 100 7 r0 = Inr (1, r1) \<and> runAt sample_alloc False 200 8 r1 = Inr (2, r2) \<and>
    destroy_Reactor (\<lambda>_. -1) r2 = Inr r' \<and> dom (heap (r_timers r')) = {2}"
proof -
  obtain r0 :: "unit Reactor" where r0: "new_Reactor sample_env int 0 1 2 False = Inr r0" "r_timers r0 = sample_queue"
    "r_functors r0 = []" by (rule sample_reactor)
  obtain r1 where r1: "runAt sample_alloc True 100 7 r0 = Inr (1, r1)" "heap (r_timers r1) 2 = None"
      "heap (r_timers r1) 1 \<noteq> None" "r_functors r1 = []"
    using r0(2,3)
    by (simp add: runAt_def start_addTimer_def new_Timer_def sample_alloc_def new_TimerQueue_def addTimerInLoop_def
        tq_insert_def deref_def resetTimerfd_eq Let_def)
  obtain r2 where r2: "runAt sample_alloc False 200 8 r1 = Inr (2, r2)" "r_functors r2 = [AddTimerInLoop 2]"
    using r1(2-4) by (auto simp: runAt_def start_addTimer_def new_Timer_def sample_alloc_def)
  have "(reactor_step sample_alloc)\<^sup>*\<^sup>* r0 r2"
    using reactor_step.run_at [OF r1(1)] reactor_step.run_at [OF r2(1)] by (blast intro: rtranclp_trans r_into_rtranclp)
  from loop_destroyed_cleanly [OF loop_reachableI [OF inj_of_nat sample_env_ok r0(1) this] sample_alloc_fresh, of "\<lambda>_. -1"]
  obtain r' where "destroy_Reactor (\<lambda>_. -1) r2 = Inr r'" "dom (heap (r_timers r')) = set (waiting_timers r2)" by blast
  moreover have "set (waiting_timers r2) = {2}" using r2(2) by (simp add: waiting_timers_def)
  ultimately show ?thesis using r0(1) r1(1) r2(1) by blast
qed

text \<open>C36. Adding a timer from another thread races with its expiration: when the loop inserts and runs a one-shot timer before
  \<^verbatim>\<open>addTimer\<close> has read its sequence number, the timer is already deleted and the read, which makes the
  \<^verbatim>\<open>TimerId\<close>, uses freed memory, whatever else the queued functors and the callbacks of timers do.\<close>

theorem other_thread_addTimer_races:
  assumes "loop_reachable alloc r" and "fresh_alloc alloc" and "runAt alloc False w cb r = Inr (a, r1)"
    and "run_pending r1 = Inr r2" and "w \<le> now" and "timer_event alloc cbs now r2 = Inr r3"
  shows "finish_addTimer a r3 = Inl UseAfterFree"
proof -
  have inv: "reactor_inv r" using loop_reachable_inv [OF assms(1,2)] .
  then have tq: "tq_inv (set (waiting_timers r)) (r_timers r)" and dis: "distinct (waiting_timers r)"
    by (simp_all add: reactor_inv_def)
  from assms(3) obtain q1 where q1: "new_Timer alloc cb w (0, False) (r_timers r) = Inr (a, q1)"
    and r1: "r1 = r\<lparr>r_timers := q1, r_functors := r_functors r @ [AddTimerInLoop a]\<rparr>"
    by (auto simp: runAt_def start_addTimer_def bind_result_Inr_iff)
  note N = new_Timer_ok [OF tq assms(2) q1]
  obtain t where t: "heap q1 a = Some t" "t_expiration t = w" "\<not> t_repeat t" using N(3) by simp
  have "a \<notin> set (waiting_timers r)" using N(1) tq_invD(2) [OF tq, of a] by auto
  with N(2) dis run_tq_functors_ok [of "{a}" "r_functors r" q1] obtain q2 where
    q2: "fold_result run_tq_functor (r_functors r) q1 = Inr q2" "tq_inv {a} q2" "heap q2 a = Some t"
    using t(1) by (auto simp: waiting_timers_def)
  from addTimerInLoop_ok [OF q2(2) insertI1] obtain q3 where
    q3: "addTimerInLoop a q2 = Inr q3" "tq_inv {} q3" "heap q3 = heap q2" by auto
  have r2: "r2 = r1\<lparr>r_timers := q3, r_functors := []\<rparr>"
    using assms(4) q2(1) q3(1) by (simp add: run_pending_def r1 fold_result_append)
  have "(w, a) \<in> set (timers q3)" using tq_invD(3) [OF q3(2)] q3(3) q2(3) t(2) by auto
  then have ex: "(w, a) \<in> set (filter (\<lambda>e. fst e \<le> now) (timers q3))" using assms(5) by simp
  from assms(6) obtain q4 where q4: "tq_handleRead alloc cbs now q3 = Inr q4" "r3 = r2\<lparr>r_timers := q4\<rparr>"
    by (auto simp: timer_event_def bind_result_Inr_iff r2)
  from tq_handleRead_ok [OF q3(2) assms(2), of cbs now] q4(1) ex have "heap q4 a = None"
    using q3(3) q2(3) t(3) by (auto split: if_splits)
  then show ?thesis by (simp add: finish_addTimer_def q4(2) deref_def)
qed

theorem other_thread_addTimer_races_witness:
  "\<exists>(r :: unit Reactor) r1 r2 r3. new_Reactor sample_env int 0 1 2 False = Inr r \<and>
    runAt sample_alloc False 100 7 r = Inr (1, r1) \<and> run_pending r1 = Inr r2 \<and>
    timer_event sample_alloc (\<lambda>_. []) 150 r2 = Inr r3 \<and> finish_addTimer 1 r3 = Inl UseAfterFree"
proof -
  obtain r :: "unit Reactor" where r: "new_Reactor sample_env int 0 1 2 False = Inr r" "r_timers r = sample_queue"
    "r_functors r = []" by (rule sample_reactor)
  have reach: "loop_reachable sample_alloc r"
    by (rule loop_reachableI [OF inj_of_nat sample_env_ok r(1)]) simp
  obtain r1 where r1: "runAt sample_alloc False 100 7 r = Inr (1, r1)" "r_functors r1 = [AddTimerInLoop 1]"
      "r_timers r1 = sample_queue\<lparr>heap := [1 \<mapsto> \<lparr>t_callback = 7, t_expiration = 100, t_delta = 0, t_repeat = False,
          t_sequence = 0\<rparr>], numCreated := 1\<rparr>"
    using r(2,3) by (simp add: runAt_def start_addTimer_def new_Timer_def sample_alloc_def new_TimerQueue_def)
  obtain r2 where r2: "run_pending r1 = Inr r2" "r_timers r2 = \<lparr>timers = [(100, 1)], activeTimers = {(1, 0)},
      callingExpiredTimers = False, cancelingTimers = {}, heap = heap (r_timers r1), numCreated = 1, armed = Some 110, arms = 1,
      tq_clock = (\<lambda>n. 10), tq_settime = (\<lambda>_. 0), ran = []\<rparr>"
    using r1(2,3)
    by (simp add: run_pending_def addTimerInLoop_def tq_insert_def deref_def resetTimerfd_eq new_TimerQueue_def
        set_put_def Let_def)
  obtain r3 where r3: "timer_event sample_alloc (\<lambda>_. []) 150 r2 = Inr r3"
    by (simp add: timer_event_def r2(2) r1(3) tq_handleRead_def getExpired_def deref_def run_timer_def reset_timers_def
        reset_one_def less_prod_def Let_def)
  have "finish_addTimer 1 r3 = Inl UseAfterFree"
    by (rule other_thread_addTimer_races [OF reach sample_alloc_fresh r1(1) r2(1) _ r3]) simp
  then show ?thesis using r(1) r1(1) r2(1) r3 by blast
qed

text \<open>With the environment variable set there is no poller, and the construction of a loop faults at once.\<close>

lemma poll_variable_faults:
  "e_getenv env \<Longrightarrow> 0 \<le> e_timerfd_create env \<Longrightarrow> new_Reactor env fds tc wc uc t = Inl NullPointer"
  by (simp add: new_Reactor_def newDefaultPoller_def construct_TimerQueue_def createTimerfd_def)

text \<open>A second loop in one thread ends the program, but only when everything it needs has been built.\<close>

lemma second_loop_aborts:
  assumes "new_Reactor env fds tc wc uc False = Inr (r :: 'c Reactor)"
  shows "new_Reactor env fds tc wc uc True = (Inl FatalAbort :: 'c Reactor result)"
  using assms
  by (auto simp: new_Reactor_def bind_result_Inr_iff Let_def)

end
