(* ===== verification/Test_Server.thy ===== *)
theory Test_Server
  imports Server_System Io_Uring
begin

text \<open>
  The demonstration programs of \<^verbatim>\<open>examples/testserver.cpp\<close>: an echo service over a connection, and a
  program that writes a file through io\_uring, reads it back in the callback of the write and leaves
  its loop in the callback of the read.  The file calls \<^verbatim>\<open>asynRW\<close>, which does not
  exist, and has two functions \<^verbatim>\<open>main\<close>, so it does not compile; the model takes \<^verbatim>\<open>asyncRW\<close>, which is
  meant.  The lemmas show what one echo connection sends, and that the second program quits exactly
  after its last completion, for every result of its two operations.
\<close>

section \<open>The echo service\<close>

text \<open>The line that \<^verbatim>\<open>onConnection\<close> logs; the addresses are given as text.\<close>

definition echo_onConnection :: "bool \<Rightarrow> string \<Rightarrow> string \<Rightarrow> string" where
  "echo_onConnection connected peerAddr localAddr =
     ''EchoService - '' @ peerAddr @ '' -> '' @ localAddr @ (if connected then '' is online'' else '' is offline'')"

definition echo_onMessage :: "int \<Rightarrow> world \<Rightarrow> world result" where
  "echo_onMessage timestamp w =
     bind_result (retrieveAllAsString (inputBuffer (conn w))) (\<lambda>(msg, buf).
     bind_result (send_string True msg (set_conn (\<lambda>t. t\<lparr>inputBuffer := buf\<rparr>) w)) (\<lambda>w1.
     Inr (shutdown True w1)))"

definition echo_callbacks :: callbacks where
  "echo_callbacks = \<lparr>connectionCallback = Inr, messageCallback = echo_onMessage, closedCallback = Inr\<rparr>"

lemma echo_onMessage_ok:
  assumes inv: "conn_inv s w" and w: "willing (kern w)"
  shows "\<exists>w'. echo_onMessage T w = Inr w' \<and>
    conn_inv (s @ (if tc_state (conn w) = kConnected then contents (inputBuffer (conn w)) else [])) w' \<and>
    tc_state (conn w') = (if tc_state (conn w) = kConnected then kDisconnecting else tc_state (conn w)) \<and> kern w' = kern w"
proof -
  let ?m = "contents (inputBuffer (conn w))"
  let ?w = "set_conn (\<lambda>t. t\<lparr>inputBuffer := retrieveAll (inputBuffer (conn w))\<rparr>) w"
  have b: "buf_inv (retrieveAll (inputBuffer (conn w)))"
    using conn_invD(1) [OF inv] by (simp add: retrieveAll_def buffer_defs)
  have inv1: "conn_inv s ?w" by (rule conn_inv_input [OF b inv])
  have eq: "echo_onMessage T w = bind_result (send_string True ?m ?w) (\<lambda>w1. Inr (shutdown True w1))"
    using retrieveAllAsString_ok [OF conn_invD(1) [OF inv]] by (simp add: echo_onMessage_def)
  show ?thesis
  proof (cases "tc_state (conn w) = kConnected")
    case True
    then obtain w1 where w1: "sendInLoop ?m ?w = Inr w1" "kern w1 = kern w" "tc_state (conn w1) = kConnected"
      using sendInLoop_total [of ?w ?m] w by auto
    obtain k where "k_write (kern w) (clock w) = Inr k" using w by (auto simp: willing_def)
    then have "\<not> peer_gone ?w" by (simp add: peer_gone_def)
    then have i: "conn_inv (s @ ?m) w1" using sendInLoop_inv [OF inv1 _ w1(1)] True by simp
    have "echo_onMessage T w = Inr (shutdown True w1)" using w1 True by (simp add: eq send_string_def)
    then show ?thesis using shutdown_inv [OF i] w1 True by (auto simp: shutdown_def Let_def)
  next
    case False
    then show ?thesis using inv1 by (simp add: eq send_string_def shutdown_def)
  qed
qed

text \<open>A read event of an echo connection that is not open any more sends nothing.\<close>

lemma echo_read_closed:
  assumes inv: "conn_inv s w" and w: "willing (kern w)" and "tc_state (conn w) \<noteq> kConnected"
    and res: "handleRead echo_callbacks T w = Inr w'"
  shows "conn_inv s w'"
proof -
  from handleRead_split [OF inv] obtain w1 where
    w1: "conn_inv s w1" "tc_state (conn w1) = tc_state (conn w)" "kern w1 = kern w"
      "handleRead echo_callbacks T w = (case read_outcome w of Inl e \<Rightarrow> Inr (handleError (emit LogError w1))
          | Inr d \<Rightarrow> if d = [] then handleClose echo_callbacks w1 else messageCallback echo_callbacks T w1)" by metis
  have cb: "messageCallback echo_callbacks T = echo_onMessage T" "handleClose echo_callbacks w1 = handleClose quiet w1"
    by (simp_all add: echo_callbacks_def handleClose_def quiet_def)
  from echo_onMessage_ok [OF w1(1), of T] w assms(3) w1(2,3)
  have "echo_onMessage T w1 = Inr w' \<Longrightarrow> conn_inv s w'" by auto
  then show ?thesis
    using w1(1) res handleClose_inv [OF w1(1)]
    by (auto simp: w1(4) cb handleError_def conn_inv_emit split: if_splits sum.splits)
qed

text \<open>An echo connection answers what its first read event brings, and only that: the bytes read are
  written to the socket or pending, in this order behind what was sent before; the
  connection is then disconnecting, and its write side is shut down once nothing is pending; later
  read events add nothing to its output.\<close>

lemma echo_first_segment:
  assumes "conn_inv s w" and "tc_state (conn w) = kConnected" and "willing (kern w)"
    and "contents (inputBuffer (conn w)) = []" and "read_outcome w = Inr d" and "d \<noteq> []"
  shows "\<exists>w'. handleRead echo_callbacks T w = Inr w' \<and> wire (trace w') @ pending w' = s @ d \<and>
    tc_state (conn w') = kDisconnecting \<and> (ShutdownWrite \<in> set (trace w') \<longleftrightarrow> pending w' = []) \<and>
    (\<forall>T2 w2. handleRead echo_callbacks T2 w' = Inr w2 \<longrightarrow> wire (trace w2) @ pending w2 = s @ d)"
proof -
  from handleRead_split [OF assms(1)] obtain w1 where
    w1: "conn_inv s w1" "tc_state (conn w1) = tc_state (conn w)" "kern w1 = kern w"
      "contents (inputBuffer (conn w1)) = contents (inputBuffer (conn w)) @ (case read_outcome w of Inl e \<Rightarrow> [] | Inr d \<Rightarrow> d)"
      "handleRead echo_callbacks T w = (case read_outcome w of Inl e \<Rightarrow> Inr (handleError (emit LogError w1))
          | Inr d \<Rightarrow> if d = [] then handleClose echo_callbacks w1 else messageCallback echo_callbacks T w1)" by metis
  from echo_onMessage_ok [OF w1(1), of T] w1(2-4) assms(2-5) obtain w' where
    w': "echo_onMessage T w1 = Inr w'" "conn_inv (s @ d) w'" "tc_state (conn w') = kDisconnecting" "kern w' = kern w"
    by auto
  have "handleRead echo_callbacks T w = Inr w'" using w'(1) w1(5) assms(5,6) by (simp add: echo_callbacks_def)
  moreover have "ShutdownWrite \<in> set (trace w') \<longleftrightarrow> pending w' = []"
    using conn_invD(4,5) [OF w'(2)] w'(3) by (auto simp: shut_ok_def split: if_splits)
  moreover have "wire (trace w2) @ pending w2 = s @ d" if "handleRead echo_callbacks T2 w' = Inr w2" for T2 w2
    using conn_invD(3) [OF echo_read_closed [OF w'(2) _ _ that]] w'(3,4) assms(3) by simp
  ultimately show ?thesis using w'(2,3) conn_invD(3) [OF w'(2)] by blast
qed

text \<open>In the loop of an echo server the handler, which keeps no context, meets its contract.\<close>

definition echo_handler :: "unit handler" where
  "echo_handler T x w = Some (bind_result (echo_onMessage T w) (\<lambda>w'. Inr ((), w')))"

lemma echo_calls:
  assumes "buf_inv (inputBuffer (conn w))" and "echo_onMessage T w = Inr w'"
  shows "user_calls w w'"
proof -
  let ?b = "retrieveAll (inputBuffer (conn w))"
  have r: "retrieveAllAsString (inputBuffer (conn w)) = Inr (contents (inputBuffer (conn w)), ?b)"
    using retrieveAllAsString_ok [OF assms(1)] .
  obtain v where v: "send_string True (contents (inputBuffer (conn w))) (set_conn (\<lambda>t. t\<lparr>inputBuffer := ?b\<rparr>) w) = Inr v"
    "w' = shutdown True v"
    using assms(2) r by (auto simp: echo_onMessage_def bind_result_Inr_iff)
  have "buf_inv ?b" using assms(1) by (simp add: retrieveAll_def buffer_defs)
  then show ?thesis
    unfolding v(2) using user_calls.send [OF user_calls.consume [OF user_calls.none] v(1)] by (intro user_calls.shutdown)
qed

lemma echo_faults:
  assumes "buf_inv (inputBuffer (conn w))" and "echo_onMessage T w = Inl e"
  shows "e = FatalAbort"
  using assms retrieveAllAsString_ok [OF assms(1)] sendInLoop_fault
  by (auto simp: echo_onMessage_def send_string_def bind_result_Inl_iff split: if_splits)

interpretation echo_loop: message_handler echo_handler "()" "\<lambda>_. True" "{FatalAbort}"
proof
  show "\<exists>r. echo_handler T x w = Some r \<and> faults_in {FatalAbort} r" if "conn_ok False w" for T x w
    using echo_faults [OF conn_invD(1) [OF conn_okD(1) [OF that]], of T]
    by (auto simp: echo_handler_def bind_result_Inl_iff)
  show "True \<and> user_calls w w'" if "conn_ok False w" "echo_handler T x w = Some (Inr (x', w'))" for T x x' w w'
    using that(2) echo_calls [OF conn_invD(1) [OF conn_okD(1) [OF that(1)]]]
    by (auto simp: echo_handler_def bind_result_Inr_iff)
qed simp_all

text \<open>So the loop of an echo server is as safe as that of an HTTP server.\<close>

lemmas echo_round_safe = echo_loop.rounds_safe
lemmas echo_output_drains = echo_loop.all_drained

text \<open>The service as an object, and what \<^verbatim>\<open>main\<close> builds before it starts the loop \<open>loop\<close>.\<close>

record EchoService =
  es_loop :: nat
  es_server :: TcpServer

definition new_EchoService :: "nat \<Rightarrow> sockaddr_in \<Rightarrow> string \<Rightarrow> EchoService" where
  "new_EchoService loop listenAddr name =
     \<lparr>es_loop = loop, es_server = setThreadNum 4 (new_TcpServer loop listenAddr name)\<rparr>"

definition echo_start :: "(nat \<Rightarrow> nat) \<Rightarrow> nat \<Rightarrow> EchoService \<Rightarrow> EchoService" where
  "echo_start startLoop here e = e\<lparr>es_server := server_start startLoop False here (es_server e)\<rparr>"

definition echo_main :: "(string \<Rightarrow> 8 word list) \<Rightarrow> (nat \<Rightarrow> nat) \<Rightarrow> nat \<Rightarrow> EchoService" where
  "echo_main inet_addr startLoop loop =
     echo_start startLoop loop (new_EchoService loop (new_InetAddress inet_addr 8000 ''127.0.0.1'') ''EchoService'')"

lemma echo_main_server:
  "es_server (echo_main inet_addr startLoop loop) =
    started_server startLoop False loop (new_InetAddress inet_addr 8000 ''127.0.0.1'') ''EchoService'' 4"
  by (simp add: echo_main_def echo_start_def new_EchoService_def started_server_def)

text \<open>
  The service with its loops goes through runs of its server, and no step fails but by an abort, or the overflow of
  a counter when a connection is accepted.
\<close>

lemma echo_system_sound:
  assumes "length (inet_addr ''127.0.0.1'') = 4" and "\<And>l. inj (fds l)"
    and "sys_reach P echo_handler () r (new_system (es_server (echo_main inet_addr startLoop loop)) fds kn) y"
  shows "server_runs (es_server (echo_main inet_addr startLoop loop)) (sy_server y)"
    and "\<exists>q. sys_accept () r sockfd peer localAddr y = Some q \<and> faults_in {FatalAbort, SignedOverflow} q"
    and "\<exists>q. sys_event echo_handler r T l y = Some q \<and> faults_in {FatalAbort} q"
    and "sy_active y l = [] \<Longrightarrow> \<exists>q. sys_functor () r l y = Some q \<and> faults_in {FatalAbort} q"
proof -
  have "length (sin_addr (new_InetAddress inet_addr 8000 ''127.0.0.1'')) = 4" using assms(1) by (simp add: new_InetAddress_def)
  then have ok: "echo_loop.sys_ok once r (new_system (es_server (echo_main inet_addr startLoop loop)) fds kn)" for once
    unfolding echo_main_server by (rule echo_loop.new_system_ok [OF _ assms(2)])
  note y = echo_loop.sys_reach_sane(1) [OF assms(3) ok]
  show "server_runs (es_server (echo_main inet_addr startLoop loop)) (sy_server y)"
    by (rule echo_loop.system_refines(1) [OF assms(3) ok])
  show "\<exists>q. sys_accept () r sockfd peer localAddr y = Some q \<and> faults_in {FatalAbort, SignedOverflow} q"
    "\<exists>q. sys_event echo_handler r T l y = Some q \<and> faults_in {FatalAbort} q"
    "sy_active y l = [] \<Longrightarrow> \<exists>q. sys_functor () r l y = Some q \<and> faults_in {FatalAbort} q"
    using echo_loop.system_safe [OF y] by blast+
qed

section \<open>The io\_uring program\<close>

text \<open>
  The two callbacks with what they capture: the file and the address of the read buffer.  A callback
  may make a further request, and may print and quit; \<open>content\<close> is the read buffer.
\<close>

datatype test_cb = OnWrite File nat | OnRead

definition write_content :: string where
  "write_content = ''Hello, this is a test for my muduoX with io_uring!''"

definition read_buffer_size :: nat where "read_buffer_size = 1024"

definition test_reaction :: "test_cb reaction" where
  "test_reaction cb res op =
     (case cb of
        OnWrite file buf \<Rightarrow>
          if res < 0 then []
          else [\<lparr>ctx_file = file, ctx_rwOp = new_RWOperation READ 0 \<lparr>iov_base = buf, iov_len = read_buffer_size\<rparr>,
                 ctx_callback = OnRead\<rparr>]
      | OnRead \<Rightarrow> [])"

definition test_quits :: "test_cb \<Rightarrow> int \<Rightarrow> bool" where
  "test_quits cb res = (case cb of OnWrite file buf \<Rightarrow> res < 0 | OnRead \<Rightarrow> True)"

definition test_prints :: "test_cb \<Rightarrow> int \<Rightarrow> string \<Rightarrow> string" where
  "test_prints cb res content =
     (case cb of
        OnRead \<Rightarrow> if res < 0 then []
          else ''--- File Content ---'' @ [LF] @ take (nat res) content @ [LF] @ ''--------------------'' @ [LF]
      | _ \<Rightarrow> [])"

text \<open>The program up to its loop: \<open>fd\<close> is what \<^verbatim>\<open>open\<close> returned, \<open>wbuf\<close> and \<open>rbuf\<close> are the two buffers.\<close>

definition test_start :: "uring_env \<Rightarrow> int \<Rightarrow> nat \<Rightarrow> nat \<Rightarrow> test_cb UringManager \<Rightarrow> test_cb UringManager result" where
  "test_start env fd wbuf rbuf m =
     (case registerFile fd of
        None \<Rightarrow> Inl FatalAbort
      | Some file \<Rightarrow>
          Inr (asyncRW env file (new_RWOperation WRITE 0 \<lparr>iov_base = wbuf, iov_len = length write_content\<rparr>)
                 (OnWrite file rbuf) m))"

text \<open>Whether the loop has been asked to quit after the callbacks that ran.\<close>

definition test_quit :: "test_cb UringManager \<Rightarrow> bool" where
  "test_quit m \<longleftrightarrow> (\<exists>(ctx, res) \<in> set (um_called m). test_quits (ctx_callback ctx) res)"

text \<open>When the manager is idle and its ring has free entries: the program puts one write into the
  ring; its completion quits the loop if the write failed and puts one read of the same
  file into the ring otherwise; the completion of the read quits the loop and leaves the manager idle.\<close>

lemma uring_test_quits:
  assumes "um_activeIOs m = Map.empty" and "um_currentIdx m = 0" and "um_pendingIOs m = []" and "um_ring m = []"
    and "um_called m = []" and "\<forall>n. u_get_sqe env n" and "0 \<le> fd"
  shows "\<exists>m1. test_start env fd wbuf rbuf m = Inr m1 \<and> \<not> test_quit m1 \<and>
    map (\<lambda>s. (sqe_opcode s, sqe_fd s, sqe_data s)) (um_ring m1) = [(WRITE, fd, 0)] \<and>
    (\<exists>m2. handEventRead env test_reaction 8 [(0, res)] m1 = Inr m2 \<and> (test_quit m2 \<longleftrightarrow> res < 0) \<and>
      map (\<lambda>s. (sqe_opcode s, sqe_fd s, sqe_data s)) (um_ring m2) = (if res < 0 then [] else [(READ, fd, 1)]) \<and>
      (0 \<le> res \<longrightarrow> (\<exists>m3. handEventRead env test_reaction 8 [(1, res2)] m2 = Inr m3 \<and> test_quit m3 \<and>
         um_ring m3 = [] \<and> um_activeIOs m3 = Map.empty)))"
  using assms
  by (cases "0 \<le> res")
    (auto simp: test_start_def registerFile_def asyncRW_def appendIOContext_def emplace_def prep_sqe_def new_RWOperation_def
      test_quit_def handEventRead_def handleCQE_def handle_one_def runCallback_def test_reaction_def test_quits_def
      io_key_def to_int32_def Let_def)

end
