(* ===== verification/Lfu_Cache.thy ===== *)
theory Lfu_Cache
  imports Prelude "HOL-Library.Multiset" "HOL-Library.Signed_Division"
begin

text \<open>
  The least-frequently-used cache of \<^verbatim>\<open>include/Lfu.h\<close>.  Nodes live in a heap and the lists of one
  frequency are the doubly linked chains of the source, with their two sentinel nodes; the two
  \<^verbatim>\<open>unordered_map\<close>s are association lists.  Parameters are what the template arguments and the
  library decide: the default value of \<^verbatim>\<open>Key\<close> and \<^verbatim>\<open>Value\<close>, the iteration order of the node
  map and \<^verbatim>\<open>std::hash\<close>.  The invariant reads the chains back as one list of entries, and every
  operation refines an operation on that list.
\<close>

section \<open>Nodes and the list of one frequency\<close>

record ('k, 'v) Node =
  node_freq :: int
  node_key :: 'k
  node_value :: 'v
  node_pre :: "nat option"
  node_next :: "nat option"

type_synonym ('k, 'v) node_heap = "nat \<Rightarrow> ('k, 'v) Node"

definition default_Node :: "'k \<times> 'v \<Rightarrow> ('k, 'v) Node" where
  "default_Node d = \<lparr>node_freq = 1, node_key = fst d, node_value = snd d, node_pre = None, node_next = None\<rparr>"

definition new_Node :: "'k \<Rightarrow> 'v \<Rightarrow> ('k, 'v) Node" where
  "new_Node key value = \<lparr>node_freq = 1, node_key = key, node_value = value, node_pre = None, node_next = None\<rparr>"

record FreqList =
  fl_freq :: int
  fl_head :: nat
  fl_tail :: nat

text \<open>The constructor takes the next two addresses for the sentinels.\<close>

definition new_FreqList ::
    "'k \<times> 'v \<Rightarrow> int \<Rightarrow> ('k, 'v) node_heap \<Rightarrow> nat \<Rightarrow> FreqList \<times> ('k, 'v) node_heap \<times> nat" where
  "new_FreqList d n h brk =
     (let head = brk; tail = Suc brk;
          h1 = h(head := default_Node d);
          h2 = h1(tail := default_Node d);
          h3 = h2(head := (h2 head)\<lparr>node_next := Some tail\<rparr>);
          h4 = h3(tail := (h3 tail)\<lparr>node_pre := Some head\<rparr>)
      in (\<lparr>fl_freq = n, fl_head = head, fl_tail = tail\<rparr>, h4, Suc tail))"

definition isEmpty :: "FreqList \<Rightarrow> ('k, 'v) node_heap \<Rightarrow> bool" where
  "isEmpty fl h \<longleftrightarrow> node_next (h (fl_head fl)) = Some (fl_tail fl)"

definition addNode :: "FreqList \<Rightarrow> nat option \<Rightarrow> ('k, 'v) node_heap \<Rightarrow> ('k, 'v) node_heap result" where
  "addNode fl node h =
     (case node of None \<Rightarrow> Inr h | Some n \<Rightarrow>
        let tail = fl_tail fl;
            h1 = h(n := (h n)\<lparr>node_pre := node_pre (h tail)\<rparr>);
            h2 = h1(n := (h1 n)\<lparr>node_next := Some tail\<rparr>)
        in case node_pre (h2 tail) of None \<Rightarrow> Inl NullPointer | Some p \<Rightarrow>
             let h3 = h2(p := (h2 p)\<lparr>node_next := Some n\<rparr>)
             in Inr (h3(tail := (h3 tail)\<lparr>node_pre := Some n\<rparr>)))"

definition removeNode :: "FreqList \<Rightarrow> nat option \<Rightarrow> ('k, 'v) node_heap \<Rightarrow> ('k, 'v) node_heap" where
  "removeNode fl node h =
     (case node of None \<Rightarrow> h | Some n \<Rightarrow>
        case (node_pre (h n), node_next (h n)) of
          (Some p, Some q) \<Rightarrow>
            let h1 = h(p := (h p)\<lparr>node_next := Some q\<rparr>);
                h2 = h1(q := (h1 q)\<lparr>node_pre := Some p\<rparr>)
            in h2(n := (h2 n)\<lparr>node_pre := None, node_next := None\<rparr>)
        | _ \<Rightarrow> h)"

definition getFirstNode :: "FreqList \<Rightarrow> ('k, 'v) node_heap \<Rightarrow> nat option" where
  "getFirstNode fl h = node_next (h (fl_head fl))"

section \<open>The cache\<close>

record ('k, 'v) LfuCache =
  capacity :: int
  minFreq :: int
  maxAverageNum :: int
  curAverageNum :: int
  curTotalNum :: int
  nodeMap :: "('k \<times> nat) list"
  freqToFreqList :: "(int \<times> FreqList) list"
  nodes :: "('k, 'v) node_heap"
  brk :: nat

text \<open>What the template arguments fix: default values, and the iteration order of the node map.\<close>

record ('k, 'v) lfu_env =
  dflt :: "'k \<times> 'v"
  iter :: "('k \<times> nat) list \<Rightarrow> ('k \<times> nat) list"

definition INT8_MAX :: int where "INT8_MAX = 127"

definition new_LfuCache :: "int \<Rightarrow> int \<Rightarrow> (nat \<Rightarrow> ('k, 'v) Node) \<Rightarrow> ('k, 'v) LfuCache" where
  "new_LfuCache capac maxAverage h =
     \<lparr>capacity = capac, minFreq = INT8_MAX, maxAverageNum = maxAverage, curAverageNum = 0, curTotalNum = 0,
      nodeMap = [], freqToFreqList = [], nodes = h, brk = 0\<rparr>"

definition removeFromFreqList :: "nat option \<Rightarrow> ('k, 'v) LfuCache \<Rightarrow> ('k, 'v) LfuCache result" where
  "removeFromFreqList node s =
     (case node of None \<Rightarrow> Inr s | Some n \<Rightarrow>
        case map_of (freqToFreqList s) (node_freq (nodes s n)) of
          None \<Rightarrow> Inl NullPointer
        | Some fl \<Rightarrow> Inr (s\<lparr>nodes := removeNode fl node (nodes s)\<rparr>))"

definition addToFreqList :: "('k, 'v) lfu_env \<Rightarrow> nat option \<Rightarrow> ('k, 'v) LfuCache \<Rightarrow> ('k, 'v) LfuCache result" where
  "addToFreqList env node s =
     (case node of None \<Rightarrow> Inr s | Some n \<Rightarrow>
        let freq = node_freq (nodes s n);
            s1 = (if map_of (freqToFreqList s) freq = None
                  then let (fl, h, b) = new_FreqList (dflt env) freq (nodes s) (brk s)
                       in s\<lparr>nodes := h, brk := b, freqToFreqList := (freq, fl) # freqToFreqList s\<rparr>
                  else s)
        in case map_of (freqToFreqList s1) freq of
             None \<Rightarrow> Inl NullPointer
           | Some fl \<Rightarrow> bind_result (addNode fl node (nodes s1)) (\<lambda>h. Inr (s1\<lparr>nodes := h\<rparr>)))"

definition updateMinFreq :: "('k, 'v) LfuCache \<Rightarrow> ('k, 'v) LfuCache" where
  "updateMinFreq s =
     (let m = foldl (\<lambda>m (f, fl). if \<not> isEmpty fl (nodes s) then min m f else m) INT8_MAX (freqToFreqList s)
      in s\<lparr>minFreq := if m = INT8_MAX then 1 else m\<rparr>)"

text \<open>The body of the loop of \<^verbatim>\<open>handleOverMaxAverageNum\<close>.\<close>

definition age_node :: "('k, 'v) lfu_env \<Rightarrow> 'k \<times> nat \<Rightarrow> ('k, 'v) LfuCache \<Rightarrow> ('k, 'v) LfuCache result" where
  "age_node env it s =
     (let n = snd it in
      bind_result (removeFromFreqList (Some n) s) (\<lambda>s1.
      bind_result (checked_int (node_freq (nodes s1 n) - (maxAverageNum s1) sdiv 2)) (\<lambda>f.
        let f' = (if f < 1 then 1 else f)
        in addToFreqList env (Some n) (s1\<lparr>nodes := (nodes s1)(n := (nodes s1 n)\<lparr>node_freq := f'\<rparr>)\<rparr>))))"

definition handleOverMaxAverageNum :: "('k, 'v) lfu_env \<Rightarrow> ('k, 'v) LfuCache \<Rightarrow> ('k, 'v) LfuCache result" where
  "handleOverMaxAverageNum env s =
     (if nodeMap s = [] then Inr s
      else bind_result (fold_result (age_node env) (iter env (nodeMap s)) s) (\<lambda>s1. Inr (updateMinFreq s1)))"

definition average :: "int \<Rightarrow> ('k \<times> nat) list \<Rightarrow> int" where
  "average t m = (if m = [] then 0 else to_int32 (to_size_t t div int (length m)))"

definition addFreqNum :: "('k, 'v) lfu_env \<Rightarrow> ('k, 'v) LfuCache \<Rightarrow> ('k, 'v) LfuCache result" where
  "addFreqNum env s =
     bind_result (checked_int (curTotalNum s + 1)) (\<lambda>t.
       let s1 = s\<lparr>curTotalNum := t, curAverageNum := average t (nodeMap s)\<rparr>
       in if maxAverageNum s1 < curAverageNum s1 then handleOverMaxAverageNum env s1 else Inr s1)"

definition decreaseFreqNum :: "int \<Rightarrow> ('k, 'v) LfuCache \<Rightarrow> ('k, 'v) LfuCache result" where
  "decreaseFreqNum num s =
     bind_result (checked_int (curTotalNum s - num)) (\<lambda>t.
       Inr (s\<lparr>curTotalNum := t, curAverageNum := average t (nodeMap s)\<rparr>))"

definition kickOut :: "('k, 'v) LfuCache \<Rightarrow> ('k, 'v) LfuCache result" where
  "kickOut s =
     (case map_of (freqToFreqList s) (minFreq s) of
        None \<Rightarrow> Inl NullPointer
      | Some fl \<Rightarrow>
          let node = getFirstNode fl (nodes s)
          in bind_result (removeFromFreqList node s) (\<lambda>s1.
               case node of None \<Rightarrow> Inl NullPointer | Some n \<Rightarrow>
                 decreaseFreqNum (node_freq (nodes s1 n))
                   (s1\<lparr>nodeMap := filter (\<lambda>(k, a). k \<noteq> node_key (nodes s1 n)) (nodeMap s1)\<rparr>)))"

text \<open>The conditional increment of \<^verbatim>\<open>minFreq_\<close> in \<^verbatim>\<open>getInternal\<close>.\<close>

definition advanceMinFreq :: "nat \<Rightarrow> ('k, 'v) LfuCache \<Rightarrow> ('k, 'v) LfuCache result" where
  "advanceMinFreq n s =
     (let f = node_freq (nodes s n) - 1 in
      if f = minFreq s
      then case map_of (freqToFreqList s) f of
             None \<Rightarrow> Inl NullPointer
           | Some fl \<Rightarrow> if isEmpty fl (nodes s)
                        then bind_result (checked_int (minFreq s + 1)) (\<lambda>m. Inr (s\<lparr>minFreq := m\<rparr>))
                        else Inr s
      else Inr s)"

definition getInternal :: "('k, 'v) lfu_env \<Rightarrow> nat \<Rightarrow> ('k, 'v) LfuCache \<Rightarrow> ('v \<times> ('k, 'v) LfuCache) result" where
  "getInternal env n s =
     (let value = node_value (nodes s n) in
      bind_result (removeFromFreqList (Some n) s) (\<lambda>s1.
      bind_result (checked_int (node_freq (nodes s1 n) + 1)) (\<lambda>f.
      bind_result (addToFreqList env (Some n) (s1\<lparr>nodes := (nodes s1)(n := (nodes s1 n)\<lparr>node_freq := f\<rparr>)\<rparr>)) (\<lambda>s2.
      bind_result (advanceMinFreq n s2) (\<lambda>s3.
      bind_result (addFreqNum env s3) (\<lambda>s4. Inr (value, s4)))))))"

definition putInternal :: "('k, 'v) lfu_env \<Rightarrow> 'k \<Rightarrow> 'v \<Rightarrow> ('k, 'v) LfuCache \<Rightarrow> ('k, 'v) LfuCache result" where
  "putInternal env key value s =
     bind_result (if int (length (nodeMap s)) = to_size_t (capacity s) then kickOut s else Inr s) (\<lambda>s1.
       let n = brk s1;
           s2 = s1\<lparr>nodes := (nodes s1)(n := new_Node key value), brk := Suc n,
                  nodeMap := (key, n) # filter (\<lambda>(k, a). k \<noteq> key) (nodeMap s1)\<rparr>
       in bind_result (addToFreqList env (Some n) s2) (\<lambda>s3.
          bind_result (addFreqNum env s3) (\<lambda>s4.
            Inr (s4\<lparr>minFreq := min (minFreq s4) 1\<rparr>))))"

definition put :: "('k, 'v) lfu_env \<Rightarrow> 'k \<Rightarrow> 'v \<Rightarrow> ('k, 'v) LfuCache \<Rightarrow> ('k, 'v) LfuCache result" where
  "put env key value s =
     (if capacity s = 0 then Inr s else
      case map_of (nodeMap s) key of
        Some n \<Rightarrow>
          bind_result (getInternal env n (s\<lparr>nodes := (nodes s)(n := (nodes s n)\<lparr>node_value := value\<rparr>)\<rparr>))
            (\<lambda>(v, s'). Inr s')
      | None \<Rightarrow> putInternal env key value s)"

text \<open>\<^verbatim>\<open>bool get(Key, Value &)\<close>: the third argument is the value the reference holds before the call.\<close>

definition get :: "('k, 'v) lfu_env \<Rightarrow> 'k \<Rightarrow> 'v \<Rightarrow> ('k, 'v) LfuCache \<Rightarrow> (bool \<times> 'v \<times> ('k, 'v) LfuCache) result" where
  "get env key value s =
     (case map_of (nodeMap s) key of
        Some n \<Rightarrow> bind_result (getInternal env n s) (\<lambda>(v, s'). Inr (True, v, s'))
      | None \<Rightarrow> Inr (False, value, s))"

definition get_value :: "('k, 'v) lfu_env \<Rightarrow> 'k \<Rightarrow> ('k, 'v) LfuCache \<Rightarrow> ('v \<times> ('k, 'v) LfuCache) result" where
  "get_value env key s = bind_result (get env key (snd (dflt env)) s) (\<lambda>(found, v, s'). Inr (v, s'))"

definition purge :: "('k, 'v) LfuCache \<Rightarrow> ('k, 'v) LfuCache" where
  "purge s = s\<lparr>nodeMap := [], freqToFreqList := []\<rparr>"

section \<open>Chains\<close>

text \<open>Consecutive nodes of a chain point to each other.\<close>

fun linked :: "('k, 'v) node_heap \<Rightarrow> nat list \<Rightarrow> bool" where
  "linked h (a # b # xs) \<longleftrightarrow> node_next (h a) = Some b \<and> node_pre (h b) = Some a \<and> linked h (b # xs)"
| "linked h _ \<longleftrightarrow> True"

definition chain :: "FreqList \<Rightarrow> nat list \<Rightarrow> nat list" where
  "chain fl xs = fl_head fl # xs @ [fl_tail fl]"

fun sentinels :: "(int \<times> FreqList) list \<Rightarrow> nat list" where
  "sentinels [] = []"
| "sentinels ((f, fl) # m) = fl_head fl # fl_tail fl # sentinels m"

abbreviation with_freq :: "('k, 'v) node_heap \<Rightarrow> int \<Rightarrow> nat list \<Rightarrow> nat list" where
  "with_freq h f xs \<equiv> filter (\<lambda>a. node_freq (h a) = f) xs"

text \<open>
  The lists of all frequencies over one sequence of nodes: the list of frequency \<open>f\<close> chains the
  nodes of that frequency in the order of the sequence.
\<close>

definition lists_ok :: "(int \<times> FreqList) list \<Rightarrow> ('k, 'v) node_heap \<Rightarrow> nat \<Rightarrow> nat list \<Rightarrow> bool" where
  "lists_ok m h b xs \<longleftrightarrow>
     distinct (map fst m) \<and> distinct (sentinels m @ xs) \<and> (\<forall>a \<in> set (sentinels m @ xs). a < b) \<and>
     (\<forall>(f, fl) \<in> set m. linked h (chain fl (with_freq h f xs))) \<and>
     (\<forall>a \<in> set xs. node_freq (h a) \<in> fst ` set m)"

text \<open>What a node holds besides its links.\<close>

abbreviation payload :: "('k, 'v) Node \<Rightarrow> 'k \<times> 'v \<times> int" where
  "payload n \<equiv> (node_key n, node_value n, node_freq n)"

lemma linked_append:
  "linked h (xs @ a # ys) \<longleftrightarrow> linked h (xs @ [a]) \<and> linked h (a # ys)"
  by (induction xs rule: induct_list012) (cases ys, auto)+

lemma linked_cong:
  assumes "\<forall>a \<in> set (butlast xs). node_next (h' a) = node_next (h a)"
    and "\<forall>a \<in> set (tl xs). node_pre (h' a) = node_pre (h a)"
  shows "linked h' xs \<longleftrightarrow> linked h xs"
  using assms by (induction xs rule: induct_list012) auto

lemma linked_cong_snoc:
  assumes "\<forall>a \<in> set xs. h' a = h a" and "node_pre (h' p) = node_pre (h p)"
  shows "linked h' (xs @ [p]) \<longleftrightarrow> linked h (xs @ [p])"
  using assms by (intro linked_cong) (cases xs; auto)+

lemma linked_cong_Cons:
  assumes "\<forall>a \<in> set xs. h' a = h a" and "node_next (h' p) = node_next (h p)"
  shows "linked h' (p # xs) \<longleftrightarrow> linked h (p # xs)"
  using assms in_set_butlastD by (intro linked_cong) (fastforce split: if_splits)+

lemma linked_insert:
  assumes "linked h (xs @ [p, t])" and "distinct (xs @ [p, t])" and "n \<notin> set (xs @ [p, t])"
    and "node_pre (h' n) = Some p" "node_next (h' n) = Some t" "node_next (h' p) = Some n" "node_pre (h' t) = Some n"
    and "node_pre (h' p) = node_pre (h p)"
    and "\<forall>a. a \<notin> {n, p, t} \<longrightarrow> h' a = h a"
  shows "linked h' (xs @ [p, n, t])"
proof -
  have "linked h (xs @ [p])" using assms(1) linked_append [of h xs p "[t]"] by simp
  moreover have "linked h' (xs @ [p]) \<longleftrightarrow> linked h (xs @ [p])"
    using assms(2,3,8,9) by (intro linked_cong_snoc) auto
  ultimately show ?thesis using assms(4-7) linked_append [of h' xs p "[n, t]"] by simp
qed

lemma linked_remove:
  assumes "linked h (xs @ [p, n, q] @ ys)" and "distinct (xs @ [p, n, q] @ ys)"
    and "node_next (h' p) = Some q" "node_pre (h' q) = Some p"
    and "node_pre (h' p) = node_pre (h p)" "node_next (h' q) = node_next (h q)"
    and "\<forall>a. a \<notin> {p, n, q} \<longrightarrow> h' a = h a"
  shows "linked h' (xs @ [p, q] @ ys)"
proof -
  have "linked h (xs @ [p])" "linked h (q # ys)"
    using assms(1) linked_append [of h xs p "[n, q] @ ys"] linked_append [of h "xs @ [p, n]" q ys] by simp_all
  moreover have "linked h' (xs @ [p]) \<longleftrightarrow> linked h (xs @ [p])"
    using assms(2,5,7) by (intro linked_cong_snoc) auto
  moreover have "linked h' (q # ys) \<longleftrightarrow> linked h (q # ys)"
    using assms(2,6,7) by (intro linked_cong_Cons) auto
  ultimately show ?thesis using assms(3,4) linked_append [of h' xs p "q # ys"] by simp
qed

section \<open>Linking and unlinking nodes\<close>

lemma sentinels_mem:
  "(f, fl) \<in> set m \<Longrightarrow> fl_head fl \<in> set (sentinels m) \<and> fl_tail fl \<in> set (sentinels m)"
  by (induction m rule: sentinels.induct) auto

lemma sentinels_apart:
  assumes "distinct (sentinels m)" and "(f, fl) \<in> set m" and "(g, gl) \<in> set m" and "f \<noteq> g"
  shows "{fl_head fl, fl_tail fl} \<inter> {fl_head gl, fl_tail gl} = {}"
  using assms sentinels_mem by (induction m rule: sentinels.induct) (auto, metis+)

lemma sentinels_neq: "distinct (sentinels m) \<Longrightarrow> (f, fl) \<in> set m \<Longrightarrow> fl_head fl \<noteq> fl_tail fl"
  by (induction m rule: sentinels.induct) auto

lemma chain_distinct:
  assumes "lists_ok m h b xs" and "(f, fl) \<in> set m"
  shows "distinct (chain fl (with_freq h f xs))"
  using assms sentinels_mem [OF assms(2)] sentinels_neq [of m f fl]
  by (auto simp: lists_ok_def chain_def)

lemma chains_disjoint:
  assumes "lists_ok m h b xs" and "(f, fl) \<in> set m" and "(g, gl) \<in> set m" and "f \<noteq> g"
  shows "set (chain fl (with_freq h f xs)) \<inter> set (chain gl (with_freq h g xs)) = {}"
proof -
  have "{fl_head fl, fl_tail fl} \<inter> {fl_head gl, fl_tail gl} = {}"
    using assms sentinels_apart by (auto simp: lists_ok_def)
  moreover have "{fl_head fl, fl_tail fl, fl_head gl, fl_tail gl} \<inter> set xs = {}"
    using assms(1) sentinels_mem [OF assms(2)] sentinels_mem [OF assms(3)] by (auto simp: lists_ok_def)
  ultimately show ?thesis using assms(4) by (auto simp: chain_def)
qed

lemma lists_okD:
  assumes "lists_ok m h b xs"
  shows "distinct (map fst m)" "distinct xs" "\<And>a. a \<in> set xs \<Longrightarrow> a < b"
    and "\<And>a. a \<in> set (sentinels m) \<Longrightarrow> a < b \<and> a \<notin> set xs"
    and "\<And>f fl. (f, fl) \<in> set m \<Longrightarrow> linked h (chain fl (with_freq h f xs))"
    and "\<And>a. a \<in> set xs \<Longrightarrow> \<exists>fl. map_of m (node_freq (h a)) = Some fl"
proof -
  show "\<exists>fl. map_of m (node_freq (h a)) = Some fl" if "a \<in> set xs" for a
    using that assms map_of_eq_None_iff [of m "node_freq (h a)"] by (auto simp: lists_ok_def)
qed (use assms in \<open>auto simp: lists_ok_def\<close>)

lemma heap_agree_linked:
  assumes "\<forall>x \<in> set ys. h' x = h x"
  shows "linked h' ys \<longleftrightarrow> linked h ys"
proof (rule linked_cong)
  show "\<forall>a \<in> set (butlast ys). node_next (h' a) = node_next (h a)" using assms in_set_butlastD by fastforce
  show "\<forall>a \<in> set (tl ys). node_pre (h' a) = node_pre (h a)" using assms by (cases ys) auto
qed

text \<open>Unlinking a node of the sequence.\<close>

lemma removeNode_ok:
  assumes ok: "lists_ok m h b xs" and a: "a \<in> set xs" and fl: "map_of m (node_freq (h a)) = Some fl"
  shows "lists_ok m (removeNode fl (Some a) h) b (remove1 a xs)"
    and "payload (removeNode fl (Some a) h x) = payload (h x)"
proof -
  let ?f = "node_freq (h a)" and ?h = "removeNode fl (Some a) h"
  have mem: "(?f, fl) \<in> set m" using fl by (rule map_of_SomeD)
  obtain us vs where split: "with_freq h ?f xs = us @ a # vs" 
    using a split_list [of a "with_freq h ?f xs"] by auto
  obtain X p where X: "fl_head fl # us = X @ [p]" by (cases "fl_head fl # us" rule: rev_cases) auto
  obtain q Y where Y: "vs @ [fl_tail fl] = q # Y" by (cases "vs @ [fl_tail fl]") auto
  have "chain fl (with_freq h ?f xs) = (fl_head fl # us) @ a # (vs @ [fl_tail fl])" by (simp add: chain_def split)
  then have ch: "chain fl (with_freq h ?f xs) = X @ [p, a, q] @ Y" unfolding X Y by simp
  have l: "linked h (X @ [p, a, q] @ Y)" using lists_okD(5) [OF ok mem] ch by simp
  have d: "distinct (X @ [p, a, q] @ Y)" using chain_distinct [OF ok mem] ch by simp
  have pq: "node_pre (h a) = Some p" "node_next (h a) = Some q"
    using l linked_append [of h X p "[a, q] @ Y"] by simp_all
  then have h': "?h = (h(p := (h p)\<lparr>node_next := Some q\<rparr>, q := (h q)\<lparr>node_pre := Some p\<rparr>,
      a := (h a)\<lparr>node_pre := None, node_next := None\<rparr>))"
    using d by (simp add: removeNode_def Let_def)
  show pay: "payload (?h x) = payload (h x)" for x using d by (simp add: h')
  have fr: "with_freq ?h f ys = with_freq h f ys" for f ys using pay by simp
  have l': "linked ?h (X @ [p, q] @ Y)" by (rule linked_remove [OF l d]) (use d in \<open>auto simp: h'\<close>)
  have "a \<notin> set us" using lists_okD(2) [OF ok] split by (metis distinct_filter not_distinct_conv_prefix append_Cons append_Nil distinct_append disjoint_iff list.set_intros(1))
  then have "with_freq ?h ?f (remove1 a xs) = us @ vs"
    by (simp add: fr filter_remove1 split remove1_append)
  moreover have "X @ [p, q] @ Y = chain fl (us @ vs)"
  proof -
    have "chain fl (us @ vs) = (fl_head fl # us) @ (vs @ [fl_tail fl])" by (simp add: chain_def)
    then show ?thesis unfolding X Y by simp
  qed
  ultimately have this_list: "linked ?h (chain fl (with_freq ?h ?f (remove1 a xs)))" using l' by simp
  have "linked ?h (chain gl (with_freq ?h g (remove1 a xs)))" if "(g, gl) \<in> set m" for g gl
  proof (cases "g = ?f")
    case True
    then have "gl = fl" using that fl lists_okD(1) [OF ok] by (simp add: map_of_is_SomeI)
    with True this_list show ?thesis by simp
  next
    case False
    then have w: "with_freq ?h g (remove1 a xs) = with_freq h g xs"
      by (simp add: fr filter_remove1 remove1_idem)
    have "{p, a, q} \<inter> set (chain gl (with_freq h g xs)) = {}"
      using chains_disjoint [OF ok mem that] False ch by auto
    then have "\<forall>x \<in> set (chain gl (with_freq h g xs)). ?h x = h x" by (auto simp: h')
    with w lists_okD(5) [OF ok that] show ?thesis using heap_agree_linked by metis
  qed
  then show "lists_ok m ?h b (remove1 a xs)"
    using ok pay by (auto simp: lists_ok_def)
qed

text \<open>Linking a node that is in no list puts it at the end of the sequence.\<close>

lemma addNode_ok:
  assumes ok: "lists_ok m h b xs" and n: "n \<notin> set (sentinels m @ xs)" "n < b"
    and fl: "map_of m (node_freq (h n)) = Some fl"
  shows "\<exists>h'. addNode fl (Some n) h = Inr h' \<and> lists_ok m h' b (xs @ [n]) \<and>
    (\<forall>x. payload (h' x) = payload (h x))"
proof -
  let ?f = "node_freq (h n)" and ?t = "fl_tail fl"
  have mem: "(?f, fl) \<in> set m" using fl by (rule map_of_SomeD)
  obtain Z p where Z: "fl_head fl # with_freq h ?f xs = Z @ [p]"
    by (cases "fl_head fl # with_freq h ?f xs" rule: rev_cases) auto
  have "chain fl (with_freq h ?f xs) = (fl_head fl # with_freq h ?f xs) @ [?t]" by (simp add: chain_def)
  then have ch: "chain fl (with_freq h ?f xs) = Z @ [p, ?t]" unfolding Z by simp
  have l: "linked h (Z @ [p, ?t])" using lists_okD(5) [OF ok mem] ch by simp
  have d: "distinct (Z @ [p, ?t])" using chain_distinct [OF ok mem] ch by simp
  have "set (chain fl (with_freq h ?f xs)) \<subseteq> set (sentinels m @ xs)"
    using sentinels_mem [OF mem] by (auto simp: chain_def)
  then have nn: "n \<notin> set (Z @ [p, ?t])" using n(1) ch by auto
  have p: "node_pre (h ?t) = Some p" using l linked_append [of h Z p "[?t]"] by simp
  define h' where "h' = (h(n := (h n)\<lparr>node_pre := Some p, node_next := Some ?t\<rparr>,
      p := (h p)\<lparr>node_next := Some n\<rparr>, ?t := (h ?t)\<lparr>node_pre := Some n\<rparr>))"
  have add: "addNode fl (Some n) h = Inr h'" using nn d p by (simp add: addNode_def Let_def h'_def)
  have pay: "payload (h' x) = payload (h x)" for x using nn d by (simp add: h'_def)
  have fr: "with_freq h' f ys = with_freq h f ys" for f ys using pay by simp
  have l': "linked h' (Z @ [p, n, ?t])"
    by (rule linked_insert [OF l d nn]) (use nn d in \<open>auto simp: h'_def\<close>)
  have "chain fl (with_freq h' ?f (xs @ [n])) = (fl_head fl # with_freq h ?f xs) @ [n, ?t]"
    by (simp add: chain_def fr)
  then have this_list: "linked h' (chain fl (with_freq h' ?f (xs @ [n])))" unfolding Z using l' by simp
  have "linked h' (chain gl (with_freq h' g (xs @ [n])))" if "(g, gl) \<in> set m" for g gl
  proof (cases "g = ?f")
    case True
    then have "gl = fl" using that fl lists_okD(1) [OF ok] by (simp add: map_of_is_SomeI)
    with True this_list show ?thesis by simp
  next
    case False
    then have w: "with_freq h' g (xs @ [n]) = with_freq h g xs" by (simp add: fr)
    have "n \<notin> set (chain gl (with_freq h g xs))" using n(1) sentinels_mem [OF that] by (auto simp: chain_def)
    then have "{n, p, ?t} \<inter> set (chain gl (with_freq h g xs)) = {}"
      using chains_disjoint [OF ok mem that] False ch by auto
    then have "\<forall>x \<in> set (chain gl (with_freq h g xs)). h' x = h x" by (auto simp: h'_def)
    with w lists_okD(5) [OF ok that] show ?thesis using heap_agree_linked by metis
  qed
  then have all_lists: "\<forall>(g, gl) \<in> set m. linked h' (chain gl (with_freq h' g (xs @ [n])))" by blast
  have "?f \<in> fst ` set m" using mem by force
  then have "lists_ok m h' b (xs @ [n])"
    using ok pay n all_lists unfolding lists_ok_def by simp
  with add pay show ?thesis by blast
qed

lemma new_FreqList_ok:
  assumes ok: "lists_ok m h b xs" and f: "map_of m f = None" and new: "new_FreqList d f h b = (fl, h', b')"
  shows "lists_ok ((f, fl) # m) h' b' xs" and "b' = Suc (Suc b)" and "x < b \<Longrightarrow> h' x = h x"
    and "set (sentinels ((f, fl) # m)) = {b, Suc b} \<union> set (sentinels m)"
proof -
  have fl: "fl = \<lparr>fl_freq = f, fl_head = b, fl_tail = Suc b\<rparr>" and b': "b' = Suc (Suc b)"
    and h': "h' = h(b := (default_Node d)\<lparr>node_next := Some (Suc b)\<rparr>, Suc b := (default_Node d)\<lparr>node_pre := Some b\<rparr>)"
    using new by (auto simp: new_FreqList_def Let_def)
  show "b' = Suc (Suc b)" by (rule b')
  show "set (sentinels ((f, fl) # m)) = {b, Suc b} \<union> set (sentinels m)" by (simp add: fl)
  show same: "h' x = h x" if "x < b" for x using that by (simp add: h')
  have fr: "with_freq h' g xs = with_freq h g xs" for g
    using lists_okD(3) [OF ok] same by (intro filter_cong) auto
  have none: "with_freq h f xs = []"
    using lists_okD(6) [OF ok] f by (fastforce simp: filter_empty_conv)
  have "linked h' (chain gl (with_freq h' g xs))" if "(g, gl) \<in> set m" for g gl
  proof -
    have "\<forall>x \<in> set (chain gl (with_freq h g xs)). h' x = h x"
      using lists_okD(3,4) [OF ok] sentinels_mem [OF that] same by (auto simp: chain_def)
    then show ?thesis using lists_okD(5) [OF ok that] heap_agree_linked fr by metis
  qed
  moreover have "linked h' (chain fl (with_freq h' f xs))"
    unfolding fr none by (simp add: chain_def fl h')
  moreover have "f \<notin> fst ` set m" using f by (simp add: map_of_eq_None_iff)
  moreover have "b \<notin> set (sentinels m @ xs)" "Suc b \<notin> set (sentinels m @ xs)"
    using ok unfolding lists_ok_def by (metis less_irrefl, metis Suc_n_not_le_n less_imp_le)
  moreover have "\<forall>a \<in> set (sentinels m @ xs). a < b'"
    using ok b' unfolding lists_ok_def by (metis less_Suc_eq)
  moreover have "\<forall>a \<in> set xs. node_freq (h' a) \<in> fst ` set ((f, fl) # m)"
    using ok same by (auto simp: lists_ok_def)
  ultimately show "lists_ok ((f, fl) # m) h' b' xs"
    using ok unfolding lists_ok_def by (auto simp: fl b')
qed

lemma lists_ok_payload:
  assumes "lists_ok m h b xs" and "\<And>x. node_pre (h' x) = node_pre (h x) \<and> node_next (h' x) = node_next (h x)"
    and "\<And>x. x \<in> set xs \<Longrightarrow> node_freq (h' x) = node_freq (h x)"
  shows "lists_ok m h' b xs"
proof -
  have "linked h' ys = linked h ys" for ys using assms(2) by (intro linked_cong) auto
  moreover have "with_freq h' f xs = with_freq h f xs" for f using assms(3) by (intro filter_cong) auto
  ultimately show ?thesis using assms(1,3) by (simp add: lists_ok_def)
qed

lemma removeFromFreqList_ok:
  assumes "lists_ok (freqToFreqList s) (nodes s) (brk s) xs" and "a \<in> set xs"
  shows "\<exists>h. removeFromFreqList (Some a) s = Inr (s\<lparr>nodes := h\<rparr>) \<and>
    lists_ok (freqToFreqList s) h (brk s) (remove1 a xs) \<and> (\<forall>x. payload (h x) = payload (nodes s x))"
proof -
  obtain fl where fl: "map_of (freqToFreqList s) (node_freq (nodes s a)) = Some fl"
    using lists_okD(6) [OF assms] by blast
  show ?thesis
    using removeNode_ok [OF assms fl] fl by (auto simp: removeFromFreqList_def)
qed

lemma addToFreqList_ok:
  assumes ok: "lists_ok (freqToFreqList s) (nodes s) (brk s) xs"
    and n: "n \<notin> set xs" "n \<notin> set (sentinels (freqToFreqList s))" "n < brk s"
  shows "\<exists>h b m. addToFreqList env (Some n) s = Inr (s\<lparr>nodes := h, brk := b, freqToFreqList := m\<rparr>) \<and>
    lists_ok m h b (xs @ [n]) \<and> set (freqToFreqList s) \<subseteq> set m \<and>
    (\<forall>x < brk s. payload (h x) = payload (nodes s x))"
proof (cases "map_of (freqToFreqList s) (node_freq (nodes s n))")
  case None
  obtain fl h b where new: "new_FreqList (dflt env) (node_freq (nodes s n)) (nodes s) (brk s) = (fl, h, b)"
    by (metis prod_cases3)
  note f = new_FreqList_ok [OF ok None new]
  let ?m = "(node_freq (nodes s n), fl) # freqToFreqList s"
  have "n \<notin> set (sentinels ?m @ xs)" using n unfolding set_append f(4) by simp
  moreover have "n < b" "map_of ?m (node_freq (h n)) = Some fl" using n(3) f(2,3) by simp_all
  ultimately obtain h' where "addNode fl (Some n) h = Inr h'" "lists_ok ?m h' b (xs @ [n])"
    "\<forall>x. payload (h' x) = payload (h x)" using addNode_ok [OF f(1)] by blast
  then show ?thesis using None new f(2,3)
    by (intro exI [of _ h'] exI [of _ b] exI [of _ ?m]) (auto simp: addToFreqList_def Let_def)
next
  case (Some fl)
  from addNode_ok [OF ok _ n(3) Some] n obtain h' where "addNode fl (Some n) (nodes s) = Inr h'"
    "lists_ok (freqToFreqList s) h' (brk s) (xs @ [n])" "\<forall>x. payload (h' x) = payload (nodes s x)" by auto
  then show ?thesis using Some by (intro exI [of _ h'] exI [of _ "brk s"] exI [of _ "freqToFreqList s"])
    (simp add: addToFreqList_def Let_def)
qed

section \<open>The cache invariant\<close>

text \<open>The node map holds exactly the nodes of the sequence, under their keys.\<close>

definition lfu_ok :: "('k, 'v) LfuCache \<Rightarrow> nat list \<Rightarrow> bool" where
  "lfu_ok s xs \<longleftrightarrow>
     lists_ok (freqToFreqList s) (nodes s) (brk s) xs \<and>
     distinct (map fst (nodeMap s)) \<and> mset (map snd (nodeMap s)) = mset xs \<and>
     (\<forall>(k, a) \<in> set (nodeMap s). node_key (nodes s a) = k)"

abbreviation entries :: "('k, 'v) node_heap \<Rightarrow> nat list \<Rightarrow> ('k \<times> 'v \<times> int) list" where
  "entries h xs \<equiv> map (\<lambda>a. payload (h a)) xs"

lemma lfu_okD:
  assumes "lfu_ok s xs"
  shows "lists_ok (freqToFreqList s) (nodes s) (brk s) xs" and "length (nodeMap s) = length xs"
    and "set (map snd (nodeMap s)) = set xs"
    and "distinct (map fst (entries (nodes s) xs))"
proof -
  show "lists_ok (freqToFreqList s) (nodes s) (brk s) xs" using assms by (simp add: lfu_ok_def)
  have ms: "mset (map snd (nodeMap s)) = mset xs" using assms by (simp add: lfu_ok_def)
  show "length (nodeMap s) = length xs" using arg_cong [OF ms, of size] by simp
  show "set (map snd (nodeMap s)) = set xs" using ms by (metis set_mset_mset)
  have "map fst (nodeMap s) = map (\<lambda>a. node_key (nodes s a)) (map snd (nodeMap s))"
    using assms by (auto simp: lfu_ok_def)
  then have "mset (map fst (nodeMap s)) = image_mset (\<lambda>a. node_key (nodes s a)) (mset (map snd (nodeMap s)))"
    by (metis mset_map)
  also have "\<dots> = mset (map fst (entries (nodes s) xs))" unfolding ms by (simp add: image_mset.compositionality comp_def)
  finally have "mset (map fst (nodeMap s)) = mset (map fst (entries (nodes s) xs))" .
  then show "distinct (map fst (entries (nodes s) xs))"
    using assms mset_eq_imp_distinct_iff unfolding lfu_ok_def by blast
qed

lemma lookup_node:
  assumes "lfu_ok s xs"
  shows "map_of (nodeMap s) k = Some a \<longleftrightarrow> a \<in> set xs \<and> node_key (nodes s a) = k"
    and "map_of (nodeMap s) k = None \<longleftrightarrow> k \<notin> fst ` set (entries (nodes s) xs)"
proof -
  have d: "distinct (map fst (nodeMap s))" and k: "\<forall>(k, a) \<in> set (nodeMap s). node_key (nodes s a) = k"
    using assms by (simp_all add: lfu_ok_def)
  have mem: "(k, a) \<in> set (nodeMap s) \<longleftrightarrow> a \<in> set xs \<and> node_key (nodes s a) = k" for k a
  proof
    show "(k, a) \<in> set (nodeMap s) \<Longrightarrow> a \<in> set xs \<and> node_key (nodes s a) = k"
      using k lfu_okD(3) [OF assms] by force
    assume a: "a \<in> set xs \<and> node_key (nodes s a) = k"
    then obtain k' where "(k', a) \<in> set (nodeMap s)" using lfu_okD(3) [OF assms] by force
    with a k show "(k, a) \<in> set (nodeMap s)" by fastforce
  qed
  then show "map_of (nodeMap s) k = Some a \<longleftrightarrow> a \<in> set xs \<and> node_key (nodes s a) = k"
    using d by (metis map_of_SomeD map_of_is_SomeI)
  have "k \<in> fst ` set (nodeMap s) \<longleftrightarrow> (\<exists>a. (k, a) \<in> set (nodeMap s))" by force
  also have "\<dots> \<longleftrightarrow> k \<in> fst ` set (entries (nodes s) xs)" using mem by force
  finally show "map_of (nodeMap s) k = None \<longleftrightarrow> k \<notin> fst ` set (entries (nodes s) xs)"
    by (simp add: map_of_eq_None_iff)
qed

lemma map_of_entries:
  assumes "lfu_ok s xs" and "a \<in> set xs"
  shows "map_of (entries (nodes s) xs) (node_key (nodes s a)) = Some (node_value (nodes s a), node_freq (nodes s a))"
  using lfu_okD(4) [OF assms(1)] assms(2) by (intro map_of_is_SomeI) auto

lemma keys_kept:
  assumes "lfu_ok s xs" and "\<forall>x \<in> set xs. node_key (h x) = node_key (nodes s x)"
  shows "\<forall>(k, x) \<in> set (nodeMap s). node_key (h x) = k"
proof -
  have "node_key (h x) = k" if "(k, x) \<in> set (nodeMap s)" for k x
  proof -
    have "x \<in> set xs" "node_key (nodes s x) = k"
      using that assms(1) lfu_okD(3) [OF assms(1)] by (force simp: lfu_ok_def)+
    then show ?thesis using assms(2) by simp
  qed
  then show ?thesis by blast
qed

text \<open>The move both an access and the aging make: out of one list, a new frequency, into another.\<close>

lemma relink_ok:
  assumes ok: "lfu_ok s xs" and a: "a \<in> set xs"
  shows "\<exists>h. removeFromFreqList (Some a) s = Inr (s\<lparr>nodes := h\<rparr>) \<and> (\<forall>x. payload (h x) = payload (nodes s x)) \<and>
    (\<forall>f. \<exists>h' b m. let s' = s\<lparr>nodes := h', brk := b, freqToFreqList := m\<rparr> in
       addToFreqList env (Some a) (s\<lparr>nodes := h(a := (h a)\<lparr>node_freq := f\<rparr>)\<rparr>) = Inr s' \<and>
       lfu_ok s' (remove1 a xs @ [a]) \<and> set (freqToFreqList s) \<subseteq> set m \<and>
       (\<forall>x \<in> set xs. payload (h' x) = payload (if x = a then (nodes s a)\<lparr>node_freq := f\<rparr> else nodes s x)))"
proof -
  note l = lfu_okD(1) [OF ok]
  obtain h where rm: "removeFromFreqList (Some a) s = Inr (s\<lparr>nodes := h\<rparr>)"
    "lists_ok (freqToFreqList s) h (brk s) (remove1 a xs)" "\<forall>x. payload (h x) = payload (nodes s x)"
    using removeFromFreqList_ok [OF l a] by blast
  have "\<exists>h' b m. let s' = s\<lparr>nodes := h', brk := b, freqToFreqList := m\<rparr> in
       addToFreqList env (Some a) (s\<lparr>nodes := h(a := (h a)\<lparr>node_freq := f\<rparr>)\<rparr>) = Inr s' \<and>
       lfu_ok s' (remove1 a xs @ [a]) \<and> set (freqToFreqList s) \<subseteq> set m \<and>
       (\<forall>x \<in> set xs. payload (h' x) = payload (if x = a then (nodes s a)\<lparr>node_freq := f\<rparr> else nodes s x))" for f
  proof -
    let ?h = "h(a := (h a)\<lparr>node_freq := f\<rparr>)" and ?s = "s\<lparr>nodes := h(a := (h a)\<lparr>node_freq := f\<rparr>)\<rparr>"
    have na: "a \<notin> set (remove1 a xs)" using lists_okD(2) [OF l] by simp
    have "lists_ok (freqToFreqList ?s) (nodes ?s) (brk ?s) (remove1 a xs)"
      using rm(2) na by (auto intro: lists_ok_payload)
    moreover have "a \<notin> set (sentinels (freqToFreqList ?s))" "a < brk ?s"
      using a lists_okD(3,4) [OF l] by auto
    ultimately obtain h' b m where
      add: "addToFreqList env (Some a) ?s = Inr (?s\<lparr>nodes := h', brk := b, freqToFreqList := m\<rparr>)"
        "lists_ok m h' b (remove1 a xs @ [a])" "\<forall>x < brk s. payload (h' x) = payload (?h x)"
        "set (freqToFreqList s) \<subseteq> set m"
      using addToFreqList_ok [of ?s "remove1 a xs" a env] na by auto
    have pay: "\<forall>x \<in> set xs. payload (h' x) = payload (if x = a then (nodes s a)\<lparr>node_freq := f\<rparr> else nodes s x)"
      using add(3) rm(3) lists_okD(3) [OF l] by auto
    moreover have "mset (remove1 a xs @ [a]) = mset xs" using a by simp
    moreover have "\<forall>(k, x) \<in> set (nodeMap s). node_key (h' x) = k"
      using pay by (intro keys_kept [OF ok]) simp
    ultimately show ?thesis using add(1,2,4) ok
      by (intro exI [of _ h'] exI [of _ b] exI [of _ m]) (simp add: lfu_ok_def)
  qed
  with rm(1,3) show ?thesis by blast
qed

section \<open>Reference semantics\<close>

text \<open>
  The cache as one list of entries \<open>(key, value, frequency)\<close>, each at the place where it was last
  linked, and the number of accesses counted.  A count above the allowed average ages every entry;
  the order in which that relinks them is open.
\<close>

type_synonym ('k, 'v) lfu_spec = "('k \<times> 'v \<times> int) list \<times> int"

abbreviation freqs :: "('k \<times> 'v \<times> int) list \<Rightarrow> int list" where
  "freqs E \<equiv> map (\<lambda>e. snd (snd e)) E"

definition least :: "('k \<times> 'v \<times> int) list \<Rightarrow> int" where
  "least E = Min (set (freqs E))"

definition aged :: "int \<Rightarrow> 'k \<times> 'v \<times> int \<Rightarrow> 'k \<times> 'v \<times> int" where
  "aged d e = (fst e, fst (snd e), max 1 (snd (snd e) - d))"

definition spec_count :: "int \<Rightarrow> ('k, 'v) lfu_spec \<Rightarrow> ('k, 'v) lfu_spec \<Rightarrow> bool" where
  "spec_count mx S S' \<longleftrightarrow>
     snd S' = snd S + 1 \<and>
     (if mx < snd S' div int (length (fst S))
      then mset (fst S') = image_mset (aged (mx div 2)) (mset (fst S)) else fst S' = fst S)"

definition spec_touch :: "'k \<Rightarrow> 'v \<Rightarrow> int \<Rightarrow> ('k \<times> 'v \<times> int) list \<Rightarrow> ('k \<times> 'v \<times> int) list" where
  "spec_touch k v f E = filter (\<lambda>e. fst e \<noteq> k) E @ [(k, v, f + 1)]"

text \<open>The victim is the entry of the least frequency that was linked first.\<close>

definition victim :: "('k \<times> 'v \<times> int) list \<Rightarrow> 'k \<times> 'v \<times> int" where
  "victim E = hd (filter (\<lambda>e. snd (snd e) = least E) E)"

definition spec_evict :: "int \<Rightarrow> ('k, 'v) lfu_spec \<Rightarrow> ('k, 'v) lfu_spec" where
  "spec_evict cap S =
     (if int (length (fst S)) = cap
      then (remove1 (victim (fst S)) (fst S), snd S - snd (snd (victim (fst S)))) else S)"

definition spec_get :: "int \<Rightarrow> 'k \<Rightarrow> ('k, 'v) lfu_spec \<Rightarrow> 'v option \<Rightarrow> ('k, 'v) lfu_spec \<Rightarrow> bool" where
  "spec_get mx k S r S' \<longleftrightarrow>
     (case map_of (fst S) k of
        None \<Rightarrow> r = None \<and> S' = S
      | Some (v, f) \<Rightarrow> r = Some v \<and> spec_count mx (spec_touch k v f (fst S), snd S) S')"

definition spec_put :: "int \<Rightarrow> int \<Rightarrow> 'k \<Rightarrow> 'v \<Rightarrow> ('k, 'v) lfu_spec \<Rightarrow> ('k, 'v) lfu_spec \<Rightarrow> bool" where
  "spec_put cap mx k v S S' \<longleftrightarrow>
     (if cap = 0 then S' = S else
      case map_of (fst S) k of
        Some (w, f) \<Rightarrow> spec_count mx (spec_touch k v f (fst S), snd S) S'
      | None \<Rightarrow> let S1 = spec_evict cap S in spec_count mx (fst S1 @ [(k, v, 1)], snd S1) S')"

text \<open>The numbers of the cache: they hold in the states between operations.\<close>

definition lfu_num :: "('k, 'v) LfuCache \<Rightarrow> ('k \<times> 'v \<times> int) list \<Rightarrow> bool" where
  "lfu_num s E \<longleftrightarrow>
     sum_list (freqs E) \<le> curTotalNum s \<and> curTotalNum s \<le> INT_MAX \<and> (\<forall>f \<in> set (freqs E). 1 \<le> f) \<and>
     1 \<le> minFreq s \<and> (E \<noteq> [] \<longrightarrow> minFreq s = least E \<and> least E \<le> maxAverageNum s) \<and>
     int (length E) \<le> capacity s \<and> capacity s \<le> INT_MAX \<and> 2 \<le> maxAverageNum s \<and> maxAverageNum s \<le> 250"

text \<open>A state of the cache represents a state of the reference.\<close>

definition lfu_rel :: "('k, 'v) LfuCache \<Rightarrow> ('k, 'v) lfu_spec \<Rightarrow> bool" where
  "lfu_rel s S \<longleftrightarrow> (\<exists>xs. lfu_ok s xs \<and> fst S = entries (nodes s) xs) \<and> snd S = curTotalNum s \<and> lfu_num s (fst S)"

section \<open>Aging\<close>

lemma checked_int_ok: "INT_MIN \<le> i \<Longrightarrow> i \<le> INT_MAX \<Longrightarrow> checked_int i = Inr i"
  by (simp add: checked_int_def)

lemma sdiv2_nonneg: "0 \<le> (i :: int) \<Longrightarrow> i sdiv 2 = i div 2"
  by (auto simp: signed_divide_int_def sgn_if)

lemma age_node_ok:
  assumes ok: "lfu_ok s xs" and a: "snd it \<in> set xs"
    and f: "1 \<le> node_freq (nodes s (snd it))" "node_freq (nodes s (snd it)) \<le> INT_MAX"
    and mx: "0 \<le> maxAverageNum s" "maxAverageNum s \<le> INT_MAX"
  shows "\<exists>h b m. let s' = s\<lparr>nodes := h, brk := b, freqToFreqList := m\<rparr> in
    age_node env it s = Inr s' \<and> lfu_ok s' (remove1 (snd it) xs @ [snd it]) \<and>
    (\<forall>x \<in> set xs. payload (h x) =
      (if x = snd it then aged (maxAverageNum s div 2) (payload (nodes s x)) else payload (nodes s x)))"
proof -
  let ?a = "snd it" and ?d = "maxAverageNum s div 2"
  let ?f = "node_freq (nodes s ?a) - ?d"
  obtain h where h: "removeFromFreqList (Some ?a) s = Inr (s\<lparr>nodes := h\<rparr>)"
    "\<forall>x. payload (h x) = payload (nodes s x)"
    "\<forall>f. \<exists>h' b m. let s' = s\<lparr>nodes := h', brk := b, freqToFreqList := m\<rparr> in
       addToFreqList env (Some ?a) (s\<lparr>nodes := h(?a := (h ?a)\<lparr>node_freq := f\<rparr>)\<rparr>) = Inr s' \<and>
       lfu_ok s' (remove1 ?a xs @ [?a]) \<and> set (freqToFreqList s) \<subseteq> set m \<and>
       (\<forall>x \<in> set xs. payload (h' x) = payload (if x = ?a then (nodes s ?a)\<lparr>node_freq := f\<rparr> else nodes s x))"
    using relink_ok [OF ok a, of env] by blast
  obtain h' b m where add: "addToFreqList env (Some ?a)
      (s\<lparr>nodes := h(?a := (h ?a)\<lparr>node_freq := if ?f < 1 then 1 else ?f\<rparr>)\<rparr>) = Inr (s\<lparr>nodes := h', brk := b, freqToFreqList := m\<rparr>)"
    "lfu_ok (s\<lparr>nodes := h', brk := b, freqToFreqList := m\<rparr>) (remove1 ?a xs @ [?a])"
    "\<forall>x \<in> set xs. payload (h' x) = payload (if x = ?a then (nodes s ?a)\<lparr>node_freq := if ?f < 1 then 1 else ?f\<rparr> else nodes s x)"
    using h(3) [rule_format, of "if ?f < 1 then 1 else ?f"] unfolding Let_def by blast
  have "checked_int ?f = Inr ?f" using f mx by (intro checked_int_ok) (simp_all add: INT_MIN_def INT_MAX_def)
  moreover have "node_freq (h ?a) = node_freq (nodes s ?a)" using h(2) by simp
  ultimately have "age_node env it s = Inr (s\<lparr>nodes := h', brk := b, freqToFreqList := m\<rparr>)"
    using h(1) add(1) mx by (simp add: age_node_def Let_def sdiv2_nonneg)
  moreover have "max 1 ?f = (if ?f < 1 then 1 else ?f)" by simp
  ultimately show ?thesis using add(2,3)
    by (intro exI [of _ h'] exI [of _ b] exI [of _ m]) (auto simp: aged_def)
qed

lemma age_nodes_ok:
  assumes "lfu_ok s xs" and "distinct (map snd its)" and "set (map snd its) \<subseteq> set xs"
    and "\<forall>x \<in> set xs. 1 \<le> node_freq (nodes s x) \<and> node_freq (nodes s x) \<le> INT_MAX"
    and "0 \<le> maxAverageNum s" "maxAverageNum s \<le> INT_MAX"
  shows "\<exists>h b m. let s' = s\<lparr>nodes := h, brk := b, freqToFreqList := m\<rparr> in
    fold_result (age_node env) its s = Inr s' \<and>
    lfu_ok s' (filter (\<lambda>x. x \<notin> set (map snd its)) xs @ map snd its) \<and>
    (\<forall>x \<in> set xs. payload (h x) =
      (if x \<in> set (map snd its) then aged (maxAverageNum s div 2) (payload (nodes s x)) else payload (nodes s x)))"
  using assms
proof (induction its arbitrary: s xs)
  case Nil
  then show ?case by (intro exI [of _ "nodes s"] exI [of _ "brk s"] exI [of _ "freqToFreqList s"]) simp
next
  case (Cons it its)
  let ?a = "snd it" and ?xs = "remove1 (snd it) xs @ [snd it]" and ?d = "maxAverageNum s div 2"
  have a: "?a \<in> set xs" and d: "distinct xs" using Cons.prems(3) lists_okD(2) [OF lfu_okD(1) [OF Cons.prems(1)]] by auto
  obtain h b m where one: "age_node env it s = Inr (s\<lparr>nodes := h, brk := b, freqToFreqList := m\<rparr>)"
    "lfu_ok (s\<lparr>nodes := h, brk := b, freqToFreqList := m\<rparr>) ?xs"
    "\<forall>x \<in> set xs. payload (h x) = (if x = ?a then aged ?d (payload (nodes s x)) else payload (nodes s x))"
    using age_node_ok [OF Cons.prems(1) a, of env] Cons.prems(4-6) a unfolding Let_def by blast
  let ?s = "s\<lparr>nodes := h, brk := b, freqToFreqList := m\<rparr>"
  have sx: "set ?xs = set xs" using a d by auto
  have "node_freq (h x) = (if x = ?a then max 1 (node_freq (nodes s x) - ?d) else node_freq (nodes s x))"
    if "x \<in> set xs" for x using one(3) that by (auto simp: aged_def)
  then have fr: "\<forall>x \<in> set ?xs. 1 \<le> node_freq (nodes ?s x) \<and> node_freq (nodes ?s x) \<le> INT_MAX"
    using Cons.prems(4,5) unfolding sx by (auto simp: INT_MAX_def)
  have "\<exists>h' b' m'. let s' = ?s\<lparr>nodes := h', brk := b', freqToFreqList := m'\<rparr> in
    fold_result (age_node env) its ?s = Inr s' \<and>
    lfu_ok s' (filter (\<lambda>x. x \<notin> set (map snd its)) ?xs @ map snd its) \<and>
    (\<forall>x \<in> set ?xs. payload (h' x) =
      (if x \<in> set (map snd its) then aged (maxAverageNum ?s div 2) (payload (nodes ?s x)) else payload (nodes ?s x)))"
    using Cons.prems(2,3,5,6) sx by (intro Cons.IH [OF one(2) _ _ fr]) auto
  then obtain h' b' m' where rest: "fold_result (age_node env) its ?s = Inr (s\<lparr>nodes := h', brk := b', freqToFreqList := m'\<rparr>)"
    "lfu_ok (s\<lparr>nodes := h', brk := b', freqToFreqList := m'\<rparr>) (filter (\<lambda>x. x \<notin> set (map snd its)) ?xs @ map snd its)"
    "\<forall>x \<in> set xs. payload (h' x) = (if x \<in> set (map snd its) then aged ?d (payload (h x)) else payload (h x))"
    unfolding sx Let_def by auto
  have "filter (\<lambda>x. x \<notin> set (map snd its)) ?xs = filter (\<lambda>x. x \<notin> set (map snd (it # its))) xs @ [?a]"
    using Cons.prems(2) d by (auto simp: remove1_filter_not distinct_remove1_removeAll removeAll_filter_not_eq intro!: filter_cong)
  then have seq: "filter (\<lambda>x. x \<notin> set (map snd its)) ?xs @ map snd its =
      filter (\<lambda>x. x \<notin> set (map snd (it # its))) xs @ map snd (it # its)" by simp
  have "?a \<notin> set (map snd its)" using Cons.prems(2) by simp
  then have pay: "\<forall>x \<in> set xs. payload (h' x) =
      (if x \<in> set (map snd (it # its)) then aged ?d (payload (nodes s x)) else payload (nodes s x))"
    using one(3) rest(3) by auto
  have "fold_result (age_node env) (it # its) s = Inr (s\<lparr>nodes := h', brk := b', freqToFreqList := m'\<rparr>)"
    using one(1) rest(1) by simp
  with rest(2) pay show ?case unfolding seq Let_def by blast
qed

section \<open>The least frequency\<close>

lemma list_of_freq:
  assumes "lists_ok m h b xs" and "(f, fl) \<in> set m"
  shows "isEmpty fl h \<longleftrightarrow> with_freq h f xs = []"
    and "with_freq h f xs = a # ws \<Longrightarrow> getFirstNode fl h = Some a"
proof -
  have l: "linked h (chain fl (with_freq h f xs))" using lists_okD(5) [OF assms] .
  have t: "fl_tail fl \<notin> set xs" using lists_okD(4) [OF assms(1)] sentinels_mem [OF assms(2)] by blast
  show "isEmpty fl h \<longleftrightarrow> with_freq h f xs = []"
  proof (cases "with_freq h f xs")
    case (Cons a ws)
    then have "a \<in> set xs" by (metis filter_is_subset list.set_intros(1) subsetD)
    with Cons l t show ?thesis by (auto simp: isEmpty_def chain_def)
  qed (use l in \<open>simp add: isEmpty_def chain_def\<close>)
  show "with_freq h f xs = a # ws \<Longrightarrow> getFirstNode fl h = Some a"
    using l by (simp add: getFirstNode_def chain_def)
qed

lemma freqs_entries: "set (freqs (entries h xs)) = (\<lambda>a. node_freq (h a)) ` set xs"
  by (auto simp: image_image)

lemma foldl_min:
  "foldl (\<lambda>m (f, fl). if P fl then min m f else m) (z :: int) l = Min (insert z (fst ` {(f, fl) \<in> set l. P fl}))"
proof (induction l arbitrary: z)
  case (Cons x l)
  obtain f fl where x: "x = (f, fl)" by (cases x)
  let ?A = "fst ` {(f, fl) \<in> set l. P fl}"
  have "{(f, fl). (f, fl) \<in> set l \<and> P fl} \<subseteq> set l" by blast
  then have fin: "finite ?A" by (meson finite_imageI finite_set finite_subset)
  have "fst ` {(f, fl) \<in> set (x # l). P fl} = (if P fl then insert f ?A else ?A)" by (force simp: x)
  moreover have "Min (insert (min z f) A) = Min (insert z (insert f A))" if "finite A" for A
    using that by (cases "A = {}") (simp_all add: min.assoc)
  note this [OF fin]
  ultimately show ?case using Cons.IH by (simp add: x)
qed simp

lemma updateMinFreq_ok:
  assumes ok: "lfu_ok s xs" and ne: "xs \<noteq> []" and le: "least (entries (nodes s) xs) < INT8_MAX"
  shows "updateMinFreq s = s\<lparr>minFreq := least (entries (nodes s) xs)\<rparr>"
proof -
  let ?F = "(\<lambda>a. node_freq (nodes s a)) ` set xs"
  note l = lfu_okD(1) [OF ok]
  have "fst ` {(f, fl) \<in> set (freqToFreqList s). \<not> isEmpty fl (nodes s)} = ?F"
  proof (intro equalityI subsetI)
    fix f assume "f \<in> ?F"
    then obtain a where a: "a \<in> set xs" "f = node_freq (nodes s a)" by blast
    obtain fl where "map_of (freqToFreqList s) f = Some fl" using lists_okD(6) [OF l a(1)] a(2) by blast
    then have "(f, fl) \<in> set (freqToFreqList s)" by (rule map_of_SomeD)
    moreover have "with_freq (nodes s) f xs \<noteq> []" using a by (auto simp: filter_empty_conv)
    ultimately show "f \<in> fst ` {(f, fl) \<in> set (freqToFreqList s). \<not> isEmpty fl (nodes s)}"
      using list_of_freq(1) [OF l] by force
  qed (use list_of_freq(1) [OF l] in \<open>auto simp: filter_empty_conv\<close>)
  moreover have "least (entries (nodes s) xs) = Min ?F" by (simp only: least_def freqs_entries)
  moreover have "Min (insert INT8_MAX ?F) = Min ?F" if "Min ?F < INT8_MAX" using that ne by simp
  ultimately show ?thesis using le by (simp add: updateMinFreq_def foldl_min Let_def)
qed

lemma least_le: "e \<in> set E \<Longrightarrow> least E \<le> snd (snd e)"
  by (simp add: least_def)

lemma least_mem: "E \<noteq> [] \<Longrightarrow> \<exists>e \<in> set E. snd (snd e) = least E"
proof -
  assume "E \<noteq> []"
  then have "least E \<in> set (freqs E)" unfolding least_def by (intro Min_in) simp_all
  then show ?thesis by force
qed

lemma least_times_length: "E \<noteq> [] \<Longrightarrow> int (length E) * least E \<le> sum_list (freqs E)"
proof -
  have "m * int (length E) \<le> sum_list (freqs E)" if "\<forall>e \<in> set E. m \<le> snd (snd e)" for m :: int and E :: "('a \<times> 'b \<times> int) list"
    using that by (induction E) (auto simp: algebra_simps)
  from this [of E "least E"] show ?thesis using least_le by (metis mult.commute)
qed

lemma freq_le_sum:
  "e \<in> set E \<Longrightarrow> \<forall>e \<in> set E. 1 \<le> snd (snd e) \<Longrightarrow> snd (snd e) \<le> sum_list (freqs E)"
proof (induction E)
  case (Cons x E)
  have "0 \<le> sum_list (freqs E)" using Cons.prems(2) by (intro sum_list_nonneg) fastforce
  moreover have "1 \<le> snd (snd x)" using Cons.prems(2) by simp
  ultimately show ?case using Cons by (cases "e = x") (auto intro: order_trans)
qed simp

text \<open>Counting keeps the numbers in order.\<close>

lemma spec_count_num:
  assumes c: "spec_count mx (E, t) (E', t')" and ne: "E \<noteq> []" and pos: "\<forall>e \<in> set E. 1 \<le> snd (snd e)"
    and sum: "sum_list (freqs E) \<le> t + 1" and le: "least E \<le> mx + 1" and mx: "2 \<le> mx" "mx \<le> 250"
  shows "length E' = length E" "fst ` set E' = fst ` set E" "\<forall>e \<in> set E'. 1 \<le> snd (snd e)"
    "sum_list (freqs E') \<le> t'" "least E' \<le> mx" and "mx < t' div int (length E) \<Longrightarrow> least E' < INT8_MAX"
proof -
  have t': "t' = t + 1" using c by (simp add: spec_count_def)
  let ?old = "mx < t' div int (length E)"
  have aged: "mset E' = image_mset (aged (mx div 2)) (mset E)" if ?old using c that by (simp add: spec_count_def)
  have same: "E' = E" if "\<not> ?old" using c that by (simp add: spec_count_def)
  have set_aged: "set E' = aged (mx div 2) ` set E" if ?old
    using arg_cong [OF aged [OF that], of set_mset] by simp
  show "length E' = length E" using aged same by (metis size_image_mset size_mset)
  show "fst ` set E' = fst ` set E" using set_aged same by (cases ?old) (auto simp: aged_def image_image)
  show "\<forall>e \<in> set E'. 1 \<le> snd (snd e)" using set_aged same pos by (cases ?old) (auto simp: aged_def)
  show "sum_list (freqs E') \<le> t'"
  proof (cases ?old)
    case True
    have "sum_list (freqs E') = sum_mset (image_mset (\<lambda>e. snd (snd e)) (mset E'))"
      by (simp add: sum_mset_sum_list [symmetric])
    also have "\<dots> = sum_list (map (\<lambda>e. snd (snd (aged (mx div 2) e))) E)"
      unfolding aged [OF True] by (simp add: sum_mset_sum_list [symmetric] image_mset.compositionality comp_def)
    also have "\<dots> \<le> sum_list (freqs E)"
      using pos mx by (intro sum_list_mono) (auto simp: aged_def)
    finally show ?thesis using sum t' by simp
  qed (use same sum t' in simp)
  obtain e where e: "e \<in> set E" "snd (snd e) = least E" using least_mem [OF ne] by blast
  have old: "least E' \<le> max 1 (mx + 1 - mx div 2)" if ?old
  proof -
    have "aged (mx div 2) e \<in> set E'" using set_aged [OF that] e(1) by simp
    from least_le [OF this] show ?thesis using e(2) le by (simp add: aged_def)
  qed
  show "least E' < INT8_MAX" if ?old using old [OF that] mx by (simp add: INT8_MAX_def)
  show "least E' \<le> mx"
  proof (cases ?old)
    case False
    have "int (length E) * least E \<le> t'" using least_times_length [OF ne] sum t' by linarith
    then have "(int (length E) * least E) div int (length E) \<le> t' div int (length E)"
      by (intro zdiv_mono1) (use ne in simp_all)
    then have "least E \<le> t' div int (length E)" using ne by simp
    with False same show ?thesis by simp
  qed (use old mx in linarith)
qed

text \<open>Ageing never touches an entry of frequency one.\<close>

lemma spec_count_one:
  assumes "spec_count mx (E, t) (E', t')" and "(k, v, 1) \<in> set E" and "0 \<le> mx"
  shows "\<exists>e \<in> set E'. snd (snd e) = 1"
proof (cases "mx < t' div int (length E)")
  case True
  then have "mset E' = image_mset (aged (mx div 2)) (mset E)" using assms(1) by (simp add: spec_count_def)
  from arg_cong [OF this, of set_mset] have "aged (mx div 2) (k, v, 1) \<in> set E'" using assms(2) by simp
  then show ?thesis using assms(3) by (force simp: aged_def)
next
  case False
  then have "E' = E" using assms(1) by (simp add: spec_count_def)
  then show ?thesis using assms(2) by force
qed

section \<open>Counting an access\<close>

text \<open>Iterating over the node map visits every entry once.\<close>

definition visits_all :: "('k, 'v) lfu_env \<Rightarrow> bool" where
  "visits_all env \<longleftrightarrow> (\<forall>m. mset (iter env m) = mset m)"

lemma average_ok: "m \<noteq> [] \<Longrightarrow> 0 \<le> t \<Longrightarrow> t \<le> INT_MAX \<Longrightarrow> average t m = t div int (length m)"
proof -
  assume m: "m \<noteq> []" and t: "0 \<le> t" "t \<le> INT_MAX"
  then have "0 \<le> t div int (length m)" "t div int (length m) \<le> t div 1"
    by (simp add: pos_imp_zdiv_nonneg_iff, intro zdiv_mono2) (use m t in \<open>auto simp: Suc_leI\<close>)
  then show ?thesis using m t by (simp add: average_def to_int32_def to_size_t_def INT_MAX_def)
qed

lemma handleOverMaxAverageNum_ok:
  assumes ok: "lfu_ok s xs" and ne: "xs \<noteq> []" and v: "visits_all env"
    and f: "\<forall>x \<in> set xs. 1 \<le> node_freq (nodes s x) \<and> node_freq (nodes s x) \<le> INT_MAX"
    and mx: "0 \<le> maxAverageNum s" "maxAverageNum s \<le> INT_MAX"
    and least: "\<And>E'. mset E' = image_mset (aged (maxAverageNum s div 2)) (mset (entries (nodes s) xs)) \<Longrightarrow>
      least E' < INT8_MAX"
  shows "\<exists>h b m xs'. let E' = entries h xs'; s' = s\<lparr>nodes := h, brk := b, freqToFreqList := m, minFreq := least E'\<rparr> in
    handleOverMaxAverageNum env s = Inr s' \<and> lfu_ok s' xs' \<and>
    mset E' = image_mset (aged (maxAverageNum s div 2)) (mset (entries (nodes s) xs))"
proof -
  let ?its = "iter env (nodeMap s)" and ?d = "maxAverageNum s div 2"
  have "mset (map snd ?its) = image_mset snd (mset (nodeMap s))" using v by (simp add: visits_all_def)
  also have "\<dots> = mset xs" using ok by (simp add: lfu_ok_def)
  finally have ms: "mset (map snd ?its) = mset xs" .
  have d: "distinct (map snd ?its)" and sx: "set (map snd ?its) = set xs"
    using lists_okD(2) [OF lfu_okD(1) [OF ok]] mset_eq_imp_distinct_iff [OF ms] mset_eq_setD [OF ms] by simp_all
  obtain h b m where fold: "fold_result (age_node env) ?its s = Inr (s\<lparr>nodes := h, brk := b, freqToFreqList := m\<rparr>)"
    "lfu_ok (s\<lparr>nodes := h, brk := b, freqToFreqList := m\<rparr>) (filter (\<lambda>x. x \<notin> set (map snd ?its)) xs @ map snd ?its)"
    "\<forall>x \<in> set xs. payload (h x) =
      (if x \<in> set (map snd ?its) then aged ?d (payload (nodes s x)) else payload (nodes s x))"
    using age_nodes_ok [OF ok d _ f mx, of env] sx unfolding Let_def by blast
  let ?xs = "map snd ?its" and ?s = "s\<lparr>nodes := h, brk := b, freqToFreqList := m\<rparr>"
  have ok': "lfu_ok ?s ?xs" using fold(2) unfolding sx by simp
  have "mset (entries h ?xs) = image_mset (\<lambda>a. payload (h a)) (mset xs)" unfolding ms [symmetric]
    by (simp add: image_mset.compositionality)
  also have "\<dots> = image_mset (\<lambda>a. aged ?d (payload (nodes s a))) (mset xs)"
    using fold(3) sx by (intro image_mset_cong) simp
  finally have ents: "mset (entries h ?xs) = image_mset (aged ?d) (mset (entries (nodes s) xs))"
    by (simp add: image_mset.compositionality comp_def)
  have "?xs \<noteq> []" using ne ms by auto
  with ok' least [OF ents] have "updateMinFreq ?s = ?s\<lparr>minFreq := least (entries h ?xs)\<rparr>"
    using updateMinFreq_ok [OF ok'] by simp
  moreover have "nodeMap s \<noteq> []" using lfu_okD(2) [OF ok] ne by auto
  ultimately have "handleOverMaxAverageNum env s = Inr (?s\<lparr>minFreq := least (entries h ?xs)\<rparr>)"
    using fold(1) by (simp add: handleOverMaxAverageNum_def)
  with ok' ents show ?thesis unfolding Let_def
    by (intro exI [of _ h] exI [of _ b] exI [of _ m] exI [of _ ?xs]) (simp add: lfu_ok_def)
qed

lemma addFreqNum_ok:
  assumes ok: "lfu_ok s xs" and E: "entries (nodes s) xs = E" and nE: "E \<noteq> []" and v: "visits_all env"
    and t: "0 \<le> curTotalNum s" "curTotalNum s < INT_MAX"
    and pos: "\<forall>e \<in> set E. 1 \<le> snd (snd e)" and sum: "sum_list (freqs E) \<le> curTotalNum s + 1"
    and le: "least E \<le> maxAverageNum s + 1" and mx: "2 \<le> maxAverageNum s" "maxAverageNum s \<le> 250"
  shows "\<exists>s' xs'. addFreqNum env s = Inr s' \<and> lfu_ok s' xs' \<and>
    spec_count (maxAverageNum s) (E, curTotalNum s) (entries (nodes s') xs', curTotalNum s') \<and>
    maxAverageNum s' = maxAverageNum s \<and> capacity s' = capacity s \<and>
    (minFreq s' = least (entries (nodes s') xs') \<or> minFreq s' = minFreq s \<and> entries (nodes s') xs' = E)"
proof -
  let ?t = "curTotalNum s + 1" and ?E = "entries (nodes s) xs"
  have ne: "xs \<noteq> []" using E nE by auto
  note pos = pos [folded E] and sum = sum [folded E] and le = le [folded E]
  let ?s = "s\<lparr>curTotalNum := ?t, curAverageNum := ?t div int (length xs)\<rparr>"
  have m: "nodeMap s \<noteq> []" "length (nodeMap s) = length xs" using lfu_okD(2) [OF ok] ne by auto
  have ok1: "lfu_ok ?s xs" using ok by (simp add: lfu_ok_def)
  have step: "addFreqNum env s = (if maxAverageNum s < ?t div int (length xs) then handleOverMaxAverageNum env ?s else Inr ?s)"
    using t m average_ok [OF m(1), of ?t] by (simp add: addFreqNum_def checked_int_ok INT_MIN_def)
  show ?thesis
  proof (cases "maxAverageNum s < ?t div int (length xs)")
    case False
    then have "addFreqNum env s = Inr ?s"
      "spec_count (maxAverageNum s) (?E, curTotalNum s) (entries (nodes ?s) xs, curTotalNum ?s)"
      using step by (simp_all add: spec_count_def)
    then show ?thesis using ok1 E by (intro exI [of _ ?s] exI [of _ xs]) simp
  next
    case True
    have "\<forall>x \<in> set xs. 1 \<le> node_freq (nodes ?s x) \<and> node_freq (nodes ?s x) \<le> INT_MAX"
      using pos sum t freq_le_sum [of _ ?E] by fastforce
    moreover have "least E' < INT8_MAX" if "mset E' = image_mset (aged (maxAverageNum ?s div 2)) (mset ?E)" for E'
      using that True ne by (intro spec_count_num(6) [OF _ _ pos sum le mx, of E' ?t]) (simp_all add: spec_count_def)
    ultimately obtain h b m' xs' where
      r: "handleOverMaxAverageNum env ?s = Inr (?s\<lparr>nodes := h, brk := b, freqToFreqList := m', minFreq := least (entries h xs')\<rparr>)"
        "lfu_ok (?s\<lparr>nodes := h, brk := b, freqToFreqList := m', minFreq := least (entries h xs')\<rparr>) xs'"
        "mset (entries h xs') = image_mset (aged (maxAverageNum s div 2)) (mset ?E)"
      using handleOverMaxAverageNum_ok [OF ok1 ne v] mx unfolding Let_def by (auto simp: INT_MAX_def)
    let ?s' = "?s\<lparr>nodes := h, brk := b, freqToFreqList := m', minFreq := least (entries h xs')\<rparr>"
    have "spec_count (maxAverageNum s) (?E, curTotalNum s) (entries (nodes ?s') xs', curTotalNum ?s')"
      using True r(3) by (simp add: spec_count_def)
    then show ?thesis using step True r(1,2) E by (intro exI [of _ ?s'] exI [of _ xs']) simp
  qed
qed

section \<open>Accesses\<close>

lemma entries_remove1:
  assumes "lfu_ok s xs" and "a \<in> set xs"
  shows "entries (nodes s) (remove1 a xs) = filter (\<lambda>e. fst e \<noteq> node_key (nodes s a)) (entries (nodes s) xs)"
    and "entries (nodes s) (remove1 a xs) = remove1 (payload (nodes s a)) (entries (nodes s) xs)"
proof -
  let ?E = "entries (nodes s) xs"
  have inj: "inj_on (\<lambda>a. node_key (nodes s a)) (set xs)" and d: "distinct xs"
    using lfu_okD(4) [OF assms(1)] by (simp_all add: distinct_map comp_def)
  have "remove1 a xs = filter (\<lambda>x. node_key (nodes s x) \<noteq> node_key (nodes s a)) xs"
    using inj assms(2) d by (auto simp: distinct_remove1_removeAll removeAll_filter_not_eq inj_on_def intro!: filter_cong)
  then show 1: "entries (nodes s) (remove1 a xs) = filter (\<lambda>e. fst e \<noteq> node_key (nodes s a)) ?E"
    by (simp add: filter_map comp_def)
  have dE: "distinct ?E" using lfu_okD(4) [OF assms(1)] by (simp only: distinct_map)
  have "e = payload (nodes s a)" if "e \<in> set ?E" "fst e = node_key (nodes s a)" for e
    using that inj assms(2) by (auto simp: inj_on_def)
  then have "filter (\<lambda>e. fst e \<noteq> node_key (nodes s a)) ?E = filter (\<lambda>e. e \<noteq> payload (nodes s a)) ?E"
    by (intro filter_cong) auto
  also have "\<dots> = remove1 (payload (nodes s a)) ?E"
    using dE by (simp add: distinct_remove1_removeAll removeAll_filter_not_eq eq_commute)
  finally show "entries (nodes s) (remove1 a xs) = remove1 (payload (nodes s a)) ?E" using 1 by simp
qed

lemma least_eqI: "e \<in> set E \<Longrightarrow> snd (snd e) = m \<Longrightarrow> \<forall>e \<in> set E. m \<le> snd (snd e) \<Longrightarrow> least E = m"
  unfolding least_def by (intro Min_eqI) force+

text \<open>The least frequency after one entry was touched.\<close>

lemma least_touch:
  assumes "e \<in> set E" and "E' = remove1 e E @ [e']" and "snd (snd e') = snd (snd e) + 1"
  shows "least E' = (if snd (snd e) = least E \<and> (\<forall>x \<in> set E'. snd (snd x) \<noteq> least E) then least E + 1 else least E)"
proof -
  have sub: "\<forall>x \<in> set E'. least E \<le> snd (snd x)"
    using assms least_le [OF assms(1)] set_remove1_subset [of e E] least_le [of _ E] by fastforce
  show ?thesis
  proof (cases "\<exists>x \<in> set E'. snd (snd x) = least E")
    case True
    with sub show ?thesis using least_eqI [of _ E'] by metis
  next
    case False
    have "E \<noteq> []" using assms(1) by auto
    then obtain x where "x \<in> set E" "snd (snd x) = least E" using least_mem by blast
    with False assms(2) have "snd (snd e) = least E"
      by (metis UnI1 in_set_remove1 set_append)
    moreover have "least E + 1 \<le> snd (snd x)" if "x \<in> set E'" for x
    proof -
      have "snd (snd x) \<noteq> least E" "least E \<le> snd (snd x)" using False sub that by auto
      then show ?thesis by linarith
    qed
    ultimately have "least E' = least E + 1"
      using assms(2,3) by (intro least_eqI [of e']) auto
    note \<open>snd (snd e) = least E\<close> this
    then show ?thesis using False by auto
  qed
qed

lemma lfu_relI:
  assumes "lfu_ok s xs" and "lfu_num s (entries (nodes s) xs)"
  shows "lfu_rel s (entries (nodes s) xs, curTotalNum s)"
  using assms by (auto simp: lfu_rel_def)

lemma lfu_num_after:
  assumes c: "spec_count (maxAverageNum s) (E, t) (E', curTotalNum s')" and ne: "E \<noteq> []"
    and pos: "\<forall>e \<in> set E. 1 \<le> snd (snd e)" and sum: "sum_list (freqs E) \<le> t + 1"
    and le: "least E \<le> maxAverageNum s + 1" and mx: "2 \<le> maxAverageNum s" "maxAverageNum s \<le> 250"
    and t: "t < INT_MAX" and cap: "int (length E) \<le> capacity s" "capacity s \<le> INT_MAX"
    and same: "maxAverageNum s' = maxAverageNum s" "capacity s' = capacity s"
    and m: "minFreq s' = least E'"
  shows "lfu_num s' E'"
proof -
  note n = spec_count_num [OF c ne pos sum le mx]
  have "1 \<le> least E'" using least_mem [of E'] n(1,3) ne by fastforce
  moreover have "curTotalNum s' \<le> INT_MAX" using c t by (simp add: spec_count_def)
  ultimately show ?thesis using n(1,3-5) mx cap same m by (auto simp: lfu_num_def)
qed

lemma lfu_numD:
  assumes "lfu_num s E"
  shows "sum_list (freqs E) \<le> curTotalNum s" "\<forall>e \<in> set E. 1 \<le> snd (snd e)" "0 \<le> curTotalNum s"
    "int (length E) \<le> capacity s" "capacity s \<le> INT_MAX" "2 \<le> maxAverageNum s" "maxAverageNum s \<le> 250"
    "1 \<le> minFreq s" "E \<noteq> [] \<Longrightarrow> minFreq s = least E \<and> least E \<le> maxAverageNum s"
proof -
  show s: "sum_list (freqs E) \<le> curTotalNum s" and p: "\<forall>e \<in> set E. 1 \<le> snd (snd e)"
    using assms by (auto simp: lfu_num_def)
  have "0 \<le> sum_list (freqs E)" using p by (intro sum_list_nonneg) fastforce
  with s show "0 \<le> curTotalNum s" by linarith
qed (use assms in \<open>auto simp: lfu_num_def\<close>)

text \<open>An access moves the entry to the end with one more access, and counts it.\<close>

text \<open>An access up to the counting: the node is at the back of the list of its new frequency.\<close>

lemma access_ok:
  assumes ok: "lfu_ok s xs" and a: "a \<in> set xs" and num: "lfu_num s (entries (nodes s) xs)" and t: "curTotalNum s < INT_MAX"
  defines "f \<equiv> node_freq (nodes s a)" and "E \<equiv> entries (nodes s) xs"
  shows "\<exists>s3. getInternal env a s = bind_result (addFreqNum env s3) (\<lambda>s4. Inr (node_value (nodes s a), s4)) \<and>
    lfu_ok s3 (remove1 a xs @ [a]) \<and> minFreq s3 = least (entries (nodes s3) (remove1 a xs @ [a])) \<and>
    entries (nodes s3) (remove1 a xs @ [a]) =
      remove1 (payload (nodes s a)) E @ [(node_key (nodes s a), node_value (nodes s a), f + 1)] \<and>
    entries (nodes s3) (remove1 a xs @ [a]) = spec_touch (node_key (nodes s a)) (node_value (nodes s a)) f E \<and>
    curTotalNum s3 = curTotalNum s \<and> maxAverageNum s3 = maxAverageNum s \<and> capacity s3 = capacity s"
proof -
  let ?xs = "remove1 a xs @ [a]" and ?e' = "(node_key (nodes s a), node_value (nodes s a), f + 1)"
  note n = lfu_numD [OF num]
  have e0: "payload (nodes s a) \<in> set (entries (nodes s) xs)" using a by auto
  then have f: "1 \<le> f" "f \<le> curTotalNum s" using n(1,2) freq_le_sum [OF e0 n(2)] by (auto simp: f_def)
  have e: "payload (nodes s a) \<in> set E" using e0 by (simp only: E_def)
  obtain h where h: "removeFromFreqList (Some a) s = Inr (s\<lparr>nodes := h\<rparr>)"
    "\<forall>x. payload (h x) = payload (nodes s x)"
    "\<forall>f. \<exists>h' b m. let s' = s\<lparr>nodes := h', brk := b, freqToFreqList := m\<rparr> in
       addToFreqList env (Some a) (s\<lparr>nodes := h(a := (h a)\<lparr>node_freq := f\<rparr>)\<rparr>) = Inr s' \<and>
       lfu_ok s' ?xs \<and> set (freqToFreqList s) \<subseteq> set m \<and>
       (\<forall>x \<in> set xs. payload (h' x) = payload (if x = a then (nodes s a)\<lparr>node_freq := f\<rparr> else nodes s x))"
    using relink_ok [OF ok a, of env] by blast
  obtain h' b m where add: "addToFreqList env (Some a) (s\<lparr>nodes := h(a := (h a)\<lparr>node_freq := f + 1\<rparr>)\<rparr>) =
      Inr (s\<lparr>nodes := h', brk := b, freqToFreqList := m\<rparr>)"
    "lfu_ok (s\<lparr>nodes := h', brk := b, freqToFreqList := m\<rparr>) ?xs" "set (freqToFreqList s) \<subseteq> set m"
    "\<forall>x \<in> set xs. payload (h' x) = payload (if x = a then (nodes s a)\<lparr>node_freq := f + 1\<rparr> else nodes s x)"
    using h(3) [rule_format, of "f + 1"] unfolding Let_def by blast
  let ?s2 = "s\<lparr>nodes := h', brk := b, freqToFreqList := m\<rparr>"
  define s3 where "s3 = ?s2\<lparr>minFreq := if f = minFreq s \<and> with_freq h' f ?xs = [] then minFreq s + 1 else minFreq s\<rparr>"
  have d: "distinct xs" using lists_okD(2) [OF lfu_okD(1) [OF ok]] .
  have E2: "entries h' ?xs = remove1 (payload (nodes s a)) E @ [?e']"
    using add(4) a d unfolding E_def entries_remove1(2) [OF ok a, symmetric] by auto
  have touch: "entries h' ?xs = spec_touch (node_key (nodes s a)) (node_value (nodes s a)) f E"
    unfolding E2 spec_touch_def E_def f_def entries_remove1 [OF ok a, symmetric] ..
  have fa: "node_freq (h' a) = f + 1" using add(4) a by simp
  obtain fl where fl: "(f, fl) \<in> set m" "map_of m f = Some fl"
    using lists_okD(6) [OF lfu_okD(1) [OF ok] a] add(3) lists_okD(1) [OF lfu_okD(1) [OF add(2)]]
    by (auto simp: f_def dest!: map_of_SomeD)
  have empty: "isEmpty fl h' \<longleftrightarrow> with_freq h' f ?xs = []"
    using list_of_freq(1) [OF lfu_okD(1) [OF add(2)]] fl(1) by simp
  have bump: "checked_int (minFreq s + 1) = Inr (minFreq s + 1)" if "f = minFreq s"
    using f that t by (intro checked_int_ok) (simp_all add: INT_MIN_def)
  have "advanceMinFreq a ?s2 = Inr s3"
    using fa fl(2) empty bump by (auto simp: advanceMinFreq_def s3_def Let_def)
  then have access: "getInternal env a s = bind_result (addFreqNum env s3) (\<lambda>s4. Inr (node_value (nodes s a), s4))"
    using h(1,2) add(1) f t by (simp add: getInternal_def f_def Let_def checked_int_ok INT_MIN_def)
  have ok3: "lfu_ok s3 ?xs" using add(2) by (simp add: s3_def lfu_ok_def)
  have none: "with_freq h' f ?xs = [] \<longleftrightarrow> (\<forall>x \<in> set (entries h' ?xs). snd (snd x) \<noteq> f)" by (auto simp: filter_empty_conv)
  have "xs \<noteq> []" using a by auto
  then have "minFreq s = least E" using n(9) by (simp add: E_def)
  then have min3: "minFreq s3 = least (entries h' ?xs)"
    using least_touch [OF e E2] none by (auto simp: s3_def simp flip: f_def)
  have tot: "nodes s3 = h'" "curTotalNum s3 = curTotalNum s" "maxAverageNum s3 = maxAverageNum s" "capacity s3 = capacity s"
    by (simp_all add: s3_def)
  show ?thesis
    by (rule exI [of _ s3], unfold tot, intro conjI) (rule access ok3 min3 E2 touch refl)+
qed

lemma getInternal_ok:
  assumes ok: "lfu_ok s xs" and a: "a \<in> set xs" and num: "lfu_num s (entries (nodes s) xs)"
    and v: "visits_all env" and t: "curTotalNum s < INT_MAX"
  shows "\<exists>s' S'. getInternal env a s = Inr (node_value (nodes s a), s') \<and> lfu_rel s' S' \<and>
    maxAverageNum s' = maxAverageNum s \<and> capacity s' = capacity s \<and>
    spec_count (maxAverageNum s) (spec_touch (node_key (nodes s a)) (node_value (nodes s a)) (node_freq (nodes s a))
      (entries (nodes s) xs), curTotalNum s) S'"
proof -
  let ?E = "entries (nodes s) xs" and ?f = "node_freq (nodes s a)" and ?xs = "remove1 a xs @ [a]"
  note n = lfu_numD [OF num]
  obtain s3 where s3: "getInternal env a s = bind_result (addFreqNum env s3) (\<lambda>s4. Inr (node_value (nodes s a), s4))"
    "lfu_ok s3 ?xs" "minFreq s3 = least (entries (nodes s3) ?xs)"
    "entries (nodes s3) ?xs = remove1 (payload (nodes s a)) ?E @ [(node_key (nodes s a), node_value (nodes s a), ?f + 1)]"
    "entries (nodes s3) ?xs = spec_touch (node_key (nodes s a)) (node_value (nodes s a)) ?f ?E"
    "curTotalNum s3 = curTotalNum s" "maxAverageNum s3 = maxAverageNum s" "capacity s3 = capacity s"
    using access_ok [OF ok a num t] by blast
  have ne: "xs \<noteq> []" and e: "payload (nodes s a) \<in> set ?E" using a by auto
  have f: "1 \<le> ?f" using n(2) e by auto
  have pos: "\<forall>e \<in> set (entries (nodes s3) ?xs). 1 \<le> snd (snd e)"
    unfolding s3(4) using n(2) f set_remove1_subset [of "payload (nodes s a)" ?E] by auto
  have sum: "sum_list (freqs (entries (nodes s3) ?xs)) \<le> curTotalNum s3 + 1"
    unfolding s3(4,6) using n(1) sum_list_map_remove1 [OF e, of "\<lambda>e. snd (snd e)"] by simp
  have le: "least (entries (nodes s3) ?xs) \<le> maxAverageNum s3 + 1"
    unfolding s3(4,7) using least_touch [OF e refl] n(9) ne by (simp split: if_splits)
  have len: "int (length (entries (nodes s3) ?xs)) \<le> capacity s3" using n(4) length_pos_if_in_set [OF a] a s3(8)
    by (simp add: length_remove1)
  obtain s4 xs4 where s4: "addFreqNum env s3 = Inr s4" "lfu_ok s4 xs4"
      "spec_count (maxAverageNum s3) (entries (nodes s3) ?xs, curTotalNum s3) (entries (nodes s4) xs4, curTotalNum s4)"
      "maxAverageNum s4 = maxAverageNum s3" "capacity s4 = capacity s3" "minFreq s4 = least (entries (nodes s4) xs4)"
    using addFreqNum_ok [OF s3(2) refl _ v _ _ pos sum le] n(3,6,7) t s3(3,6-8) by auto
  have "lfu_num s4 (entries (nodes s4) xs4)"
    by (rule lfu_num_after [OF s4(3) _ pos sum le]) (use n t len s3(6-8) s4(4-6) in simp_all)
  then have "lfu_rel s4 (entries (nodes s4) xs4, curTotalNum s4)" by (rule lfu_relI [OF s4(2)])
  moreover have "getInternal env a s = Inr (node_value (nodes s a), s4)" using s3(1) s4(1) by simp
  moreover note s4(3) [unfolded s3(5-7)]
  ultimately show ?thesis using s4(4,5) s3(7,8) by (intro exI [of _ s4] exI conjI) simp_all
qed

section \<open>Insertion and eviction\<close>

lemma lists_ok_fresh: "lists_ok m h b xs \<Longrightarrow> lists_ok m (h(b := n)) (Suc b) xs"
proof -
  assume ok: "lists_ok m h b xs"
  have same: "(h(b := n)) x = h x" if "x < b" for x using that by simp
  have fr: "with_freq (h(b := n)) f xs = with_freq h f xs" for f
    using lists_okD(3) [OF ok] by (intro filter_cong) auto
  have "linked (h(b := n)) (chain fl (with_freq (h(b := n)) f xs))" if "(f, fl) \<in> set m" for f fl
  proof -
    have "\<forall>x \<in> set (chain fl (with_freq h f xs)). (h(b := n)) x = h x"
      using lists_okD(3,4) [OF ok] sentinels_mem [OF that] by (intro ballI same) (auto simp: chain_def)
    then show ?thesis using lists_okD(5) [OF ok that] heap_agree_linked fr by metis
  qed
  moreover have "\<forall>a \<in> set (sentinels m @ xs). a < Suc b" using ok unfolding lists_ok_def by (metis less_Suc_eq)
  moreover have "\<forall>a \<in> set xs. node_freq ((h(b := n)) a) \<in> fst ` set m"
    using ok lists_okD(3) [OF ok] by (auto simp: lists_ok_def)
  ultimately show ?thesis using ok unfolding lists_ok_def by (simp del: fun_upd_apply) blast
qed

lemma kickOut_ok:
  assumes ok: "lfu_ok s xs" and ne: "xs \<noteq> []" and num: "lfu_num s (entries (nodes s) xs)"
  shows "\<exists>h xs1. let v = victim (entries (nodes s) xs);
      m = filter (\<lambda>(k, a). k \<noteq> fst v) (nodeMap s);
      s1 = s\<lparr>nodes := h, nodeMap := m, curTotalNum := curTotalNum s - snd (snd v),
             curAverageNum := average (curTotalNum s - snd (snd v)) m\<rparr> in
    kickOut s = Inr s1 \<and> lfu_ok s1 xs1 \<and> entries h xs1 = remove1 v (entries (nodes s) xs) \<and>
    v \<in> set (entries (nodes s) xs) \<and> length xs1 < length xs"
proof -
  let ?E = "entries (nodes s) xs" and ?l = "lists_ok (freqToFreqList s)"
  note l = lfu_okD(1) [OF ok] and n = lfu_numD [OF num]
  have min: "minFreq s = least ?E" using n(9) ne by simp
  have "?E \<noteq> []" using ne by simp
  then obtain e where e: "e \<in> set ?E" "snd (snd e) = least ?E" using least_mem by blast
  then have "with_freq (nodes s) (least ?E) xs \<noteq> []" by (auto simp: filter_empty_conv)
  then obtain a ws where ws: "with_freq (nodes s) (least ?E) xs = a # ws" by (cases "with_freq (nodes s) (least ?E) xs") auto
  then have a: "a \<in> set xs" "node_freq (nodes s a) = least ?E"
    by (metis (mono_tags) filter_set list.set_intros(1) mem_Collect_eq set_filter)+
  have v: "victim ?E = payload (nodes s a)" using ws by (simp add: victim_def filter_map comp_def)
  obtain fl where fl: "map_of (freqToFreqList s) (least ?E) = Some fl" using lists_okD(6) [OF l a(1)] a(2) by auto
  have first: "getFirstNode fl (nodes s) = Some a" using list_of_freq(2) [OF l map_of_SomeD [OF fl] ws] .
  obtain h where h: "removeFromFreqList (Some a) s = Inr (s\<lparr>nodes := h\<rparr>)" "?l h (brk s) (remove1 a xs)"
    "\<forall>x. payload (h x) = payload (nodes s x)" using removeFromFreqList_ok [OF l a(1)] by blast
  let ?m = "filter (\<lambda>(k, x). k \<noteq> node_key (nodes s a)) (nodeMap s)"
  let ?s = "s\<lparr>nodes := h, nodeMap := ?m, curTotalNum := curTotalNum s - least ?E,
    curAverageNum := average (curTotalNum s - least ?E) ?m\<rparr>"
  have "1 \<le> least ?E" "least ?E \<le> curTotalNum s" using e n(1,2) freq_le_sum [OF e(1) n(2)] by auto
  then have "checked_int (curTotalNum s - least ?E) = Inr (curTotalNum s - least ?E)"
    using num by (intro checked_int_ok) (auto simp: lfu_num_def INT_MIN_def)
  then have kick: "kickOut s = Inr ?s"
    using fl first h(1,3) a(2) by (simp add: kickOut_def min decreaseFreqNum_def)
  have "k \<noteq> node_key (nodes s a) \<longleftrightarrow> x \<noteq> a" if "(k, x) \<in> set (nodeMap s)" for k x
    using that lookup_node(1) [OF ok] ok a(1) map_of_is_SomeI [OF _ that] unfolding lfu_ok_def by (metis option.inject)
  then have "map snd ?m = filter (\<lambda>x. x \<noteq> a) (map snd (nodeMap s))"
    unfolding filter_map comp_def by (intro arg_cong [of _ _ "map snd"] filter_cong) (auto split: prod.split)
  moreover have "mset (map snd (nodeMap s)) = mset xs" using ok by (simp add: lfu_ok_def)
  ultimately have "mset (map snd ?m) = filter_mset (\<lambda>x. x \<noteq> a) (mset xs)" by (metis mset_filter)
  also have "\<dots> = mset (remove1 a xs)"
    using lists_okD(2) [OF l] by (simp add: distinct_remove1_removeAll removeAll_filter_not_eq mset_filter eq_commute)
  finally have "lfu_ok ?s (remove1 a xs)"
    using ok h(2,3) unfolding lfu_ok_def by (auto simp: distinct_map_filter)
  moreover have "entries h (remove1 a xs) = remove1 (victim ?E) ?E"
    using h(3) entries_remove1(2) [OF ok a(1)] by (simp add: v)
  moreover have "victim ?E \<in> set ?E" using a(1) by (auto simp: v)
  ultimately show ?thesis using kick a ne
    unfolding Let_def by (intro exI [of _ h] exI [of _ "remove1 a xs"]) (simp add: v length_remove1)
qed

text \<open>Making room in a full cache.\<close>

lemma make_room_ok:
  assumes ok: "lfu_ok s xs" and num: "lfu_num s (entries (nodes s) xs)" and c: "capacity s \<noteq> 0"
  shows "\<exists>s1 xs1. (if int (length (nodeMap s)) = to_size_t (capacity s) then kickOut s else Inr s) = Inr s1 \<and>
    lfu_ok s1 xs1 \<and> (entries (nodes s1) xs1, curTotalNum s1) = spec_evict (capacity s) (entries (nodes s) xs, curTotalNum s) \<and>
    maxAverageNum s1 = maxAverageNum s \<and> capacity s1 = capacity s \<and> minFreq s1 = minFreq s \<and>
    int (length xs1) < capacity s \<and> set (entries (nodes s1) xs1) \<subseteq> set (entries (nodes s) xs) \<and>
    sum_list (freqs (entries (nodes s1) xs1)) \<le> curTotalNum s1 \<and> curTotalNum s1 \<le> curTotalNum s"
proof -
  let ?E = "entries (nodes s) xs"
  note n = lfu_numD [OF num]
  have "0 \<le> capacity s" using n(4) by linarith
  then have cap: "to_size_t (capacity s) = capacity s" using n(5) by (simp add: to_size_t_def INT_MAX_def)
  have len: "length (nodeMap s) = length xs" by (rule lfu_okD(2) [OF ok])
  show ?thesis
  proof (cases "int (length xs) = capacity s")
    case False
    then show ?thesis using ok n(1,4) len cap
      by (intro exI [of _ s] exI [of _ xs]) (simp add: spec_evict_def)
  next
    case True
    then have ne: "xs \<noteq> []" using c by auto
    let ?v = "victim ?E"
    let ?m = "filter (\<lambda>(k, a). k \<noteq> fst ?v) (nodeMap s)"
    obtain h xs1 where k: "kickOut s = Inr (s\<lparr>nodes := h, nodeMap := ?m, curTotalNum := curTotalNum s - snd (snd ?v),
             curAverageNum := average (curTotalNum s - snd (snd ?v)) ?m\<rparr>)"
      "lfu_ok (s\<lparr>nodes := h, nodeMap := ?m, curTotalNum := curTotalNum s - snd (snd ?v),
             curAverageNum := average (curTotalNum s - snd (snd ?v)) ?m\<rparr>) xs1"
      "entries h xs1 = remove1 ?v ?E" "?v \<in> set ?E" "length xs1 < length xs"
      using kickOut_ok [OF ok ne num] unfolding Let_def by blast
    let ?s = "s\<lparr>nodes := h, nodeMap := ?m, curTotalNum := curTotalNum s - snd (snd ?v),
             curAverageNum := average (curTotalNum s - snd (snd ?v)) ?m\<rparr>"
    have "1 \<le> snd (snd ?v)" using n(2) k(4) by blast
    moreover have "sum_list (freqs (remove1 ?v ?E)) \<le> curTotalNum s - snd (snd ?v)"
      using n(1) sum_list_map_remove1 [OF k(4), of "\<lambda>e. snd (snd e)"] by linarith
    moreover have "set (remove1 ?v ?E) \<subseteq> set ?E" by (rule set_remove1_subset)
    moreover have "(entries (nodes ?s) xs1, curTotalNum ?s) = spec_evict (capacity s) (?E, curTotalNum s)"
      using True k(3) by (simp add: spec_evict_def)
    ultimately show ?thesis using k(1,2,3,5) True len cap
      by (intro exI [of _ ?s] exI [of _ xs1]) simp
  qed
qed

lemma insert_node_ok:
  assumes ok: "lfu_ok s xs" and new: "map_of (nodeMap s) key = None"
  shows "\<exists>s2. addToFreqList env (Some (brk s))
      (s\<lparr>nodes := (nodes s)(brk s := new_Node key value), brk := Suc (brk s),
         nodeMap := (key, brk s) # filter (\<lambda>(k, a). k \<noteq> key) (nodeMap s)\<rparr>) = Inr s2 \<and>
    lfu_ok s2 (xs @ [brk s]) \<and> entries (nodes s2) (xs @ [brk s]) = entries (nodes s) xs @ [(key, value, 1)] \<and>
    curTotalNum s2 = curTotalNum s \<and> maxAverageNum s2 = maxAverageNum s \<and> capacity s2 = capacity s \<and> minFreq s2 = minFreq s"
proof -
  let ?n = "brk s" and ?h = "(nodes s)(brk s := new_Node key value)"
  have nk: "key \<notin> fst ` set (nodeMap s)" using new by (simp add: map_of_eq_None_iff)
  then have m: "filter (\<lambda>(k, a). k \<noteq> key) (nodeMap s) = nodeMap s" by (force simp: filter_id_conv)
  let ?s = "s\<lparr>nodes := ?h, brk := Suc ?n, nodeMap := (key, ?n) # nodeMap s\<rparr>"
  note l = lfu_okD(1) [OF ok]
  have l1: "lists_ok (freqToFreqList ?s) (nodes ?s) (brk ?s) xs" using lists_ok_fresh [OF l] by simp
  have n: "?n \<notin> set xs" "?n \<notin> set (sentinels (freqToFreqList ?s))" "?n < brk ?s"
    using lists_okD(3,4) [OF l] by (auto dest: less_imp_neq)
  obtain h b m' where add: "addToFreqList env (Some ?n) ?s = Inr (?s\<lparr>nodes := h, brk := b, freqToFreqList := m'\<rparr>)"
    "lists_ok m' h b (xs @ [?n])" "\<forall>x < Suc ?n. payload (h x) = payload (?h x)"
    using addToFreqList_ok [OF l1 n, of env] by auto
  let ?s2 = "?s\<lparr>nodes := h, brk := b, freqToFreqList := m'\<rparr>"
  have pay: "payload (h x) = payload (nodes s x)" if "x \<in> set xs" for x
    using add(3) lists_okD(3) [OF l that] by auto
  have pn: "payload (h ?n) = (key, value, 1)" using add(3) by (simp add: new_Node_def)
  have "\<forall>(k, x) \<in> set (nodeMap s). node_key (h x) = k" using pay by (intro keys_kept [OF ok]) simp
  then have "lfu_ok ?s2 (xs @ [?n])" using ok add(2) pn nk by (auto simp: lfu_ok_def)
  moreover have "entries h (xs @ [?n]) = entries (nodes s) xs @ [(key, value, 1)]" using pay pn by auto
  ultimately show ?thesis using add(1) unfolding m by (intro exI [of _ ?s2]) simp
qed

lemma putInternal_ok:
  assumes ok: "lfu_ok s xs" and num: "lfu_num s (entries (nodes s) xs)" and c: "capacity s \<noteq> 0"
    and new: "map_of (nodeMap s) key = None" and v: "visits_all env" and t: "curTotalNum s < INT_MAX"
  shows "\<exists>s' S'. putInternal env key value s = Inr s' \<and> lfu_rel s' S' \<and>
    maxAverageNum s' = maxAverageNum s \<and> capacity s' = capacity s \<and>
    (let S1 = spec_evict (capacity s) (entries (nodes s) xs, curTotalNum s)
     in spec_count (maxAverageNum s) (fst S1 @ [(key, value, 1)], snd S1) S')"
proof -
  note n = lfu_numD [OF num]
  obtain s1 xs1 where room: "(if int (length (nodeMap s)) = to_size_t (capacity s) then kickOut s else Inr s) = Inr s1"
    "lfu_ok s1 xs1" "(entries (nodes s1) xs1, curTotalNum s1) = spec_evict (capacity s) (entries (nodes s) xs, curTotalNum s)"
    "maxAverageNum s1 = maxAverageNum s" "capacity s1 = capacity s" "minFreq s1 = minFreq s" "int (length xs1) < capacity s"
    "set (entries (nodes s1) xs1) \<subseteq> set (entries (nodes s) xs)"
    "sum_list (freqs (entries (nodes s1) xs1)) \<le> curTotalNum s1" "curTotalNum s1 \<le> curTotalNum s"
    using make_room_ok [OF ok num c] by blast
  have "key \<notin> fst ` set (entries (nodes s1) xs1)" using new room(8) lookup_node(2) [OF ok] by blast
  then have new1: "map_of (nodeMap s1) key = None" using lookup_node(2) [OF room(2)] by simp
  let ?xs = "xs1 @ [brk s1]" and ?E = "entries (nodes s1) xs1 @ [(key, value, 1)]"
  obtain s2 where s2: "addToFreqList env (Some (brk s1))
      (s1\<lparr>nodes := (nodes s1)(brk s1 := new_Node key value), brk := Suc (brk s1),
         nodeMap := (key, brk s1) # filter (\<lambda>(k, a). k \<noteq> key) (nodeMap s1)\<rparr>) = Inr s2"
    "lfu_ok s2 ?xs" "entries (nodes s2) ?xs = ?E" "curTotalNum s2 = curTotalNum s1"
    "maxAverageNum s2 = maxAverageNum s1" "capacity s2 = capacity s1" "minFreq s2 = minFreq s1"
    using insert_node_ok [OF room(2) new1, of env "value"] by blast
  have pos: "\<forall>e \<in> set ?E. 1 \<le> snd (snd e)" using n(2) room(8) by auto
  have sum: "sum_list (freqs ?E) \<le> curTotalNum s1 + 1" using room(9) by simp
  have one: "least ?E = 1" using pos by (intro least_eqI [of "(key, value, 1)"]) auto
  have t0: "0 \<le> curTotalNum s1"
    using room(9) lfu_okD(4) [OF room(2)] pos sum_list_nonneg [of "freqs (entries (nodes s1) xs1)"] by fastforce
  have nE: "?E \<noteq> []" by simp
  have t2: "0 \<le> curTotalNum s2" "curTotalNum s2 < INT_MAX" using t t0 room(10) s2(4) by simp_all
  have sum2: "sum_list (freqs ?E) \<le> curTotalNum s2 + 1" "least ?E \<le> maxAverageNum s2 + 1"
    "2 \<le> maxAverageNum s2" "maxAverageNum s2 \<le> 250" using sum one n(6,7) room(4) s2(4,5) by simp_all
  obtain s3 xs3 where s3: "addFreqNum env s2 = Inr s3" "lfu_ok s3 xs3"
    "spec_count (maxAverageNum s2) (?E, curTotalNum s2) (entries (nodes s3) xs3, curTotalNum s3)"
    "maxAverageNum s3 = maxAverageNum s2" "capacity s3 = capacity s2"
    "minFreq s3 = least (entries (nodes s3) xs3) \<or> minFreq s3 = minFreq s2 \<and> entries (nodes s3) xs3 = ?E"
    using addFreqNum_ok [OF s2(2,3) nE v t2 pos sum2] by blast
  let ?E3 = "entries (nodes s3) xs3" and ?s = "s3\<lparr>minFreq := min (minFreq s3) 1\<rparr>"
  have c3: "spec_count (maxAverageNum s) (?E, curTotalNum s1) (?E3, curTotalNum s3)" using s3(3) s2(4,5) room(4) by simp
  note n3 = spec_count_num [OF c3 nE pos sum _ n(6,7)]
  have "\<exists>e \<in> set ?E3. snd (snd e) = 1" using spec_count_one [OF c3, of key "value"] n(6) by simp
  moreover have "\<forall>e \<in> set ?E3. 1 \<le> snd (snd e)" using n(6) one by (intro n3(3)) simp
  ultimately have least3: "least ?E3 = 1" using least_eqI by blast
  have "minFreq ?s = least ?E3" using s3(6) least3 n(8) room(6) s2(7) by auto
  then have "lfu_num ?s ?E3"
    by (intro lfu_num_after [OF _ _ pos sum, of s _ ?s]) (use c3 n t one room s2(4-7) s3(4,5) in auto)
  moreover have "lfu_ok ?s xs3" using s3(2) by (simp add: lfu_ok_def)
  ultimately have "lfu_rel ?s (?E3, curTotalNum s3)" using lfu_relI [of ?s xs3] by simp
  moreover have "putInternal env key value s = Inr ?s"
    using room(1) s2(1) s3(1) by (simp add: putInternal_def Let_def)
  ultimately show ?thesis using c3 room(3-5) s2(5,6) s3(4,5) unfolding Let_def
    by (intro exI [of _ ?s] exI [of _ "(?E3, curTotalNum s3)"]) (auto dest: sym)
qed

section \<open>Every operation refines its reference\<close>

lemma lfu_relE:
  assumes "lfu_rel s S"
  obtains xs where "lfu_ok s xs" "S = (entries (nodes s) xs, curTotalNum s)" "lfu_num s (entries (nodes s) xs)"
proof -
  obtain xs where "lfu_ok s xs" "fst S = entries (nodes s) xs" using assms by (auto simp: lfu_rel_def)
  moreover have "snd S = curTotalNum s" "lfu_num s (fst S)" using assms by (simp_all add: lfu_rel_def)
  ultimately show thesis using that [of xs] by (cases S) simp
qed

lemma new_LfuCache_rel:
  "0 \<le> c \<Longrightarrow> c \<le> INT_MAX \<Longrightarrow> 2 \<le> mx \<Longrightarrow> mx \<le> 250 \<Longrightarrow> lfu_rel (new_LfuCache c mx h) ([], 0)"
  by (simp add: lfu_rel_def lfu_ok_def lfu_num_def new_LfuCache_def lists_ok_def INT_MAX_def INT8_MAX_def)

lemma purge_rel: "lfu_rel s S \<Longrightarrow> lfu_rel (purge s) ([], snd S)"
proof -
  assume R: "lfu_rel s S"
  then have n: "lfu_num s (fst S)" and t: "snd S = curTotalNum s" by (simp_all add: lfu_rel_def)
  then have "lfu_num (purge s) []" using lfu_numD(3-5) [OF n] by (simp add: lfu_num_def purge_def)
  then show ?thesis using t by (simp add: lfu_rel_def lfu_ok_def purge_def lists_ok_def)
qed

lemma spec_count_total: "spec_count mx S S' \<Longrightarrow> snd S' = snd S + 1"
  by (simp add: spec_count_def)

lemma get_rel:
  assumes R: "lfu_rel s S" and v: "visits_all env" and t: "curTotalNum s < INT_MAX"
  shows "\<exists>r s' S'. get env key d s = Inr (r \<noteq> None, (case r of None \<Rightarrow> d | Some v \<Rightarrow> v), s') \<and>
    spec_get (maxAverageNum s) key S r S' \<and> lfu_rel s' S' \<and> capacity s' = capacity s \<and>
    maxAverageNum s' = maxAverageNum s \<and> curTotalNum s' \<le> curTotalNum s + 1"
proof -
  obtain xs where x: "lfu_ok s xs" "S = (entries (nodes s) xs, curTotalNum s)" "lfu_num s (entries (nodes s) xs)"
    using lfu_relE [OF R] .
  show ?thesis
  proof (cases "map_of (nodeMap s) key")
    case None
    then have "map_of (fst S) key = None" using lookup_node(2) [OF x(1)] x(2) by (simp add: map_of_eq_None_iff)
    then show ?thesis using None R
      by (intro exI [of _ None] exI [of _ s] exI [of _ S]) (simp add: get_def spec_get_def)
  next
    case (Some a)
    then have a: "a \<in> set xs" "node_key (nodes s a) = key" using lookup_node(1) [OF x(1)] by auto
    obtain s' S' where g: "getInternal env a s = Inr (node_value (nodes s a), s')" "lfu_rel s' S'"
      "maxAverageNum s' = maxAverageNum s" "capacity s' = capacity s"
      "spec_count (maxAverageNum s) (spec_touch key (node_value (nodes s a)) (node_freq (nodes s a)) (fst S), snd S) S'"
      using getInternal_ok [OF x(1) a(1) x(3) v t] unfolding x(2) a(2) by auto
    have "spec_get (maxAverageNum s) key S (Some (node_value (nodes s a))) S'"
      using g(5) map_of_entries [OF x(1) a(1)] x(2) a(2) by (simp add: spec_get_def)
    moreover have "curTotalNum s' \<le> curTotalNum s + 1"
      using spec_count_total [OF g(5)] g(2) x(2) by (simp add: lfu_rel_def)
    ultimately show ?thesis using g(1-4) Some
      by (intro exI [of _ "Some (node_value (nodes s a))"] exI [of _ s'] exI [of _ S']) (simp add: get_def)
  qed
qed

lemma lfu_num_cong:
  assumes "curTotalNum s1 = curTotalNum s" "minFreq s1 = minFreq s" "maxAverageNum s1 = maxAverageNum s"
    "capacity s1 = capacity s" and f: "freqs E1 = freqs E"
  shows "lfu_num s1 E1 \<longleftrightarrow> lfu_num s E"
proof -
  have "least E1 = least E" "length E1 = length E" "E1 = [] \<longleftrightarrow> E = []"
    using f map_eq_imp_length_eq [OF f] by (simp_all only: least_def flip: length_0_conv)
  then show ?thesis unfolding lfu_num_def assms by simp
qed

text \<open>Overwriting the value of a cached key changes nothing but that value.\<close>

lemma set_value_ok:
  assumes ok: "lfu_ok s xs" and a: "a \<in> set xs" and num: "lfu_num s (entries (nodes s) xs)"
    and s1: "s1 = s\<lparr>nodes := (nodes s)(a := (nodes s a)\<lparr>node_value := w\<rparr>)\<rparr>"
  shows "lfu_ok s1 xs" and "lfu_num s1 (entries (nodes s1) xs)"
    and "spec_touch (node_key (nodes s a)) w f (entries (nodes s1) xs) =
         spec_touch (node_key (nodes s a)) w f (entries (nodes s) xs)"
proof -
  have "lists_ok (freqToFreqList s) (nodes s1) (brk s) xs"
    by (rule lists_ok_payload [OF lfu_okD(1) [OF ok]]) (simp_all add: s1)
  moreover have "\<forall>(k, x) \<in> set (nodeMap s). node_key (nodes s1 x) = k" by (rule keys_kept [OF ok]) (simp add: s1)
  ultimately show "lfu_ok s1 xs" using ok by (simp add: lfu_ok_def s1)
  have "freqs (entries (nodes s1) xs) = freqs (entries (nodes s) xs)" by (simp add: s1)
  then show "lfu_num s1 (entries (nodes s1) xs)" using num by (subst lfu_num_cong [of s1 s]) (simp_all add: s1)
  show "spec_touch (node_key (nodes s a)) w f (entries (nodes s1) xs) =
        spec_touch (node_key (nodes s a)) w f (entries (nodes s) xs)"
    by (induction xs) (simp_all add: spec_touch_def s1)
qed

lemma put_rel:
  assumes R: "lfu_rel s S" and v: "visits_all env" and t: "curTotalNum s < INT_MAX"
  shows "\<exists>s' S'. put env key w s = Inr s' \<and> spec_put (capacity s) (maxAverageNum s) key w S S' \<and> lfu_rel s' S' \<and>
    capacity s' = capacity s \<and> maxAverageNum s' = maxAverageNum s \<and> curTotalNum s' \<le> curTotalNum s + 1"
proof -
  obtain xs where x: "lfu_ok s xs" "S = (entries (nodes s) xs, curTotalNum s)" "lfu_num s (entries (nodes s) xs)"
    using lfu_relE [OF R] .
  consider (zero) "capacity s = 0" | (old) a where "capacity s \<noteq> 0" "map_of (nodeMap s) key = Some a"
    | (new) "capacity s \<noteq> 0" "map_of (nodeMap s) key = None" by (cases "map_of (nodeMap s) key") auto
  then show ?thesis
  proof cases
    case zero
    then show ?thesis using R by (intro exI [of _ s] exI [of _ S]) (simp add: put_def spec_put_def)
  next
    case (old a)
    then have a: "a \<in> set xs" "node_key (nodes s a) = key" using lookup_node(1) [OF x(1)] by auto
    define s1 where "s1 = s\<lparr>nodes := (nodes s)(a := (nodes s a)\<lparr>node_value := w\<rparr>)\<rparr>"
    note o1 = set_value_ok [OF x(1) a(1) x(3) s1_def]
    have s1: "node_value (nodes s1 a) = w" "node_key (nodes s1 a) = key" "node_freq (nodes s1 a) = node_freq (nodes s a)"
      "curTotalNum s1 = curTotalNum s" "maxAverageNum s1 = maxAverageNum s" "capacity s1 = capacity s"
      using a(2) by (simp_all add: s1_def)
    obtain s' S' where g: "getInternal env a s1 = Inr (w, s')" "lfu_rel s' S'"
      "maxAverageNum s' = maxAverageNum s" "capacity s' = capacity s"
      "spec_count (maxAverageNum s) (spec_touch key w (node_freq (nodes s a)) (fst S), snd S) S'"
      using getInternal_ok [OF o1(1) a(1) o1(2) v] t o1(3) unfolding x(2) s1 a(2) by auto
    have "spec_put (capacity s) (maxAverageNum s) key w S S'"
      using old g(5) map_of_entries [OF x(1) a(1)] x(2) a(2) by (simp add: spec_put_def)
    moreover have "curTotalNum s' \<le> curTotalNum s + 1"
      using spec_count_total [OF g(5)] g(2) x(2) by (simp add: lfu_rel_def)
    ultimately show ?thesis using g(1-4) old s1_def
      by (intro exI [of _ s'] exI [of _ S']) (simp add: put_def)
  next
    case new
    obtain s' S' where g: "putInternal env key w s = Inr s'" "lfu_rel s' S'"
      "maxAverageNum s' = maxAverageNum s" "capacity s' = capacity s"
      "spec_count (maxAverageNum s) (fst (spec_evict (capacity s) S) @ [(key, w, 1)], snd (spec_evict (capacity s) S)) S'"
      using putInternal_ok [OF x(1,3) new v t, of w] unfolding x(2) Let_def by auto
    have "map_of (fst S) key = None" using new(2) lookup_node(2) [OF x(1)] x(2) by (simp add: map_of_eq_None_iff)
    then have "spec_put (capacity s) (maxAverageNum s) key w S S'" using new(1) g(5) by (simp add: spec_put_def Let_def)
    moreover have "snd (spec_evict (capacity s) S) \<le> curTotalNum s"
      using make_room_ok [OF x(1,3) new(1)] unfolding x(2) by (metis snd_conv)
    then have "curTotalNum s' \<le> curTotalNum s + 1"
      using spec_count_total [OF g(5)] g(2) by (simp add: lfu_rel_def)
    ultimately show ?thesis using g(1-4) new by (intro exI [of _ s'] exI [of _ S']) (simp add: put_def)
  qed
qed

end
