(* ===== verification/Hash_Lfu.thy ===== *)
theory Hash_Lfu
  imports Lfu_Cache
begin

text \<open>
  What the cache promises its users, and the sliced cache \<^verbatim>\<open>HashLfuCache\<close> built on it.  The locale
  \<open>cache\<close> states the contract of a bounded cache: a lookup gives the last value stored unless the key
  was evicted, a store never invents or changes another entry, the size is bounded.  The sliced
  cache satisfies the same contract whenever its slices do; that is proved once, in the locale.
\<close>

section \<open>Runs of operations\<close>

datatype ('k, 'v) lfu_op = Put 'k 'v | Get 'k | Purge

fun run_lfu_op :: "('k, 'v) lfu_env \<Rightarrow> ('k, 'v) lfu_op \<Rightarrow> ('k, 'v) LfuCache \<Rightarrow> ('v option \<times> ('k, 'v) LfuCache) result" where
  "run_lfu_op env (Put k v) s = bind_result (put env k v s) (\<lambda>s'. Inr (None, s'))"
| "run_lfu_op env (Get k) s =
     bind_result (get env k (snd (dflt env)) s) (\<lambda>(found, v, s'). Inr (if found then Some v else None, s'))"
| "run_lfu_op env Purge s = Inr (None, purge s)"

fun run_lfu :: "('k, 'v) lfu_env \<Rightarrow> ('k, 'v) lfu_op list \<Rightarrow> ('k, 'v) LfuCache \<Rightarrow> ('v option list \<times> ('k, 'v) LfuCache) result" where
  "run_lfu env [] s = Inr ([], s)"
| "run_lfu env (x # xs) s =
     bind_result (run_lfu_op env x s) (\<lambda>(r, s'). bind_result (run_lfu env xs s') (\<lambda>(rs, s''). Inr (r # rs, s'')))"

fun spec_op :: "int \<Rightarrow> int \<Rightarrow> ('k, 'v) lfu_op \<Rightarrow> ('k, 'v) lfu_spec \<Rightarrow> 'v option \<Rightarrow> ('k, 'v) lfu_spec \<Rightarrow> bool" where
  "spec_op cap mx (Put k v) S r S' \<longleftrightarrow> r = None \<and> spec_put cap mx k v S S'"
| "spec_op cap mx (Get k) S r S' \<longleftrightarrow> spec_get mx k S r S'"
| "spec_op cap mx Purge S r S' \<longleftrightarrow> r = None \<and> S' = ([], snd S)"

inductive spec_run :: "int \<Rightarrow> int \<Rightarrow> ('k, 'v) lfu_op list \<Rightarrow> ('k, 'v) lfu_spec \<Rightarrow> 'v option list \<Rightarrow> ('k, 'v) lfu_spec \<Rightarrow> bool"
  for cap mx where
  spec_run_Nil: "spec_run cap mx [] S [] S"
| spec_run_Cons: "spec_op cap mx x S r S1 \<Longrightarrow> spec_run cap mx xs S1 rs S2 \<Longrightarrow> spec_run cap mx (x # xs) S (r # rs) S2"

inductive_cases spec_run_NilE: "spec_run cap mx [] S rs S'"
inductive_cases spec_run_ConsE: "spec_run cap mx (x # xs) S rs S'"

lemma run_lfu_op_rel:
  assumes "lfu_rel s S" and "visits_all env" and "curTotalNum s < INT_MAX"
  shows "\<exists>r s' S'. run_lfu_op env x s = Inr (r, s') \<and> spec_op (capacity s) (maxAverageNum s) x S r S' \<and> lfu_rel s' S' \<and>
    capacity s' = capacity s \<and> maxAverageNum s' = maxAverageNum s \<and> curTotalNum s' \<le> curTotalNum s + 1"
proof (cases x)
  case (Put k v)
  obtain s' S' where "put env k v s = Inr s'" "spec_put (capacity s) (maxAverageNum s) k v S S'" "lfu_rel s' S'"
    "capacity s' = capacity s" "maxAverageNum s' = maxAverageNum s" "curTotalNum s' \<le> curTotalNum s + 1"
    using put_rel [OF assms] by blast
  then show ?thesis using Put by (intro exI [of _ None] exI [of _ s'] exI [of _ S']) simp
next
  case (Get k)
  obtain r s' S' where "get env k (snd (dflt env)) s = Inr (r \<noteq> None, (case r of None \<Rightarrow> snd (dflt env) | Some v \<Rightarrow> v), s')"
    "spec_get (maxAverageNum s) k S r S'" "lfu_rel s' S'" "capacity s' = capacity s"
    "maxAverageNum s' = maxAverageNum s" "curTotalNum s' \<le> curTotalNum s + 1"
    using get_rel [OF assms] by blast
  then show ?thesis using Get by (intro exI [of _ r] exI [of _ s'] exI [of _ S']) (cases r; simp)
next
  case Purge
  then show ?thesis using purge_rel [OF assms(1)]
    by (intro exI [of _ None] exI [of _ "purge s"] exI [of _ "([], snd S)"]) (simp add: purge_def)
qed

lemma run_lfu_rel:
  assumes "lfu_rel s S" and "visits_all env" and "curTotalNum s + int (length xs) \<le> INT_MAX"
  shows "\<exists>rs s' S'. run_lfu env xs s = Inr (rs, s') \<and> spec_run (capacity s) (maxAverageNum s) xs S rs S' \<and> lfu_rel s' S' \<and>
    capacity s' = capacity s"
  using assms
proof (induction xs arbitrary: s S)
  case Nil
  then show ?case by (intro exI [of _ "[]"] exI [of _ s] exI [of _ S]) (simp add: spec_run_Nil)
next
  case (Cons x xs)
  have "curTotalNum s < INT_MAX" using Cons.prems(3) by simp
  from run_lfu_op_rel [OF Cons.prems(1,2) this, of x] obtain r s1 S1 where
    one: "run_lfu_op env x s = Inr (r, s1)" "spec_op (capacity s) (maxAverageNum s) x S r S1" "lfu_rel s1 S1"
      "capacity s1 = capacity s" "maxAverageNum s1 = maxAverageNum s" "curTotalNum s1 \<le> curTotalNum s + 1" by blast
  moreover obtain rs s' S' where "run_lfu env xs s1 = Inr (rs, s')"
      "spec_run (capacity s1) (maxAverageNum s1) xs S1 rs S'" "lfu_rel s' S'" "capacity s' = capacity s1"
    using Cons.IH [OF one(3) Cons.prems(2)] Cons.prems(3) one(6) by auto
  ultimately show ?case
    by (intro exI [of _ "r # rs"] exI [of _ s'] exI [of _ S']) (simp add: spec_run_Cons)
qed

text \<open>What the cache holds for each key.\<close>

definition lfu_content :: "('k, 'v) LfuCache \<Rightarrow> 'k \<Rightarrow> 'v option" where
  "lfu_content s k = map_option (\<lambda>a. node_value (nodes s a)) (map_of (nodeMap s) k)"

lemma lfu_content_rel: "lfu_rel s S \<Longrightarrow> lfu_content s k = map_option fst (map_of (fst S) k)"
proof -
  assume "lfu_rel s S"
  then obtain xs where x: "lfu_ok s xs" "S = (entries (nodes s) xs, curTotalNum s)" by (rule lfu_relE)
  show ?thesis
  proof (cases "map_of (nodeMap s) k")
    case None
    then have "k \<notin> fst ` set (fst S)" using lookup_node(2) [OF x(1)] x(2) by simp
    then have "map_of (fst S) k = None" by (simp add: map_of_eq_None_iff)
    with None show ?thesis by (simp add: lfu_content_def)
  next
    case (Some a)
    then have "a \<in> set xs" "node_key (nodes s a) = k" using lookup_node(1) [OF x(1)] by auto
    then show ?thesis using map_of_entries [OF x(1)] x(2) Some by (auto simp: lfu_content_def)
  qed
qed

lemma lfu_rel_length: "lfu_rel s S \<Longrightarrow> int (length (nodeMap s)) \<le> capacity s"
  by (elim lfu_relE) (auto dest!: lfu_okD(2) lfu_numD(4))

text \<open>C16. A new cache with a capacity that is an \<^verbatim>\<open>int\<close> and an average limit from 2 to 250 runs any
  sequence of fewer than \<^verbatim>\<open>INT_MAX\<close> stores, lookups and purges without touching a null pointer or
  overflowing, and its answers are those of the reference list of entries: a lookup returns the value
  last stored under the key unless it was evicted, an eviction removes the entry of the least
  frequency that was linked first, and the size never exceeds the capacity.\<close>

theorem lfu_refines_reference:
  assumes "0 \<le> c" and "c \<le> INT_MAX" and "2 \<le> mx" and "mx \<le> 250" and "visits_all env"
    and "int (length ops) \<le> INT_MAX"
  shows "\<exists>rs s' S'. run_lfu env ops (new_LfuCache c mx h) = Inr (rs, s') \<and>
    spec_run c mx ops ([], 0) rs S' \<and>
    (\<forall>k. lfu_content s' k = map_option fst (map_of (fst S') k)) \<and> int (length (nodeMap s')) \<le> c"
proof -
  have R: "lfu_rel (new_LfuCache c mx h) ([], 0)" by (rule new_LfuCache_rel [OF assms(1-4)])
  have "curTotalNum (new_LfuCache c mx h) + int (length ops) \<le> INT_MAX" using assms(6) by (simp add: new_LfuCache_def)
  from run_lfu_rel [OF R assms(5) this] obtain rs s' S' where
    r: "run_lfu env ops (new_LfuCache c mx h) = Inr (rs, s')" "lfu_rel s' S'"
      "spec_run (capacity (new_LfuCache c mx h)) (maxAverageNum (new_LfuCache c mx h)) ops ([], 0) rs S'"
      "capacity s' = capacity (new_LfuCache c mx h)" by blast
  moreover have "capacity (new_LfuCache c mx h) = c" "maxAverageNum (new_LfuCache c mx h) = mx"
    by (simp_all add: new_LfuCache_def)
  ultimately show ?thesis using lfu_content_rel [OF r(2)] lfu_rel_length [OF r(2)]
    by (intro exI [of _ rs] exI [of _ s'] exI [of _ S']) simp
qed

definition demo_lfu_env :: "(nat, string) lfu_env" where
  "demo_lfu_env = \<lparr>dflt = (0, ''''), iter = rev\<rparr>"

definition demo_lfu :: "(nat, string) LfuCache" where
  "demo_lfu = new_LfuCache 2 10 (\<lambda>_. default_Node (0, ''''))"

definition demo_lfu_ops :: "(nat, string) lfu_op list" where
  "demo_lfu_ops = [Put 1 ''a'', Put 2 ''b'', Get 1, Put 3 ''c'', Get 2, Get 1, Get 3]"

lemma demo_lfu_answers:
  "case run_lfu demo_lfu_env demo_lfu_ops demo_lfu of
     Inl e \<Rightarrow> False | Inr (rs, s) \<Rightarrow> rs = [None, None, Some ''a'', None, None, Some ''a'', Some ''c'']"
  by code_simp

theorem lfu_refines_reference_witness:
  "\<exists>s' S'. run_lfu demo_lfu_env demo_lfu_ops demo_lfu =
      Inr ([None, None, Some ''a'', None, None, Some ''a'', Some ''c''], s') \<and>
    spec_run 2 10 demo_lfu_ops ([], 0) [None, None, Some ''a'', None, None, Some ''a'', Some ''c''] S' \<and>
    int (length (nodeMap s')) \<le> 2"
proof -
  have "visits_all demo_lfu_env" by (simp add: visits_all_def demo_lfu_env_def)
  moreover have "int (length demo_lfu_ops) \<le> INT_MAX" by (simp add: demo_lfu_ops_def INT_MAX_def)
  ultimately obtain rs s' S' where r: "run_lfu demo_lfu_env demo_lfu_ops demo_lfu = Inr (rs, s')"
      "spec_run 2 10 demo_lfu_ops ([], 0) rs S'" "int (length (nodeMap s')) \<le> 2"
    using lfu_refines_reference [of 2 10 demo_lfu_env demo_lfu_ops "\<lambda>_. default_Node (0, '''')"]
    unfolding demo_lfu_def INT_MAX_def by auto
  moreover have "rs = [None, None, Some ''a'', None, None, Some ''a'', Some ''c'']" using demo_lfu_answers r(1) by simp
  ultimately show ?thesis by blast
qed

section \<open>The contract of a cache\<close>

text \<open>Runs of any cache, given its three operations.\<close>

fun cache_run ::
    "('k \<Rightarrow> 'v \<Rightarrow> 's \<Rightarrow> 's result) \<Rightarrow> ('k \<Rightarrow> 's \<Rightarrow> ('v option \<times> 's) result) \<Rightarrow> ('s \<Rightarrow> 's) \<Rightarrow>
     ('k, 'v) lfu_op list \<Rightarrow> 's \<Rightarrow> ('v option list \<times> 's) result" where
  "cache_run put' get' purge' [] s = Inr ([], s)"
| "cache_run put' get' purge' (x # xs) s =
     bind_result (case x of Put k v \<Rightarrow> bind_result (put' k v s) (\<lambda>s'. Inr (None, s'))
                  | Get k \<Rightarrow> get' k s
                  | Purge \<Rightarrow> Inr (None, purge' s))
       (\<lambda>(r, s'). bind_result (cache_run put' get' purge' xs s') (\<lambda>(rs, s''). Inr (r # rs, s'')))"

text \<open>
  The answers a user may rely on: \<open>m\<close> is the value last stored under each key since the last purge and
  \<open>newest\<close> the key stored last.  A lookup answers nothing or that value, and for the newest key
  that value.
\<close>

fun answers_ok :: "'k option \<Rightarrow> ('k \<Rightarrow> 'v option) \<Rightarrow> ('k, 'v) lfu_op list \<Rightarrow> 'v option list \<Rightarrow> bool" where
  "answers_ok newest m (Put k v # xs) (r # rs) \<longleftrightarrow> r = None \<and> answers_ok (Some k) (m(k \<mapsto> v)) xs rs"
| "answers_ok newest m (Get k # xs) (r # rs) \<longleftrightarrow>
     (r = None \<or> r = m k) \<and> (newest = Some k \<longrightarrow> r = m k) \<and> answers_ok newest m xs rs"
| "answers_ok newest m (Purge # xs) (r # rs) \<longleftrightarrow> r = None \<and> answers_ok None Map.empty xs rs"
| "answers_ok newest m [] [] \<longleftrightarrow> True"
| "answers_ok newest m _ _ \<longleftrightarrow> False"

text \<open>
  \<open>inv n s\<close> says that \<open>s\<close> is well formed and allows \<open>n\<close> more operations.
\<close>

locale cache =
  fixes inv :: "nat \<Rightarrow> 's \<Rightarrow> bool"
    and store :: "'k \<Rightarrow> 'v \<Rightarrow> 's \<Rightarrow> 's result"
    and fetch :: "'k \<Rightarrow> 's \<Rightarrow> ('v option \<times> 's) result"
    and content :: "'s \<Rightarrow> 'k \<Rightarrow> 'v option"
    and room :: "'s \<Rightarrow> nat"
    and clear :: "'s \<Rightarrow> 's"
  assumes fetch_law: "inv (Suc n) s \<Longrightarrow>
      \<exists>s'. fetch k s = Inr (content s k, s') \<and> inv n s' \<and> content s' = content s \<and> room s' = room s"
    and store_law: "inv (Suc n) s \<Longrightarrow> \<exists>s'. store k v s = Inr s' \<and> inv n s' \<and> room s' = room s \<and>
      content s' \<subseteq>\<^sub>m (content s)(k \<mapsto> v) \<and> (0 < room s \<longrightarrow> content s' k = Some v)"
    and clear_law: "inv n s \<Longrightarrow> inv n (clear s) \<and> content (clear s) = Map.empty \<and> room (clear s) = room s"
    and bounded: "inv n s \<Longrightarrow> finite (dom (content s)) \<and> card (dom (content s)) \<le> room s"
    and inv_mono: "inv (Suc n) s \<Longrightarrow> inv n s"
begin

text \<open>A cache that holds nothing but what was stored answers from what was stored.\<close>

lemma answers_never_stale:
  assumes "inv (length xs) s" and "0 < room s" and "content s \<subseteq>\<^sub>m m"
    and "\<forall>k. newest = Some k \<longrightarrow> content s k = m k"
  shows "\<exists>rs s'. cache_run store fetch clear xs s = Inr (rs, s') \<and> answers_ok newest m xs rs \<and>
    inv 0 s' \<and> room s' = room s"
  using assms
proof (induction xs arbitrary: s m newest)
  case Nil
  then show ?case by simp
next
  case (Cons x xs)
  have i: "inv (Suc (length xs)) s" using Cons.prems(1) by simp
  show ?case
  proof (cases x)
    case (Put k v)
    obtain s1 where s1: "store k v s = Inr s1" "inv (length xs) s1" "room s1 = room s"
      "content s1 \<subseteq>\<^sub>m (content s)(k \<mapsto> v)" "content s1 k = Some v" using store_law [OF i] Cons.prems(2) by blast
    have "content s1 \<subseteq>\<^sub>m m(k \<mapsto> v)" using s1(4) Cons.prems(3) map_le_upd map_le_trans by metis
    moreover have "\<forall>j. Some k = Some j \<longrightarrow> content s1 j = (m(k \<mapsto> v)) j" using s1(5) by simp
    ultimately obtain rs s' where "cache_run store fetch clear xs s1 = Inr (rs, s')"
      "answers_ok (Some k) (m(k \<mapsto> v)) xs rs" "inv 0 s'" "room s' = room s"
      using Cons.IH [OF s1(2)] s1(3) Cons.prems(2) by metis
    then show ?thesis using s1(1) Put by (intro exI [of _ "None # rs"] exI [of _ s']) simp
  next
    case (Get k)
    obtain s1 where s1: "fetch k s = Inr (content s k, s1)" "inv (length xs) s1" "content s1 = content s" "room s1 = room s"
      using fetch_law [OF i] by blast
    have "content s k = None \<or> content s k = m k" using Cons.prems(3) by (auto simp: map_le_def)
    moreover have "newest = Some k \<Longrightarrow> content s k = m k" using Cons.prems(4) by simp
    ultimately show ?thesis using Cons.IH [OF s1(2), of m newest] s1 Cons.prems(2-4) Get by auto
  next
    case Purge
    have c: "inv (length xs) (clear s)" "content (clear s) = Map.empty" "room (clear s) = room s"
      using clear_law [OF inv_mono [OF i]] by auto
    from Cons.IH [OF c(1), of Map.empty None] show ?thesis using c Cons.prems(2) Purge by auto
  qed
qed

end

section \<open>Operations on one slice\<close>

text \<open>An operation on the slice a key is hashed to; an index outside the vector is undefined.\<close>

definition at_slice :: "nat \<Rightarrow> ('s \<Rightarrow> ('r \<times> 's) result) \<Rightarrow> 's list \<Rightarrow> ('r \<times> 's list) result" where
  "at_slice i f ss =
     (if i < length ss then bind_result (f (ss ! i)) (\<lambda>(r, s'). Inr (r, ss[i := s'])) else Inl OutOfBounds)"

text \<open>Every key is cached in the slice it is hashed to.\<close>

definition routed :: "('k \<Rightarrow> nat) \<Rightarrow> ('s \<Rightarrow> 'k \<Rightarrow> 'v option) \<Rightarrow> 's list \<Rightarrow> bool" where
  "routed hash content ss \<longleftrightarrow>
     (\<forall>i < length ss. \<forall>k \<in> dom (content (ss ! i)). hash k mod length ss = i)"

definition sliced_content :: "('k \<Rightarrow> nat) \<Rightarrow> ('s \<Rightarrow> 'k \<Rightarrow> 'v option) \<Rightarrow> 's list \<Rightarrow> 'k \<Rightarrow> 'v option" where
  "sliced_content hash content ss k = content (ss ! (hash k mod length ss)) k"

definition sliced_inv :: "(nat \<Rightarrow> 's \<Rightarrow> bool) \<Rightarrow> ('s \<Rightarrow> nat) \<Rightarrow> ('s \<Rightarrow> 'k \<Rightarrow> 'v option) \<Rightarrow> ('k \<Rightarrow> nat) \<Rightarrow> nat \<Rightarrow> 's list \<Rightarrow> bool" where
  "sliced_inv ok room content hash n ss \<longleftrightarrow>
     ss \<noteq> [] \<and> (\<forall>s \<in> set ss. ok n s \<and> 0 < room s) \<and> routed hash content ss"

context cache
begin

lemma sliced_index: "sliced_inv inv room content hash n ss \<Longrightarrow> hash k mod length ss < length ss"
  by (simp add: sliced_inv_def)

lemma sliced_update:
  assumes "sliced_inv inv room content hash (Suc n) ss" and "i = hash k mod length ss" and "inv n s'" and "room s' = room (ss ! i)"
    and "dom (content s') \<subseteq> insert k (dom (content (ss ! i)))"
  shows "sliced_inv inv room content hash n (ss[i := s'])"
proof -
  have i: "i < length ss" using sliced_index [OF assms(1)] assms(2) by simp
  have "\<forall>s \<in> set ss. inv n s \<and> 0 < room s" "0 < room (ss ! i)"
    using assms(1) i inv_mono by (auto simp: sliced_inv_def)
  then have "\<forall>s \<in> set (ss[i := s']). inv n s \<and> 0 < room s"
    using assms(3,4) set_update_subset_insert [of ss i s'] by auto
  moreover have "hash j mod length ss = i" if "j \<in> dom (content s')" for j
  proof -
    have "j = k \<or> j \<in> dom (content (ss ! i))" using that assms(5) by blast
    then show ?thesis using assms(1,2) i unfolding routed_def sliced_inv_def by blast
  qed
  then have "routed hash content (ss[i := s'])"
    using assms(1) i by (auto simp: routed_def sliced_inv_def nth_list_update)
  ultimately show ?thesis using assms(1) by (simp add: sliced_inv_def)
qed

lemma sliced_fetch:
  assumes "sliced_inv inv room content hash (Suc n) ss"
  shows "\<exists>ss'. at_slice (hash k mod length ss) (fetch k) ss = Inr (sliced_content hash content ss k, ss') \<and>
    sliced_inv inv room content hash n ss' \<and> sliced_content hash content ss' = sliced_content hash content ss \<and>
    map room ss' = map room ss"
proof -
  let ?i = "hash k mod length ss"
  have i: "?i < length ss" by (rule sliced_index [OF assms])
  then have "inv (Suc n) (ss ! ?i)" using assms by (simp add: sliced_inv_def)
  then obtain s' where s': "fetch k (ss ! ?i) = Inr (content (ss ! ?i) k, s')" "inv n s'"
    "content s' = content (ss ! ?i)" "room s' = room (ss ! ?i)" using fetch_law by blast
  have "sliced_content hash content (ss[?i := s']) j = sliced_content hash content ss j" for j
    using i s'(3) by (cases "hash j mod length ss = ?i") (simp_all add: sliced_content_def)
  moreover have "map room (ss[?i := s']) = map room ss" using s'(4) i by (simp add: map_update list_update_same_conv)
  moreover have "sliced_inv inv room content hash n (ss[?i := s'])"
    using s'(2-4) by (intro sliced_update [OF assms refl]) auto
  ultimately show ?thesis using i s'(1)
    by (intro exI [of _ "ss[?i := s']"]) (auto simp: at_slice_def sliced_content_def)
qed

lemma sliced_store:
  assumes "sliced_inv inv room content hash (Suc n) ss"
  shows "\<exists>ss'. at_slice (hash k mod length ss) (\<lambda>s. bind_result (store k v s) (\<lambda>s'. Inr ((), s'))) ss = Inr ((), ss') \<and>
    sliced_inv inv room content hash n ss' \<and> map room ss' = map room ss \<and>
    sliced_content hash content ss' \<subseteq>\<^sub>m (sliced_content hash content ss)(k \<mapsto> v) \<and>
    sliced_content hash content ss' k = Some v"
proof -
  let ?i = "hash k mod length ss"
  have i: "?i < length ss" by (rule sliced_index [OF assms])
  then have "inv (Suc n) (ss ! ?i)" "0 < room (ss ! ?i)" using assms by (simp_all add: sliced_inv_def)
  then obtain s' where s': "store k v (ss ! ?i) = Inr s'" "inv n s'" "room s' = room (ss ! ?i)"
    "content s' \<subseteq>\<^sub>m (content (ss ! ?i))(k \<mapsto> v)" "content s' k = Some v" using store_law by blast
  have dom: "dom (content s') \<subseteq> insert k (dom (content (ss ! ?i)))" using map_le_implies_dom_le [OF s'(4)] by simp
  have inv': "sliced_inv inv room content hash n (ss[?i := s'])" by (rule sliced_update [OF assms refl s'(2,3) dom])
  have "sliced_content hash content (ss[?i := s']) \<subseteq>\<^sub>m (sliced_content hash content ss)(k \<mapsto> v)"
  proof (unfold map_le_def, intro ballI)
    fix j assume j: "j \<in> dom (sliced_content hash content (ss[?i := s']))"
    show "sliced_content hash content (ss[?i := s']) j = ((sliced_content hash content ss)(k \<mapsto> v)) j"
    proof (cases "hash j mod length ss = ?i")
      case True
      then have "j \<in> dom (content s')" using j i by (auto simp: sliced_content_def)
      then show ?thesis using s'(4) True i by (auto simp: sliced_content_def map_le_def)
    qed (use i in \<open>auto simp: sliced_content_def\<close>)
  qed
  moreover have "map room (ss[?i := s']) = map room ss" using s'(3) i by (simp add: map_update list_update_same_conv)
  ultimately show ?thesis using inv' i s'(1,5)
    by (intro exI [of _ "ss[?i := s']"]) (simp add: at_slice_def sliced_content_def)
qed

lemma sliced_clear:
  assumes "sliced_inv inv room content hash n ss"
  shows "sliced_inv inv room content hash n (map clear ss)"
    and "sliced_content hash content (map clear ss) = Map.empty"
    and "map room (map clear ss) = map room ss"
proof -
  have c: "inv n (clear s) \<and> content (clear s) = Map.empty \<and> room (clear s) = room s" if "s \<in> set ss" for s
    using assms that clear_law by (auto simp: sliced_inv_def)
  show "sliced_inv inv room content hash n (map clear ss)"
    using assms c by (auto simp: sliced_inv_def routed_def)
  show "sliced_content hash content (map clear ss) = Map.empty"
    using sliced_index [OF assms] c by (auto simp: sliced_content_def fun_eq_iff)
  show "map room (map clear ss) = map room ss" using c by simp
qed

lemma sliced_bounded:
  assumes "sliced_inv inv room content hash n ss"
  shows "finite (dom (sliced_content hash content ss))"
    and "card (dom (sliced_content hash content ss)) \<le> sum_list (map room ss)"
proof -
  have "ss ! (hash k mod length ss) \<in> set ss" for k using sliced_index [OF assms] by simp
  then have sub: "dom (sliced_content hash content ss) \<subseteq> (\<Union>s \<in> set ss. dom (content s))"
    by (force simp: sliced_content_def)
  have inv: "\<forall>s \<in> set ss. inv n s" using assms by (simp add: sliced_inv_def)
  then have fin: "finite (\<Union>s \<in> set ss. dom (content s))" using bounded by auto
  show "finite (dom (sliced_content hash content ss))" by (rule finite_subset [OF sub fin])
  have "card (\<Union>s \<in> set ss. dom (content s)) \<le> sum_list (map room ss)" using inv
  proof (induction ss)
    case (Cons s ss)
    have "card (\<Union>s \<in> set (s # ss). dom (content s)) \<le> card (dom (content s)) + card (\<Union>s \<in> set ss. dom (content s))"
      using card_Un_le by simp
    also have "\<dots> \<le> room s + sum_list (map room ss)" using Cons bounded [of n s] by (intro add_mono) auto
    finally show ?case by simp
  qed simp
  then show "card (dom (sliced_content hash content ss)) \<le> sum_list (map room ss)"
    using card_mono [OF fin sub] by linarith
qed

end

section \<open>The LFU cache keeps the contract\<close>

definition lfu_inv :: "('k, 'v) lfu_env \<Rightarrow> nat \<Rightarrow> ('k, 'v) LfuCache \<Rightarrow> bool" where
  "lfu_inv env n s \<longleftrightarrow> visits_all env \<and> (\<exists>S. lfu_rel s S) \<and> curTotalNum s + int n \<le> INT_MAX"

definition lfu_fetch :: "('k, 'v) lfu_env \<Rightarrow> 'k \<Rightarrow> ('k, 'v) LfuCache \<Rightarrow> ('v option \<times> ('k, 'v) LfuCache) result" where
  "lfu_fetch env k s = run_lfu_op env (Get k) s"

definition spec_content :: "('k \<times> 'v \<times> int) list \<Rightarrow> 'k \<Rightarrow> 'v option" where
  "spec_content E k = map_option fst (map_of E k)"

lemma spec_content_Some:
  "distinct (map fst E) \<Longrightarrow> spec_content E k = Some v \<longleftrightarrow> (\<exists>f. (k, v, f) \<in> set E)"
  by (force simp: spec_content_def)

lemma lfu_rel_distinct: "lfu_rel s S \<Longrightarrow> distinct (map fst (fst S))"
  by (elim lfu_relE) (simp add: lfu_okD(4) del: map_map)

lemma spec_content_eqI:
  assumes "distinct (map fst E)" and "distinct (map fst E')"
    and "\<And>k v. (\<exists>f. (k, v, f) \<in> set E') \<longleftrightarrow> (\<exists>f. (k, v, f) \<in> set E)"
  shows "spec_content E' = spec_content E"
proof
  fix k
  have "spec_content E' k = Some v \<longleftrightarrow> spec_content E k = Some v" for v
    using assms by (simp add: spec_content_Some)
  then show "spec_content E' k = spec_content E k" by (metis not_None_eq)
qed

text \<open>Counting changes frequencies only.\<close>

lemma spec_count_content:
  assumes "spec_count mx (E, t) S'" and "distinct (map fst E)" and "distinct (map fst (fst S'))"
  shows "spec_content (fst S') = spec_content E"
proof (rule spec_content_eqI [OF assms(2,3)])
  fix k v
  have "set (fst S') = set E \<or> set (fst S') = aged (mx div 2) ` set E"
    using assms(1) unfolding spec_count_def by (metis fst_conv set_image_mset set_mset_mset)
  then show "(\<exists>f. (k, v, f) \<in> set (fst S')) \<longleftrightarrow> (\<exists>f. (k, v, f) \<in> set E)"
  proof
    assume a: "set (fst S') = aged (mx div 2) ` set E"
    have "(k, v, f) \<in> set E \<Longrightarrow> (k, v, max 1 (f - mx div 2)) \<in> aged (mx div 2) ` set E" for f
      by (rule image_eqI [of _ _ "(k, v, f)"]) (simp_all add: aged_def)
    then show ?thesis unfolding a by (fastforce simp: aged_def)
  qed simp
qed

lemma spec_content_touch: "spec_content (spec_touch k v f E) = (spec_content E)(k \<mapsto> v)"
proof
  fix j
  have "map_of (filter (\<lambda>e. fst e \<noteq> k) E) j = (if j = k then None else map_of E j)" by (induction E) auto
  then show "spec_content (spec_touch k v f E) j = ((spec_content E)(k \<mapsto> v)) j"
    by (auto simp: spec_content_def spec_touch_def map_add_def split: option.split)
qed

lemma distinct_touch: "distinct (map fst E) \<Longrightarrow> distinct (map fst (spec_touch k v f E))"
  by (auto simp: spec_touch_def distinct_map_filter)

lemma spec_get_content:
  assumes "spec_get mx k S r S'" and "distinct (map fst (fst S))" and "distinct (map fst (fst S'))"
  shows "r = spec_content (fst S) k" and "spec_content (fst S') = spec_content (fst S)"
proof -
  show r: "r = spec_content (fst S) k" using assms(1) by (auto simp: spec_get_def spec_content_def split: option.splits)
  show "spec_content (fst S') = spec_content (fst S)"
  proof (cases "map_of (fst S) k")
    case None
    then show ?thesis using assms(1) by (simp add: spec_get_def)
  next
    case (Some vf)
    then obtain v f where v: "map_of (fst S) k = Some (v, f)" by (cases vf) auto
    then have "spec_count mx (spec_touch k v f (fst S), snd S) S'" using assms(1) by (simp add: spec_get_def)
    from spec_count_content [OF this distinct_touch [OF assms(2)] assms(3)] show ?thesis
      using v by (auto simp: spec_content_touch spec_content_def fun_eq_iff)
  qed
qed

lemma spec_put_content:
  assumes p: "spec_put cap mx k v S S'" and d: "distinct (map fst (fst S))" "distinct (map fst (fst S'))" and c: "cap \<noteq> 0"
  shows "spec_content (fst S') \<subseteq>\<^sub>m (spec_content (fst S))(k \<mapsto> v)" and "spec_content (fst S') k = Some v"
proof -
  have "\<exists>E. spec_content (fst S') = (spec_content E)(k \<mapsto> v) \<and> spec_content E \<subseteq>\<^sub>m spec_content (fst S)"
  proof (cases "map_of (fst S) k")
    case (Some vf)
    then obtain w f where "spec_count mx (spec_touch k v f (fst S), snd S) S'"
      using p c by (cases vf) (simp add: spec_put_def)
    from spec_count_content [OF this distinct_touch [OF d(1)] d(2)] show ?thesis
      by (intro exI [of _ "fst S"]) (simp add: spec_content_touch)
  next
    case None
    let ?E = "fst (spec_evict cap S)"
    have sub: "set ?E \<subseteq> set (fst S)"
      using set_remove1_subset [of "victim (fst S)" "fst S"] by (auto simp: spec_evict_def)
    then have dE: "distinct (map fst ?E)"
      using d(1) by (auto simp: spec_evict_def distinct_map intro: inj_on_subset)
    have k: "k \<notin> fst ` set ?E" using None sub by (auto simp: map_of_eq_None_iff)
    then have "filter (\<lambda>e. fst e \<noteq> k) ?E = ?E" by (intro filter_True) auto
    then have touch: "?E @ [(k, v, 1)] = spec_touch k v 0 ?E" by (simp add: spec_touch_def)
    have "spec_count mx (spec_touch k v 0 ?E, snd (spec_evict cap S)) S'"
      using p c None unfolding touch [symmetric] by (simp add: spec_put_def Let_def)
    from spec_count_content [OF this distinct_touch [OF dE] d(2)]
    have "spec_content (fst S') = (spec_content ?E)(k \<mapsto> v)" by (simp add: spec_content_touch)
    moreover have "spec_content ?E \<subseteq>\<^sub>m spec_content (fst S)"
      using sub spec_content_Some [OF dE] spec_content_Some [OF d(1)] unfolding map_le_def by (metis (no_types) domD subsetD)
    ultimately show ?thesis by blast
  qed
  then show "spec_content (fst S') \<subseteq>\<^sub>m (spec_content (fst S))(k \<mapsto> v)" "spec_content (fst S') k = Some v"
    by (auto simp: map_le_def dom_def)
qed

lemma lfu_content_spec: "lfu_rel s S \<Longrightarrow> lfu_content s = spec_content (fst S)"
  by (rule ext) (simp add: lfu_content_rel spec_content_def)

lemma lfu_content_bounded:
  assumes "lfu_rel s S"
  shows "finite (dom (lfu_content s)) \<and> card (dom (lfu_content s)) \<le> nat (capacity s)"
proof -
  have dom: "dom (lfu_content s) = fst ` set (nodeMap s)"
    by (auto simp: lfu_content_def dom_map_of_conv_image_fst [symmetric])
  have "card (fst ` set (nodeMap s)) \<le> length (nodeMap s)"
    by (metis card_image_le card_length finite_set order_trans)
  then show ?thesis using lfu_rel_length [OF assms] unfolding dom by auto
qed

abbreviation lfu_room :: "('k, 'v) LfuCache \<Rightarrow> nat" where
  "lfu_room s \<equiv> nat (capacity s)"

lemma lfu_inv_step:
  "lfu_inv env (Suc n) s \<Longrightarrow> lfu_rel s' S' \<Longrightarrow> curTotalNum s' \<le> curTotalNum s + 1 \<Longrightarrow> lfu_inv env n s'"
  unfolding lfu_inv_def by (intro conjI exI [of _ S']) simp_all

lemma lfu_fetch_law:
  assumes "lfu_inv env (Suc n) s"
  shows "\<exists>s'. lfu_fetch env k s = Inr (lfu_content s k, s') \<and> lfu_inv env n s' \<and> lfu_content s' = lfu_content s \<and>
    lfu_room s' = lfu_room s"
proof -
  obtain S where S: "lfu_rel s S" and v: "visits_all env" and t: "curTotalNum s < INT_MAX" using assms by (auto simp: lfu_inv_def)
  obtain r s' S' where r: "run_lfu_op env (Get k) s = Inr (r, s')" "spec_op (capacity s) (maxAverageNum s) (Get k) S r S'"
    "lfu_rel s' S'" "capacity s' = capacity s" "curTotalNum s' \<le> curTotalNum s + 1"
    using run_lfu_op_rel [OF S v t] by blast
  note d = lfu_rel_distinct [OF S] lfu_rel_distinct [OF r(3)]
  have "r = lfu_content s k" "lfu_content s' = lfu_content s"
    using spec_get_content [OF _ d] r(2) lfu_content_spec [OF S] lfu_content_spec [OF r(3)] by simp_all
  moreover have "lfu_inv env n s'" by (rule lfu_inv_step [OF assms r(3,5)])
  ultimately show ?thesis using r(1,4) by (simp add: lfu_fetch_def)
qed

lemma lfu_store_law:
  assumes "lfu_inv env (Suc n) s"
  shows "\<exists>s'. put env k v s = Inr s' \<and> lfu_inv env n s' \<and> lfu_room s' = lfu_room s \<and>
    lfu_content s' \<subseteq>\<^sub>m (lfu_content s)(k \<mapsto> v) \<and> (0 < lfu_room s \<longrightarrow> lfu_content s' k = Some v)"
proof -
  obtain S where S: "lfu_rel s S" and vis: "visits_all env" and t: "curTotalNum s < INT_MAX" using assms by (auto simp: lfu_inv_def)
  obtain s' S' where r: "put env k v s = Inr s'" "spec_put (capacity s) (maxAverageNum s) k v S S'"
    "lfu_rel s' S'" "capacity s' = capacity s" "curTotalNum s' \<le> curTotalNum s + 1"
    using put_rel [OF S vis t] by blast
  note d = lfu_rel_distinct [OF S] lfu_rel_distinct [OF r(3)]
  have i: "lfu_inv env n s'" by (rule lfu_inv_step [OF assms r(3,5)])
  show ?thesis
  proof (cases "capacity s = 0")
    case True
    then have "lfu_content s' = Map.empty" using lfu_content_bounded [OF r(3)] r(4) by (auto simp: card_eq_0_iff)
    then show ?thesis using r(1,4) i True by simp
  next
    case False
    then show ?thesis using spec_put_content [OF r(2) d False] r(1,4) i
      by (simp add: lfu_content_spec [OF S] lfu_content_spec [OF r(3)])
  qed
qed

interpretation lfu: cache "lfu_inv env" "put env" "lfu_fetch env" lfu_content lfu_room purge
  for env :: "('k, 'v) lfu_env"
proof unfold_locales
  show "lfu_inv env n (purge s) \<and> lfu_content (purge s) = Map.empty \<and> lfu_room (purge s) = lfu_room s"
    if ok: "lfu_inv env n s" for n s
  proof -
    obtain S where "lfu_rel s S" using ok unfolding lfu_inv_def by blast
    then have "lfu_rel (purge s) ([], snd S)" by (rule purge_rel)
    moreover have "curTotalNum (purge s) = curTotalNum s" by (simp add: purge_def)
    ultimately have "lfu_inv env n (purge s)" using that unfolding lfu_inv_def by (intro conjI exI) simp_all
    then show ?thesis by (simp add: lfu_content_def purge_def fun_eq_iff)
  qed
  show "lfu_inv env n s \<Longrightarrow> finite (dom (lfu_content s)) \<and> card (dom (lfu_content s)) \<le> lfu_room s" for n s
    using lfu_content_bounded by (auto simp: lfu_inv_def)
  show "lfu_inv env (Suc n) s \<Longrightarrow> lfu_inv env n s" for n s by (simp add: lfu_inv_def)
qed (fact lfu_fetch_law lfu_store_law)+

section \<open>HashLfuCache\<close>

text \<open>
  The number of slices is the argument, or what \<^verbatim>\<open>hardware_concurrency\<close> reports.  The quotient is
  computed in \<^verbatim>\<open>double\<close> and rounded up; up to 2 to the power 53 that is the exact quotient rounded up,
  and the result is converted to the \<^verbatim>\<open>int\<close> the slice takes.  With no core reported the quotient is
  infinite, its conversion undefined and every index a remainder by zero.
\<close>

record ('k, 'v) HashLfuCache =
  hash_capacity :: nat
  sliceNum :: int
  lfuSliceCaches :: "('k, 'v) LfuCache list"

definition new_HashLfuCache ::
    "nat \<Rightarrow> ('k, 'v) node_heap \<Rightarrow> nat \<Rightarrow> int \<Rightarrow> int \<Rightarrow> ('k, 'v) HashLfuCache result" where
  "new_HashLfuCache cores h capac slices maxAverage =
     (let n = (if 0 < slices then slices else int cores)
      in if n = 0 then Inl DivideByZero
         else let sliceSize = (int capac + n - 1) div n
              in Inr \<lparr>hash_capacity = capac, sliceNum = n,
                      lfuSliceCaches = replicate (nat n) (new_LfuCache (to_int32 sliceSize) maxAverage h)\<rparr>)"

definition hash_put ::
    "('k \<Rightarrow> nat) \<Rightarrow> ('k, 'v) lfu_env \<Rightarrow> 'k \<Rightarrow> 'v \<Rightarrow> ('k, 'v) HashLfuCache \<Rightarrow> ('k, 'v) HashLfuCache result" where
  "hash_put hash env key v H =
     bind_result (at_slice (hash key mod nat (sliceNum H)) (\<lambda>s. bind_result (put env key v s) (\<lambda>s'. Inr ((), s')))
         (lfuSliceCaches H))
       (\<lambda>(u, ss). Inr (H\<lparr>lfuSliceCaches := ss\<rparr>))"

definition hash_get ::
    "('k \<Rightarrow> nat) \<Rightarrow> ('k, 'v) lfu_env \<Rightarrow> 'k \<Rightarrow> ('k, 'v) HashLfuCache \<Rightarrow> ('v option \<times> ('k, 'v) HashLfuCache) result" where
  "hash_get hash env key H =
     bind_result (at_slice (hash key mod nat (sliceNum H)) (lfu_fetch env key) (lfuSliceCaches H))
       (\<lambda>(r, ss). Inr (r, H\<lparr>lfuSliceCaches := ss\<rparr>))"

definition hash_get_value ::
    "('k \<Rightarrow> nat) \<Rightarrow> ('k, 'v) lfu_env \<Rightarrow> 'k \<Rightarrow> ('k, 'v) HashLfuCache \<Rightarrow> ('v \<times> ('k, 'v) HashLfuCache) result" where
  "hash_get_value hash env key H =
     bind_result (hash_get hash env key H) (\<lambda>(r, H'). Inr (case r of None \<Rightarrow> snd (dflt env) | Some v \<Rightarrow> v, H'))"

definition hash_purge :: "('k, 'v) HashLfuCache \<Rightarrow> ('k, 'v) HashLfuCache" where
  "hash_purge H = H\<lparr>lfuSliceCaches := map purge (lfuSliceCaches H)\<rparr>"

definition hash_inv :: "('k \<Rightarrow> nat) \<Rightarrow> ('k, 'v) lfu_env \<Rightarrow> nat \<Rightarrow> ('k, 'v) HashLfuCache \<Rightarrow> bool" where
  "hash_inv hash env n H \<longleftrightarrow>
     sliceNum H = int (length (lfuSliceCaches H)) \<and>
     sliced_inv (lfu_inv env) lfu_room lfu_content hash n (lfuSliceCaches H)"

abbreviation hash_content :: "('k \<Rightarrow> nat) \<Rightarrow> ('k, 'v) HashLfuCache \<Rightarrow> 'k \<Rightarrow> 'v option" where
  "hash_content hash H \<equiv> sliced_content hash lfu_content (lfuSliceCaches H)"

abbreviation hash_room :: "('k, 'v) HashLfuCache \<Rightarrow> nat" where
  "hash_room H \<equiv> sum_list (map lfu_room (lfuSliceCaches H))"

text \<open>The sliced cache keeps the contract of its slices.\<close>

interpretation hash_lfu: cache "hash_inv hash env" "hash_put hash env" "hash_get hash env" "hash_content hash" hash_room hash_purge
  for hash :: "'k \<Rightarrow> nat" and env :: "('k, 'v) lfu_env"
proof unfold_locales
  fix n k v and H :: "('k, 'v) HashLfuCache"
  assume H: "hash_inv hash env (Suc n) H"
  then have i: "sliced_inv (lfu_inv env) lfu_room lfu_content hash (Suc n) (lfuSliceCaches H)"
    and num: "nat (sliceNum H) = length (lfuSliceCaches H)" by (simp_all add: hash_inv_def)
  show "\<exists>H'. hash_get hash env k H = Inr (hash_content hash H k, H') \<and> hash_inv hash env n H' \<and>
      hash_content hash H' = hash_content hash H \<and> hash_room H' = hash_room H"
    using lfu.sliced_fetch [OF i, of k] H
    by (auto simp: hash_get_def num hash_inv_def dest: map_eq_imp_length_eq [THEN sym])
  show "\<exists>H'. hash_put hash env k v H = Inr H' \<and> hash_inv hash env n H' \<and> hash_room H' = hash_room H \<and>
      hash_content hash H' \<subseteq>\<^sub>m (hash_content hash H)(k \<mapsto> v) \<and> (0 < hash_room H \<longrightarrow> hash_content hash H' k = Some v)"
    using lfu.sliced_store [OF i, of k v] H
    by (auto simp: hash_put_def num hash_inv_def dest: map_eq_imp_length_eq [THEN sym])
  show "hash_inv hash env n H" using H by (auto simp: hash_inv_def sliced_inv_def lfu_inv_def)
next
  fix n and H :: "('k, 'v) HashLfuCache"
  assume "hash_inv hash env n H"
  then have i: "sliced_inv (lfu_inv env) lfu_room lfu_content hash n (lfuSliceCaches H)"
    and num: "sliceNum H = int (length (lfuSliceCaches H))" by (simp_all add: hash_inv_def)
  show "finite (dom (hash_content hash H)) \<and> card (dom (hash_content hash H)) \<le> hash_room H"
    using lfu.sliced_bounded [OF i] by simp
  show "hash_inv hash env n (hash_purge H) \<and> hash_content hash (hash_purge H) = Map.empty \<and>
      hash_room (hash_purge H) = hash_room H"
    using lfu.sliced_clear [OF i] num by (simp add: hash_inv_def hash_purge_def del: map_map)
qed

lemma new_HashLfuCache_inv:
  assumes "0 < slices" and "slices \<le> INT_MAX" and "0 < capac" and "int capac \<le> INT_MAX"
    and "2 \<le> mx" and "mx \<le> 250" and "visits_all env" and "int n \<le> INT_MAX"
    and "new_HashLfuCache cores h capac slices mx = Inr H"
  shows "hash_inv hash env n H" and "hash_content hash H = Map.empty"
    and "hash_room H = nat slices * nat ((int capac + slices - 1) div slices)"
proof -
  let ?size = "(int capac + slices - 1) div slices"
  have "slices div slices \<le> ?size" using assms(1,3) by (intro zdiv_mono1) auto
  then have lo: "1 \<le> ?size" using assms(1) by simp
  have "0 \<le> (slices - 1) * (int capac - 1)" using assms(1,3) by (intro mult_nonneg_nonneg) simp_all
  then have "?size \<le> (int capac * slices) div slices"
    using assms(1) by (intro zdiv_mono1) (simp_all add: algebra_simps)
  then have hi: "?size \<le> INT_MAX" using assms(1,4) by simp
  have fits: "to_int32 ?size = ?size" using lo hi by (simp add: to_int32_def INT_MAX_def)
  let ?s = "new_LfuCache ?size mx h"
  have H: "H = \<lparr>hash_capacity = capac, sliceNum = slices, lfuSliceCaches = replicate (nat slices) ?s\<rparr>"
    using assms(1,9) fits by (simp add: new_HashLfuCache_def Let_def)
  have "lfu_rel ?s ([], 0)" using lo hi assms(5,6) by (intro new_LfuCache_rel) simp_all
  then have "lfu_inv env n ?s" using assms(7,8) unfolding lfu_inv_def
    by (intro conjI exI [of _ "([], 0)"]) (simp_all add: new_LfuCache_def)
  moreover have room: "lfu_room ?s = nat ?size" and con: "lfu_content ?s = Map.empty"
    by (simp_all add: new_LfuCache_def lfu_content_def fun_eq_iff)
  ultimately show "hash_inv hash env n H" using assms(1) lo
    by (simp add: hash_inv_def H sliced_inv_def routed_def)
  show "hash_content hash H = Map.empty"
    using con assms(1) by (simp add: H sliced_content_def fun_eq_iff nat_mod_distrib)
  show "hash_room H = nat slices * nat ?size" by (simp add: H room sum_list_replicate)
qed

text \<open>C30. A sliced cache of positive capacity with at least one slice answers any sequence of stores,
  lookups and purges of fewer than \<^verbatim>\<open>INT_MAX\<close> operations without a fault; no answer is stale, that
  is a lookup gives nothing or the value last stored under its key since the last purge, and the key
  stored last is found; the number of cached keys is at most the number of slices times the
  capacity of one.\<close>

theorem hash_lfu_never_stale:
  assumes "0 < slices" and "slices \<le> INT_MAX" and "0 < capac" and "int capac \<le> INT_MAX"
    and "2 \<le> mx" and "mx \<le> 250" and "visits_all env" and "int (length ops) \<le> INT_MAX"
    and "new_HashLfuCache cores h capac slices mx = Inr H"
  shows "\<exists>rs H'. cache_run (hash_put hash env) (hash_get hash env) hash_purge ops H = Inr (rs, H') \<and>
    answers_ok None Map.empty ops rs \<and>
    card (dom (hash_content hash H')) \<le> nat slices * nat ((int capac + slices - 1) div slices)"
proof -
  note new = new_HashLfuCache_inv [OF assms]
  have "slices div slices \<le> (int capac + slices - 1) div slices" using assms(1,3) by (intro zdiv_mono1) auto
  then have "0 < hash_room H" using new(3) assms(1) by simp
  from hash_lfu.answers_never_stale [OF new(1) [of hash] this, of Map.empty None] new(2) [of hash]
  obtain rs H' where r: "cache_run (hash_put hash env) (hash_get hash env) hash_purge ops H = Inr (rs, H')"
    "answers_ok None Map.empty ops rs" "hash_inv hash env 0 H'" "hash_room H' = hash_room H" by auto
  then show ?thesis using hash_lfu.bounded [OF r(3)] new(3) by auto
qed

definition demo_hash_lfu :: "(nat, string) HashLfuCache" where
  "demo_hash_lfu =
     \<lparr>hash_capacity = 3, sliceNum = 2, lfuSliceCaches = replicate 2 (new_LfuCache 2 10 (\<lambda>_. default_Node (0, '''')))\<rparr>"

lemma demo_hash_lfu_answers:
  "case cache_run (hash_put id demo_lfu_env) (hash_get id demo_lfu_env) hash_purge demo_lfu_ops demo_hash_lfu of
     Inl e \<Rightarrow> False | Inr (rs, s) \<Rightarrow> rs = [None, None, Some ''a'', None, Some ''b'', Some ''a'', Some ''c'']"
  by code_simp

theorem hash_lfu_never_stale_witness:
  "\<exists>H'. cache_run (hash_put id demo_lfu_env) (hash_get id demo_lfu_env) hash_purge demo_lfu_ops demo_hash_lfu =
      Inr ([None, None, Some ''a'', None, Some ''b'', Some ''a'', Some ''c''], H') \<and>
    answers_ok None Map.empty demo_lfu_ops [None, None, Some ''a'', None, Some ''b'', Some ''a'', Some ''c''] \<and>
    card (dom (hash_content id H')) \<le> 4"
proof -
  have "visits_all demo_lfu_env" by (simp add: visits_all_def demo_lfu_env_def)
  moreover have "int (length demo_lfu_ops) \<le> INT_MAX" by (simp add: demo_lfu_ops_def INT_MAX_def)
  moreover have "new_HashLfuCache 0 (\<lambda>_. default_Node (0, '''')) 3 2 10 = Inr demo_hash_lfu"
    by (simp add: new_HashLfuCache_def demo_hash_lfu_def to_int32_def)
  ultimately obtain rs H' where r: "cache_run (hash_put id demo_lfu_env) (hash_get id demo_lfu_env) hash_purge demo_lfu_ops demo_hash_lfu =
      Inr (rs, H')" "answers_ok None Map.empty demo_lfu_ops rs" "card (dom (hash_content id H')) \<le> 4"
    using hash_lfu_never_stale [of 2 3 10 demo_lfu_env demo_lfu_ops 0 "\<lambda>_. default_Node (0, '''')" demo_hash_lfu id]
    by (auto simp: INT_MAX_def)
  moreover have "rs = [None, None, Some ''a'', None, Some ''b'', Some ''a'', Some ''c'']"
    using demo_hash_lfu_answers r(1) by simp
  ultimately show ?thesis by blast
qed

end
