(* ===== verification/Memory_Pool.thy ===== *)
theory Memory_Pool
  imports Prelude
begin

text \<open>
  The slot allocator of \<^verbatim>\<open>include/MemoryPool.h\<close> and \<^verbatim>\<open>memory/MemoryPool.cpp\<close>: pools of equal slots
  carved out of blocks, free slots and blocks chained through their own first word, and the
  sixty-four pools of \<^verbatim>\<open>HashBucket\<close>.  Memory is a map from addresses to the word stored there, zero is
  the null pointer, and \<^verbatim>\<open>::operator new\<close> is a parameter: given the blocks in use and a size it answers
  an address or nothing (\<^verbatim>\<open>std::bad_alloc\<close>).
\<close>

section \<open>Memory and the system allocator\<close>

record memory =
  cells :: "nat \<Rightarrow> nat"
  os_blocks :: "(nat \<times> nat) list"

type_synonym os_alloc = "(nat \<times> nat) list \<Rightarrow> nat \<Rightarrow> nat option"

definition operator_new :: "os_alloc \<Rightarrow> nat \<Rightarrow> memory \<Rightarrow> (nat \<times> memory) result" where
  "operator_new os n m =
     (case os (os_blocks m) n of
        None \<Rightarrow> Inl BadAlloc
      | Some a \<Rightarrow> Inr (a, m\<lparr>os_blocks := (a, n) # os_blocks m\<rparr>))"

definition operator_delete :: "nat \<Rightarrow> memory \<Rightarrow> memory result" where
  "operator_delete a m =
     (if a = 0 then Inr m
      else if a \<in> fst ` set (os_blocks m)
      then Inr (m\<lparr>os_blocks := filter (\<lambda>b. fst b \<noteq> a) (os_blocks m)\<rparr>)
      else Inl UseAfterFree)"

section \<open>One pool\<close>

definition sizeof_ptr :: nat where "sizeof_ptr = 8"

record MemoryPool =
  BlockSize :: nat
  SlotSize :: nat
  firstBlock :: nat
  freeList :: nat
  curSlot :: nat
  lastSlot :: nat

text \<open>The constructor leaves \<^verbatim>\<open>SlotSize_\<close> uninitialised; \<open>garbage\<close> is what the memory held.\<close>

definition new_MemoryPool :: "nat \<Rightarrow> nat \<Rightarrow> MemoryPool" where
  "new_MemoryPool garbage blockSize =
     \<lparr>BlockSize = blockSize, SlotSize = garbage, firstBlock = 0, freeList = 0, curSlot = 0, lastSlot = 0\<rparr>"

definition init_pool :: "nat \<Rightarrow> MemoryPool \<Rightarrow> MemoryPool" where
  "init_pool slotSize p =
     (let p1 = p\<lparr>SlotSize := slotSize\<rparr>
      in if SlotSize p1 < sizeof_ptr then p1\<lparr>SlotSize := sizeof_ptr\<rparr> else p1)"

definition allocateNewBlock :: "os_alloc \<Rightarrow> MemoryPool \<times> memory \<Rightarrow> (MemoryPool \<times> memory) result" where
  "allocateNewBlock os = (\<lambda>(p, m).
     bind_result (operator_new os (BlockSize p) m) (\<lambda>(newBlock, m1).
       let m2 = m1\<lparr>cells := (cells m1)(newBlock := firstBlock p)\<rparr>;
           body = newBlock + sizeof_ptr;
           panddingSize = (SlotSize p - body mod SlotSize p) mod SlotSize p
       in Inr (p\<lparr>firstBlock := newBlock, curSlot := body + panddingSize,
                 lastSlot := newBlock + BlockSize p - SlotSize p + 1, freeList := 0\<rparr>, m2)))"

text \<open>
  The two locked sections of \<^verbatim>\<open>allocate\<close>: taking the head of the free list, if there still is one, and
  carving the next slot, from a new block when the current one is used up.
\<close>

definition pop_free :: "MemoryPool \<times> memory \<Rightarrow> (nat \<times> MemoryPool \<times> memory) option" where
  "pop_free = (\<lambda>(p, m).
     if freeList p \<noteq> 0 then Some (freeList p, p\<lparr>freeList := cells m (freeList p)\<rparr>, m) else None)"

definition carve :: "os_alloc \<Rightarrow> MemoryPool \<times> memory \<Rightarrow> (nat \<times> MemoryPool \<times> memory) result" where
  "carve os = (\<lambda>(p, m).
     bind_result (if lastSlot p \<le> curSlot p then allocateNewBlock os (p, m) else Inr (p, m)) (\<lambda>(p1, m1).
       Inr (curSlot p1, p1\<lparr>curSlot := curSlot p1 + SlotSize p1\<rparr>, m1)))"

definition allocate :: "os_alloc \<Rightarrow> MemoryPool \<times> memory \<Rightarrow> (nat \<times> MemoryPool \<times> memory) result" where
  "allocate os pm =
     (case (if freeList (fst pm) \<noteq> 0 then pop_free pm else None) of
        Some r \<Rightarrow> Inr r
      | None \<Rightarrow> carve os pm)"

definition deallocate :: "nat \<Rightarrow> MemoryPool \<times> memory \<Rightarrow> MemoryPool \<times> memory" where
  "deallocate ptr = (\<lambda>(p, m).
     if ptr \<noteq> 0
     then (p\<lparr>freeList := ptr\<rparr>, m\<lparr>cells := (cells m)(ptr := freeList p)\<rparr>)
     else (p, m))"

text \<open>The loop of the destructor; it reads the link of a block before it releases it.\<close>

partial_function (option) free_blocks :: "nat \<Rightarrow> memory \<Rightarrow> memory result option" where
  "free_blocks cur m =
     (if cur = 0 then Some (Inr m)
      else case operator_delete cur m of
             Inl e \<Rightarrow> Some (Inl e)
           | Inr m' \<Rightarrow> free_blocks (cells m cur) m')"

declare free_blocks.simps [code]

definition destroy_pool :: "MemoryPool \<times> memory \<Rightarrow> memory result option" where
  "destroy_pool = (\<lambda>(p, m). free_blocks (firstBlock p) m)"

section \<open>The pools by size\<close>

definition MEMORY_POOL_NUM :: nat where "MEMORY_POOL_NUM = 64"
definition SLOT_BASE_SIZE :: nat where "SLOT_BASE_SIZE = 8"
definition MAX_SLOT_SIZE :: nat where "MAX_SLOT_SIZE = 512"

record HashBucket =
  memoryPools :: "MemoryPool list"
  hb_memory :: memory

definition getMemoryPool :: "int \<Rightarrow> HashBucket \<Rightarrow> MemoryPool result" where
  "getMemoryPool index s =
     (if 0 \<le> index \<and> index < int (length (memoryPools s)) then Inr (memoryPools s ! nat index) else Inl OutOfBounds)"

definition initMemoryPools :: "nat \<Rightarrow> memory \<Rightarrow> HashBucket" where
  "initMemoryPools garbage m =
     \<lparr>memoryPools = map (\<lambda>i. init_pool ((i + 1) * SLOT_BASE_SIZE) (new_MemoryPool garbage 4096)) [0..<MEMORY_POOL_NUM],
      hb_memory = m\<rparr>"

text \<open>For size zero the \<^verbatim>\<open>size_t\<close> subtraction wraps and the conversion to \<^verbatim>\<open>int\<close> gives -1.\<close>

definition pool_index :: "nat \<Rightarrow> int" where
  "pool_index n = int ((n + 7) div SLOT_BASE_SIZE) - 1"

definition useMemory :: "os_alloc \<Rightarrow> nat \<Rightarrow> HashBucket \<Rightarrow> (nat \<times> HashBucket) result" where
  "useMemory os n s =
     (if MAX_SLOT_SIZE < n
      then bind_result (operator_new os n (hb_memory s)) (\<lambda>(a, m). Inr (a, s\<lparr>hb_memory := m\<rparr>))
      else bind_result (getMemoryPool (pool_index n) s) (\<lambda>p.
           bind_result (allocate os (p, hb_memory s)) (\<lambda>(a, p', m').
             Inr (a, s\<lparr>memoryPools := (memoryPools s)[nat (pool_index n) := p'], hb_memory := m'\<rparr>))))"

definition freeMemory :: "nat \<Rightarrow> nat \<Rightarrow> HashBucket \<Rightarrow> HashBucket result" where
  "freeMemory ptr n s =
     (if ptr = 0 then Inr s
      else if MAX_SLOT_SIZE < n
      then bind_result (operator_delete ptr (hb_memory s)) (\<lambda>m. Inr (s\<lparr>hb_memory := m\<rparr>))
      else bind_result (getMemoryPool (pool_index n) s) (\<lambda>p.
             let (p', m') = deallocate ptr (p, hb_memory s)
             in Inr (s\<lparr>memoryPools := (memoryPools s)[nat (pool_index n) := p'], hb_memory := m'\<rparr>)))"

text \<open>
  \<^verbatim>\<open>newElement\<close> and \<^verbatim>\<open>deleteElement\<close> for a type of \<open>n\<close> bytes: \<open>construct\<close> and \<open>destruct\<close> are what the
  constructor and the destructor write into the object.
\<close>

definition write_object :: "nat \<Rightarrow> nat \<Rightarrow> (nat \<Rightarrow> nat) \<Rightarrow> HashBucket \<Rightarrow> HashBucket" where
  "write_object p n v s =
     s\<lparr>hb_memory := (hb_memory s)\<lparr>cells := (\<lambda>a. if p \<le> a \<and> a < p + n then v a else cells (hb_memory s) a)\<rparr>\<rparr>"

definition newElement :: "os_alloc \<Rightarrow> nat \<Rightarrow> (nat \<Rightarrow> nat) \<Rightarrow> HashBucket \<Rightarrow> (nat \<times> HashBucket) result" where
  "newElement os n construct s =
     bind_result (useMemory os n s) (\<lambda>(p, s1). Inr (p, if p \<noteq> 0 then write_object p n construct s1 else s1))"

definition deleteElement :: "nat \<Rightarrow> nat \<Rightarrow> (nat \<Rightarrow> nat) \<Rightarrow> HashBucket \<Rightarrow> HashBucket result" where
  "deleteElement p n destruct s =
     (if p \<noteq> 0 then freeMemory p n (write_object p n destruct s) else Inr s)"

section \<open>Chains of words and disjoint blocks\<close>

fun word_chain :: "(nat \<Rightarrow> nat) \<Rightarrow> nat \<Rightarrow> nat list \<Rightarrow> bool" where
  "word_chain c p [] \<longleftrightarrow> p = 0"
| "word_chain c p (a # as) \<longleftrightarrow> p = a \<and> a \<noteq> 0 \<and> word_chain c (c a) as"

lemma word_chain_cong: "\<forall>a \<in> set as. c' a = c a \<Longrightarrow> word_chain c' p as \<longleftrightarrow> word_chain c p as"
  by (induction as arbitrary: p) auto

lemma word_chain_Nil_iff: "word_chain c 0 as \<longleftrightarrow> as = []"
  by (cases as) auto

definition heap_apart :: "(nat \<times> nat) list \<Rightarrow> bool" where
  "heap_apart B \<longleftrightarrow>
     distinct (map fst B) \<and> (\<forall>(a, n) \<in> set B. 0 < a \<and> 0 < n) \<and>
     (\<forall>(a, n) \<in> set B. \<forall>(b, k) \<in> set B. a \<noteq> b \<longrightarrow> a + n \<le> b \<or> b + k \<le> a)"

text \<open>What is relied on of the system allocator: a block it gives is not null and overlaps no other.\<close>

definition os_ok :: "os_alloc \<Rightarrow> bool" where
  "os_ok os \<longleftrightarrow>
     (\<forall>B n a. 0 < n \<and> os B n = Some a \<longrightarrow> 0 < a \<and> (\<forall>(b, k) \<in> set B. a + n \<le> b \<or> b + k \<le> a))"

lemma heap_apart_new:
  assumes "heap_apart B" and "os_ok os" and "os B n = Some a" and "0 < n"
  shows "heap_apart ((a, n) # B)" and "a \<notin> fst ` set B" and "0 < a"
proof -
  have a: "0 < a" "\<forall>(b, k) \<in> set B. a + n \<le> b \<or> b + k \<le> a" using assms(2-4) unfolding os_ok_def by blast+
  show "0 < a" by (rule a(1))
  show f: "a \<notin> fst ` set B" using a(2) assms(1,4) by (fastforce simp: heap_apart_def)
  show "heap_apart ((a, n) # B)" using assms(1,4) a f by (auto simp: heap_apart_def)
qed

section \<open>The invariant of a pool\<close>

definition slots_of :: "MemoryPool \<Rightarrow> nat \<Rightarrow> nat set" where
  "slots_of p b = {a. a mod SlotSize p = 0 \<and> b + sizeof_ptr \<le> a \<and> a + SlotSize p \<le> b + BlockSize p}"

text \<open>The slots handed out so far: all of the older blocks, and those below \<^verbatim>\<open>curSlot_\<close> in the newest.\<close>

fun carved :: "MemoryPool \<Rightarrow> nat list \<Rightarrow> nat set" where
  "carved p [] = {}"
| "carved p (b # bs) = {a \<in> slots_of p b. a < curSlot p} \<union> (\<Union>b \<in> set bs. slots_of p b)"

text \<open>
  A pool with blocks \<open>bs\<close>, free slots \<open>fs\<close> and live slots \<open>L\<close> in memory with words \<open>c\<close> and system blocks
  \<open>B\<close>: free and live slots are exactly the carved ones.
\<close>

definition pool_ok :: "MemoryPool \<Rightarrow> (nat \<Rightarrow> nat) \<Rightarrow> (nat \<times> nat) list \<Rightarrow> nat list \<Rightarrow> nat list \<Rightarrow> nat set \<Rightarrow> bool" where
  "pool_ok p c B bs fs L \<longleftrightarrow>
     sizeof_ptr \<le> SlotSize p \<and> sizeof_ptr + 2 * SlotSize p \<le> BlockSize p \<and>
     word_chain c (firstBlock p) bs \<and> word_chain c (freeList p) fs \<and>
     distinct bs \<and> distinct fs \<and> set fs \<inter> L = {} \<and> set fs \<union> L = carved p bs \<and>
     (\<forall>b \<in> set bs. (b, BlockSize p) \<in> set B) \<and>
     (case bs of
        [] \<Rightarrow> curSlot p = 0 \<and> lastSlot p = 0
      | b # _ \<Rightarrow> lastSlot p = b + BlockSize p - SlotSize p + 1 \<and> curSlot p mod SlotSize p = 0 \<and> b + sizeof_ptr \<le> curSlot p)"

lemma pool_okD:
  assumes "pool_ok p c B bs fs L"
  shows "sizeof_ptr \<le> SlotSize p" "sizeof_ptr + 2 * SlotSize p \<le> BlockSize p"
    "word_chain c (firstBlock p) bs" "word_chain c (freeList p) fs" "distinct bs" "distinct fs"
    "set fs \<inter> L = {}" "set fs \<union> L = carved p bs" "\<And>b. b \<in> set bs \<Longrightarrow> (b, BlockSize p) \<in> set B"
  using assms by (simp_all add: pool_ok_def)

lemma carved_slot: "a \<in> carved p bs \<Longrightarrow> \<exists>b \<in> set bs. a \<in> slots_of p b"
  by (cases bs) auto

lemma slot_bounds:
  assumes "a \<in> slots_of p b"
  shows "a mod SlotSize p = 0" "b + sizeof_ptr \<le> a" "a + SlotSize p \<le> b + BlockSize p"
  using assms by (simp_all add: slots_of_def)

lemma multiples_apart:
  assumes "a mod s = 0" "b mod s = 0" "a < (b :: nat)"
  shows "a + s \<le> b"
proof -
  obtain i j where "a = i * s" "b = j * s" using assms(1,2) by (metis mod_0_imp_dvd dvd_def mult.commute)
  then have "Suc i * s \<le> j * s" using assms(3) by (intro mult_le_mono1) (metis Suc_leI mult_less_cancel2)
  then show ?thesis using \<open>a = i * s\<close> \<open>b = j * s\<close> by simp
qed

text \<open>A range inside one block meets no header and no slot of another block.\<close>

lemma in_block_apart:
  assumes "heap_apart B" "(b, n) \<in> set B" "(b', n') \<in> set B" "b \<noteq> b'" "b \<le> x" "x < b + n" "b' \<le> y" "y < b' + n'"
  shows "x \<noteq> y"
proof -
  have "b + n \<le> b' \<or> b' + n' \<le> b" using assms(1-4) by (fastforce simp: heap_apart_def)
  then show ?thesis using assms(5-8) by linarith
qed

lemma slot_not_header:
  assumes "heap_apart B" "(b, BlockSize p) \<in> set B" "(b', n') \<in> set B" "a \<in> slots_of p b" "0 < n'"
    "a \<le> x" "x < a + SlotSize p"
  shows "x \<noteq> b'"
proof (cases "b = b'")
  case True
  then show ?thesis using slot_bounds [OF assms(4)] assms(6) by (simp add: sizeof_ptr_def)
next
  case False
  show ?thesis by (rule in_block_apart [OF assms(1-3) False]) (use slot_bounds [OF assms(4)] assms(5-7) in auto)
qed

lemma slots_apart:
  assumes "heap_apart B" "(b, BlockSize p) \<in> set B" "(b', BlockSize p) \<in> set B"
    "a \<in> slots_of p b" "a' \<in> slots_of p b'" "a \<noteq> a'"
  shows "a + SlotSize p \<le> a' \<or> a' + SlotSize p \<le> a"
  using multiples_apart [of a "SlotSize p" a'] multiples_apart [of a' "SlotSize p" a]
    slot_bounds(1) [OF assms(4)] slot_bounds(1) [OF assms(5)] assms(6) by linarith

text \<open>The invariant depends on the words of the headers and free slots only.\<close>

lemma pool_ok_frame:
  assumes "pool_ok p c B bs fs L" and "\<forall>a \<in> set bs \<union> set fs. c' a = c a" and "set B \<subseteq> set B'"
  shows "pool_ok p c' B' bs fs L"
proof -
  have "word_chain c' (firstBlock p) bs" "word_chain c' (freeList p) fs"
    using pool_okD(3,4) [OF assms(1)] assms(2) word_chain_cong [of bs c' c] word_chain_cong [of fs c' c] by auto
  then show ?thesis using assms(1,3) by (auto simp: pool_ok_def)
qed

lemma slot_block:
  assumes "pool_ok p c B bs fs L" and "a \<in> set fs \<union> L"
  shows "\<exists>b \<in> set bs. (b, BlockSize p) \<in> set B \<and> a \<in> slots_of p b"
proof -
  have "a \<in> carved p bs" using pool_okD(8) [OF assms(1)] assms(2) by simp
  then show ?thesis using carved_slot pool_okD(9) [OF assms(1)] by blast
qed

text \<open>Writing inside a live slot touches neither a header nor a free slot.\<close>

lemma live_slot_private:
  assumes "heap_apart B" and ok: "pool_ok p c B bs fs L" and a: "a \<in> L" and x: "a \<le> x" "x < a + SlotSize p"
  shows "x \<notin> set bs" and "x \<notin> set fs"
proof -
  obtain b where b: "(b, BlockSize p) \<in> set B" "a \<in> slots_of p b" using slot_block [OF ok] a by blast
  have "0 < BlockSize p" using pool_okD(1,2) [OF ok] by (simp add: sizeof_ptr_def)
  then show "x \<notin> set bs" using slot_not_header [OF assms(1) b(1) _ b(2) _ x] pool_okD(9) [OF ok] by blast
  show "x \<notin> set fs"
  proof
    assume xf: "x \<in> set fs"
    then obtain b' where b': "(b', BlockSize p) \<in> set B" "x \<in> slots_of p b'" using slot_block [OF ok] by blast
    have "a \<noteq> x" using xf a pool_okD(7) [OF ok] by blast
    then show False using slots_apart [OF assms(1) b(1) b'(1) b(2) b'(2)] x pool_okD(1) [OF ok]
      by (simp add: sizeof_ptr_def)
  qed
qed

lemma deallocate_ok:
  assumes "heap_apart B" and ok: "pool_ok p c B bs fs L" and a: "a \<in> L"
  shows "pool_ok (p\<lparr>freeList := a\<rparr>) (c(a := freeList p)) B bs (a # fs) (L - {a})" and "a \<noteq> 0"
proof -
  have nb: "a \<notin> set bs" and nf: "a \<notin> set fs"
    using live_slot_private [OF assms, of a] pool_okD(1) [OF ok] by (auto simp: sizeof_ptr_def)
  obtain b where "a \<in> slots_of p b" using slot_block [OF ok] a by blast
  then show a0: "a \<noteq> 0" using slot_bounds(2) by (fastforce simp: sizeof_ptr_def)
  have "word_chain (c(a := freeList p)) (firstBlock p) bs" "word_chain (c(a := freeList p)) (freeList p) fs"
    using nb nf pool_okD(3,4) [OF ok] word_chain_cong [of bs "c(a := freeList p)" c] word_chain_cong [of fs "c(a := freeList p)" c] by auto
  moreover have "carved (p\<lparr>freeList := a\<rparr>) bs = carved p bs" by (cases bs) (simp_all add: slots_of_def)
  moreover have "set (a # fs) \<union> (L - {a}) = set fs \<union> L" using a by auto
  ultimately show "pool_ok (p\<lparr>freeList := a\<rparr>) (c(a := freeList p)) B bs (a # fs) (L - {a})"
    using ok nf a0 by (auto simp: pool_ok_def split: list.splits)
qed

lemma pop_free_ok:
  assumes ok: "pool_ok p c B bs (a # fs) L"
  shows "pool_ok (p\<lparr>freeList := c (freeList p)\<rparr>) c B bs fs (insert a L)" and "freeList p = a" and "a \<notin> L"
proof -
  show "freeList p = a" "a \<notin> L" using pool_okD(4,7) [OF ok] by auto
  moreover have "carved (p\<lparr>freeList := q\<rparr>) bs = carved p bs" for q by (cases bs) (simp_all add: slots_of_def)
  ultimately show "pool_ok (p\<lparr>freeList := c (freeList p)\<rparr>) c B bs fs (insert a L)"
    using ok by (auto simp: pool_ok_def split: list.splits)
qed

lemma align_up:
  assumes "0 < (s :: nat)"
  shows "(x + (s - x mod s) mod s) mod s = 0" and "(s - x mod s) mod s < s"
proof -
  show "(s - x mod s) mod s < s" using assms by simp
  have "(x + (s - x mod s) mod s) mod s = (x mod s + (s - x mod s)) mod s"
    by (metis mod_add_left_eq mod_add_right_eq)
  also have "x mod s + (s - x mod s) = s" using assms by (simp add: less_imp_le)
  finally show "(x + (s - x mod s) mod s) mod s = 0" by simp
qed

text \<open>The slot at \<^verbatim>\<open>curSlot_\<close>, once there is room for it.\<close>

lemma carve_here_ok:
  assumes ap: "heap_apart B" and ok: "pool_ok p c B (b # bs) fs L" and room: "curSlot p < lastSlot p"
  shows "pool_ok (p\<lparr>curSlot := curSlot p + SlotSize p\<rparr>) c B (b # bs) fs (insert (curSlot p) L)"
    and "curSlot p \<notin> set fs \<union> L" and "curSlot p \<in> slots_of p b"
proof -
  let ?a = "curSlot p" and ?p = "p\<lparr>curSlot := curSlot p + SlotSize p\<rparr>"
  have b: "lastSlot p = b + BlockSize p - SlotSize p + 1" "?a mod SlotSize p = 0" "b + sizeof_ptr \<le> ?a"
    using ok by (simp_all add: pool_ok_def)
  show slot: "?a \<in> slots_of p b" using b room pool_okD(1,2) [OF ok] by (simp add: slots_of_def sizeof_ptr_def)
  have nc: "?a \<notin> carved p (b # bs)"
  proof
    assume "?a \<in> carved p (b # bs)"
    then obtain b' where b': "b' \<in> set bs" "?a \<in> slots_of p b'" by auto
    have "b \<noteq> b'" using b'(1) pool_okD(5) [OF ok] by auto
    from in_block_apart [OF ap pool_okD(9) [OF ok] pool_okD(9) [OF ok] this, of ?a ?a] show False
      using b'(1) slot_bounds [OF slot] slot_bounds [OF b'(2)] pool_okD(1) [OF ok] by (auto simp: sizeof_ptr_def)
  qed
  then show "?a \<notin> set fs \<union> L" using pool_okD(8) [OF ok] by simp
  have sl: "slots_of ?p = slots_of p" by (simp add: slots_of_def fun_eq_iff)
  have "x = ?a" if "x \<in> slots_of p b" "\<not> x < ?a" "x < ?a + SlotSize p" for x
    using multiples_apart [of ?a "SlotSize p" x] slot_bounds(1) [OF that(1)] b(2) that(2,3) by linarith
  then have "{x \<in> slots_of p b. x < ?a + SlotSize p} = insert ?a {x \<in> slots_of p b. x < ?a}"
    using slot pool_okD(1) [OF ok] by (auto simp: sizeof_ptr_def)
  then have "carved ?p (b # bs) = insert ?a (carved p (b # bs))" by (simp add: sl)
  then have "set fs \<union> insert ?a L = carved ?p (b # bs)" "set fs \<inter> insert ?a L = {}"
    using pool_okD(7,8) [OF ok] nc by auto
  then show "pool_ok ?p c B (b # bs) fs (insert ?a L)"
    using ok unfolding pool_ok_def by simp
qed

lemma used_up_blocks:
  assumes "pool_ok p c B bs fs L" and "lastSlot p \<le> curSlot p"
  shows "carved p bs = (\<Union>b \<in> set bs. slots_of p b)"
proof (cases bs)
  case (Cons b bs')
  then have "lastSlot p = b + BlockSize p - SlotSize p + 1" using assms(1) by (simp add: pool_ok_def)
  then have "\<forall>a \<in> slots_of p b. a < curSlot p"
    using assms(2) pool_okD(1,2) [OF assms(1)] by (auto simp: slots_of_def)
  then show ?thesis using Cons by auto
qed simp

lemma allocateNewBlock_ok:
  assumes ap: "heap_apart (os_blocks m)" and ok: "pool_ok p (cells m) (os_blocks m) bs [] L"
    and os: "os_ok os" and full: "lastSlot p \<le> curSlot p" and nb: "os (os_blocks m) (BlockSize p) = Some b"
  shows "\<exists>p' m'. allocateNewBlock os (p, m) = Inr (p', m') \<and> os_blocks m' = (b, BlockSize p) # os_blocks m \<and>
    heap_apart (os_blocks m') \<and> pool_ok p' (cells m') (os_blocks m') (b # bs) [] L \<and>
    cells m' = (cells m)(b := firstBlock p) \<and> curSlot p' < lastSlot p' \<and> BlockSize p' = BlockSize p \<and> SlotSize p' = SlotSize p"
proof -
  let ?S = "SlotSize p" and ?B = "(b, BlockSize p) # os_blocks m"
  have S: "0 < ?S" "0 < BlockSize p" using pool_okD(1,2) [OF ok] by (simp_all add: sizeof_ptr_def)
  note n = heap_apart_new [OF ap os nb S(2)]
  have fresh: "b \<notin> set bs" using n(2) pool_okD(9) [OF ok] by force
  define pad where "pad = (?S - (b + sizeof_ptr) mod ?S) mod ?S"
  have pad: "(b + sizeof_ptr + pad) mod ?S = 0" "pad < ?S"
    using align_up [OF S(1), of "b + sizeof_ptr"] by (simp_all add: pad_def)
  define p' where "p' = p\<lparr>firstBlock := b, curSlot := b + sizeof_ptr + pad,
    lastSlot := b + BlockSize p - ?S + 1, freeList := 0\<rparr>"
  let ?m = "m\<lparr>os_blocks := ?B, cells := (cells m)(b := firstBlock p)\<rparr>"
  have new: "allocateNewBlock os (p, m) = Inr (p', ?m)"
    using nb by (simp add: allocateNewBlock_def operator_new_def Let_def p'_def pad_def)
  have room: "curSlot p' < lastSlot p'" using pad(2) pool_okD(2) [OF ok] by (simp add: p'_def)
  have sl: "slots_of p' = slots_of p" by (simp add: slots_of_def p'_def fun_eq_iff)
  have none: "{a \<in> slots_of p b. a < b + sizeof_ptr + pad} = {}"
  proof -
    have False if "a \<in> slots_of p b" "a < b + sizeof_ptr + pad" for a
      using multiples_apart [OF slot_bounds(1) [OF that(1)] pad(1) that(2)] slot_bounds(2) [OF that(1)] pad(2) by linarith
    then show ?thesis by blast
  qed
  have "carved p' (b # bs) = carved p bs"
    unfolding used_up_blocks [OF ok full] by (simp add: sl none p'_def [symmetric]) (use none in \<open>auto simp: p'_def\<close>)
  moreover have "word_chain ((cells m)(b := firstBlock p)) (firstBlock p) bs"
    using pool_okD(3) [OF ok] word_chain_cong [of bs "(cells m)(b := firstBlock p)" "cells m"] fresh by auto
  ultimately have "pool_ok p' (cells ?m) (os_blocks ?m) (b # bs) [] L"
    using ok n(3) fresh pad(1) by (simp add: pool_ok_def p'_def)
  then show ?thesis using new n(1) room by (intro exI [of _ p'] exI [of _ ?m]) (simp add: p'_def)
qed

lemma carve_ok:
  assumes ap: "heap_apart (os_blocks m)" and ok: "pool_ok p (cells m) (os_blocks m) bs [] L" and os: "os_ok os"
  shows "(\<exists>a p' m' bs'. carve os (p, m) = Inr (a, p', m') \<and> heap_apart (os_blocks m') \<and>
      pool_ok p' (cells m') (os_blocks m') bs' [] (insert a L) \<and> a \<notin> L \<and>
      BlockSize p' = BlockSize p \<and> SlotSize p' = SlotSize p \<and>
      (bs' = bs \<and> m' = m \<or>
       lastSlot p \<le> curSlot p \<and> (\<exists>b. bs' = b # bs \<and> b \<notin> fst ` set (os_blocks m) \<and>
         os_blocks m' = (b, BlockSize p) # os_blocks m \<and> cells m' = (cells m)(b := firstBlock p))))
    \<or> carve os (p, m) = Inl BadAlloc \<and> lastSlot p \<le> curSlot p \<and> os (os_blocks m) (BlockSize p) = None"
proof (cases "lastSlot p \<le> curSlot p")
  case False
  then obtain b bs' where bs: "bs = b # bs'" using ok by (cases bs) (auto simp: pool_ok_def)
  have "carve os (p, m) = Inr (curSlot p, p\<lparr>curSlot := curSlot p + SlotSize p\<rparr>, m)"
    using False by (simp add: carve_def)
  then show ?thesis using carve_here_ok [OF ap ok [unfolded bs]] False ap bs by auto
next
  case True
  show ?thesis
  proof (cases "os (os_blocks m) (BlockSize p)")
    case None
    then have "carve os (p, m) = Inl BadAlloc" using True by (simp add: carve_def allocateNewBlock_def operator_new_def)
    then show ?thesis using True None by simp
  next
    case (Some b)
    obtain p1 m1 where 1: "allocateNewBlock os (p, m) = Inr (p1, m1)" "os_blocks m1 = (b, BlockSize p) # os_blocks m"
      "heap_apart (os_blocks m1)" "pool_ok p1 (cells m1) (os_blocks m1) (b # bs) [] L"
      "cells m1 = (cells m)(b := firstBlock p)" "curSlot p1 < lastSlot p1" "BlockSize p1 = BlockSize p" "SlotSize p1 = SlotSize p"
      using allocateNewBlock_ok [OF ap ok os True Some] by blast
    have "0 < BlockSize p" using pool_okD(1,2) [OF ok] by (simp add: sizeof_ptr_def)
    note n = heap_apart_new(2) [OF ap os Some this]
    let ?p = "p1\<lparr>curSlot := curSlot p1 + SlotSize p1\<rparr>"
    have c: "carve os (p, m) = Inr (curSlot p1, ?p, m1)" using 1(1) True by (simp add: carve_def)
    show ?thesis
      using c carve_here_ok [OF 1(3,4,6)] 1 n True
      by (intro disjI1 exI [of _ "curSlot p1"] exI [of _ ?p] exI [of _ m1] exI [of _ "b # bs"]) simp
  qed
qed

lemma allocate_ok:
  assumes ap: "heap_apart (os_blocks m)" and ok: "pool_ok p (cells m) (os_blocks m) bs fs L" and os: "os_ok os"
  shows "(\<exists>a p' m' bs' fs'. allocate os (p, m) = Inr (a, p', m') \<and> heap_apart (os_blocks m') \<and>
      pool_ok p' (cells m') (os_blocks m') bs' fs' (insert a L) \<and> a \<notin> L \<and>
      BlockSize p' = BlockSize p \<and> SlotSize p' = SlotSize p \<and>
      (bs' = bs \<and> m' = m \<or>
       fs = [] \<and> lastSlot p \<le> curSlot p \<and> (\<exists>b. bs' = b # bs \<and> b \<notin> fst ` set (os_blocks m) \<and>
         os_blocks m' = (b, BlockSize p) # os_blocks m \<and> cells m' = (cells m)(b := firstBlock p))))
    \<or> allocate os (p, m) = Inl BadAlloc \<and> os (os_blocks m) (BlockSize p) = None"
proof (cases fs)
  case Nil
  then have "freeList p = 0" using pool_okD(4) [OF ok] by simp
  then have "allocate os (p, m) = carve os (p, m)" by (simp add: allocate_def)
  then show ?thesis using carve_ok [OF ap _ os, of p bs L] ok Nil by metis
next
  case (Cons a fs')
  note f = pop_free_ok [OF ok [unfolded Cons]]
  have "freeList p \<noteq> 0" using pool_okD(4) [OF ok] Cons by auto
  then have "allocate os (p, m) = Inr (a, p\<lparr>freeList := cells m (freeList p)\<rparr>, m)"
    using f(2) by (simp add: allocate_def pop_free_def)
  then show ?thesis using f ap by auto
qed

section \<open>All slots are accounted for\<close>

text \<open>
  One pool in use: slots are allocated, written by their owners and given back.  \<open>L\<close> is the set of
  slots in use.
\<close>

inductive pool_reach :: "os_alloc \<Rightarrow> nat \<Rightarrow> memory \<Rightarrow> MemoryPool \<times> memory \<Rightarrow> nat set \<Rightarrow> bool" for os n m0 where
  pool_start: "pool_reach os n m0 (init_pool n (new_MemoryPool garbage 4096), m0) {}"
| pool_allocate: "pool_reach os n m0 pm L \<Longrightarrow> allocate os pm = Inr (a, pm') \<Longrightarrow> pool_reach os n m0 pm' (insert a L)"
| pool_deallocate: "pool_reach os n m0 pm L \<Longrightarrow> a \<in> L \<Longrightarrow> pool_reach os n m0 (deallocate a pm) (L - {a})"
| pool_write: "pool_reach os n m0 (p, m) L \<Longrightarrow> a \<in> L \<Longrightarrow> \<forall>x. x < a \<or> a + SlotSize p \<le> x \<longrightarrow> c x = cells m x \<Longrightarrow>
    pool_reach os n m0 (p, m\<lparr>cells := c\<rparr>) L"

definition pool_state :: "memory \<Rightarrow> MemoryPool \<Rightarrow> memory \<Rightarrow> nat list \<Rightarrow> nat list \<Rightarrow> nat set \<Rightarrow> bool" where
  "pool_state m0 p m bs fs L \<longleftrightarrow>
     pool_ok p (cells m) (os_blocks m) bs fs L \<and> heap_apart (os_blocks m) \<and>
     os_blocks m = map (\<lambda>b. (b, 4096)) bs @ os_blocks m0 \<and> BlockSize p = 4096"

lemma pool_reach_state:
  assumes "pool_reach os n m0 pm L" and os: "os_ok os" and m0: "heap_apart (os_blocks m0)" and n: "n \<le> MAX_SLOT_SIZE"
  shows "\<exists>bs fs. pool_state m0 (fst pm) (snd pm) bs fs L"
  using assms(1)
proof (induction rule: pool_reach.induct)
  case (pool_start garbage)
  have "pool_state m0 (init_pool n (new_MemoryPool garbage 4096)) m0 [] [] {}"
    using m0 n by (simp add: pool_state_def pool_ok_def init_pool_def new_MemoryPool_def Let_def sizeof_ptr_def MAX_SLOT_SIZE_def)
  then show ?case by auto
next
  case (pool_allocate pm L a pm')
  obtain p m p' m' where pm: "pm = (p, m)" "pm' = (p', m')" by (cases pm, cases pm') auto
  obtain bs fs where st: "pool_state m0 p m bs fs L" using pool_allocate.IH pm by auto
  from allocate_ok [of m p bs fs L os] st os pool_allocate.hyps(2) pm
  obtain bs' fs' where "heap_apart (os_blocks m')" "pool_ok p' (cells m') (os_blocks m') bs' fs' (insert a L)"
    "BlockSize p' = BlockSize p" "bs' = bs \<and> m' = m \<or>
       (\<exists>b. bs' = b # bs \<and> os_blocks m' = (b, BlockSize p) # os_blocks m)"
    by (auto simp: pool_state_def)
  then have "pool_state m0 p' m' bs' fs' (insert a L)" using st by (auto simp: pool_state_def)
  then show ?case using pm by auto
next
  case (pool_deallocate pm L a)
  obtain p m where pm: "pm = (p, m)" by (cases pm)
  then obtain bs fs where st: "pool_state m0 p m bs fs L" using pool_deallocate.IH by auto
  have "pool_state m0 (p\<lparr>freeList := a\<rparr>) (m\<lparr>cells := (cells m)(a := freeList p)\<rparr>) bs (a # fs) (L - {a})"
    using deallocate_ok(1) [OF _ _ pool_deallocate.hyps(2)] st by (auto simp: pool_state_def)
  moreover have "a \<noteq> 0" using deallocate_ok(2) [OF _ _ pool_deallocate.hyps(2)] st by (auto simp: pool_state_def)
  ultimately show ?case using pm by (auto simp: deallocate_def)
next
  case (pool_write p m L a c)
  then obtain bs fs where st: "pool_state m0 p m bs fs L" by auto
  have "\<forall>x \<in> set bs \<union> set fs. c x = cells m x"
    using live_slot_private [OF _ _ pool_write.hyps(2)] st pool_write.hyps(3) unfolding pool_state_def
    by (metis UnE linorder_not_less)
  then have "pool_state m0 p (m\<lparr>cells := c\<rparr>) bs fs L" using st pool_ok_frame by (auto simp: pool_state_def)
  then show ?case by auto
qed

lemma free_blocks_all:
  assumes "word_chain (cells m) p bs" and "distinct bs" and "distinct (map fst (os_blocks m))"
    and "os_blocks m = map (\<lambda>b. (b, N)) bs @ B0"
  shows "\<exists>m'. free_blocks p m = Some (Inr m') \<and> os_blocks m' = B0 \<and> cells m' = cells m"
  using assms
proof (induction bs arbitrary: p m)
  case Nil
  then show ?case by (subst free_blocks.simps) simp
next
  case (Cons b bs)
  let ?m = "m\<lparr>os_blocks := map (\<lambda>b. (b, N)) bs @ B0\<rparr>"
  have "filter (\<lambda>x. fst x \<noteq> b) (map (\<lambda>b. (b, N)) bs @ B0) = map (\<lambda>b. (b, N)) bs @ B0"
    using Cons.prems(3,4) by (intro filter_True) auto
  then have "operator_delete b m = Inr ?m" using Cons.prems(1,4) by (simp add: operator_delete_def)
  then have "free_blocks p m = free_blocks (cells m b) ?m" using Cons.prems(1) by (subst free_blocks.simps) simp
  moreover have "distinct (map fst (os_blocks ?m))" using Cons.prems(3,4) by simp
  ultimately show ?case using Cons.IH [of ?m "cells m b"] Cons.prems(1,2) by auto
qed

text \<open>C31. A pool of slots of at most 512 bytes never leaks: however slots are allocated, overwritten by
  their owners and given back, a new block is taken from the system only when every slot of every
  block is in use, and the destructor returns and releases exactly the blocks of the pool.\<close>

theorem pool_no_leak:
  assumes "pool_reach os n m0 (p, m) L" and "os_ok os" and "heap_apart (os_blocks m0)" and "n \<le> MAX_SLOT_SIZE"
  shows "\<exists>bs. os_blocks m = map (\<lambda>b. (b, 4096)) bs @ os_blocks m0 \<and> L \<subseteq> (\<Union>b \<in> set bs. slots_of p b) \<and>
    (\<forall>a p' m'. allocate os (p, m) = Inr (a, p', m') \<and> os_blocks m' \<noteq> os_blocks m \<longrightarrow> L = (\<Union>b \<in> set bs. slots_of p b)) \<and>
    (\<exists>m'. destroy_pool (p, m) = Some (Inr m') \<and> os_blocks m' = os_blocks m0)"
proof -
  obtain bs fs where st: "pool_state m0 p m bs fs L" using pool_reach_state [OF assms] by auto
  then have ok: "pool_ok p (cells m) (os_blocks m) bs fs L" and ap: "heap_apart (os_blocks m)"
    and B: "os_blocks m = map (\<lambda>b. (b, 4096)) bs @ os_blocks m0" by (auto simp: pool_state_def)
  have "L \<subseteq> (\<Union>b \<in> set bs. slots_of p b)" using slot_block [OF ok] by blast
  moreover have "L = (\<Union>b \<in> set bs. slots_of p b)"
    if "allocate os (p, m) = Inr (a, p', m')" "os_blocks m' \<noteq> os_blocks m" for a p' m'
  proof -
    have "fs = []" "lastSlot p \<le> curSlot p" using allocate_ok [OF ap ok assms(2)] that by auto
    then show ?thesis using used_up_blocks [OF ok] pool_okD(8) [OF ok] by simp
  qed
  moreover have "\<exists>m'. destroy_pool (p, m) = Some (Inr m') \<and> os_blocks m' = os_blocks m0"
    using free_blocks_all [OF pool_okD(3,5) [OF ok] _ B] ap by (auto simp: destroy_pool_def heap_apart_def)
  ultimately show ?thesis using B by blast
qed

section \<open>Objects of all sizes\<close>

text \<open>The objects of the size class of pool \<open>i\<close> among the live ones.\<close>

definition in_class :: "nat \<Rightarrow> nat \<Rightarrow> bool" where
  "in_class i n \<longleftrightarrow> n \<le> MAX_SLOT_SIZE \<and> pool_index n = int i"

definition small :: "(nat \<times> nat) set \<Rightarrow> nat \<Rightarrow> nat set" where
  "small L i = {p. \<exists>n. (p, n) \<in> L \<and> in_class i n}"

text \<open>The blocks \<open>bs i\<close> and free slots \<open>fs i\<close> of every pool, none shared; large objects are blocks of their own.\<close>

definition hb_ok :: "HashBucket \<Rightarrow> (nat \<times> nat) set \<Rightarrow> (nat \<Rightarrow> nat list) \<Rightarrow> (nat \<Rightarrow> nat list) \<Rightarrow> bool" where
  "hb_ok s L bs fs \<longleftrightarrow>
     length (memoryPools s) = MEMORY_POOL_NUM \<and> heap_apart (os_blocks (hb_memory s)) \<and>
     (\<forall>i < MEMORY_POOL_NUM. let p = memoryPools s ! i in
        SlotSize p = (i + 1) * SLOT_BASE_SIZE \<and> BlockSize p = 4096 \<and>
        pool_ok p (cells (hb_memory s)) (os_blocks (hb_memory s)) (bs i) (fs i) (small L i)) \<and>
     (\<forall>i < MEMORY_POOL_NUM. \<forall>j < MEMORY_POOL_NUM. i \<noteq> j \<longrightarrow> set (bs i) \<inter> set (bs j) = {}) \<and>
     (\<forall>(p, n) \<in> L. MAX_SLOT_SIZE < n \<longrightarrow>
        (p, n) \<in> set (os_blocks (hb_memory s)) \<and> (\<forall>i < MEMORY_POOL_NUM. p \<notin> set (bs i))) \<and>
     inj_on fst L \<and> (\<forall>(p, n) \<in> L. 0 < n)"

lemma class_of:
  assumes "0 < n" and "n \<le> MAX_SLOT_SIZE"
  shows "\<exists>i < MEMORY_POOL_NUM. in_class i n \<and> n \<le> (i + 1) * SLOT_BASE_SIZE"
proof -
  let ?i = "(n + 7) div 8 - 1"
  have "1 \<le> (n + 7) div 8" "(n + 7) div 8 \<le> 64" using assms by (simp_all add: MAX_SLOT_SIZE_def)
  moreover have "n \<le> (n + 7) div 8 * 8" by linarith
  ultimately have "?i < MEMORY_POOL_NUM" "in_class ?i n" "n \<le> (?i + 1) * SLOT_BASE_SIZE"
    using assms by (auto simp: in_class_def pool_index_def MEMORY_POOL_NUM_def SLOT_BASE_SIZE_def)
  then show ?thesis by blast
qed

lemma hb_okD:
  assumes "hb_ok s L bs fs"
  shows "length (memoryPools s) = MEMORY_POOL_NUM" and "heap_apart (os_blocks (hb_memory s))"
    and "\<And>i. i < MEMORY_POOL_NUM \<Longrightarrow> SlotSize (memoryPools s ! i) = (i + 1) * SLOT_BASE_SIZE"
    and "\<And>i. i < MEMORY_POOL_NUM \<Longrightarrow> BlockSize (memoryPools s ! i) = 4096"
    and "\<And>i. i < MEMORY_POOL_NUM \<Longrightarrow>
      pool_ok (memoryPools s ! i) (cells (hb_memory s)) (os_blocks (hb_memory s)) (bs i) (fs i) (small L i)"
    and "\<And>i j. i < MEMORY_POOL_NUM \<Longrightarrow> j < MEMORY_POOL_NUM \<Longrightarrow> i \<noteq> j \<Longrightarrow> set (bs i) \<inter> set (bs j) = {}"
    and "\<And>p n. (p, n) \<in> L \<Longrightarrow> MAX_SLOT_SIZE < n \<Longrightarrow> (p, n) \<in> set (os_blocks (hb_memory s))"
    and "\<And>p n i. (p, n) \<in> L \<Longrightarrow> MAX_SLOT_SIZE < n \<Longrightarrow> i < MEMORY_POOL_NUM \<Longrightarrow> p \<notin> set (bs i)"
    and "inj_on fst L" and "\<And>p n. (p, n) \<in> L \<Longrightarrow> 0 < n"
  using assms unfolding hb_ok_def Let_def by blast+

lemma hb_okI:
  assumes "length (memoryPools s) = MEMORY_POOL_NUM" and "heap_apart (os_blocks (hb_memory s))"
    and "\<And>i. i < MEMORY_POOL_NUM \<Longrightarrow> SlotSize (memoryPools s ! i) = (i + 1) * SLOT_BASE_SIZE"
    and "\<And>i. i < MEMORY_POOL_NUM \<Longrightarrow> BlockSize (memoryPools s ! i) = 4096"
    and "\<And>i. i < MEMORY_POOL_NUM \<Longrightarrow>
      pool_ok (memoryPools s ! i) (cells (hb_memory s)) (os_blocks (hb_memory s)) (bs i) (fs i) (small L i)"
    and "\<And>i j. i < MEMORY_POOL_NUM \<Longrightarrow> j < MEMORY_POOL_NUM \<Longrightarrow> i \<noteq> j \<Longrightarrow> set (bs i) \<inter> set (bs j) = {}"
    and "\<And>p n. (p, n) \<in> L \<Longrightarrow> MAX_SLOT_SIZE < n \<Longrightarrow> (p, n) \<in> set (os_blocks (hb_memory s))"
    and "\<And>p n i. (p, n) \<in> L \<Longrightarrow> MAX_SLOT_SIZE < n \<Longrightarrow> i < MEMORY_POOL_NUM \<Longrightarrow> p \<notin> set (bs i)"
    and "inj_on fst L" and "\<And>p n. (p, n) \<in> L \<Longrightarrow> 0 < n"
  shows "hb_ok s L bs fs"
  using assms unfolding hb_ok_def Let_def by blast

text \<open>Where a live object lies: in a block that belongs to its own size class only.\<close>

lemma object_block:
  assumes ok: "hb_ok s L bs fs" and pn: "(p, n) \<in> L"
  shows "\<exists>b k. (b, k) \<in> set (os_blocks (hb_memory s)) \<and> b \<le> p \<and> p + n \<le> b + k \<and> 0 < p \<and>
    (if n \<le> MAX_SLOT_SIZE
     then \<exists>i < MEMORY_POOL_NUM. in_class i n \<and> n \<le> (i + 1) * SLOT_BASE_SIZE \<and> p \<in> small L i \<and> b \<in> set (bs i) \<and>
       k = 4096 \<and> p \<in> slots_of (memoryPools s ! i) b
     else b = p \<and> (\<forall>i < MEMORY_POOL_NUM. b \<notin> set (bs i)))"
proof (cases "n \<le> MAX_SLOT_SIZE")
  case True
  obtain i where i: "i < MEMORY_POOL_NUM" "in_class i n" "n \<le> (i + 1) * SLOT_BASE_SIZE"
    using class_of [OF hb_okD(10) [OF ok pn] True] by blast
  then have p: "p \<in> small L i" using pn by (auto simp: small_def)
  obtain b where b: "b \<in> set (bs i)" "(b, 4096) \<in> set (os_blocks (hb_memory s))" "p \<in> slots_of (memoryPools s ! i) b"
    using slot_block [OF hb_okD(5) [OF ok i(1)], of p] p hb_okD(4) [OF ok i(1)] by auto
  have "b \<le> p" "p + n \<le> b + 4096" "0 < p"
    using slot_bounds [OF b(3)] i(3) hb_okD(3,4) [OF ok i(1)] by (simp_all add: sizeof_ptr_def)
  then show ?thesis using True i p b by (intro exI [of _ b] exI [of _ 4096]) auto
next
  case False
  then have "(p, n) \<in> set (os_blocks (hb_memory s))" "\<forall>i < MEMORY_POOL_NUM. p \<notin> set (bs i)"
    using hb_okD(7,8) [OF ok pn] by auto
  moreover have "0 < p" using hb_okD(2) [OF ok] calculation(1) by (auto simp: heap_apart_def)
  ultimately show ?thesis using False by (intro exI [of _ p] exI [of _ n]) simp
qed

lemma objects_apart:
  assumes ok: "hb_ok s L bs fs" and pn: "(p, n) \<in> L" and qk: "(q, k) \<in> L" and ne: "p \<noteq> q"
  shows "p + n \<le> q \<or> q + k \<le> p"
proof -
  note ap = hb_okD(2) [OF ok]
  obtain b x where b: "(b, x) \<in> set (os_blocks (hb_memory s))" "b \<le> p" "p + n \<le> b + x"
    "if n \<le> MAX_SLOT_SIZE
     then \<exists>i < MEMORY_POOL_NUM. in_class i n \<and> n \<le> (i + 1) * SLOT_BASE_SIZE \<and> p \<in> small L i \<and> b \<in> set (bs i) \<and>
       x = 4096 \<and> p \<in> slots_of (memoryPools s ! i) b
     else b = p \<and> (\<forall>i < MEMORY_POOL_NUM. b \<notin> set (bs i))" using object_block [OF ok pn] by blast
  obtain c y where c: "(c, y) \<in> set (os_blocks (hb_memory s))" "c \<le> q" "q + k \<le> c + y"
    "if k \<le> MAX_SLOT_SIZE
     then \<exists>i < MEMORY_POOL_NUM. in_class i k \<and> k \<le> (i + 1) * SLOT_BASE_SIZE \<and> q \<in> small L i \<and> c \<in> set (bs i) \<and>
       y = 4096 \<and> q \<in> slots_of (memoryPools s ! i) c
     else c = q \<and> (\<forall>i < MEMORY_POOL_NUM. c \<notin> set (bs i))" using object_block [OF ok qk] by blast
  show ?thesis
  proof (cases "b = c")
    case False
    then have "b + x \<le> c \<or> c + y \<le> b" using ap b(1) c(1) by (fastforce simp: heap_apart_def)
    then show ?thesis using b(2,3) c(2,3) by linarith
  next
    case True
    then have small: "n \<le> MAX_SLOT_SIZE" "k \<le> MAX_SLOT_SIZE" using b(4) c(4) ne by (auto split: if_splits)
    then obtain i j where i: "i < MEMORY_POOL_NUM" "n \<le> (i + 1) * SLOT_BASE_SIZE" "b \<in> set (bs i)" "p \<in> slots_of (memoryPools s ! i) b"
      and j: "j < MEMORY_POOL_NUM" "k \<le> (j + 1) * SLOT_BASE_SIZE" "c \<in> set (bs j)" "q \<in> slots_of (memoryPools s ! j) c"
      using b(4) c(4) by auto
    have "i = j" using hb_okD(6) [OF ok i(1) j(1)] i(3) j(3) True by blast
    have B: "(b, BlockSize (memoryPools s ! i)) \<in> set (os_blocks (hb_memory s))"
      using pool_okD(9) [OF hb_okD(5) [OF ok i(1)] i(3)] .
    from slots_apart [OF ap B B i(4) _ ne] show ?thesis
      using j(2,4) i(2) True \<open>i = j\<close> hb_okD(3) [OF ok i(1)] by auto
  qed
qed

text \<open>Writing into a block that is not one of a pool's leaves the words of that pool alone.\<close>

lemma foreign_block:
  assumes "heap_apart B" and ok: "pool_ok p c B bs fs L" and "(b, k) \<in> set B" and "b \<notin> set bs" and "b \<le> x" "x < b + k"
  shows "x \<notin> set bs \<union> set fs"
proof
  have sz: "sizeof_ptr \<le> SlotSize p" "0 < BlockSize p" using pool_okD(1,2) [OF ok] by (simp_all add: sizeof_ptr_def)
  assume "x \<in> set bs \<union> set fs"
  then obtain b' where b': "b' \<in> set bs" "b' \<le> x" "x < b' + BlockSize p"
  proof
    assume "x \<in> set fs"
    then obtain b' where b': "b' \<in> set bs" "x \<in> slots_of p b'" using slot_block [OF ok] by blast
    then show thesis using that [of b'] slot_bounds(2,3) [OF b'(2)] sz by (simp add: sizeof_ptr_def)
  qed (use that sz in auto)
  show False
    using in_block_apart [OF assms(1,3) pool_okD(9) [OF ok b'(1)] _ assms(5,6) b'(2,3)] b'(1) assms(4) by blast
qed

lemma object_private:
  assumes ok: "hb_ok s L bs fs" and pn: "(p, n) \<in> L" and x: "p \<le> x" "x < p + n" and j: "j < MEMORY_POOL_NUM"
  shows "x \<notin> set (bs j) \<union> set (fs j)"
proof -
  obtain b k where b: "(b, k) \<in> set (os_blocks (hb_memory s))" "b \<le> p" "p + n \<le> b + k"
    "if n \<le> MAX_SLOT_SIZE
     then \<exists>i < MEMORY_POOL_NUM. in_class i n \<and> n \<le> (i + 1) * SLOT_BASE_SIZE \<and> p \<in> small L i \<and> b \<in> set (bs i) \<and>
       k = 4096 \<and> p \<in> slots_of (memoryPools s ! i) b
     else b = p \<and> (\<forall>i < MEMORY_POOL_NUM. b \<notin> set (bs i))" using object_block [OF ok pn] by blast
  note ap = hb_okD(2) [OF ok] and pj = hb_okD(5) [OF ok j]
  show ?thesis
  proof (cases "b \<in> set (bs j)")
    case False
    show ?thesis by (rule foreign_block [OF ap pj b(1) False]) (use b(2,3) x in auto)
  next
    case True
    then obtain i where i: "i < MEMORY_POOL_NUM" "n \<le> (i + 1) * SLOT_BASE_SIZE" "p \<in> small L i" "b \<in> set (bs i)"
      using b(4) j by (auto split: if_splits)
    have "i = j" using hb_okD(6) [OF ok i(1) j] i(4) True by blast
    then show ?thesis
      using live_slot_private [OF ap pj, of p x] i(2,3) x hb_okD(3) [OF ok j] by auto
  qed
qed

lemma write_object_ok:
  assumes ok: "hb_ok s L bs fs" and pn: "(p, n) \<in> L"
  shows "hb_ok (write_object p n v s) L bs fs"
proof -
  let ?s = "write_object p n v s"
  have same: "memoryPools ?s = memoryPools s" "os_blocks (hb_memory ?s) = os_blocks (hb_memory s)"
    by (simp_all add: write_object_def)
  have "pool_ok (memoryPools s ! i) (cells (hb_memory ?s)) (os_blocks (hb_memory s)) (bs i) (fs i) (small L i)"
    if i: "i < MEMORY_POOL_NUM" for i
    by (rule pool_ok_frame [OF hb_okD(5) [OF ok i]])
      (use object_private [OF ok pn _ _ i] in \<open>auto simp: write_object_def\<close>)
  then show ?thesis using ok unfolding hb_ok_def Let_def same by blast
qed

lemma small_insert: "small (insert (a, n) L) i = (if in_class i n then insert a (small L i) else small L i)"
  by (auto simp: small_def)

lemma in_class_unique: "in_class i n \<Longrightarrow> in_class j n \<Longrightarrow> i = j"
  by (simp add: in_class_def)

text \<open>An object in a block other than the one of \<open>a\<close> has another address.\<close>

lemma fresh_address:
  assumes ok: "hb_ok s L bs fs" and ap: "heap_apart B'" and sub: "set (os_blocks (hb_memory s)) \<subseteq> set B'"
    and b: "(b, k) \<in> set B'" "b \<le> a" "a < b + k" and qn: "(q, n) \<in> L"
    and other: "\<And>c. c \<le> q \<Longrightarrow> n \<le> MAX_SLOT_SIZE \<Longrightarrow> (\<exists>i < MEMORY_POOL_NUM. in_class i n \<and> c \<in> set (bs i)) \<Longrightarrow> b \<noteq> c"
      "MAX_SLOT_SIZE < n \<Longrightarrow> b \<noteq> q"
  shows "q \<noteq> a"
proof -
  obtain c x where c: "(c, x) \<in> set (os_blocks (hb_memory s))" "c \<le> q" "q + n \<le> c + x"
    "if n \<le> MAX_SLOT_SIZE
     then \<exists>i < MEMORY_POOL_NUM. in_class i n \<and> n \<le> (i + 1) * SLOT_BASE_SIZE \<and> q \<in> small L i \<and> c \<in> set (bs i) \<and>
       x = 4096 \<and> q \<in> slots_of (memoryPools s ! i) c
     else c = q \<and> (\<forall>i < MEMORY_POOL_NUM. c \<notin> set (bs i))" using object_block [OF ok qn] by blast
  have "b \<noteq> c" using c(2,4) other by (cases "n \<le> MAX_SLOT_SIZE") auto
  moreover have "0 < n" by (rule hb_okD(10) [OF ok qn])
  ultimately show ?thesis
    using in_block_apart [OF ap b(1) _ _ b(2,3), of c x q] c(1-3) sub by auto
qed

lemma use_large_ok:
  assumes ok: "hb_ok s L bs fs" and os: "os_ok os" and n: "MAX_SLOT_SIZE < n"
  shows "(\<exists>a s'. useMemory os n s = Inr (a, s') \<and> hb_ok s' (insert (a, n) L) bs fs) \<or> useMemory os n s = Inl BadAlloc"
proof (cases "os (os_blocks (hb_memory s)) n")
  case None
  then show ?thesis using n by (simp add: useMemory_def operator_new_def)
next
  case (Some a)
  let ?B = "os_blocks (hb_memory s)"
  let ?s = "s\<lparr>hb_memory := (hb_memory s)\<lparr>os_blocks := (a, n) # ?B\<rparr>\<rparr>"
  have "0 < n" using n by simp
  note new = heap_apart_new [OF hb_okD(2) [OF ok] os Some this]
  have nb: "a \<notin> set (bs i)" if "i < MEMORY_POOL_NUM" for i
    using new(2) pool_okD(9) [OF hb_okD(5) [OF ok that]] by force
  have "q \<noteq> a" if "(q, k) \<in> L" for q k
  proof (rule fresh_address [OF ok new(1) _ _ _ _ that, of a n])
    show "MAX_SLOT_SIZE < k \<Longrightarrow> a \<noteq> q" using hb_okD(7) [OF ok that] new(2) by force
  qed (use \<open>0 < n\<close> nb in auto)
  then have "a \<notin> fst ` L" by force
  then have "inj_on fst (insert (a, n) L)" using hb_okD(9) [OF ok] by (auto simp: inj_on_insert)
  moreover have "\<not> in_class i n" for i using n by (simp add: in_class_def)
  then have "small (insert (a, n) L) i = small L i" for i by (simp add: small_insert)
  moreover have "pool_ok (memoryPools s ! i) (cells (hb_memory s)) ((a, n) # ?B) (bs i) (fs i) (small L i)"
    if "i < MEMORY_POOL_NUM" for i by (rule pool_ok_frame [OF hb_okD(5) [OF ok that]]) auto
  ultimately have "hb_ok ?s (insert (a, n) L) bs fs"
    using ok new(1) nb \<open>0 < n\<close> unfolding hb_ok_def Let_def by auto
  then show ?thesis using n Some by (simp add: useMemory_def operator_new_def)
qed

text \<open>Replacing one pool, with the memory it changed.\<close>

lemma hb_ok_pool_update:
  assumes ok: "hb_ok s L bs fs" and i: "i < MEMORY_POOL_NUM"
    and p': "BlockSize p' = BlockSize (memoryPools s ! i)" "SlotSize p' = SlotSize (memoryPools s ! i)"
    and ap: "heap_apart (os_blocks m')" and here: "pool_ok p' (cells m') (os_blocks m') bs' fs' (small L' i)"
    and there: "\<And>j. j < MEMORY_POOL_NUM \<Longrightarrow> j \<noteq> i \<Longrightarrow>
      pool_ok (memoryPools s ! j) (cells m') (os_blocks m') (bs j) (fs j) (small L' j)"
    and own: "\<And>j. j < MEMORY_POOL_NUM \<Longrightarrow> j \<noteq> i \<Longrightarrow> set bs' \<inter> set (bs j) = {}"
    and large: "\<And>q k. (q, k) \<in> L' \<Longrightarrow> MAX_SLOT_SIZE < k \<Longrightarrow>
      (q, k) \<in> set (os_blocks m') \<and> (\<forall>j < MEMORY_POOL_NUM. q \<notin> set (bs j)) \<and> q \<notin> set bs'"
    and inj: "inj_on fst L'" and pos: "\<And>q k. (q, k) \<in> L' \<Longrightarrow> 0 < k"
  shows "hb_ok (s\<lparr>memoryPools := (memoryPools s)[i := p'], hb_memory := m'\<rparr>) L' (bs(i := bs')) (fs(i := fs'))"
proof -
  let ?s = "s\<lparr>memoryPools := (memoryPools s)[i := p'], hb_memory := m'\<rparr>"
  have "let p = memoryPools ?s ! j in SlotSize p = (j + 1) * SLOT_BASE_SIZE \<and> BlockSize p = 4096 \<and>
      pool_ok p (cells m') (os_blocks m') ((bs(i := bs')) j) ((fs(i := fs')) j) (small L' j)" if j: "j < MEMORY_POOL_NUM" for j
  proof (cases "j = i")
    case True
    then show ?thesis using here p' hb_okD(1,3,4) [OF ok] i by simp
  next
    case False
    then show ?thesis using there [OF j False] hb_okD(3,4) [OF ok j] by simp
  qed
  moreover have "set ((bs(i := bs')) j) \<inter> set ((bs(i := bs')) k) = {}"
    if "j < MEMORY_POOL_NUM" "k < MEMORY_POOL_NUM" "j \<noteq> k" for j k
    using hb_okD(6) [OF ok that] own [OF that(1)] own [OF that(2)] that(3) by (cases "j = i"; cases "k = i") auto
  moreover have "(q, k) \<in> set (os_blocks m') \<and> (\<forall>j < MEMORY_POOL_NUM. q \<notin> set ((bs(i := bs')) j))"
    if "(q, k) \<in> L'" "MAX_SLOT_SIZE < k" for q k using large [OF that] by simp
  ultimately show ?thesis unfolding hb_ok_def using ap inj pos hb_okD(1) [OF ok] by (simp del: fun_upd_apply) blast
qed

text \<open>The memory and the blocks of a pool after an allocation: as before, or with one block more.\<close>

definition grown :: "nat \<Rightarrow> memory \<Rightarrow> nat list \<Rightarrow> memory \<Rightarrow> nat list \<Rightarrow> bool" where
  "grown k m bs m' bs' \<longleftrightarrow> bs' = bs \<and> m' = m \<or>
     (\<exists>b x. bs' = b # bs \<and> b \<notin> fst ` set (os_blocks m) \<and> os_blocks m' = (b, k) # os_blocks m \<and> cells m' = (cells m)(b := x))"

lemma grown_sub: "grown k m bs m' bs' \<Longrightarrow> set (os_blocks m) \<subseteq> set (os_blocks m')"
  by (auto simp: grown_def)

lemma grown_new:
  assumes "hb_ok s L bs fs" and "grown k (hb_memory s) (bs i) m' bs'" and "b \<in> set bs'" "b \<notin> set (bs i)" and "j < MEMORY_POOL_NUM"
  shows "b \<notin> set (bs j) \<and> b \<notin> fst ` set (os_blocks (hb_memory s))"
  using assms(2-4) pool_okD(9) [OF hb_okD(5) [OF assms(1,5)]] by (force simp: grown_def)

lemma grown_own:
  assumes "hb_ok s L bs fs" and "grown k (hb_memory s) (bs i) m' bs'" and "i < MEMORY_POOL_NUM" "j < MEMORY_POOL_NUM" "j \<noteq> i"
  shows "set bs' \<inter> set (bs j) = {}"
  using hb_okD(6) [OF assms(1,3,4)] assms(5) grown_new [OF assms(1,2) _ _ assms(4)] by blast

lemma grown_others:
  assumes ok: "hb_ok s L bs fs" and g: "grown (BlockSize (memoryPools s ! i)) (hb_memory s) (bs i) m' bs'" and i: "i < MEMORY_POOL_NUM"
    and ap: "heap_apart (os_blocks m')" and j: "j < MEMORY_POOL_NUM"
  shows "pool_ok (memoryPools s ! j) (cells m') (os_blocks m') (bs j) (fs j) (small L j)"
proof -
  have 1: "pool_ok (memoryPools s ! j) (cells (hb_memory s)) (os_blocks m') (bs j) (fs j) (small L j)"
    by (rule pool_ok_frame [OF hb_okD(5) [OF ok j] _ grown_sub [OF g]]) simp
  have "\<forall>x \<in> set (bs j) \<union> set (fs j). cells m' x = cells (hb_memory s) x"
    using g unfolding grown_def
  proof
    assume "\<exists>b x. bs' = b # bs i \<and> b \<notin> fst ` set (os_blocks (hb_memory s)) \<and>
      os_blocks m' = (b, BlockSize (memoryPools s ! i)) # os_blocks (hb_memory s) \<and> cells m' = (cells (hb_memory s))(b := x)"
    then obtain b x where b: "b \<notin> fst ` set (os_blocks (hb_memory s))"
      "os_blocks m' = (b, BlockSize (memoryPools s ! i)) # os_blocks (hb_memory s)" "cells m' = (cells (hb_memory s))(b := x)" by blast
    have "b \<notin> set (bs j)" using b(1) pool_okD(9) [OF hb_okD(5) [OF ok j]] by force
    then have "b \<notin> set (bs j) \<union> set (fs j)"
      using foreign_block [OF ap 1, of b "BlockSize (memoryPools s ! i)" b] b(2) hb_okD(4) [OF ok i] by simp
    then show ?thesis using b(3) by auto
  qed simp
  then show ?thesis by (intro pool_ok_frame [OF 1]) auto
qed

text \<open>A slot of the pool is at no address of a live object of another class.\<close>

lemma grown_fresh:
  assumes ok: "hb_ok s L bs fs" and g: "grown (BlockSize (memoryPools s ! i)) (hb_memory s) (bs i) m' bs'" and i: "i < MEMORY_POOL_NUM"
    and p': "heap_apart (os_blocks m')" "pool_ok p' (cells m') (os_blocks m') bs' fs' (insert a U)"
      "BlockSize p' = BlockSize (memoryPools s ! i)" "SlotSize p' = SlotSize (memoryPools s ! i)"
    and q: "(q, k) \<in> L" "\<not> in_class i k"
  shows "q \<noteq> a"
proof -
  obtain b where b: "b \<in> set bs'" "(b, BlockSize (memoryPools s ! i)) \<in> set (os_blocks m')" "a \<in> slots_of p' b"
    using slot_block [OF p'(2), of a] p'(3) by auto
  show ?thesis
  proof (rule fresh_address [OF ok p'(1) grown_sub [OF g] b(2) _ _ q(1)])
    show "b \<le> a" "a < b + BlockSize (memoryPools s ! i)" using slot_bounds [OF b(3)] p'(3,4) pool_okD(1) [OF p'(2)]
      by (auto simp: sizeof_ptr_def)
    show "b \<noteq> c" if "\<exists>j < MEMORY_POOL_NUM. in_class j k \<and> c \<in> set (bs j)" for c
      using that q(2) grown_own [OF ok g i] b(1) by (metis IntI empty_iff)
    show "b \<noteq> q" if "MAX_SLOT_SIZE < k"
      using hb_okD(7,8) [OF ok q(1) that] i grown_new [OF ok g b(1)] by force
  qed
qed

lemma use_small_ok:
  assumes ok: "hb_ok s L bs fs" and os: "os_ok os" and n: "0 < n" "n \<le> MAX_SLOT_SIZE"
  shows "(\<exists>a s' bs' fs'. useMemory os n s = Inr (a, s') \<and> hb_ok s' (insert (a, n) L) bs' fs') \<or>
    useMemory os n s = Inl BadAlloc"
proof -
  obtain i where i: "i < MEMORY_POOL_NUM" "in_class i n" using class_of [OF n] by blast
  let ?p = "memoryPools s ! i"
  have idx: "pool_index n = int i" "getMemoryPool (pool_index n) s = Inr ?p"
    using i hb_okD(1) [OF ok] by (simp_all add: in_class_def getMemoryPool_def)
  from allocate_ok [OF hb_okD(2) [OF ok] hb_okD(5) [OF ok i(1)] os]
  consider (fail) "allocate os (?p, hb_memory s) = Inl BadAlloc"
    | (got) a p' m' bs' fs' where "allocate os (?p, hb_memory s) = Inr (a, p', m')" "heap_apart (os_blocks m')"
      "pool_ok p' (cells m') (os_blocks m') bs' fs' (insert a (small L i))" "a \<notin> small L i"
      "BlockSize p' = BlockSize ?p" "SlotSize p' = SlotSize ?p" "grown (BlockSize ?p) (hb_memory s) (bs i) m' bs'"
    unfolding grown_def by metis
  then show ?thesis
  proof cases
    case fail
    then show ?thesis using n idx by (simp add: useMemory_def)
  next
    case got
    let ?s = "s\<lparr>memoryPools := (memoryPools s)[i := p'], hb_memory := m'\<rparr>"
    have "q \<noteq> a" if "(q, k) \<in> L" for q k
      using that got(4) grown_fresh [OF ok got(7) i(1) got(2,3,5,6) that] by (auto simp: small_def)
    then have "a \<notin> fst ` L" by force
    then have inj: "inj_on fst (insert (a, n) L)" using hb_okD(9) [OF ok] by (auto simp: inj_on_insert)
    have "hb_ok ?s (insert (a, n) L) (bs(i := bs')) (fs(i := fs'))"
    proof (rule hb_ok_pool_update [OF ok i(1) got(5,6,2) _ _ grown_own [OF ok got(7) i(1)]])
      show "pool_ok p' (cells m') (os_blocks m') bs' fs' (small (insert (a, n) L) i)"
        using got(3) i(2) by (simp add: small_insert)
      show "pool_ok (memoryPools s ! j) (cells m') (os_blocks m') (bs j) (fs j) (small (insert (a, n) L) j)"
        if "j < MEMORY_POOL_NUM" "j \<noteq> i" for j
        using grown_others [OF ok got(7) i(1) got(2) that(1)] that(2) in_class_unique [OF i(2)] by (auto simp: small_insert)
      fix q k assume q: "(q, k) \<in> insert (a, n) L" "MAX_SLOT_SIZE < k"
      then have "(q, k) \<in> L" using n(2) by auto
      then have "(q, k) \<in> set (os_blocks (hb_memory s))" "\<forall>j < MEMORY_POOL_NUM. q \<notin> set (bs j)"
        using hb_okD(7,8) [OF ok] q(2) by auto
      then show "(q, k) \<in> set (os_blocks m') \<and> (\<forall>j < MEMORY_POOL_NUM. q \<notin> set (bs j)) \<and> q \<notin> set bs'"
        using grown_sub [OF got(7)] grown_new [OF ok got(7), of q i] i(1) by force
    qed (use inj n(1) hb_okD(10) [OF ok] in auto)
    moreover have "useMemory os n s = Inr (a, ?s)" using n(2) idx got(1) by (simp add: useMemory_def)
    ultimately show ?thesis by blast
  qed
qed

lemma small_remove:
  assumes "inj_on fst L" and "(p, n) \<in> L"
  shows "small (L - {(p, n)}) j = (if in_class j n then small L j - {p} else small L j)"
proof -
  have "q = p \<longleftrightarrow> (q, k) = (p, n)" if "(q, k) \<in> L" for q k
    using assms that inj_onD [OF assms(1), of "(q, k)" "(p, n)"] by auto
  then show ?thesis unfolding small_def by auto
qed

lemma free_small_ok:
  assumes ok: "hb_ok s L bs fs" and pn: "(p, n) \<in> L" and n: "n \<le> MAX_SLOT_SIZE"
  shows "\<exists>s' fs'. freeMemory p n s = Inr s' \<and> hb_ok s' (L - {(p, n)}) bs fs'"
proof -
  obtain i where i: "i < MEMORY_POOL_NUM" "in_class i n" using class_of [OF hb_okD(10) [OF ok pn] n] by blast
  let ?q = "memoryPools s ! i" and ?m = "hb_memory s"
  have idx: "pool_index n = int i" "getMemoryPool (pool_index n) s = Inr ?q"
    using i hb_okD(1) [OF ok] by (simp_all add: in_class_def getMemoryPool_def)
  have "p \<in> small L i" using pn i(2) by (auto simp: small_def)
  note d = deallocate_ok [OF hb_okD(2) [OF ok] hb_okD(5) [OF ok i(1)] this]
  let ?p' = "?q\<lparr>freeList := p\<rparr>" and ?m' = "?m\<lparr>cells := (cells ?m)(p := freeList ?q)\<rparr>"
  let ?s = "s\<lparr>memoryPools := (memoryPools s)[i := ?p'], hb_memory := ?m'\<rparr>"
  note sm = small_remove [OF hb_okD(9) [OF ok] pn]
  have "hb_ok ?s (L - {(p, n)}) (bs(i := bs i)) (fs(i := p # fs i))"
  proof (rule hb_ok_pool_update [OF ok i(1)])
    show "pool_ok ?p' (cells ?m') (os_blocks ?m') (bs i) (p # fs i) (small (L - {(p, n)}) i)"
      using d(1) i(2) by (simp add: sm)
    show "pool_ok (memoryPools s ! j) (cells ?m') (os_blocks ?m') (bs j) (fs j) (small (L - {(p, n)}) j)"
      if j: "j < MEMORY_POOL_NUM" "j \<noteq> i" for j
    proof -
      have "p \<notin> set (bs j) \<union> set (fs j)"
        using object_private [OF ok pn _ _ j(1), of p] hb_okD(10) [OF ok pn] by simp
      moreover have "\<not> in_class j n" using in_class_unique [OF i(2)] j(2) by blast
      ultimately show ?thesis using pool_ok_frame [OF hb_okD(5) [OF ok j(1)], of "cells ?m'" "os_blocks ?m'"] by (auto simp: sm)
    qed
    show "set (bs i) \<inter> set (bs j) = {}" if "j < MEMORY_POOL_NUM" "j \<noteq> i" for j
      using hb_okD(6) [OF ok i(1) that(1)] that(2) by blast
    show "inj_on fst (L - {(p, n)})" using hb_okD(9) [OF ok] by (rule inj_on_subset) blast
  qed (use hb_okD(2,7,8,10) [OF ok] i(1) in auto)
  moreover have "freeMemory p n s = Inr ?s" using idx n d(2) by (simp add: freeMemory_def deallocate_def)
  ultimately show ?thesis by auto
qed

lemma free_large_ok:
  assumes ok: "hb_ok s L bs fs" and pn: "(p, n) \<in> L" and n: "MAX_SLOT_SIZE < n"
  shows "\<exists>s'. freeMemory p n s = Inr s' \<and> hb_ok s' (L - {(p, n)}) bs fs"
proof -
  let ?B = "os_blocks (hb_memory s)"
  let ?s = "s\<lparr>hb_memory := (hb_memory s)\<lparr>os_blocks := filter (\<lambda>b. fst b \<noteq> p) ?B\<rparr>\<rparr>"
  have p: "(p, n) \<in> set ?B" "\<And>i. i < MEMORY_POOL_NUM \<Longrightarrow> p \<notin> set (bs i)" using hb_okD(7,8) [OF ok pn n] by auto
  then have "p \<noteq> 0" using hb_okD(2) [OF ok] by (auto simp: heap_apart_def)
  moreover have "p \<in> fst ` set ?B" using p(1) by force
  ultimately have free: "freeMemory p n s = Inr ?s" using n by (simp add: freeMemory_def operator_delete_def)
  have "pool_ok (memoryPools s ! i) (cells (hb_memory s)) (filter (\<lambda>b. fst b \<noteq> p) ?B) (bs i) (fs i) (small (L - {(p, n)}) i)"
    if "i < MEMORY_POOL_NUM" for i
  proof -
    have "\<not> in_class i n" using n by (simp add: in_class_def)
    moreover have "\<forall>b \<in> set (bs i). b \<noteq> p" using p(2) [OF that] by blast
    ultimately show ?thesis using hb_okD(5) [OF ok that] by (simp add: small_remove [OF hb_okD(9) [OF ok] pn] pool_ok_def)
  qed
  note pools = this
  have ap: "heap_apart (filter (\<lambda>b. fst b \<noteq> p) ?B)"
    using hb_okD(2) [OF ok] by (auto simp: heap_apart_def distinct_map_filter)
  have other: "q \<noteq> p" if "(q, k) \<in> L - {(p, n)}" for q k
    using that pn inj_onD [OF hb_okD(9) [OF ok], of "(q, k)" "(p, n)"] by auto
  have "inj_on fst (L - {(p, n)})" using hb_okD(9) [OF ok] by (rule inj_on_subset) blast
  then have "hb_ok ?s (L - {(p, n)}) bs fs"
  proof (rule hb_okI [rotated 8])
    show "(q, k) \<in> set (os_blocks (hb_memory ?s))" if "(q, k) \<in> L - {(p, n)}" "MAX_SLOT_SIZE < k" for q k
      using hb_okD(7) [OF ok, of q k] other [OF that(1)] that by simp
    show "set (bs i) \<inter> set (bs j) = {}" if "i < MEMORY_POOL_NUM" "j < MEMORY_POOL_NUM" "i \<noteq> j" for i j
      by (rule hb_okD(6) [OF ok that])
    show "0 < k" if "(q, k) \<in> L - {(p, n)}" for q k using hb_okD(10) [OF ok] that by blast
    show "q \<notin> set (bs i)" if "(q, k) \<in> L - {(p, n)}" "MAX_SLOT_SIZE < k" "i < MEMORY_POOL_NUM" for q k i
      using hb_okD(8) [OF ok] that by blast
  qed (use hb_okD(1,3,4) [OF ok] pools ap in simp_all)
  then show ?thesis using free by blast
qed

text \<open>
  The allocator in use: objects of any positive size are created, written and deleted.  \<open>L\<close> is the set
  of the live objects with their sizes.
\<close>

inductive hb_reach :: "os_alloc \<Rightarrow> HashBucket \<Rightarrow> (nat \<times> nat) set \<Rightarrow> bool" for os where
  hb_start: "heap_apart (os_blocks m) \<Longrightarrow> hb_reach os (initMemoryPools garbage m) {}"
| hb_use: "hb_reach os s L \<Longrightarrow> 0 < n \<Longrightarrow> useMemory os n s = Inr (p, s') \<Longrightarrow> hb_reach os s' (insert (p, n) L)"
| hb_free: "hb_reach os s L \<Longrightarrow> (p, n) \<in> L \<Longrightarrow> freeMemory p n s = Inr s' \<Longrightarrow> hb_reach os s' (L - {(p, n)})"
| hb_write: "hb_reach os s L \<Longrightarrow> (p, n) \<in> L \<Longrightarrow> hb_reach os (write_object p n v s) L"

lemma useMemory_ok:
  assumes "hb_ok s L bs fs" and "os_ok os" and "0 < n"
  shows "(\<exists>a s' bs' fs'. useMemory os n s = Inr (a, s') \<and> hb_ok s' (insert (a, n) L) bs' fs') \<or>
    useMemory os n s = Inl BadAlloc"
proof (cases "n \<le> MAX_SLOT_SIZE")
  case False
  then have "MAX_SLOT_SIZE < n" by simp
  from use_large_ok [OF assms(1,2) this] show ?thesis by blast
qed (rule use_small_ok [OF assms])

lemma freeMemory_ok:
  assumes "hb_ok s L bs fs" and "(p, n) \<in> L"
  shows "\<exists>s' fs'. freeMemory p n s = Inr s' \<and> hb_ok s' (L - {(p, n)}) bs fs'"
proof (cases "n \<le> MAX_SLOT_SIZE")
  case False
  then have "MAX_SLOT_SIZE < n" by simp
  from free_large_ok [OF assms this] show ?thesis by blast
qed (rule free_small_ok [OF assms])

lemma hb_reach_ok:
  assumes "hb_reach os s L" and os: "os_ok os"
  shows "\<exists>bs fs. hb_ok s L bs fs"
  using assms(1)
proof (induction rule: hb_reach.induct)
  case (hb_start m garbage)
  have "hb_ok (initMemoryPools garbage m) {} (\<lambda>_. []) (\<lambda>_. [])"
    using hb_start by (simp add: hb_ok_def initMemoryPools_def init_pool_def new_MemoryPool_def pool_ok_def Let_def
        small_def sizeof_ptr_def SLOT_BASE_SIZE_def MEMORY_POOL_NUM_def)
  then show ?case by blast
next
  case (hb_use s L n p s')
  then obtain bs fs where "hb_ok s L bs fs" by blast
  from useMemory_ok [OF this os hb_use.hyps(2)] show ?case using hb_use.hyps(3) by auto
next
  case (hb_free s L p n s')
  then obtain bs fs where "hb_ok s L bs fs" by blast
  from freeMemory_ok [OF this hb_free.hyps(2)] show ?case using hb_free.hyps(3) by auto
next
  case (hb_write s L p n v)
  then show ?case using write_object_ok by blast
qed

text \<open>C13. Objects never overlap: after any sequence of allocations of positive sizes, deletions of live
  objects and writes into live objects, every live object is a non-null range inside one system
  block, aligned to eight bytes when it comes from a pool, and two live objects are disjoint.  A
  further allocation gives an object or fails with \<^verbatim>\<open>std::bad_alloc\<close>, and deleting a live object
  succeeds.\<close>

theorem objects_never_overlap:
  assumes "hb_reach os s L" and "os_ok os"
  shows "(\<forall>(p, n) \<in> L. 0 < p \<and> (n \<le> MAX_SLOT_SIZE \<longrightarrow> p mod 8 = 0) \<and>
      (\<exists>(b, k) \<in> set (os_blocks (hb_memory s)). b \<le> p \<and> p + n \<le> b + k)) \<and>
    (\<forall>(p, n) \<in> L. \<forall>(q, k) \<in> L. p \<noteq> q \<longrightarrow> p + n \<le> q \<or> q + k \<le> p) \<and> inj_on fst L \<and>
    (\<forall>n > 0. (\<exists>r. useMemory os n s = Inr r) \<or> useMemory os n s = Inl BadAlloc) \<and>
    (\<forall>(p, n) \<in> L. \<exists>s'. freeMemory p n s = Inr s')"
proof -
  obtain bs fs where ok: "hb_ok s L bs fs" using hb_reach_ok [OF assms] by blast
  have "0 < p \<and> (n \<le> MAX_SLOT_SIZE \<longrightarrow> p mod 8 = 0) \<and> (\<exists>(b, k) \<in> set (os_blocks (hb_memory s)). b \<le> p \<and> p + n \<le> b + k)"
    if pn: "(p, n) \<in> L" for p n
  proof -
    have "p mod 8 = 0" if small: "n \<le> MAX_SLOT_SIZE"
    proof -
      obtain i b where i: "i < MEMORY_POOL_NUM" "p \<in> slots_of (memoryPools s ! i) b"
        using object_block [OF ok pn] small by auto
      then have "(i + 1) * 8 dvd p" using slot_bounds(1) hb_okD(3) [OF ok i(1)]
        by (metis SLOT_BASE_SIZE_def mod_0_imp_dvd)
      then show ?thesis using dvd_mult_right by (metis dvd_imp_mod_0)
    qed
    then show ?thesis using object_block [OF ok pn] by fastforce
  qed
  moreover have "\<forall>(p, n) \<in> L. \<forall>(q, k) \<in> L. p \<noteq> q \<longrightarrow> p + n \<le> q \<or> q + k \<le> p" using objects_apart [OF ok] by blast
  moreover have "\<forall>n > 0. (\<exists>r. useMemory os n s = Inr r) \<or> useMemory os n s = Inl BadAlloc"
    using useMemory_ok [OF ok assms(2)] by blast
  moreover have "\<forall>(p, n) \<in> L. \<exists>s'. freeMemory p n s = Inr s'" using freeMemory_ok [OF ok] by blast
  ultimately show ?thesis using hb_okD(9) [OF ok] by blast
qed

section \<open>What the locks do not protect\<close>

text \<open>The free list is not protected against \<^verbatim>\<open>allocateNewBlock\<close>: if one thread finds the free list empty
  in \<^verbatim>\<open>allocate\<close>, another one gives a slot back, and the first then enters the section of the block
  mutex with the block used up, the slot given back is in no list any more: the free list is null
  and the slot handed out is another one.\<close>

lemma racing_deallocate_loses_slot:
  assumes "pool_reach os n m0 (p, m) L" and "os_ok os" and "heap_apart (os_blocks m0)" and "n \<le> MAX_SLOT_SIZE"
    and "freeList p = 0" and "lastSlot p \<le> curSlot p" and "x \<in> L"
    and "carve os (deallocate x (p, m)) = Inr (a, p', m')"
  shows "freeList p' = 0 \<and> a \<noteq> x \<and> (\<exists>b. (b, 4096) \<in> set (os_blocks m') \<and> x \<in> slots_of p' b)"
proof -
  obtain bs fs where st: "pool_state m0 p m bs fs L" using pool_reach_state [OF assms(1-4)] by auto
  then have ok: "pool_ok p (cells m) (os_blocks m) bs fs L" and ap: "heap_apart (os_blocks m)" and B: "BlockSize p = 4096"
    by (auto simp: pool_state_def)
  obtain b where b: "(b, 4096) \<in> set (os_blocks m)" "x \<in> slots_of p b" using slot_block [OF ok] assms(7) B by auto
  let ?p = "p\<lparr>freeList := x\<rparr>" and ?m = "m\<lparr>cells := (cells m)(x := freeList p)\<rparr>"
  have "x \<noteq> 0" using deallocate_ok(2) [OF ap ok assms(7)] .
  then have d: "deallocate x (p, m) = (?p, ?m)" by (simp add: deallocate_def)
  have "os (os_blocks m) (BlockSize p) \<noteq> None"
    using assms(6,8) unfolding d by (auto simp: carve_def allocateNewBlock_def operator_new_def split: option.splits)
  then obtain nb where nb: "os (os_blocks m) 4096 = Some nb" using B by auto
  have new: "nb \<notin> fst ` set (os_blocks m)" "heap_apart ((nb, 4096) # os_blocks m)"
    using heap_apart_new [OF ap assms(2) nb] by simp_all
  let ?c = "nb + sizeof_ptr + (SlotSize p - (nb + sizeof_ptr) mod SlotSize p) mod SlotSize p"
  have r: "a = ?c" "freeList p' = 0" "os_blocks m' = (nb, 4096) # os_blocks m" "SlotSize p' = SlotSize p" "BlockSize p' = BlockSize p"
    using assms(6,8) nb B unfolding d by (auto simp: carve_def allocateNewBlock_def operator_new_def Let_def)
  have "nb \<noteq> b" using new(1) b(1) by force
  moreover have S: "0 < SlotSize p" using pool_okD(1) [OF ok] by (simp add: sizeof_ptr_def)
  have "nb \<le> ?c" "?c < nb + 4096"
    using align_up(2) [OF S, of "nb + sizeof_ptr"] pool_okD(2) [OF ok] B by (simp_all add: sizeof_ptr_def)
  moreover have "b \<le> x" "x < b + 4096" using slot_bounds [OF b(2)] pool_okD(1) [OF ok] B by (simp_all add: sizeof_ptr_def)
  ultimately have "?c \<noteq> x" using in_block_apart [OF new(2), of nb 4096 b 4096 ?c x] b(1) by simp
  moreover have "x \<in> slots_of p' b" using b(2) r(4,5) by (simp add: slots_of_def)
  ultimately show ?thesis using r b(1) by auto
qed

section \<open>Examples\<close>

definition demo_os :: os_alloc where
  "demo_os B n = Some (16 * Suc (sum_list (map (\<lambda>(a, k). a + k) B)))"

definition demo_memory :: memory where
  "demo_memory = \<lparr>cells = (\<lambda>_. 0), os_blocks = []\<rparr>"

lemma demo_os_ok: "os_ok demo_os"
proof -
  have "b + k \<le> sum_list (map (\<lambda>(a, k). a + k) B)" if "(b, k) \<in> set B" for b k :: nat and B
    using member_le_sum_list [of "b + k" "map (\<lambda>(a, k). a + k) B"] that by force
  then show ?thesis by (fastforce simp: os_ok_def demo_os_def)
qed

lemma demo_heap_apart: "heap_apart (os_blocks demo_memory)"
  by (simp add: heap_apart_def demo_memory_def)

definition demo_pool :: "MemoryPool \<times> memory" where
  "demo_pool =
     (\<lparr>BlockSize = 4096, SlotSize = 512, firstBlock = 16, freeList = 0, curSlot = 1024, lastSlot = 3601\<rparr>,
      \<lparr>cells = (\<lambda>_. 0)(16 := 0), os_blocks = [(16, 4096)]\<rparr>)"

lemma demo_allocate:
  "allocate demo_os (init_pool 512 (new_MemoryPool 0 4096), demo_memory) = Inr (512, demo_pool)"
  by (simp add: allocate_def carve_def allocateNewBlock_def operator_new_def demo_os_def demo_memory_def init_pool_def
      new_MemoryPool_def sizeof_ptr_def Let_def demo_pool_def)

lemma demo_pool_reach: "pool_reach demo_os 512 demo_memory demo_pool {512}"
  using pool_reach.pool_allocate [OF pool_reach.pool_start demo_allocate] .

theorem pool_no_leak_witness:
  "\<exists>m'. destroy_pool demo_pool = Some (Inr m') \<and> os_blocks m' = []"
proof -
  have "pool_reach demo_os 512 demo_memory (fst demo_pool, snd demo_pool) {512}" using demo_pool_reach by simp
  from pool_no_leak [OF this demo_os_ok demo_heap_apart] show ?thesis
    by (auto simp: MAX_SLOT_SIZE_def demo_memory_def)
qed

theorem objects_never_overlap_witness:
  "\<exists>p s. useMemory demo_os 24 (initMemoryPools 0 demo_memory) = Inr (p, s) \<and> 0 < p \<and> p mod 8 = 0 \<and>
    (\<exists>s'. freeMemory p 24 s = Inr s')"
proof -
  have start: "hb_reach demo_os (initMemoryPools 0 demo_memory) {}" by (rule hb_start [OF demo_heap_apart])
  have "useMemory demo_os 24 (initMemoryPools 0 demo_memory) \<noteq> Inl BadAlloc"
    by (simp add: useMemory_def getMemoryPool_def pool_index_def MAX_SLOT_SIZE_def SLOT_BASE_SIZE_def MEMORY_POOL_NUM_def
        initMemoryPools_def allocate_def carve_def allocateNewBlock_def operator_new_def demo_os_def init_pool_def
        new_MemoryPool_def sizeof_ptr_def Let_def)
  then obtain p s where use: "useMemory demo_os 24 (initMemoryPools 0 demo_memory) = Inr (p, s)"
    using objects_never_overlap [OF start demo_os_ok] by (metis prod.collapse zero_less_numeral)
  have "hb_reach demo_os s (insert (p, 24) {})" by (rule hb_use [OF start _ use]) simp
  from objects_never_overlap [OF this demo_os_ok] show ?thesis using use by (auto simp: MAX_SLOT_SIZE_def)
qed

end
