(* ===== verification/Spec2Isabelle.thy ===== *)
theory Spec2Isabelle
  imports Http_Loop Http_Stream Http_Wellformed File_Service Main_Program Loop_Thread Reactor Test_Server Hash_Lfu Memory_Pool
begin

text \<open>
  muduoX is a reactor network library in C++ with an HTTP server on top.  A main loop accepts connections and deals
  them to the loops of a thread pool; each loop polls its descriptors, runs the callbacks of their channels and the
  functors other threads queued; a connection buffers what it reads and what it could not yet write; the HTTP layer parses
  requests out of the input buffer and answers from an application callback or from files, read through
  io\_uring; timers, a cache, a memory pool and an asynchronous logger serve all of them.  This library models the
  code of each part in the terms of the code and proves what makes the part correct.

  \<^bold>\<open>Parts and theories\<close>, from the bottom up; every theory names its source files at its head.

  \<^item> \<^verbatim>\<open>Prelude\<close>: the faults that stand for undefined behaviour, exceptions and aborts, the result type \<open>fault + 'a\<close> with
    its bind and loop, the pieces of the C++ library on byte ranges, decimal numbers, integers of 32 and 64 bits.
  \<^item> \<^verbatim>\<open>Net_Buffer\<close> (Buffer): the byte vector with its two indices; locale \<open>byte_queue\<close>, interpreted on it, gives the refinement of a queue of bytes.
  \<^item> \<^verbatim>\<open>Channel_Poller\<close> (Channel, EPollPoller): event masks as 32-bit words, the registration states, the log of \<^verbatim>\<open>epoll_ctl\<close>
    calls; what the kernel watches is what the channels want.
  \<^item> \<^verbatim>\<open>Event_Loop\<close> (EventLoop): the loop thread as a machine with a program counter, interleaved with other
    threads; functors run once and in order, no wake-up is lost but that of functors the owner queued before \<^verbatim>\<open>loop\<close>.
  \<^item> \<^verbatim>\<open>Time_Stamp\<close>, \<^verbatim>\<open>Timer_Queue\<close> (Timestamp, Timer, TimerQueue): timers in a heap, with callbacks that add and cancel timers
    while timers expire, over the readings of a clock and the results of \<^verbatim>\<open>timerfd_settime\<close>; memory safety, what runs, and when the descriptor is armed.
  \<^item> \<^verbatim>\<open>Loop_Thread\<close> (CurrentThread, Thread, EventLoopThread): the owner and the new thread as two machines over a mutex, a condition
    variable and a semaphore; \<^verbatim>\<open>startLoop\<close> returns the loop of the new thread, and when the destructor returns.
  \<^item> \<^verbatim>\<open>Reactor\<close> (EventLoop, TimerQueue, DefaultPoller as objects): construction of the members, timers from the loop thread and from others,
    destruction without faults and leaks.
  \<^item> \<^verbatim>\<open>Tcp_Connection\<close> (TcpConnection): states, sending with partial writes, closing, \<^verbatim>\<open>sendfile\<close>; the bytes
    on the wire and in the output buffer are those sent, in order.
  \<^item> \<^verbatim>\<open>Conn_Loop\<close>, \<^verbatim>\<open>Conn_Rounds\<close> (the dispatch in \<^verbatim>\<open>EventLoop::loop\<close> and \<^verbatim>\<open>Channel::handleEvent\<close>): the connections of one loop over
    their shared poller; locale \<open>message_handler\<close> is what the loop needs of the message callback, interpreted on the HTTP handler (\<^verbatim>\<open>Http_Loop\<close>) and on the echo
    service; what the kernel watches, that no event reaches a freed connection, that connections leave each other alone, that output drains.
  \<^item> \<^verbatim>\<open>Inet_Acceptor\<close>, \<^verbatim>\<open>Tcp_Server\<close> (InetAddress, Socket, Acceptor, EventLoopThreadPool, TcpServer): addresses, the acceptor, the round robin,
    and the life of connections across the queues of the loops.  \<^verbatim>\<open>Server_System\<close> puts the server above the loops with their connection objects: the
    system refines the server, and no step uses an object that does not exist (for HTTP in \<^verbatim>\<open>Http_Loop\<close>).  An object lives as long as the map or a queued functor of the
    server refers to it; references that application callbacks keep would only prolong that, and are not counted.
  \<^item> \<^verbatim>\<open>Http_Request\<close>, \<^verbatim>\<open>Http_Context\<close>, \<^verbatim>\<open>Http_Response\<close>, \<^verbatim>\<open>Http_Server\<close> (the files of \<^verbatim>\<open>http/\<close>): the incremental parser with its local
    pointers, the serialisation, the handlers; parsing inverts rendering, what the parser cannot handle, which files are read.
  \<^item> \<^verbatim>\<open>Http_Segments\<close>, \<^verbatim>\<open>Http_Wellformed\<close>: a request in pieces, with the exact condition on the cuts under which it is parsed as in one piece, and the form of every
    completed request.  \<^verbatim>\<open>Http_Stream\<close>: a stream of requests in segments that need not end where requests end, and sessions of read and write events.
  \<^item> \<^verbatim>\<open>Io_Uring\<close> (IOuring): requests for files, the table of active requests; each is answered once.  \<^verbatim>\<open>File_Service\<close> joins handler, manager and connections:
    from the request for a file to its response.
  \<^item> \<^verbatim>\<open>Lfu_Cache\<close>, \<^verbatim>\<open>Hash_Lfu\<close> (Lfu.h): doubly linked lists in a heap and the cache over them; locale \<open>cache\<close>, interpreted on
    the single and the sliced cache; both refine a specification by frequency and recency.
  \<^item> \<^verbatim>\<open>Memory_Pool\<close> (MemoryPool): slots, free list and blocks in a word memory; objects never overlap, nothing leaks.
  \<^item> \<^verbatim>\<open>Log_Stream\<close>, \<^verbatim>\<open>Log_File\<close>, \<^verbatim>\<open>Async_Logging\<close> (FixedBuffer, LogStream, Logger; FileUtil, LogFile; AsyncLogging): the text of a log
    line, rolling files, and the double-buffered logger with its thread; locale \<open>log_sink\<close> is what the thread needs of the files.
  \<^item> \<^verbatim>\<open>Main_Program\<close> (\<^verbatim>\<open>http/main.cpp\<close>, HttpServer as an object): log statements through the output hook to the files, the web root, the server that is built.
    \<^verbatim>\<open>Test_Server\<close> (\<^verbatim>\<open>examples/testserver.cpp\<close>): the echo service and the io\_uring demonstration.
  \<^item> This theory joins connection and HTTP layer: the segments of a stream of requests become the bytes of their responses.

  \<^bold>\<open>Conventions.\<close>  A class is a record with the source's fields, a method a function that returns the new state; a
  pointer is an index, an address, or an option; an object that may be freed is an entry of a heap.  Undefined behaviour,
  exceptions and aborts are values of \<open>fault\<close>, and theorems on whole steps name those that remain possible.  \<^verbatim>\<open>epoll_wait\<close> reports channels of its interest list,
  each at most once, with any events; what needs more says so (\<open>sane_event\<close>).  Answers of the kernel, of allocators, of the clock and of liburing, and what user callbacks do, are parameters
  or arguments; theorems that need something of them say so as a hypothesis.  Loops that may not end are partial functions into
  an option, where \<^const>\<open>None\<close> is never returning; that they return is proved, and no
  fuel is used anywhere.  Concurrency is interleaving: a section under a mutex is one step, and the step relations or event lists allow
  other threads between any two steps.  Bounds: 32-bit and 64-bit integers wrap or fault where the code relies on them; byte counters
  of log files are unbounded; the theorem on io\_uring allows \<open>2 ^ 32\<close> requests, as many as the keys of its table distinguish.

  \<^bold>\<open>What the lemmas show\<close>, by group: invariants kept by every operation (buffer, poller, connection, the connections of a loop, timer queue, caches, pools, server, logger);
  refinement of abstract specifications (byte queue, LFU order, the server without its objects, sequence of responses, file to response, statements to log files); equivalence of parsing in
  segments and at once; the type of completed requests; round trips (requests, responses, numbers in the log);
  totality or the exact condition for returning (parser, message loop, \<^verbatim>\<open>sendFile\<close>, appending to files); liveness (pending output, functors,
  timers, log lines, the start and the end of loop threads); and the defects found, each as a lemma about the code as it is: requests cut at other places, requests without headers, a malformed Content-Length,
  sends and timers from other threads, a hang-up with urgent data, a \<^verbatim>\<open>quit\<close> before \<^verbatim>\<open>loop\<close>, a loop that ends before it is seen, a slot given back during the allocation of a block, log lines lost
  by \<^verbatim>\<open>stop\<close> and by a fatal statement, the destructor of the logger, negative numbers in the log.

  \<^bold>\<open>Not modelled.\<close>  Callbacks, CachePolicy and Nocopyable have no behaviour.  Of the functions \<^verbatim>\<open>main\<close> the last step, the call of
  \<^verbatim>\<open>loop\<close>, is the machine of \<^verbatim>\<open>Event_Loop\<close>; \<^verbatim>\<open>bind\<close> of callbacks, getters and the texts of most log messages are left out.  One
  loop is a machine of its own in \<^verbatim>\<open>Event_Loop\<close>, \<^verbatim>\<open>Reactor\<close> and \<^verbatim>\<open>Loop_Thread\<close>, each with the part of the state
  its properties need; \<^verbatim>\<open>Conn_Loop\<close> has the rounds of a loop with its connections, and what the other channels do is in the theories of their owners.
\<close>

section \<open>From the segments of requests to the bytes of responses\<close>

lemma locate_all: "locate ms (length (concat (map render_message ms))) = (ms, [], 0)"
  by (induction ms) auto

text \<open>C1. End to end, from what TCP delivers to what the client receives: a connected, well-formed connection with empty input reads a
  stream of any number of well-formed requests, in segments of at most \<open>sizeof_extrabuf\<close> bytes that are cut anywhere in the stream except
  between the CR and LF that end a line or a header block and inside header lines, with write events of the
  socket in between; the kernel takes at least one byte of every write and refuses no \<^verbatim>\<open>epoll_ctl\<close> (\<open>willing\<close>).
  When the application callback answers every request with a keep-alive response, the session
  ends without a fault with a fresh context and empty input, and the bytes on the wire followed by the pending
  bytes have grown by exactly the serialised responses, one for each request and in their order.\<close>

theorem session_answers_requests:
  assumes "conn_inv s w" and "tc_state (conn w) = kConnected" and "willing (kern w)" and "contents (inputBuffer (conn w)) = []"
    and "\<forall>m \<in> set ms. message_ok m" and "concat (map snd (segments es)) = concat (map render_message ms)"
    and "\<forall>d \<in> snd ` set (segments es). d \<noteq> [] \<and> length d \<le> sizeof_extrabuf"
    and "\<forall>c \<in> set (cuts (map snd (segments es))). stream_cut ms c"
    and "httpCallback env = Some cb" and "\<forall>m \<in> set ms. \<forall>T \<in> fst ` set (segments es). api_answers cb T m"
  shows "\<exists>Ts w'. http_session env es (new_HttpContext, w) = Some (Inr (new_HttpContext, w')) \<and>
    length Ts = length ms \<and> set Ts \<subseteq> fst ` set (segments es) \<and> contents (inputBuffer (conn w')) = [] \<and>
    wire (trace w') @ contents (outputBuffer (conn w')) =
      s @ concat (map (\<lambda>(T, m). render_response (api_response cb T m)) (zip Ts ms))"
proof -
  let ?ds = "map snd (segments es)" and ?A = "fst ` set (segments es)"
  have T0: "ms \<noteq> [] \<longrightarrow> fst (hd (segments es)) \<in> ?A"
    using assms(6) render_message_nonempty by (cases ms; cases "segments es") auto
  have "stream_cut ms (0 + length (concat (take i ?ds)))" if "i \<in> {1..length (segments es)}" for i
  proof (cases "i = length (segments es)")
    case True
    then show ?thesis using assms(6) locate_all [of ms] by (simp add: stream_cut_def)
  next
    case False
    then have "length (concat (take i ?ds)) \<in> set (cuts ?ds)" using that by (simp add: cuts_def)
    then show ?thesis using assms(8) by simp
  qed
  then have cut: "\<forall>i \<in> {1..length (segments es)}. stream_cut ms (0 + length (concat (take i ?ds)))" by blast
  have st: "stream_at (fst (hd (segments es))) ms 0 new_HttpContext (inputBuffer (conn w))"
    using stream_at_fresh [OF conn_invD(1) [OF assms(1)] assms(4)] .
  have "drop 0 (concat (map render_message ms)) = concat ?ds" using assms(6) by simp
  from http_session_stream [OF assms(1-3,9,5,10) T0 subset_refl st assms(7) this cut]
  obtain Ts w' where "http_session env es (new_HttpContext, w) = Some (Inr (new_HttpContext, w'))"
      "length Ts = length ms" "set Ts \<subseteq> ?A" "contents (inputBuffer (conn w')) = []" "conn_inv (s @ api_bytes cb Ts ms) w'"
    by blast
  then show ?thesis using conn_invD(3) [of "s @ api_bytes cb Ts ms" w'] by (auto simp: pending_def api_bytes_def)
qed

lemma sample_answers: "api_answers onHttpRequest T (demo_get ''/api/version'')" "api_answers onHttpRequest T (demo_get ''/api/hello'')"
proof -
  have "api_response onHttpRequest T (demo_get ''/api/version'') =
      \<lparr>respHeaders = [(''Content-Type'', ''text/plain'')], statusCode = 200, statusMessage = ''OK'', closeConnection = False,
       respBody = ''muduoX v1.0.0 with io_uring''\<rparr>"
    by code_simp
  then show "api_answers onHttpRequest T (demo_get ''/api/version'')"
    by (simp add: api_answers_def kUnknownStatus_def response_fits_def)
  have "respHeaders (api_response onHttpRequest T (demo_get ''/api/hello'')) = [(''Content-Type'', ''application/json'')]"
    "statusCode (api_response onHttpRequest T (demo_get ''/api/hello'')) = 200"
    "closeConnection (api_response onHttpRequest T (demo_get ''/api/hello'')) = False"
    "length (respBody (api_response onHttpRequest T (demo_get ''/api/hello''))) = 62"
    by code_simp+
  then show "api_answers onHttpRequest T (demo_get ''/api/hello'')"
    by (simp add: api_answers_def kUnknownStatus_def response_fits_def)
qed

text \<open>Two requests in three segments, none of which ends where a request ends, with a write event in between.\<close>

definition sample_stream :: string where
  "sample_stream = render_message (demo_get ''/api/version'') @ render_message (demo_get ''/api/hello'')"

definition sample_session :: "http_event list" where
  "sample_session =
     [Receive 3 (take 10 sample_stream), Receive 4 (take 40 (drop 10 sample_stream)), Writable, Receive 5 (drop 50 sample_stream)]"

theorem session_answers_requests_witness:
  "\<exists>w Ts w'. http_session plain_env sample_session (new_HttpContext, w) = Some (Inr (new_HttpContext, w')) \<and>
    length Ts = 2 \<and> set Ts \<subseteq> {3, 4, 5} \<and>
    wire (trace w') @ contents (outputBuffer (conn w')) = ''hello'' @ concat (map (\<lambda>(T, m).
      render_response (api_response onHttpRequest T m)) (zip Ts [demo_get ''/api/version'', demo_get ''/api/hello'']))"
proof -
  obtain w0 w1 where w1: "new_TcpConnection 5 (new_EPollPoller int) demo_kernel = Inr w0" "conn_run w0 ''hello'' w1"
      "kern w1 = demo_kernel" "tc_state (conn w1) = kConnected"
    using demo_connection by blast
  let ?w = "set_conn (\<lambda>t. t\<lparr>inputBuffer := new_Buffer kInitialSize\<rparr>) w1"
  let ?ms = "[demo_get ''/api/version'', demo_get ''/api/hello'']"
  have inv: "conn_inv ''hello'' ?w"
    using conn_run_inv [OF w1(2) new_TcpConnection_inv(1) [OF w1(1) demo_events]] by (intro conn_inv_input) (simp_all add: new_Buffer_inv)
  have st: "tc_state (conn ?w) = kConnected" "willing (kern ?w)" "contents (inputBuffer (conn ?w)) = []"
    using w1(3,4) demo_willing by (simp_all add: contents_new_Buffer)
  have segs: "segments sample_session =
      [(3, take 10 sample_stream), (4, take 40 (drop 10 sample_stream)), (5, drop 50 sample_stream)]"
    by (simp add: sample_session_def)
  have whole: "take 10 xs @ take 40 (drop 10 xs) @ drop 50 xs = xs" for xs :: string
  proof -
    have "drop 50 xs = drop 40 (drop 10 xs)" by simp
    then show ?thesis by (simp only: append_take_drop_id)
  qed
  have len: "length sample_stream = 74" by code_simp
  then have "take 10 sample_stream \<noteq> []" "take 40 (drop 10 sample_stream) \<noteq> []" "drop 50 sample_stream \<noteq> []" by auto
  then have ds: "\<forall>d \<in> snd ` set (segments sample_session). d \<noteq> [] \<and> length d \<le> sizeof_extrabuf"
    using len by (simp add: segs sizeof_extrabuf_def)
  have cut: "stream_cut ?ms 10" "stream_cut ?ms 50" by code_simp+
  have cuts: "cuts (map snd (segments sample_session)) = [10, 50]" using len by (simp add: segs cuts_Cons2)
  have "\<exists>Ts w'. http_session plain_env sample_session (new_HttpContext, ?w) = Some (Inr (new_HttpContext, w')) \<and>
    length Ts = length ?ms \<and> set Ts \<subseteq> fst ` set (segments sample_session) \<and> contents (inputBuffer (conn w')) = [] \<and>
    wire (trace w') @ contents (outputBuffer (conn w')) = ''hello'' @ concat (map (\<lambda>(T, m).
      render_response (api_response onHttpRequest T m)) (zip Ts ?ms))"
  proof (rule session_answers_requests [OF inv st])
    show "\<forall>m \<in> set ?ms. message_ok m" by (simp add: demo_get_ok target_ok_def)
    show "concat (map snd (segments sample_session)) = concat (map render_message ?ms)"
      using whole [of sample_stream] by (simp add: segs) (simp add: sample_stream_def)
    show "\<forall>c \<in> set (cuts (map snd (segments sample_session))). stream_cut ?ms c" using cut by (simp only: cuts) simp
    show "\<forall>m \<in> set ?ms. \<forall>T \<in> fst ` set (segments sample_session). api_answers onHttpRequest T m"
      using sample_answers by auto
  qed (rule ds, simp add: plain_env_def)
  then obtain Ts w' where r: "http_session plain_env sample_session (new_HttpContext, ?w) = Some (Inr (new_HttpContext, w'))"
    "length Ts = length ?ms" "set Ts \<subseteq> fst ` set (segments sample_session)"
    "wire (trace w') @ contents (outputBuffer (conn w')) = ''hello'' @ concat (map (\<lambda>(T, m).
      render_response (api_response onHttpRequest T m)) (zip Ts ?ms))" by blast
  from r(2) have "length Ts = 2" by simp
  moreover from r(3) have "set Ts \<subseteq> {3, 4, 5}" by (simp add: segs)
  ultimately show ?thesis using r(1,4) by blast
qed

end
